(* ===== verification/Prelude.thy ===== *)
theory Prelude
  imports Main "HOL-Library.Word" "HOL-Library.List_Lexorder" "HOL-Library.Product_Lexorder"
begin

text \<open>
  Shared vocabulary of the development: machine-integer types, the byte-level conversions of the
  Rust standard library that the sources use (\<open>to_be_bytes\<close>, \<open>from_be_bytes\<close>, \<open>to_le_bytes\<close>,
  slices), results as sums, and the generic lemmas the component theories rest on.
\<close>

unbundle bit_operations_syntax

subsection \<open>Machine integers and byte strings\<close>

type_synonym u8 = "8 word"
type_synonym u16 = "16 word"
type_synonym u32 = "32 word"
type_synonym u64 = "64 word"
type_synonym u128 = "128 word"
type_synonym bytes = "u8 list"

lemma of_nat_word_inj:
  "of_nat m = (of_nat n :: 'a::len word) \<Longrightarrow> m < 2 ^ LENGTH('a) \<Longrightarrow> n < 2 ^ LENGTH('a) \<Longrightarrow> m = n"
  by (metis of_nat_inverse)

lemma unat_of_nat_u64: "n < 2 ^ 64 \<Longrightarrow> unat (of_nat n :: u64) = n"
  by (simp add: unat_of_nat)

lemma unat_ucast_up:
  assumes "LENGTH('a::len) \<le> LENGTH('b::len)"
  shows "unat (ucast (x :: 'a word) :: 'b word) = unat x"
proof -
  have "unat x < 2 ^ LENGTH('b)"
    by (rule less_le_trans [OF unsigned_less]) (simp add: assms power_increasing)
  then show ?thesis by (simp add: unsigned_ucast_eq take_bit_nat_eq_self)
qed

lemma ucast_up_down:
  assumes "LENGTH('a::len) \<le> LENGTH('b::len)"
  shows "ucast (ucast (x :: 'a word) :: 'b word) = x"
proof (rule bit_eqI)
  show "bit (ucast (ucast x :: 'b word) :: 'a word) n \<longleftrightarrow> bit x n" for n
    using assms by (auto simp: bit_simps dest: bit_imp_le_length)
qed

lemma ucast_down_up:
  assumes "unat (v :: 'b::len word) < 2 ^ LENGTH('a::len)" "LENGTH('a) \<le> LENGTH('b)"
  shows "ucast (ucast v :: 'a word) = v"
proof (rule unsigned_word_eqI [where ?'a = nat])
  show "unat (ucast (ucast v :: 'a word) :: 'b word) = unat v"
    using assms by (simp add: unat_ucast_up) (simp add: unsigned_ucast_eq take_bit_nat_eq_self)
qed

text \<open>
  A Rust \<open>Result<T, E>\<close> is \<open>'e + 't\<close>, with \<open>Inl\<close> the error. \<open>bind_res\<close> is the \<open>?\<close> operator.
\<close>

definition bind_res :: "'e + 'a \<Rightarrow> ('a \<Rightarrow> 'e + 'b) \<Rightarrow> 'e + 'b" where
  "bind_res r f = (case r of Inl e \<Rightarrow> Inl e | Inr x \<Rightarrow> f x)"

definition map_err :: "('e \<Rightarrow> 'f) \<Rightarrow> 'e + 'a \<Rightarrow> 'f + 'a" where
  "map_err g r = (case r of Inl e \<Rightarrow> Inl (g e) | Inr x \<Rightarrow> Inr x)"

definition is_ok :: "'e + 'a \<Rightarrow> bool" where
  "is_ok r = (case r of Inl _ \<Rightarrow> False | Inr _ \<Rightarrow> True)"

lemma bind_res_simps [simp]:
  "bind_res (Inl e) f = Inl e"
  "bind_res (Inr x) f = f x"
  by (simp_all add: bind_res_def)

lemma bind_res_Inr_iff: "bind_res r f = Inr y \<longleftrightarrow> (\<exists>x. r = Inr x \<and> f x = Inr y)"
  by (cases r) auto

lemma map_err_simps [simp]:
  "map_err g (Inl e) = Inl (g e)"
  "map_err g (Inr x) = Inr x"
  "map_err g r = Inr x \<longleftrightarrow> r = Inr x"
  by (cases r; simp add: map_err_def)+

lemma is_ok_simps [simp]: "is_ok (Inl e) = False" "is_ok (Inr x) = True"
  by (simp_all add: is_ok_def)

text \<open>An ASCII literal as the bytes Rust's \<open>b"..."\<close> and \<open>as_bytes\<close> give.\<close>

definition ascii :: "string \<Rightarrow> bytes" where
  "ascii s = map (\<lambda>c. of_nat (of_char c)) s"

lemma ascii_inj [simp]: "ascii s = ascii t \<longleftrightarrow> s = t"
proof -
  have "inj (\<lambda>c::char. of_nat (of_char c) :: u8)"
  proof (rule injI)
    fix c d :: char
    assume "(of_nat (of_char c) :: u8) = of_nat (of_char d)"
    then have "unat (of_nat (of_char c) :: u8) = unat (of_nat (of_char d) :: u8)" by simp
    then have "(of_char c :: nat) mod 256 = of_char d mod 256" by (simp add: unat_of_nat)
    then show "c = d" by simp
  qed
  then show ?thesis by (simp add: ascii_def inj_map_eq_map)
qed

lemma length_ascii [simp]: "length (ascii s) = length s"
  by (simp add: ascii_def)

declare option.pred_True [simp] list.pred_True [simp]

subsection \<open>Fixed-width big-endian and little-endian encodings\<close>

primrec nat_be :: "nat \<Rightarrow> nat \<Rightarrow> bytes" where
  "nat_be 0 v = []"
| "nat_be (Suc n) v = nat_be n (v div 256) @ [of_nat v]"

definition be_nat :: "bytes \<Rightarrow> nat" where
  "be_nat bs = foldl (\<lambda>a b. a * 256 + unat b) 0 bs"

definition to_be_bytes :: "'a::len word \<Rightarrow> bytes" where
  "to_be_bytes w = nat_be (LENGTH('a) div 8) (unat w)"

definition from_be_bytes :: "bytes \<Rightarrow> 'a::len word" where
  "from_be_bytes bs = of_nat (be_nat bs)"

definition to_le_bytes :: "'a::len word \<Rightarrow> bytes" where
  "to_le_bytes w = rev (to_be_bytes w)"

definition from_le_bytes :: "bytes \<Rightarrow> 'a::len word" where
  "from_le_bytes bs = from_be_bytes (rev bs)"

lemma be_nat_Nil [simp]: "be_nat [] = 0"
  and be_nat_snoc [simp]: "be_nat (bs @ [b]) = be_nat bs * 256 + unat b"
  by (simp_all add: be_nat_def)

lemma unat_u8_less [simp]: "unat (b::u8) < 256"
  using unsigned_less [of b, where ?'a = nat] by simp

lemma unat_of_nat_u8: "unat (of_nat v :: u8) = v mod 256"
  by (simp add: unat_of_nat)

lemma length_nat_be [simp]: "length (nat_be n v) = n"
  by (induction n arbitrary: v) auto

lemma be_nat_less: "be_nat bs < 256 ^ length bs"
proof (induction bs rule: rev_induct)
  case (snoc b bs)
  then have "Suc (be_nat bs) * 256 \<le> 256 ^ length bs * 256"
    by (intro mult_le_mono1) simp
  moreover have "unat b < 256" by simp
  ultimately have "be_nat bs * 256 + unat b < 256 ^ length bs * 256"
    unfolding mult_Suc by linarith
  then show ?case by (simp add: mult.commute)
qed simp

lemma be_nat_nat_be: "be_nat (nat_be n v) = v mod 256 ^ n"
proof (induction n arbitrary: v)
  case (Suc n)
  have "v div 256 mod 256 ^ n * 256 + v mod 256 = v mod (256 * 256 ^ n)"
    by (metis mod_mult2_eq mult.commute)
  with Suc show ?case by (simp add: unat_of_nat_u8)
qed simp

lemma nat_be_be_nat: "nat_be (length bs) (be_nat bs) = bs"
proof (induction bs rule: rev_induct)
  case (snoc b bs)
  have "(be_nat bs * 256 + unat b) div 256 = be_nat bs"
    using unat_u8_less [of b] by (simp add: div_mult_self3)
  moreover have "(of_nat (be_nat bs * 256 + unat b) :: u8) = b"
  proof (rule unsigned_word_eqI [where ?'a = nat])
    show "unat (of_nat (be_nat bs * 256 + unat b) :: u8) = unat b"
      by (simp only: unat_of_nat_u8) simp
  qed
  ultimately show ?case using snoc by simp
qed simp

lemma length_to_be_bytes [simp]: "length (to_be_bytes (w :: 'a::len word)) = LENGTH('a) div 8"
  by (simp add: to_be_bytes_def)

lemma length_to_le_bytes [simp]: "length (to_le_bytes (w :: 'a::len word)) = LENGTH('a) div 8"
  by (simp add: to_le_bytes_def)

lemma pow_256: "8 dvd n \<Longrightarrow> (256::nat) ^ (n div 8) = 2 ^ n"
proof -
  assume "8 dvd n"
  then obtain k where n: "n = 8 * k" ..
  have "(2::nat) ^ (8 * k) = (2 ^ 8) ^ k" by (rule power_mult)
  then show ?thesis by (simp add: n)
qed

text \<open>A word whose width is a whole number of bytes survives the trip through its bytes.\<close>

lemma from_to_be_bytes [simp]:
  assumes "8 dvd LENGTH('a::len)"
  shows "from_be_bytes (to_be_bytes (w :: 'a word)) = w"
proof -
  have "unat w < 2 ^ LENGTH('a)" by simp
  then show ?thesis
    by (simp add: from_be_bytes_def to_be_bytes_def be_nat_nat_be pow_256 [OF assms])
qed

lemma to_from_be_bytes:
  assumes "8 dvd LENGTH('a::len)" and "length bs = LENGTH('a) div 8"
  shows "to_be_bytes (from_be_bytes bs :: 'a word) = bs"
proof -
  have "be_nat bs < 2 ^ LENGTH('a)"
    using be_nat_less [of bs] assms by (simp add: pow_256)
  then have "unat (of_nat (be_nat bs) :: 'a word) = be_nat bs"
    by (simp add: unat_of_nat)
  then show ?thesis
    using nat_be_be_nat [of bs] assms(2) by (simp add: from_be_bytes_def to_be_bytes_def)
qed

lemma to_be_bytes_inj:
  assumes "8 dvd LENGTH('a::len)"
  shows "to_be_bytes (v :: 'a word) = to_be_bytes w \<longleftrightarrow> v = w"
  by (metis assms from_to_be_bytes)

lemma from_to_le_bytes [simp]:
  "8 dvd LENGTH('a::len) \<Longrightarrow> from_le_bytes (to_le_bytes (w :: 'a word)) = w"
  by (simp add: from_le_bytes_def to_le_bytes_def)

lemma to_from_le_bytes:
  "8 dvd LENGTH('a::len) \<Longrightarrow> length bs = LENGTH('a) div 8 \<Longrightarrow>
   to_le_bytes (from_le_bytes bs :: 'a word) = bs"
  by (simp add: from_le_bytes_def to_le_bytes_def to_from_be_bytes)

text \<open>
  Big-endian byte order is value order: on byte strings of one length the lexicographic order
  (Rust's slice comparison) is the order of the numbers they encode.
\<close>

lemma be_nat_Cons: "be_nat (b # bs) = unat b * 256 ^ length bs + be_nat bs"
  by (induction bs rule: rev_induct)
     (simp_all add: be_nat_def algebra_simps)

lemma less_iff_be_nat_less:
  "length xs = length ys \<Longrightarrow> xs < ys \<longleftrightarrow> be_nat xs < be_nat ys"
proof (induction xs ys rule: list_induct2)
  case (Cons x xs y ys)
  let ?n = "256 ^ length ys :: nat"
  have xs: "be_nat xs < ?n" and ys: "be_nat ys < ?n"
    using be_nat_less [of xs] be_nat_less [of ys] Cons.hyps by simp_all
  consider "unat x < unat y" | "x = y" | "unat y < unat x"
    by (metis linorder_less_linear unsigned_word_eqI)
  then show ?case
  proof cases
    case 1
    then have "Suc (unat x) * ?n \<le> unat y * ?n" by (intro mult_le_mono1) simp
    with 1 xs Cons.hyps show ?thesis by (simp add: be_nat_Cons word_less_nat_alt)
  next
    case 2
    with Cons show ?thesis by (simp add: be_nat_Cons)
  next
    case 3
    then have "Suc (unat y) * ?n \<le> unat x * ?n" by (intro mult_le_mono1) simp
    with 3 ys Cons.hyps show ?thesis by (auto simp: be_nat_Cons word_less_nat_alt)
  qed
qed simp

lemma to_be_bytes_less_iff:
  assumes "8 dvd LENGTH('a::len)"
  shows "to_be_bytes (v :: 'a word) < to_be_bytes w \<longleftrightarrow> v < w"
proof -
  have "be_nat (to_be_bytes u) = unat u" for u :: "'a word"
    using unsigned_less [of u, where ?'a = nat]
    by (simp add: to_be_bytes_def be_nat_nat_be pow_256 [OF assms])
  then show ?thesis by (simp add: less_iff_be_nat_less word_less_nat_alt)
qed

lemma to_be_bytes_le_iff:
  "8 dvd LENGTH('a::len) \<Longrightarrow> to_be_bytes (v :: 'a word) \<le> to_be_bytes w \<longleftrightarrow> v \<le> w"
  by (metis linorder_not_less to_be_bytes_less_iff)

end
