(* ===== verification/Sha384.thy ===== *)
theory Sha384
  imports Prelude "HOL-Library.While_Combinator"
begin

text \<open>
  The digest everything in the store is hashed with: \<open>crates/trailryx-crypto/src/sha384.rs\<close> (the
  streaming hasher), the \<open>Hash\<close> value of \<open>crates/trailryx-record/src/hash.rs\<close> and the
  constant-time comparison of \<open>crates/trailryx-crypto/src/lib.rs\<close>.

  The hasher keeps the source's four fields. Its \<open>buf\<close> array is a list of 128 bytes of which the
  first \<open>buf_len\<close> are live. The results: the streaming hasher computes the one-shot
  FIPS 180-4 digest of the concatenation of everything fed to it, however it was cut into pieces,
  and comparing digests in constant time decides equality.
\<close>

subsection \<open>Hash values\<close>

text \<open>
  \<open>Hash([u8; 48])\<close>. The forty-eight bytes are the big-endian digits of one 384-bit word, so the
  derived lexicographic order of the array is the order of the word.
\<close>

type_synonym hash = "384 word"

definition Hash_ZERO :: hash where
  "Hash_ZERO = 0"

definition as_bytes :: "hash \<Rightarrow> bytes" where
  "as_bytes h = to_be_bytes h"

definition Hash_of_bytes :: "bytes \<Rightarrow> hash" where
  "Hash_of_bytes bs = from_be_bytes bs"

definition is_zero :: "hash \<Rightarrow> bool" where
  "is_zero h = list_all (\<lambda>b. b = 0) (as_bytes h)"

lemma length_as_bytes [simp]: "length (as_bytes h) = 48"
  by (simp add: as_bytes_def)

lemma Hash_of_as_bytes [simp]: "Hash_of_bytes (as_bytes h) = h"
  by (simp add: Hash_of_bytes_def as_bytes_def)

lemma as_bytes_Hash_of_bytes: "length bs = 48 \<Longrightarrow> as_bytes (Hash_of_bytes bs) = bs"
  by (simp add: Hash_of_bytes_def as_bytes_def to_from_be_bytes)

lemma as_bytes_inj [simp]: "as_bytes a = as_bytes b \<longleftrightarrow> a = b"
  by (metis Hash_of_as_bytes)

lemma as_bytes_append_inj [simp]:
  "as_bytes a @ xs = as_bytes b @ ys \<longleftrightarrow> a = b \<and> xs = ys"
  by (simp add: append_eq_append_conv)

text \<open>Comparison without a data-dependent exit.\<close>

definition digests_equal :: "hash \<Rightarrow> hash \<Rightarrow> bool" where
  "digests_equal a b =
     (foldl (\<lambda>diff (x, y). diff OR (x XOR y)) 0 (zip (as_bytes a) (as_bytes b)) = 0)"

lemma or_fold_zero:
  "foldl (\<lambda>d (x, y). d OR (x XOR y)) (d :: u8) (zip xs ys) = 0 \<longleftrightarrow>
     d = 0 \<and> (\<forall>(x, y) \<in> set (zip xs ys). x = y)"
proof (induction xs arbitrary: d ys)
  case (Cons x xs)
  show ?case
  proof (cases ys)
    case (Cons y ys')
    have "x = y" if "x XOR y = 0"
    proof -
      have "x = (x XOR y) XOR y" by (simp add: xor.assoc)
      with that show ?thesis by simp
    qed
    then have "x XOR y = 0 \<longleftrightarrow> x = y" by auto
    then have "d OR (x XOR y) = 0 \<longleftrightarrow> d = 0 \<and> x = y"
      by (simp add: or_eq_0_iff)
    with Cons Cons.IH [of "d OR (x XOR y)" ys'] show ?thesis by auto
  qed simp
qed simp

lemma digests_equal_iff [simp]: "digests_equal a b \<longleftrightarrow> a = b"
proof
  assume "digests_equal a b"
  then have "\<forall>(x, y) \<in> set (zip (as_bytes a) (as_bytes b)). x = y"
    by (simp add: digests_equal_def or_fold_zero)
  then have "list_all2 (=) (as_bytes a) (as_bytes b)"
    by (auto simp: list_all2_iff)
  then show "a = b" by (simp add: list.rel_eq)
next
  assume "a = b"
  then show "digests_equal a b"
    by (auto simp: digests_equal_def or_fold_zero zip_same)
qed

subsection \<open>The compression function\<close>

text \<open>The constants are the source's, written in decimal.\<close>

definition IV :: "u64 list" where
  "IV = [
     14680500436340154072, 7105036623409894663, 10473403895298186519, 1526699215303891257,
     7436329637833083697, 10282925794625328401, 15784041429090275239, 5167115440072839076]"

definition K :: "u64 list" where
  "K = [
     4794697086780616226, 8158064640168781261, 13096744586834688815, 16840607885511220156,
     4131703408338449720, 6480981068601479193, 10538285296894168987, 12329834152419229976,
     15566598209576043074, 1334009975649890238, 2608012711638119052, 6128411473006802146,
     8268148722764581231, 9286055187155687089, 11230858885718282805, 13951009754708518548,
     16472876342353939154, 17275323862435702243, 1135362057144423861, 2597628984639134821,
     3308224258029322869, 5365058923640841347, 6679025012923562964, 8573033837759648693,
     10970295158949994411, 12119686244451234320, 12683024718118986047, 13788192230050041572,
     14330467153632333762, 15395433587784984357, 489312712824947311, 1452737877330783856,
     2861767655752347644, 3322285676063803686, 5560940570517711597, 5996557281743188959,
     7280758554555802590, 8532644243296465576, 9350256976987008742, 10552545826968843579,
     11727347734174303076, 12113106623233404929, 14000437183269869457, 14369950271660146224,
     15101387698204529176, 15463397548674623760, 17586052441742319658, 1182934255886127544,
     1847814050463011016, 2177327727835720531, 2830643537854262169, 3796741975233480872,
     4115178125766777443, 5681478168544905931, 6601373596472566643, 7507060721942968483,
     8399075790359081724, 8693463985226723168, 9568029438360202098, 10144078919501101548,
     10430055236837252648, 11840083180663258601, 13761210420658862357, 14299343276471374635,
     14566680578165727644, 15097957966210449927, 16922976911328602910, 17689382322260857208,
     500013540394364858, 748580250866718886, 1242879168328830382, 1977374033974150939,
     2944078676154940804, 3659926193048069267, 4368137639120453308, 4836135668995329356,
     5532061633213252278, 6448918945643986474, 6902733635092675308, 7801388544844847127]"

definition BLOCK :: nat where
  "BLOCK = 128"

text \<open>The message schedule: sixteen words of the block, then sixty-four derived ones.\<close>

definition block_words :: "bytes \<Rightarrow> u64 list" where
  "block_words block = map (\<lambda>i. from_be_bytes (take 8 (drop (i * 8) block))) [0..<16]"

definition schedule_word :: "u64 list \<Rightarrow> nat \<Rightarrow> u64" where
  "schedule_word w i =
     (let x = w ! (i - 15);
          s0 = word_rotr 1 x XOR word_rotr 8 x XOR drop_bit 7 x;
          y = w ! (i - 2);
          s1 = word_rotr 19 y XOR word_rotr 61 y XOR drop_bit 6 y
      in w ! (i - 16) + s0 + w ! (i - 7) + s1)"

fun extend_schedule :: "nat \<Rightarrow> u64 list \<Rightarrow> u64 list" where
  "extend_schedule 0 w = w"
| "extend_schedule (Suc n) w = extend_schedule n (w @ [schedule_word w (length w)])"

fun sha_round :: "u64 \<times> u64 \<times> u64 \<times> u64 \<times> u64 \<times> u64 \<times> u64 \<times> u64 \<Rightarrow> u64 \<times> u64
    \<Rightarrow> u64 \<times> u64 \<times> u64 \<times> u64 \<times> u64 \<times> u64 \<times> u64 \<times> u64" where
  "sha_round (a, b, c, d, e, f, g, hh) (k, w) =
     (let s1 = word_rotr 14 e XOR word_rotr 18 e XOR word_rotr 41 e;
          ch = (e AND f) XOR ((NOT e) AND g);
          t1 = hh + s1 + ch + k + w;
          s0 = word_rotr 28 a XOR word_rotr 34 a XOR word_rotr 39 a;
          maj = (a AND b) XOR (a AND c) XOR (b AND c);
          t2 = s0 + maj
      in (t1 + t2, a, b, c, d + t1, e, f, g))"

definition compress :: "u64 list \<Rightarrow> bytes \<Rightarrow> u64 list" where
  "compress h block =
     (let w = extend_schedule 64 (block_words block);
          (a, b, c, d, e, f, g, hh) =
            foldl sha_round (h ! 0, h ! 1, h ! 2, h ! 3, h ! 4, h ! 5, h ! 6, h ! 7) (zip K w)
      in [h ! 0 + a, h ! 1 + b, h ! 2 + c, h ! 3 + d, h ! 4 + e, h ! 5 + f, h ! 6 + g, h ! 7 + hh])"

subsection \<open>The streaming hasher\<close>

record Sha384 =
  sha_h :: "u64 list"
  sha_buf :: bytes
  sha_buf_len :: nat
  sha_total_bytes :: u128

definition Sha384_new :: Sha384 where
  "Sha384_new = \<lparr>sha_h = IV, sha_buf = replicate BLOCK 0, sha_buf_len = 0, sha_total_bytes = 0\<rparr>"

text \<open>\<open>buf[at..at + data.len()].copy_from_slice(data)\<close>\<close>

definition copy_at :: "bytes \<Rightarrow> nat \<Rightarrow> bytes \<Rightarrow> bytes" where
  "copy_at buf at data = take at buf @ data @ drop (at + length data) buf"

definition compress_into :: "Sha384 \<Rightarrow> bytes \<Rightarrow> Sha384" where
  "compress_into s block = s\<lparr>sha_h := compress (sha_h s) block\<rparr>"

text \<open>The part of \<open>update\<close> that tops up a partly filled buffer.\<close>

definition fill_buffer :: "Sha384 \<Rightarrow> bytes \<Rightarrow> Sha384 \<times> bytes" where
  "fill_buffer s data =
     (if 0 < sha_buf_len s then
        let need = BLOCK - sha_buf_len s;
            n = min need (length data);
            s = s\<lparr>sha_buf := copy_at (sha_buf s) (sha_buf_len s) (take n data),
                  sha_buf_len := sha_buf_len s + n\<rparr>;
            data = drop n data
        in if sha_buf_len s = BLOCK
           then ((compress_into s (sha_buf s))\<lparr>sha_buf_len := 0\<rparr>, data)
           else (s, data)
      else (s, data))"

function absorb_blocks :: "Sha384 \<Rightarrow> bytes \<Rightarrow> Sha384 \<times> bytes" where
  "absorb_blocks s data =
     (if BLOCK \<le> length data
      then absorb_blocks (compress_into s (take BLOCK data)) (drop BLOCK data)
      else (s, data))"
  by pat_completeness auto
termination
  by (relation "measure (\<lambda>(s, data). length data)") (auto simp: BLOCK_def)

declare absorb_blocks.simps [simp del]

definition Sha384_update :: "Sha384 \<Rightarrow> bytes \<Rightarrow> Sha384" where
  "Sha384_update s data =
     (let s = s\<lparr>sha_total_bytes := sha_total_bytes s + of_nat (length data)\<rparr>;
          (s, data) = fill_buffer s data;
          (s, data) = absorb_blocks s data
      in if data \<noteq> []
         then s\<lparr>sha_buf := copy_at (sha_buf s) 0 data, sha_buf_len := length data\<rparr>
         else s)"

text \<open>One byte of padding: hashed, but not counted as message.\<close>

definition pad_byte :: "Sha384 \<Rightarrow> u8 \<Rightarrow> Sha384" where
  "pad_byte s b =
     (let s = Sha384_update s [b] in s\<lparr>sha_total_bytes := sha_total_bytes s - 1\<rparr>)"

definition pad_zeros :: "Sha384 \<Rightarrow> Sha384" where
  "pad_zeros s = while (\<lambda>s. sha_buf_len s \<noteq> BLOCK - 16) (\<lambda>s. pad_byte s 0) s"

definition output_words :: "u64 list \<Rightarrow> hash" where
  "output_words h = Hash_of_bytes (concat (map to_be_bytes (take 6 h)))"

definition Sha384_finish :: "Sha384 \<Rightarrow> hash" where
  "Sha384_finish s =
     (let bit_len = sha_total_bytes s * 8;
          s = pad_zeros (pad_byte s 0x80);
          s = Sha384_update s (to_be_bytes bit_len)
      in output_words (sha_h s))"

definition Sha384_digest :: "bytes \<Rightarrow> hash" where
  "Sha384_digest data = Sha384_finish (Sha384_update Sha384_new data)"

subsection \<open>The reference: one pass over the padded message\<close>

function run_blocks :: "u64 list \<Rightarrow> bytes \<Rightarrow> u64 list \<times> bytes" where
  "run_blocks h bs =
     (if BLOCK \<le> length bs then run_blocks (compress h (take BLOCK bs)) (drop BLOCK bs)
      else (h, bs))"
  by pat_completeness auto
termination
  by (relation "measure (\<lambda>(h, bs). length bs)") (auto simp: BLOCK_def)

declare run_blocks.simps [simp del]

text \<open>Zero bytes between the \<open>0x80\<close> marker and the sixteen length bytes, for \<open>n\<close> bytes so far.\<close>

definition zero_gap :: "nat \<Rightarrow> nat" where
  "zero_gap n = (let r = n mod BLOCK in if r \<le> 112 then 112 - r else BLOCK + 112 - r)"

definition sha384_pad :: "bytes \<Rightarrow> bytes" where
  "sha384_pad bs =
     bs @ [0x80] @ replicate (zero_gap (length bs + 1)) 0
       @ to_be_bytes (of_nat (length bs) * 8 :: u128)"

definition sha384_reference :: "bytes \<Rightarrow> hash" where
  "sha384_reference bs = output_words (fst (run_blocks IV (sha384_pad bs)))"

lemma run_blocks_append:
  "run_blocks h (a @ b) = (case run_blocks h a of (h', t) \<Rightarrow> run_blocks h' (t @ b))"
proof (induction h a rule: run_blocks.induct)
  case (1 h a)
  then show ?case
    by (cases "BLOCK \<le> length a") (simp_all add: run_blocks.simps [of h])
qed

lemma run_blocks_short: "length bs < BLOCK \<Longrightarrow> run_blocks h bs = (h, bs)"
  by (simp add: run_blocks.simps)

lemma run_blocks_block:
  "length blk = BLOCK \<Longrightarrow> run_blocks h (blk @ bs) = run_blocks (compress h blk) bs"
  by (simp add: run_blocks.simps [of h "blk @ bs"])

lemma run_blocks_tail: "run_blocks h bs = (h', t) \<Longrightarrow> length t = length bs mod BLOCK"
proof (induction h bs rule: run_blocks.induct)
  case (1 h bs)
  show ?case
  proof (cases "BLOCK \<le> length bs")
    case True
    with 1 have "length t = (length bs - BLOCK) mod BLOCK"
      by (simp add: run_blocks.simps [of h bs])
    with True show ?thesis by (simp add: le_mod_geq)
  next
    case False
    with "1.prems" show ?thesis by (auto simp: run_blocks_short)
  qed
qed

subsection \<open>The streaming state represents the bytes fed so far\<close>

definition absorbed :: "Sha384 \<Rightarrow> bytes \<Rightarrow> bool" where
  "absorbed s bs \<longleftrightarrow>
     length (sha_buf s) = BLOCK \<and> sha_buf_len s < BLOCK \<and>
     run_blocks IV bs = (sha_h s, take (sha_buf_len s) (sha_buf s))"

lemma absorbed_new: "absorbed Sha384_new []"
  by (simp add: absorbed_def Sha384_new_def run_blocks_short BLOCK_def)

lemma absorbed_buf_len: "absorbed s bs \<Longrightarrow> sha_buf_len s = length bs mod BLOCK"
  by (auto simp: absorbed_def dest!: run_blocks_tail)

lemma absorb_blocks_run:
  "absorb_blocks s data = (s', t) \<Longrightarrow>
     run_blocks (sha_h s) data = (sha_h s', t) \<and> length t < BLOCK \<and>
     sha_buf s' = sha_buf s \<and> sha_buf_len s' = sha_buf_len s \<and>
     sha_total_bytes s' = sha_total_bytes s"
proof (induction s data rule: absorb_blocks.induct)
  case (1 s data)
  show ?case
  proof (cases "BLOCK \<le> length data")
    case True
    with 1 show ?thesis
      by (simp add: absorb_blocks.simps [of s data] run_blocks.simps [of "sha_h s" data]
          compress_into_def)
  next
    case False
    with "1.prems" show ?thesis
      by (auto simp: absorb_blocks.simps [of s data] run_blocks_short)
  qed
qed

lemma fill_buffer_run:
  assumes "length (sha_buf s) = BLOCK" "sha_buf_len s < BLOCK" "fill_buffer s data = (s', rest)"
  shows "run_blocks (sha_h s) (take (sha_buf_len s) (sha_buf s) @ data) =
           run_blocks (sha_h s') (take (sha_buf_len s') (sha_buf s') @ rest) \<and>
         length (sha_buf s') = BLOCK \<and> sha_buf_len s' < BLOCK \<and>
         (sha_buf_len s' = 0 \<or> rest = []) \<and> sha_total_bytes s' = sha_total_bytes s"
proof -
  let ?l = "sha_buf_len s" and ?b = "sha_buf s"
  consider (empty) "?l = 0" | (short) "0 < ?l" "?l + length data < BLOCK"
    | (full) "0 < ?l" "BLOCK \<le> ?l + length data"
    by linarith
  then show ?thesis
  proof cases
    case empty
    with assms show ?thesis by (auto simp: fill_buffer_def)
  next
    case short
    then have n: "min (BLOCK - ?l) (length data) = length data" and "?l + length data \<noteq> BLOCK"
      by simp_all
    then have "s' = s\<lparr>sha_buf := copy_at ?b ?l data, sha_buf_len := ?l + length data\<rparr>"
      and "rest = []"
      using short assms by (auto simp: fill_buffer_def Let_def n)
    with short assms show ?thesis by (simp add: copy_at_def)
  next
    case full
    let ?n = "BLOCK - ?l" and ?blk = "take ?l ?b @ take (BLOCK - ?l) data"
    have blk: "copy_at ?b ?l (take ?n data) = ?blk"
      using full assms by (simp add: copy_at_def)
    have n: "min ?n (length data) = ?n" and "?l + ?n = BLOCK"
      using full assms by simp_all
    then have s': "s' = s\<lparr>sha_h := compress (sha_h s) ?blk, sha_buf := ?blk, sha_buf_len := 0\<rparr>"
      and rest: "rest = drop ?n data"
      using full assms by (auto simp: fill_buffer_def Let_def n compress_into_def blk)
    have len: "length ?blk = BLOCK"
      using full assms(1,2) by simp
    then have "run_blocks (sha_h s) (?blk @ rest) = run_blocks (compress (sha_h s) ?blk) rest"
      by (rule run_blocks_block)
    moreover have "?blk @ rest = take ?l ?b @ data"
      by (simp add: rest)
    ultimately have "run_blocks (sha_h s) (take ?l ?b @ data) =
        run_blocks (compress (sha_h s) ?blk) rest"
      by (simp only:)
    with len show ?thesis by (simp add: s' BLOCK_def)
  qed
qed

lemma absorbed_update:
  assumes "absorbed s bs"
  shows "absorbed (Sha384_update s data) (bs @ data)"
    and "sha_total_bytes (Sha384_update s data) = sha_total_bytes s + of_nat (length data)"
proof -
  let ?s0 = "s\<lparr>sha_total_bytes := sha_total_bytes s + of_nat (length data)\<rparr>"
  obtain s1 d1 where f: "fill_buffer ?s0 data = (s1, d1)" by fastforce
  obtain s2 d2 where a: "absorb_blocks s1 d1 = (s2, d2)" by fastforce
  have "length (sha_buf ?s0) = BLOCK" "sha_buf_len ?s0 < BLOCK"
    using assms by (simp_all add: absorbed_def)
  note f' = fill_buffer_run [OF this f]
  note a' = absorb_blocks_run [OF a]
  have "run_blocks IV (bs @ data) =
      run_blocks (sha_h ?s0) (take (sha_buf_len ?s0) (sha_buf ?s0) @ data)"
    using assms by (simp add: absorbed_def run_blocks_append [of IV])
  also have "\<dots> = run_blocks (sha_h s1) (take (sha_buf_len s1) (sha_buf s1) @ d1)"
    by (rule conjunct1 [OF f'])
  finally have run: "run_blocks IV (bs @ data) =
      run_blocks (sha_h s1) (take (sha_buf_len s1) (sha_buf s1) @ d1)" .
  have s1: "length (sha_buf s1) = BLOCK" "sha_buf_len s1 < BLOCK"
      "sha_buf_len s1 = 0 \<or> d1 = []"
      "sha_total_bytes s1 = sha_total_bytes s + of_nat (length data)"
    using conjunct2 [OF f'] by simp_all
  have s2: "sha_buf s2 = sha_buf s1" "sha_buf_len s2 = sha_buf_len s1"
      "sha_total_bytes s2 = sha_total_bytes s1"
    using a' by simp_all
  have upd: "Sha384_update s data =
      (if d2 \<noteq> [] then s2\<lparr>sha_buf := copy_at (sha_buf s2) 0 d2, sha_buf_len := length d2\<rparr> else s2)"
    by (simp add: Sha384_update_def f a)
  show "sha_total_bytes (Sha384_update s data) = sha_total_bytes s + of_nat (length data)"
    using s1 s2 by (simp add: upd)
  show "absorbed (Sha384_update s data) (bs @ data)"
  proof (cases "d1 = []")
    case True
    then have "d2 = []" "s2 = s1"
      using a by (simp_all add: absorb_blocks.simps BLOCK_def)
    with True s1 run show ?thesis by (simp add: upd absorbed_def run_blocks_short)
  next
    case False
    then have "sha_buf_len s1 = 0" using s1 by simp
    with run have "run_blocks IV (bs @ data) = (sha_h s2, d2)" using a' by simp
    then show ?thesis
      using s1 s2 a' \<open>sha_buf_len s1 = 0\<close> by (auto simp: upd absorbed_def copy_at_def)
  qed
qed

lemma absorbed_total_irrelevant [simp]:
  "absorbed (s\<lparr>sha_total_bytes := n\<rparr>) bs = absorbed s bs"
  by (simp add: absorbed_def)

lemma absorbed_pad_byte:
  assumes "absorbed s bs"
  shows "absorbed (pad_byte s b) (bs @ [b])"
    and "sha_total_bytes (pad_byte s b) = sha_total_bytes s"
  using absorbed_update [OF assms, of "[b]"] by (simp_all add: pad_byte_def Let_def)

lemma zero_gap_step: "n mod BLOCK \<noteq> 112 \<Longrightarrow> zero_gap n = Suc (zero_gap (Suc n))"
  using mod_less_divisor [of BLOCK n]
  by (auto simp: zero_gap_def BLOCK_def mod_Suc Let_def)

lemma zero_gap_done: "n mod BLOCK = 112 \<Longrightarrow> zero_gap n = 0"
  by (simp add: zero_gap_def BLOCK_def)

lemma zero_gap_zero: "zero_gap n = 0 \<Longrightarrow> n mod BLOCK = 112"
  using zero_gap_step [of n] by fastforce

text \<open>The padding loop stops: after \<open>zero_gap\<close> zero bytes the buffer holds 112 bytes.\<close>

lemma pad_zeros_absorbed:
  assumes "absorbed s bs"
  shows "absorbed (pad_zeros s) (bs @ replicate (zero_gap (length bs)) 0) \<and>
         sha_total_bytes (pad_zeros s) = sha_total_bytes s"
  using assms
proof (induction "zero_gap (length bs)" arbitrary: s bs)
  case 0
  then have "length bs mod BLOCK = 112"
    by (simp add: zero_gap_zero)
  then have "sha_buf_len s = BLOCK - 16"
    using absorbed_buf_len [OF "0.prems"] by (simp add: BLOCK_def)
  then show ?case
    using 0 by (simp add: pad_zeros_def while_unfold)
next
  case (Suc m)
  then have ne: "length bs mod BLOCK \<noteq> 112"
    using zero_gap_done by fastforce
  then have m: "m = zero_gap (length (bs @ [0]))"
    using Suc.hyps(2) zero_gap_step by simp
  have "pad_zeros s = pad_zeros (pad_byte s 0)"
    using ne absorbed_buf_len [OF Suc.prems]
    unfolding pad_zeros_def by (subst while_unfold) (simp add: BLOCK_def)
  with Suc.hyps(1) [OF m absorbed_pad_byte(1) [OF Suc.prems]] absorbed_pad_byte(2) [OF Suc.prems]
  have "absorbed (pad_zeros s) ((bs @ [0]) @ replicate m 0) \<and>
        sha_total_bytes (pad_zeros s) = sha_total_bytes s"
    by (simp add: m)
  then show ?case by (simp flip: Suc.hyps(2))
qed

lemma finish_absorbed:
  assumes "absorbed s bs" "sha_total_bytes s = of_nat (length bs)"
  shows "Sha384_finish s = sha384_reference bs"
proof -
  let ?p = "pad_zeros (pad_byte s 0x80)" and ?len = "to_be_bytes (sha_total_bytes s * 8)"
  let ?zs = "replicate (zero_gap (length (bs @ [0x80]))) 0"
  have "absorbed ?p ((bs @ [0x80]) @ ?zs)"
    using pad_zeros_absorbed [OF absorbed_pad_byte(1) [OF assms(1)]] by simp
  then have "absorbed (Sha384_update ?p ?len) (((bs @ [0x80]) @ ?zs) @ ?len)"
    by (rule absorbed_update(1))
  then have "absorbed (Sha384_update ?p ?len) (sha384_pad bs)"
    using assms(2) by (simp add: sha384_pad_def)
  then show ?thesis
    by (simp add: Sha384_finish_def sha384_reference_def absorbed_def Let_def)
qed

text \<open>What a run of \<open>update\<close> calls leaves behind.\<close>

lemma absorbed_updates:
  assumes "absorbed s bs" "sha_total_bytes s = of_nat (length bs)"
  shows "absorbed (foldl Sha384_update s chunks) (bs @ concat chunks) \<and>
         sha_total_bytes (foldl Sha384_update s chunks) = of_nat (length (bs @ concat chunks))"
  using assms
proof (induction chunks arbitrary: s bs)
  case (Cons c chunks)
  have "absorbed (Sha384_update s c) (bs @ c)"
    "sha_total_bytes (Sha384_update s c) = of_nat (length (bs @ c))"
    using absorbed_update [OF Cons.prems(1), of c] Cons.prems(2) by simp_all
  from Cons.IH [OF this] show ?case by simp
qed simp

lemma finish_updates:
  "Sha384_finish (foldl Sha384_update Sha384_new chunks) = sha384_reference (concat chunks)"
  using absorbed_updates [OF absorbed_new, of chunks]
  by (intro finish_absorbed) (simp_all add: Sha384_new_def)

lemma digest_reference: "Sha384_digest bs = sha384_reference bs"
  using finish_updates [of "[bs]"] by (simp add: Sha384_digest_def)

lemma streaming_digest:
  "Sha384_finish (foldl Sha384_update Sha384_new chunks) = Sha384_digest (concat chunks)"
  by (simp add: finish_updates digest_reference)

subsection \<open>Collisions\<close>

text \<open>
  Two different messages, one from each list, with one digest. The lists the theorems use are the
  messages two particular computations hashed, so a collision is exhibited, not merely asserted to
  exist somewhere.
\<close>

definition collides :: "bytes list \<Rightarrow> bytes list \<Rightarrow> bool" where
  "collides xs ys \<longleftrightarrow> (\<exists>x \<in> set xs. \<exists>y \<in> set ys. x \<noteq> y \<and> Sha384_digest x = Sha384_digest y)"

lemma collides_append [simp]:
  "collides (xs @ xs') ys \<longleftrightarrow> collides xs ys \<or> collides xs' ys"
  "collides xs (ys @ ys') \<longleftrightarrow> collides xs ys \<or> collides xs ys'"
  "\<not> collides [] ys" "\<not> collides xs []"
  "collides [x] [y] \<longleftrightarrow> x \<noteq> y \<and> Sha384_digest x = Sha384_digest y"
  by (auto simp: collides_def)

lemma collides_mono:
  "collides xs ys \<Longrightarrow> set xs \<subseteq> set xs' \<Longrightarrow> set ys \<subseteq> set ys' \<Longrightarrow> collides xs' ys'"
  unfolding collides_def by blast

lemma not_collides_concat:
  "\<not> collides (concat (map f xs)) ms \<Longrightarrow> x \<in> set xs \<Longrightarrow> \<not> collides (f x) ms"
  "\<not> collides ms (concat (map f xs)) \<Longrightarrow> x \<in> set xs \<Longrightarrow> \<not> collides ms (f x)"
  by (auto simp: collides_def)

lemma collidesD:
  "\<not> collides xs ys \<Longrightarrow> x \<in> set xs \<Longrightarrow> y \<in> set ys \<Longrightarrow> Sha384_digest x = Sha384_digest y \<Longrightarrow> x = y"
  unfolding collides_def by blast

subsection \<open>Properties\<close>

text \<open>
  C35. The streaming hasher computes the one-shot reference digest: whatever pieces a message is
  fed in, and however they fall on the block boundaries of the internal buffer, the result is the
  padded, block-by-block SHA-384 of the concatenation.
\<close>

theorem hasher_computes_reference:
  "Sha384_finish (foldl Sha384_update Sha384_new chunks) = sha384_reference (concat chunks)"
  by (rule finish_updates)

text \<open>
  The constant-time comparison, which accumulates the differences of all forty-eight bytes
  with no early exit, decides equality of digests.
\<close>

theorem digests_equal_decides: "digests_equal a b \<longleftrightarrow> a = b"
  by (rule digests_equal_iff)

end
