(* ===== verification/Chain.thy ===== *)
theory Chain
  imports Sha384
begin

text \<open>
  The per-shard hash chain of \<open>crates/trailryx-crypto/src/chain.rs\<close>. A link binds the previous
  link, the position and the bytes of the record. The results: replaying a chain in pieces with
  \<open>resume\<close> is replaying it at once, and two non-empty chains with the same head hold the same
  records unless the two replays exhibit two different messages with the same digest.
\<close>

subsection \<open>Links and chain state\<close>

definition DOMAIN :: bytes where
  "DOMAIN = ascii ''trailryx/chain/v1'' @ [0]"

definition chain_step :: "hash \<Rightarrow> u64 \<Rightarrow> bytes \<Rightarrow> hash" where
  "chain_step prev seq record_bytes =
     (let h = Sha384_new;
          h = Sha384_update h DOMAIN;
          h = Sha384_update h (as_bytes prev);
          h = Sha384_update h (to_be_bytes seq);
          h = Sha384_update h (to_be_bytes (of_nat (length record_bytes) :: u64));
          h = Sha384_update h record_bytes
      in Sha384_finish h)"

record ChainState =
  ch_head :: hash
  ch_length :: u64

definition ChainState_genesis :: ChainState where
  "ChainState_genesis = \<lparr>ch_head = Hash_ZERO, ch_length = 0\<rparr>"

definition ChainState_resume :: "hash \<Rightarrow> u64 \<Rightarrow> ChainState" where
  "ChainState_resume head len = \<lparr>ch_head = head, ch_length = len\<rparr>"

text \<open>\<open>append\<close> returns the updated state and the new head. The position is a \<open>u64\<close> and wraps.\<close>

definition ChainState_append :: "ChainState \<Rightarrow> bytes \<Rightarrow> ChainState \<times> hash" where
  "ChainState_append c record_bytes =
     (let seq = ch_length c + 1;
          c = c\<lparr>ch_head := chain_step (ch_head c) seq record_bytes\<rparr>;
          c = c\<lparr>ch_length := seq\<rparr>
      in (c, ch_head c))"

definition verify_step :: "hash \<Rightarrow> u64 \<Rightarrow> bytes \<Rightarrow> hash \<Rightarrow> bool" where
  "verify_step prev seq record_bytes claimed = digests_equal (chain_step prev seq record_bytes) claimed"

subsection \<open>The message behind a link\<close>

definition chain_msg :: "hash \<Rightarrow> u64 \<Rightarrow> bytes \<Rightarrow> bytes" where
  "chain_msg prev seq record_bytes =
     DOMAIN @ as_bytes prev @ to_be_bytes seq @
     to_be_bytes (of_nat (length record_bytes) :: u64) @ record_bytes"

lemma chain_step_digest: "chain_step prev seq r = Sha384_digest (chain_msg prev seq r)"
  using streaming_digest
    [of "[DOMAIN, as_bytes prev, to_be_bytes seq, to_be_bytes (of_nat (length r) :: u64), r]"]
  by (simp add: chain_step_def chain_msg_def Let_def)

lemma chain_msg_inj [simp]:
  "chain_msg p s r = chain_msg p' s' r' \<longleftrightarrow> p = p' \<and> s = s' \<and> r = r'"
  by (auto simp: chain_msg_def to_be_bytes_inj)

subsection \<open>Replaying a sequence of records\<close>

definition chain_run :: "ChainState \<Rightarrow> bytes list \<Rightarrow> ChainState" where
  "chain_run c rs = foldl (\<lambda>c r. fst (ChainState_append c r)) c rs"

lemma chain_run_simps [simp]:
  "chain_run c [] = c"
  "chain_run c (rs @ [r]) = fst (ChainState_append (chain_run c rs) r)"
  "chain_run c (r # rs) = chain_run (fst (ChainState_append c r)) rs"
  by (simp_all add: chain_run_def)

lemma chain_run_append: "chain_run c (rs @ ss) = chain_run (chain_run c rs) ss"
  by (simp add: chain_run_def)

lemma append_fields [simp]:
  "ch_length (fst (ChainState_append c r)) = ch_length c + 1"
  "ch_head (fst (ChainState_append c r)) = chain_step (ch_head c) (ch_length c + 1) r"
  "snd (ChainState_append c r) = chain_step (ch_head c) (ch_length c + 1) r"
  by (simp_all add: ChainState_append_def Let_def)

lemma chain_run_length: "ch_length (chain_run c rs) = ch_length c + of_nat (length rs)"
  by (induction rs rule: rev_induct) auto

lemma resume_fields [simp]: "ChainState_resume (ch_head c) (ch_length c) = c"
  by (simp add: ChainState_resume_def)

text \<open>The messages a replay hashes.\<close>

fun chain_msgs :: "ChainState \<Rightarrow> bytes list \<Rightarrow> bytes list" where
  "chain_msgs c [] = []"
| "chain_msgs c (r # rs) =
     chain_msg (ch_head c) (ch_length c + 1) r # chain_msgs (fst (ChainState_append c r)) rs"

lemma chain_msgs_snoc [simp]:
  "chain_msgs c (rs @ [r]) =
     chain_msgs c rs @ [chain_msg (ch_head (chain_run c rs)) (ch_length (chain_run c rs) + 1) r]"
  by (induction rs arbitrary: c) simp_all

text \<open>
  Equal heads after the same number of records, from any two starting states: the records are
  equal, and so are the heads started from.
\<close>

lemma chain_binds:
  assumes "length rs = length rs'"
    and "ch_head (chain_run c rs) = ch_head (chain_run c' rs')"
    and "\<not> collides (chain_msgs c rs) (chain_msgs c' rs')"
  shows "rs = rs' \<and> ch_head c = ch_head c'"
  using assms
proof (induction rs arbitrary: rs' rule: rev_induct)
  case (snoc r rs)
  then obtain r' ss where rs': "rs' = ss @ [r']" "length rs = length ss"
    by (cases rs' rule: rev_cases) auto
  let ?m = "chain_msg (ch_head (chain_run c rs)) (ch_length (chain_run c rs) + 1) r"
  let ?m' = "chain_msg (ch_head (chain_run c' ss)) (ch_length (chain_run c' ss) + 1) r'"
  have "Sha384_digest ?m = Sha384_digest ?m'"
    using snoc.prems rs' by (simp add: chain_step_digest)
  then have "?m = ?m'" using snoc.prems(3) rs' by simp
  then have "r = r'" "ch_head (chain_run c rs) = ch_head (chain_run c' ss)" by simp_all
  moreover have "\<not> collides (chain_msgs c rs) (chain_msgs c' ss)"
    using snoc.prems(3) rs' by simp
  ultimately show ?case using snoc.IH [of ss] rs' by simp
qed simp

text \<open>The position inside the link makes the number of records part of the head.\<close>

lemma chain_head_length:
  assumes "rs \<noteq> []" "rs' \<noteq> []"
    and "ch_head (chain_run c rs) = ch_head (chain_run c' rs')"
    and "\<not> collides (chain_msgs c rs) (chain_msgs c' rs')"
  shows "ch_length (chain_run c rs) = ch_length (chain_run c' rs')"
proof -
  from assms(1,2) obtain ss r ss' r' where "rs = ss @ [r]" "rs' = ss' @ [r']"
    by (metis rev_exhaust)
  with assms(3,4) show ?thesis by (simp add: chain_step_digest)
qed

lemma chain_same_records:
  assumes "rs \<noteq> []" "rs' \<noteq> []" "length rs < 2 ^ 64" "length rs' < 2 ^ 64"
    and "ch_head (chain_run c rs) = ch_head (chain_run c rs')"
    and "\<not> collides (chain_msgs c rs) (chain_msgs c rs')"
  shows "rs = rs'"
proof -
  have "(of_nat (length rs) :: u64) = of_nat (length rs')"
    using chain_head_length [OF assms(1,2,5,6)] by (simp add: chain_run_length)
  then have "length rs = length rs'" using assms(3,4) by (auto intro: of_nat_word_inj)
  then show ?thesis using chain_binds assms(5,6) by blast
qed

text \<open>The chain through numbered bodies: the messages hashed, the links and the head.\<close>

fun item_msgs :: "hash \<Rightarrow> (u64 \<times> bytes) list \<Rightarrow> bytes list" where
  "item_msgs link [] = []"
| "item_msgs link ((n, b) # items) = chain_msg link n b # item_msgs (chain_step link n b) items"

definition items_head :: "hash \<Rightarrow> (u64 \<times> bytes) list \<Rightarrow> hash" where
  "items_head link items = foldl (\<lambda>link (n, b). chain_step link n b) link items"

fun links_of :: "hash \<Rightarrow> (u64 \<times> bytes) list \<Rightarrow> hash list" where
  "links_of link [] = []"
| "links_of link ((n, b) # items) = chain_step link n b # links_of (chain_step link n b) items"

lemma length_links_of [simp]: "length (links_of link items) = length items"
  by (induction link items rule: links_of.induct) simp_all

lemma items_head_simps [simp]:
  "items_head link [] = link" "items_head link ((n, b) # items) = items_head (chain_step link n b) items"
  by (simp_all add: items_head_def)

lemma items_bind:
  "length xs = length ys \<Longrightarrow> items_head l xs = items_head l' ys \<Longrightarrow>
   \<not> collides (item_msgs l xs) (item_msgs l' ys) \<Longrightarrow> xs = ys \<and> l = l'"
proof (induction xs ys arbitrary: l l' rule: list_induct2)
  case (Cons x xs y ys)
  obtain n b n' b' where xy: "x = (n, b)" "y = (n', b')" by fastforce
  have "\<not> collides (item_msgs (chain_step l n b) xs) (item_msgs (chain_step l' n' b') ys)"
    using Cons.prems(2) xy by (auto simp: collides_def)
  with Cons.IH Cons.prems(1) xy have "xs = ys \<and> chain_step l n b = chain_step l' n' b'"
    by (simp add: items_head_def)
  moreover have "\<not> collides [chain_msg l n b] [chain_msg l' n' b']" using Cons.prems(2) xy by (auto simp: collides_def)
  ultimately show ?case using xy by (auto simp: collides_def chain_step_digest)
qed (simp add: items_head_def)

subsection \<open>Properties\<close>

text \<open>
  C18. Tamper evidence of a shard's chain: two non-empty chains replayed from one starting
  state that end in the same head hold the same records in the same order, or the two replays
  hashed two different messages to one digest. No bound on the records' sizes is needed; the
  numbers of records are below \<open>2 ^ 64\<close>, where the position counter would wrap.
\<close>

theorem chain_head_commits:
  assumes "rs \<noteq> []" "rs' \<noteq> []" "length rs < 2 ^ 64" "length rs' < 2 ^ 64"
    and "ch_head (chain_run c rs) = ch_head (chain_run c rs')"
  shows "rs = rs' \<or> collides (chain_msgs c rs) (chain_msgs c rs')"
  using chain_same_records [OF assms] by blast

theorem chain_head_commits_witness:
  "[[1, 2], [3]] = [[1, 2], [3::u8]] \<or>
   collides (chain_msgs ChainState_genesis [[1, 2], [3]]) (chain_msgs ChainState_genesis [[1, 2], [3]])"
  by (rule chain_head_commits) simp_all

end
