(* ===== verification/Merkle.thy ===== *)
theory Merkle
  imports Sha384
begin

text \<open>
  The RFC 6962 Merkle tree of \<open>crates/trailryx-index/src/merkle.rs\<close>: tree hashes, inclusion
  and consistency proofs, and the two verifiers, which walk the proof from the leaves up with
  shifts while the prover splits from the root down.

  The results: a proof the tree produces verifies; and a proof that verifies against the root of
  a tree is about that tree, unless it exhibits two different messages with the same digest among
  the messages the verifier and the tree hashed. Sizes and positions (\<open>usize\<close>) are natural
  numbers: the verifiers only halve them and decrement them above zero, and the prover's are
  lengths and indices of a \<open>Vec\<close> of 48-byte digests, which the language keeps below \<open>2 ^ 63 div 48\<close>.
\<close>

subsection \<open>Hashing leaves and nodes\<close>

definition LEAF_PREFIX :: u8 where
  "LEAF_PREFIX = 0"

definition NODE_PREFIX :: u8 where
  "NODE_PREFIX = 1"

definition empty_root :: hash where
  "empty_root = Sha384_digest []"

definition leaf_hash :: "bytes \<Rightarrow> hash" where
  "leaf_hash data = Sha384_finish (Sha384_update (Sha384_update Sha384_new [LEAF_PREFIX]) data)"

definition node_hash :: "hash \<Rightarrow> hash \<Rightarrow> hash" where
  "node_hash left right =
     Sha384_finish
       (Sha384_update (Sha384_update (Sha384_update Sha384_new [NODE_PREFIX]) (as_bytes left))
          (as_bytes right))"

subsection \<open>The tree\<close>

text \<open>
  Largest power of two strictly below \<open>n\<close>. The loop starts at \<open>k = 1\<close>; the guard \<open>0 < k\<close> is true
  on every iteration and is there for the values the loop never takes.
\<close>

function split_loop :: "nat \<Rightarrow> nat \<Rightarrow> nat" where
  "split_loop k n = (if 0 < k \<and> k * 2 < n then split_loop (k * 2) n else k)"
  by pat_completeness auto
termination
  by (relation "measure (\<lambda>(k, n). n - k)") auto

declare split_loop.simps [simp del]

definition split :: "nat \<Rightarrow> nat" where
  "split n = split_loop 1 n"

record MerkleTree =
  leaves :: "hash list"

lemma split_loop_power:
  "k = 2 ^ i \<Longrightarrow> k < n \<Longrightarrow> \<exists>h. split_loop k n = 2 ^ h \<and> 2 ^ h < n \<and> n \<le> 2 * 2 ^ h"
proof (induction k n arbitrary: i rule: split_loop.induct)
  case (1 k n)
  show ?case
  proof (cases "k * 2 < n")
    case True
    with "1.prems" have "0 < k \<and> k * 2 < n" and "k * 2 = 2 ^ Suc i" by simp_all
    with "1.IH" True show ?thesis by (metis split_loop.simps)
  next
    case False
    with "1.prems" show ?thesis
      by (intro exI [of _ i]) (simp add: split_loop.simps [of _ n])
  qed
qed

lemma split_power: "2 \<le> n \<Longrightarrow> \<exists>h. split n = 2 ^ h \<and> 2 ^ h < n \<and> n \<le> 2 * 2 ^ h"
  unfolding split_def by (rule split_loop_power [of _ 0]) simp_all

lemma split_bounds: "2 \<le> n \<Longrightarrow> 0 < split n \<and> split n < n"
  using split_power by fastforce

lemma two_le_length: "ls \<noteq> [] \<Longrightarrow> length ls \<noteq> Suc 0 \<Longrightarrow> 2 \<le> length ls"
  by (cases ls; cases "tl ls") auto

lemma split_shrinks:
  assumes "2 \<le> length ls"
  shows "length (take (split (length ls)) ls) < length ls"
    and "length (drop (split (length ls)) ls) < length ls"
proof -
  have "0 < split (length ls)" "split (length ls) < length ls"
    using split_bounds [OF assms] by blast+
  then show "length (take (split (length ls)) ls) < length ls"
    and "length (drop (split (length ls)) ls) < length ls" by auto
qed

text \<open>The split is the only power of two in its range.\<close>

lemma split_unique:
  assumes "2 ^ h < n" "n \<le> 2 * 2 ^ h"
  shows "split n = 2 ^ h"
proof -
  have "2 \<le> n" using assms(1) one_le_power [of "2::nat" h] by linarith
  then obtain g where g: "split n = 2 ^ g" "2 ^ g < n" "n \<le> 2 * 2 ^ g"
    using split_power by blast
  have "(2 ^ g :: nat) < 2 ^ Suc h" "2 ^ h < (2 ^ Suc g :: nat)"
    using assms g by simp_all
  then have "g < Suc h" "h < Suc g"
    by (simp_all only: power_strict_increasing_iff [of "2::nat"])
  with g show ?thesis by simp
qed

function mth :: "hash list \<Rightarrow> hash" where
  "mth ls =
     (if length ls = 0 then empty_root
      else if length ls = 1 then ls ! 0
      else node_hash (mth (take (split (length ls)) ls)) (mth (drop (split (length ls)) ls)))"
  by pat_completeness auto
termination
  by (relation "measure length")
     (auto intro!: split_shrinks two_le_length simp del: length_take length_drop)

declare mth.simps [simp del]

function mth_path :: "hash list \<Rightarrow> nat \<Rightarrow> hash list" where
  "mth_path ls m =
     (let n = length ls in
      if n \<le> 1 then []
      else let k = split n in
        if m < k then mth_path (take k ls) m @ [mth (drop k ls)]
        else mth_path (drop k ls) (m - k) @ [mth (take k ls)])"
  by pat_completeness auto
termination
  by (relation "measure (\<lambda>(ls, m). length ls)")
     (auto intro!: split_shrinks simp del: length_take length_drop)

declare mth_path.simps [simp del]

text \<open>
  \<open>subproof\<close> is called with \<open>0 < m \<le> n\<close>; a list of fewer than two leaves then has \<open>m = n\<close>, and
  the third branch, which stands where the source would split a list it cannot split, is not taken.
\<close>

function subproof :: "hash list \<Rightarrow> nat \<Rightarrow> bool \<Rightarrow> hash list" where
  "subproof ls m b =
     (let n = length ls in
      if m = n then (if \<not> b then [mth ls] else [])
      else if n < 2 then []
      else let k = split n in
        if m \<le> k then subproof (take k ls) m b @ [mth (drop k ls)]
        else subproof (drop k ls) (m - k) False @ [mth (take k ls)])"
  by pat_completeness auto
termination
  by (relation "measure (\<lambda>(ls, m, b). length ls)")
     (auto intro!: split_shrinks simp del: length_take length_drop)

declare subproof.simps [simp del]

record InclusionProof =
  ip_index :: nat
  ip_size :: nat
  ip_path :: "hash list"

record ConsistencyProof =
  cp_old_size :: nat
  cp_new_size :: nat
  cp_nodes :: "hash list"

definition MerkleTree_new :: MerkleTree where
  "MerkleTree_new = \<lparr>leaves = []\<rparr>"

definition from_leaf_hashes :: "hash list \<Rightarrow> MerkleTree" where
  "from_leaf_hashes ls = \<lparr>leaves = ls\<rparr>"

definition push_leaf :: "MerkleTree \<Rightarrow> hash \<Rightarrow> MerkleTree \<times> nat" where
  "push_leaf t leaf =
     (let t = t\<lparr>leaves := leaves t @ [leaf]\<rparr> in (t, length (leaves t) - 1))"

definition push_data :: "MerkleTree \<Rightarrow> bytes \<Rightarrow> MerkleTree \<times> nat" where
  "push_data t data = push_leaf t (leaf_hash data)"

definition tree_len :: "MerkleTree \<Rightarrow> nat" where
  "tree_len t = length (leaves t)"

definition tree_leaf :: "MerkleTree \<Rightarrow> nat \<Rightarrow> hash option" where
  "tree_leaf t i = (if i < length (leaves t) then Some (leaves t ! i) else None)"

definition root :: "MerkleTree \<Rightarrow> hash" where
  "root t = mth (leaves t)"

definition root_at :: "MerkleTree \<Rightarrow> nat \<Rightarrow> hash option" where
  "root_at t sz = (if length (leaves t) < sz then None else Some (mth (take sz (leaves t))))"

definition inclusion_proof :: "MerkleTree \<Rightarrow> nat \<Rightarrow> nat \<Rightarrow> InclusionProof option" where
  "inclusion_proof t index sz =
     (if sz \<le> index \<or> length (leaves t) < sz then None
      else Some \<lparr>ip_index = index, ip_size = sz, ip_path = mth_path (take sz (leaves t)) index\<rparr>)"

definition consistency_proof :: "MerkleTree \<Rightarrow> nat \<Rightarrow> nat \<Rightarrow> ConsistencyProof option" where
  "consistency_proof t old_size new_size =
     (if old_size = 0 \<or> new_size < old_size \<or> length (leaves t) < new_size then None
      else Some \<lparr>cp_old_size = old_size, cp_new_size = new_size,
                 cp_nodes = subproof (take new_size (leaves t)) old_size True\<rparr>)"

subsection \<open>Verifying an inclusion proof\<close>

text \<open>The inner \<open>while fn_ & 1 == 0 && fn_ != 0\<close> loop.\<close>

fun strip_even :: "nat \<Rightarrow> nat \<Rightarrow> nat \<times> nat" where
  "strip_even f s = (if even f \<and> f \<noteq> 0 then strip_even (f div 2) (s div 2) else (f, s))"

declare strip_even.simps [simp del]

text \<open>
  The outer \<open>while sn > 0\<close> loop: \<open>None\<close> when the path runs out, otherwise the accumulated hash and
  the unused rest of the path.
\<close>

function inclusion_loop :: "nat \<Rightarrow> nat \<Rightarrow> hash \<Rightarrow> hash list \<Rightarrow> (hash \<times> hash list) option" where
  "inclusion_loop f s acc it =
     (if 0 < s then
        case it of
          [] \<Rightarrow> None
        | sibling # it' \<Rightarrow>
            if odd f \<or> f = s then
              let (f', s') = strip_even f s
              in inclusion_loop (f' div 2) (s' div 2) (node_hash sibling acc) it'
            else inclusion_loop (f div 2) (s div 2) (node_hash acc sibling) it'
      else Some (acc, it))"
  by pat_completeness auto
termination
  by (relation "measure (\<lambda>(f, s, acc, it). length it)") auto

declare inclusion_loop.simps [simp del]

definition ip_recompute :: "InclusionProof \<Rightarrow> hash \<Rightarrow> hash \<Rightarrow> bool" where
  "ip_recompute p leaf rt =
     (if ip_size p \<le> ip_index p then False
      else case inclusion_loop (ip_index p) (ip_size p - 1) leaf (ip_path p) of
             None \<Rightarrow> False
           | Some (acc, it) \<Rightarrow> it = [] \<and> digests_equal acc rt)"

definition verify_at :: "InclusionProof \<Rightarrow> hash \<Rightarrow> hash \<Rightarrow> nat \<Rightarrow> nat \<Rightarrow> bool" where
  "verify_at p leaf rt expected_index expected_size \<longleftrightarrow>
     ip_index p = expected_index \<and> ip_size p = expected_size \<and> ip_recompute p leaf rt"

subsection \<open>Verifying a consistency proof\<close>

function climb_spine :: "nat \<Rightarrow> nat \<Rightarrow> nat \<times> nat" where
  "climb_spine node lst = (if odd node then climb_spine (node div 2) (lst div 2) else (node, lst))"
  by pat_completeness auto
termination
  by (relation "measure fst") (auto elim: oddE)

declare climb_spine.simps [simp del]

text \<open>The \<open>while node > 0\<close> loop and the \<open>while last > 0\<close> loop.\<close>

function walk_nodes ::
  "nat \<Rightarrow> nat \<Rightarrow> hash \<Rightarrow> hash \<Rightarrow> hash list \<Rightarrow> (nat \<times> hash \<times> hash \<times> hash list) option" where
  "walk_nodes node lst fr sr it =
     (if 0 < node then
        if odd node then
          (case it of [] \<Rightarrow> None
           | s # it' \<Rightarrow> walk_nodes (node div 2) (lst div 2) (node_hash s fr) (node_hash s sr) it')
        else if node < lst then
          (case it of [] \<Rightarrow> None
           | s # it' \<Rightarrow> walk_nodes (node div 2) (lst div 2) fr (node_hash sr s) it')
        else walk_nodes (node div 2) (lst div 2) fr sr it
      else Some (lst, fr, sr, it))"
  by pat_completeness auto
termination
  by (relation "measure (\<lambda>(node, lst, fr, sr, it). node)") auto

declare walk_nodes.simps [simp del]

fun walk_last :: "nat \<Rightarrow> hash \<Rightarrow> hash list \<Rightarrow> (hash \<times> hash list) option" where
  "walk_last lst sr it =
     (if 0 < lst then
        (case it of [] \<Rightarrow> None | s # it' \<Rightarrow> walk_last (lst div 2) (node_hash sr s) it')
      else Some (sr, it))"

declare walk_last.simps [simp del]

definition cp_recompute :: "ConsistencyProof \<Rightarrow> hash \<Rightarrow> hash \<Rightarrow> bool" where
  "cp_recompute p old_root new_root =
     (if cp_old_size p = 0 \<or> cp_new_size p < cp_old_size p then False
      else if cp_old_size p = cp_new_size p then
        cp_nodes p = [] \<and> digests_equal old_root new_root
      else
        let (node, lst) = climb_spine (cp_old_size p - 1) (cp_new_size p - 1);
            start = (if 0 < node then
                       (case cp_nodes p of [] \<Rightarrow> None | first # it \<Rightarrow> Some (first, it))
                     else Some (old_root, cp_nodes p))
        in case start of
             None \<Rightarrow> False
           | Some (seed, it) \<Rightarrow>
               (case walk_nodes node lst seed seed it of
                  None \<Rightarrow> False
                | Some (lst, fr, sr, it) \<Rightarrow>
                    (case walk_last lst sr it of
                       None \<Rightarrow> False
                     | Some (sr, it) \<Rightarrow>
                         it = [] \<and> digests_equal fr old_root \<and> digests_equal sr new_root)))"

definition verify_between :: "ConsistencyProof \<Rightarrow> hash \<Rightarrow> nat \<Rightarrow> hash \<Rightarrow> nat \<Rightarrow> bool" where
  "verify_between p old_root old_size new_root new_size \<longleftrightarrow>
     cp_old_size p = old_size \<and> cp_new_size p = new_size \<and> cp_recompute p old_root new_root"

subsection \<open>Messages, collisions\<close>

definition node_msg :: "hash \<Rightarrow> hash \<Rightarrow> bytes" where
  "node_msg l r = NODE_PREFIX # as_bytes l @ as_bytes r"

definition leaf_msg :: "bytes \<Rightarrow> bytes" where
  "leaf_msg data = LEAF_PREFIX # data"

lemma leaf_hash_digest: "leaf_hash data = Sha384_digest (leaf_msg data)"
  using streaming_digest [of "[[LEAF_PREFIX], data]"] by (simp add: leaf_hash_def leaf_msg_def)

lemma node_hash_digest: "node_hash l r = Sha384_digest (node_msg l r)"
  using streaming_digest [of "[[NODE_PREFIX], as_bytes l, as_bytes r]"]
  by (simp add: node_hash_def node_msg_def)

lemma node_msg_inj [simp]: "node_msg a b = node_msg c d \<longleftrightarrow> a = c \<and> b = d"
  by (simp add: node_msg_def)

text \<open>Domain separation: no leaf message is a node message, whatever the leaf's data.\<close>

lemma leaf_msg_node_msg: "leaf_msg d \<noteq> node_msg l r"
  by (simp add: leaf_msg_def node_msg_def LEAF_PREFIX_def NODE_PREFIX_def)

subsection \<open>The shape of the tree hash\<close>

lemma mth_singleton [simp]: "mth [x] = x"
  by (simp add: mth.simps)

lemma mth_split:
  assumes "2 ^ h < length ls" "length ls \<le> 2 * 2 ^ h"
  shows "mth ls = node_hash (mth (take (2 ^ h) ls)) (mth (drop (2 ^ h) ls))"
proof -
  have "length ls \<noteq> 0" "length ls \<noteq> 1"
    using assms(1) one_le_power [of "2::nat" h] by auto
  then show ?thesis
    using split_unique [OF assms] by (simp add: mth.simps [of ls])
qed

lemma length_split_cases:
  assumes "0 < length ls"
  obtains "length ls = 1" | h where "2 ^ h < length ls" "length ls \<le> 2 * 2 ^ h"
proof (cases "length ls = 1")
  case False
  with assms have "2 \<le> length ls" by linarith
  then show ?thesis using split_power that(2) by blast
qed (rule that(1))

text \<open>The messages hashed in computing a tree hash.\<close>

function mth_msgs :: "hash list \<Rightarrow> bytes list" where
  "mth_msgs ls =
     (if length ls < 2 then []
      else let k = split (length ls) in
        mth_msgs (take k ls) @ mth_msgs (drop k ls) @ [node_msg (mth (take k ls)) (mth (drop k ls))])"
  by pat_completeness auto
termination
  by (relation "measure length") (auto intro!: split_shrinks simp del: length_take length_drop)

declare mth_msgs.simps [simp del]

lemma mth_msgs_split:
  assumes "2 ^ h < length ls" "length ls \<le> 2 * 2 ^ h"
  shows "set (mth_msgs ls) = set (mth_msgs (take (2 ^ h) ls)) \<union> set (mth_msgs (drop (2 ^ h) ls))
           \<union> {node_msg (mth (take (2 ^ h) ls)) (mth (drop (2 ^ h) ls))}"
proof -
  have "\<not> length ls < 2"
    using assms(1) one_le_power [of "2::nat" h] by linarith
  then show ?thesis
    using split_unique [OF assms] by (simp add: mth_msgs.simps [of ls] Let_def)
qed

text \<open>
  The step every soundness proof takes: a node hash equal to a tree hash, with no collision, has
  the tree's own children.
\<close>

lemma node_hash_eq_mth:
  assumes "2 ^ h < length ls" "length ls \<le> 2 * 2 ^ h"
    and "node_hash a b = mth ls" "node_msg a b \<in> set ms" "\<not> collides ms (mth_msgs ls)"
  shows "a = mth (take (2 ^ h) ls) \<and> b = mth (drop (2 ^ h) ls)"
    and "\<not> collides ms (mth_msgs (take (2 ^ h) ls))"
    and "\<not> collides ms (mth_msgs (drop (2 ^ h) ls))"
proof -
  have "node_msg a b = node_msg (mth (take (2 ^ h) ls)) (mth (drop (2 ^ h) ls))"
    by (rule collidesD [OF assms(5,4)])
       (use assms(3) in \<open>simp_all add: mth_msgs_split [OF assms(1,2)] mth_split [OF assms(1,2)]
          node_hash_digest\<close>)
  then show "a = mth (take (2 ^ h) ls) \<and> b = mth (drop (2 ^ h) ls)" by simp
  show "\<not> collides ms (mth_msgs (take (2 ^ h) ls))" "\<not> collides ms (mth_msgs (drop (2 ^ h) ls))"
    using assms(5) by (auto simp: collides_def mth_msgs_split [OF assms(1,2)])
qed

subsection \<open>Inclusion: what the loop computes, and from which messages\<close>

text \<open>
  The loop with a list of the messages it hashed. \<open>then_node mk\<close> continues a run by one more
  sibling, combined with the accumulator by \<open>mk\<close>.
\<close>

type_synonym run = "(hash \<times> hash list) option \<times> bytes list"

function inclusion_run :: "nat \<Rightarrow> nat \<Rightarrow> hash \<Rightarrow> hash list \<Rightarrow> bytes list \<Rightarrow> run" where
  "inclusion_run f s acc it ms =
     (if 0 < s then
        case it of
          [] \<Rightarrow> (None, ms)
        | x # it' \<Rightarrow>
            if odd f \<or> f = s then
              let (f', s') = strip_even f s
              in inclusion_run (f' div 2) (s' div 2) (node_hash x acc) it' (ms @ [node_msg x acc])
            else inclusion_run (f div 2) (s div 2) (node_hash acc x) it' (ms @ [node_msg acc x])
      else (Some (acc, it), ms))"
  by pat_completeness auto
termination
  by (relation "measure (\<lambda>(f, s, acc, it, ms). length it)") auto

declare inclusion_run.simps [simp del]

lemma inclusion_run_loop: "fst (inclusion_run f s acc it ms) = inclusion_loop f s acc it"
  by (induction f s acc it ms rule: inclusion_run.induct)
     (subst inclusion_run.simps, subst inclusion_loop.simps,
      auto split: list.split prod.split)

definition then_node :: "(hash \<Rightarrow> hash \<Rightarrow> bytes) \<Rightarrow> run \<Rightarrow> run" where
  "then_node mk r =
     (case r of
        (Some (a, x # it), ms) \<Rightarrow> (Some (Sha384_digest (mk a x), it), ms @ [mk a x])
      | (_, ms) \<Rightarrow> (None, ms))"

lemma then_node_SomeD:
  assumes "then_node mk r = (Some (a', it), ms')"
  obtains a x ms where "r = (Some (a, x # it), ms)" "a' = Sha384_digest (mk a x)"
    "ms' = ms @ [mk a x]"
  using assms by (auto simp: then_node_def split: prod.splits option.splits list.splits)

lemma inclusion_run_zero [simp]: "inclusion_run f 0 acc it ms = (Some (acc, it), ms)"
  by (simp add: inclusion_run.simps)

lemma strip_even_odd [simp]: "odd f \<Longrightarrow> strip_even f s = (f, s)"
  by (simp add: strip_even.simps)

lemma strip_even_power: "strip_even (2 ^ t) (2 ^ t) = (1, 1)"
  by (induction t) (simp_all add: strip_even.simps)

text \<open>
  Stripping trailing zero bits is not disturbed by one more, higher bit.
\<close>

lemma strip_even_offset:
  assumes "0 < f" "f < 2 ^ t"
  shows "\<exists>f' t'. strip_even f f = (f', f') \<and> f' < 2 ^ Suc t' \<and>
           strip_even (f + 2 ^ t) (f + 2 ^ t) = (f' + 2 ^ Suc t', f' + 2 ^ Suc t')"
  using assms
proof (induction t arbitrary: f)
  case (Suc t)
  show ?case
  proof (cases "even f")
    case True
    then obtain g where g: "f = 2 * g" by (rule evenE)
    with Suc.prems have "0 < g" "g < 2 ^ t" by simp_all
    from this Suc.IH [OF this] g show ?thesis
      by (simp add: strip_even.simps [of "2 * g"] strip_even.simps [of "2 * g + 2 * 2 ^ t"])
  next
    case False
    with Suc.prems show ?thesis by (intro exI [of _ f] exI [of _ t]) simp
  qed
qed simp

text \<open>
  Left subtree: a position inside a complete subtree of \<open>2 ^ h\<close> leaves is walked the same way in
  the larger tree, which then takes one more sibling on the right.
\<close>

lemma inclusion_run_left:
  "f < 2 ^ h \<Longrightarrow> e < 2 ^ h \<Longrightarrow>
   inclusion_run f (2 ^ h + e) acc it ms =
     then_node node_msg (inclusion_run f (2 ^ h - 1) acc it ms)"
proof (induction h arbitrary: f e acc it ms)
  case 0
  then show ?case
    by (cases it) (simp_all add: inclusion_run.simps [of 0 "Suc 0"] then_node_def node_hash_digest)
next
  case (Suc h)
  let ?big = "2 ^ Suc h + e" and ?full = "2 ^ Suc h - 1 :: nat"
  have ne: "f \<noteq> ?big" and "odd ?full" using Suc.prems by simp_all
  then have full: "odd f \<or> f \<noteq> ?full" by metis
  have "0 < (2::nat) ^ h" by simp
  then have halves: "?big div 2 = 2 ^ h + e div 2" "?full div 2 = 2 ^ h - 1" "0 < ?big" "0 < ?full"
    unfolding power_Suc by linarith+
  have "f div 2 < 2 ^ h" "e div 2 < 2 ^ h" using Suc.prems by simp_all
  note IH = Suc.IH [OF this]
  show ?case
    using ne full halves
    by (cases it) (auto simp: inclusion_run.simps [of f] IH then_node_def)
qed

text \<open>
  Right subtree: with the bit of the left subtree's size set in both numbers, the walk is that of
  the right subtree alone, followed by one more sibling on the left.
\<close>

lemma inclusion_run_right:
  "f \<le> s \<Longrightarrow> s < 2 ^ t \<Longrightarrow>
   inclusion_run (f + 2 ^ t) (s + 2 ^ t) acc it ms =
     then_node (\<lambda>a x. node_msg x a) (inclusion_run f s acc it ms)"
proof (induction f s acc it ms arbitrary: t rule: inclusion_run.induct)
  case (1 f s acc it ms)
  show ?case
  proof (cases "s = 0")
    case True
    with "1.prems" show ?thesis
      by (cases it)
         (simp_all add: inclusion_run.simps [of "2 ^ t"] strip_even_power then_node_def
            node_hash_digest)
  next
    case pos: False
    with "1.prems" obtain u where t: "t = Suc u" by (cases t) auto
    show ?thesis
    proof (cases it)
      case Nil
      with pos show ?thesis by (simp add: inclusion_run.simps [of f] inclusion_run.simps [of "f + 2 ^ t"] then_node_def)
    next
      case (Cons x it')
      let ?ms = "ms @ [node_msg x acc]" and ?ms' = "ms @ [node_msg acc x]"
      consider (odd) "odd f" | (last) "even f" "f = s" | (inner) "even f" "f \<noteq> s" by blast
      then show ?thesis
      proof cases
        case odd
        have "f div 2 \<le> s div 2" "s div 2 < 2 ^ u" using "1.prems" t by auto
        then show ?thesis
          using odd pos Cons "1.IH"(1) [OF _ Cons, of "(f, s)" f s u] t
          by (simp add: inclusion_run.simps [of f] inclusion_run.simps [of "f + 2 * 2 ^ u"]
              add.commute)
      next
        case last
        with pos "1.prems" obtain f' u' where
          f': "strip_even f f = (f', f')" "f' < 2 ^ Suc u'"
            "strip_even (f + 2 ^ t) (f + 2 ^ t) = (f' + 2 ^ Suc u', f' + 2 ^ Suc u')"
          using strip_even_offset [of f t] by blast
        then have "f' div 2 < 2 ^ u'" by simp
        then show ?thesis
          using last pos Cons "1.IH"(1) [OF _ Cons, of "(f', f')" f' f' u'] f'
          by (simp add: inclusion_run.simps [of s] inclusion_run.simps [of "s + 2 ^ t"] add.commute)
      next
        case inner
        have "f div 2 \<le> s div 2" "s div 2 < 2 ^ u" using "1.prems" t by auto
        then show ?thesis
          using inner pos Cons "1.IH"(2) [OF _ Cons, of u] t
          by (simp add: inclusion_run.simps [of f] inclusion_run.simps [of "f + 2 * 2 ^ u"]
              add.commute)
      qed
    qed
  qed
qed

text \<open>
  The two walks against the two ways the tree splits, in terms of sizes.
\<close>

lemma inclusion_run_split:
  assumes "2 ^ h < n" "n \<le> 2 * 2 ^ h" "m < n"
  shows "inclusion_run m (n - Suc 0) acc it ms =
           (if m < 2 ^ h then then_node node_msg (inclusion_run m (2 ^ h - Suc 0) acc it ms)
            else then_node (\<lambda>a x. node_msg x a)
                   (inclusion_run (m - 2 ^ h) (n - 2 ^ h - Suc 0) acc it ms))"
proof (cases "m < 2 ^ h")
  case True
  have "n - 1 = 2 ^ h + (n - 1 - 2 ^ h)" "n - 1 - 2 ^ h < 2 ^ h" using assms by linarith+
  with True inclusion_run_left [OF True, of "n - 1 - 2 ^ h"] show ?thesis
    by (metis One_nat_def)
next
  case False
  have "m = m - 2 ^ h + 2 ^ h" "n - 1 = n - 2 ^ h - 1 + 2 ^ h"
    and "m - 2 ^ h \<le> n - 2 ^ h - 1" "n - 2 ^ h - 1 < 2 ^ h"
    using False assms by linarith+
  with False inclusion_run_right [of "m - 2 ^ h" "n - 2 ^ h - 1" h] show ?thesis
    by (metis One_nat_def)
qed

lemma mth_path_split:
  assumes "2 ^ h < length ls" "length ls \<le> 2 * 2 ^ h"
  shows "mth_path ls m =
           (if m < 2 ^ h then mth_path (take (2 ^ h) ls) m @ [mth (drop (2 ^ h) ls)]
            else mth_path (drop (2 ^ h) ls) (m - 2 ^ h) @ [mth (take (2 ^ h) ls)])"
proof -
  have "\<not> length ls \<le> 1" using assms(1) one_le_power [of "2::nat" h] by linarith
  then show ?thesis using split_unique [OF assms] by (simp add: mth_path.simps [of ls] Let_def)
qed

text \<open>A path produced from the leaves leads from the leaf to the tree hash.\<close>

lemma inclusion_run_path:
  "m < length ls \<Longrightarrow>
   fst (inclusion_run m (length ls - 1) (ls ! m) (mth_path ls m @ rest) ms) = Some (mth ls, rest)"
proof (induction "length ls" arbitrary: ls m rest ms rule: less_induct)
  case less
  then have "0 < length ls" by linarith
  then show ?case
  proof (cases rule: length_split_cases)
    case 1
    then obtain x where "ls = [x]" by (metis One_nat_def length_0_conv length_Suc_conv)
    with less.prems show ?thesis by (simp add: mth_path.simps)
  next
    case (2 h)
    let ?l = "take (2 ^ h) ls" and ?r = "drop (2 ^ h) ls"
    show ?thesis
    proof (cases "m < 2 ^ h")
      case True
      with 2 less.hyps [of ?l m "mth ?r # rest" ms]
      have "fst (inclusion_run m (2 ^ h - 1) (ls ! m) (mth_path ls m @ rest) ms)
          = Some (mth ?l, mth ?r # rest)"
        by (simp add: mth_path_split [OF 2] min_def)
      then show ?thesis
        using True 2 less.prems
        by (cases "inclusion_run m (2 ^ h - 1) (ls ! m) (mth_path ls m @ rest) ms")
           (simp add: inclusion_run_split [OF 2 less.prems] then_node_def mth_split [OF 2]
              node_hash_digest)
    next
      case False
      with 2 less.prems less.hyps [of ?r "m - 2 ^ h" "mth ?l # rest" ms]
      have "fst (inclusion_run (m - 2 ^ h) (length ls - 2 ^ h - 1) (ls ! m)
                  (mth_path ls m @ rest) ms) = Some (mth ?r, mth ?l # rest)"
        by (simp add: mth_path_split [OF 2])
      then show ?thesis
        using False 2 less.prems
        by (cases "inclusion_run (m - 2 ^ h) (length ls - 2 ^ h - 1) (ls ! m)
                     (mth_path ls m @ rest) ms")
           (simp add: inclusion_run_split [OF 2 less.prems] then_node_def mth_split [OF 2]
              node_hash_digest)
    qed
  qed
qed

text \<open>Conversely, any path that leads to the tree hash starts at the tree's own leaf.\<close>

lemma inclusion_run_sound:
  "m < length ls \<Longrightarrow> inclusion_run m (length ls - 1) acc it ms0 = (Some (mth ls, rest), ms) \<Longrightarrow>
   \<not> collides ms (mth_msgs ls) \<Longrightarrow> acc = ls ! m"
proof (induction "length ls" arbitrary: ls m rest ms rule: less_induct)
  case less
  then have "0 < length ls" by linarith
  then show ?case
  proof (cases rule: length_split_cases)
    case 1
    then obtain x where "ls = [x]" by (metis One_nat_def length_0_conv length_Suc_conv)
    with less.prems show ?thesis by simp
  next
    case (2 h)
    let ?l = "take (2 ^ h) ls" and ?r = "drop (2 ^ h) ls"
    show ?thesis
    proof (cases "m < 2 ^ h")
      case True
      with less.prems 2 have "then_node node_msg (inclusion_run m (2 ^ h - 1) acc it ms0)
          = (Some (mth ls, rest), ms)"
        by (simp add: inclusion_run_split [OF 2 less.prems(1)])
      then obtain a x ms' where r: "inclusion_run m (2 ^ h - 1) acc it ms0 = (Some (a, x # rest), ms')"
        "mth ls = node_hash a x" "ms = ms' @ [node_msg a x]"
        by (auto elim!: then_node_SomeD simp: node_hash_digest)
      then have "node_hash a x = mth ls" "node_msg a x \<in> set ms" by simp_all
      note step = node_hash_eq_mth [OF 2 this less.prems(3)]
      have "\<not> collides ms' (mth_msgs ?l)"
        using step(2) r(3) by (auto intro: collides_mono)
      with step(1) r(1) True 2 have "acc = ?l ! m"
        by (intro less.hyps [of ?l m _ ms']) (simp_all add: min_def)
      with True show ?thesis by simp
    next
      case False
      with less.prems 2 have "then_node (\<lambda>a x. node_msg x a)
            (inclusion_run (m - 2 ^ h) (length ls - 2 ^ h - 1) acc it ms0) = (Some (mth ls, rest), ms)"
        by (simp add: inclusion_run_split [OF 2 less.prems(1)])
      then obtain a x ms' where
        r: "inclusion_run (m - 2 ^ h) (length ls - 2 ^ h - 1) acc it ms0 = (Some (a, x # rest), ms')"
        "mth ls = node_hash x a" "ms = ms' @ [node_msg x a]"
        by (auto elim!: then_node_SomeD simp: node_hash_digest)
      then have "node_hash x a = mth ls" "node_msg x a \<in> set ms" by simp_all
      note step = node_hash_eq_mth [OF 2 this less.prems(3)]
      have "\<not> collides ms' (mth_msgs ?r)"
        using step(3) r(3) by (auto intro: collides_mono)
      with step(1) r(1) False 2 less.prems(1) have "acc = ?r ! (m - 2 ^ h)"
        by (intro less.hyps [of ?r "m - 2 ^ h" _ ms']) simp_all
      with False less.prems(1) 2 show ?thesis by simp
    qed
  qed
qed

text \<open>The messages a whole \<open>recompute\<close> hashes.\<close>

definition ip_msgs :: "InclusionProof \<Rightarrow> hash \<Rightarrow> bytes list" where
  "ip_msgs p leaf = snd (inclusion_run (ip_index p) (ip_size p - 1) leaf (ip_path p) [])"

lemma verify_at_complete:
  "i < length ls \<Longrightarrow>
   verify_at \<lparr>ip_index = i, ip_size = length ls, ip_path = mth_path ls i\<rparr> (ls ! i) (mth ls)
     i (length ls)"
  using inclusion_run_path [of i ls "[]" "[]"]
  by (simp add: verify_at_def ip_recompute_def inclusion_run_loop)

lemma verify_at_sound:
  assumes "verify_at p leaf (mth ls) i (length ls)"
  shows "i < length ls \<and> leaf = ls ! i \<or> collides (ip_msgs p leaf) (mth_msgs ls)"
proof -
  obtain r ms where run: "inclusion_run i (length ls - 1) leaf (ip_path p) [] = (r, ms)"
    by fastforce
  then have "inclusion_loop i (length ls - 1) leaf (ip_path p) = r"
    using inclusion_run_loop by (metis fst_conv)
  then have "i < length ls" "r = Some (mth ls, [])" "ip_msgs p leaf = ms"
    using assms run
    by (auto simp: verify_at_def ip_recompute_def ip_msgs_def split: if_splits option.splits)
  with run have "i < length ls" "ip_msgs p leaf = ms"
    "inclusion_run i (length ls - 1) leaf (ip_path p) [] = (Some (mth ls, []), ms)" by simp_all
  then show ?thesis using inclusion_run_sound by blast
qed

subsection \<open>Consistency: what the two loops compute, and from which messages\<close>

type_synonym run2 = "(hash \<times> hash \<times> hash list) option \<times> bytes list"

function consistency_run ::
  "nat \<Rightarrow> nat \<Rightarrow> hash \<Rightarrow> hash \<Rightarrow> hash list \<Rightarrow> bytes list \<Rightarrow> run2" where
  "consistency_run node lst fr sr it ms =
     (if 0 < node then
        if odd node then
          (case it of [] \<Rightarrow> (None, ms)
           | x # it' \<Rightarrow> consistency_run (node div 2) (lst div 2) (node_hash x fr) (node_hash x sr) it'
                         (ms @ [node_msg x fr, node_msg x sr]))
        else if node < lst then
          (case it of [] \<Rightarrow> (None, ms)
           | x # it' \<Rightarrow> consistency_run (node div 2) (lst div 2) fr (node_hash sr x) it'
                         (ms @ [node_msg sr x]))
        else consistency_run (node div 2) (lst div 2) fr sr it ms
      else if 0 < lst then
        (case it of [] \<Rightarrow> (None, ms)
         | x # it' \<Rightarrow> consistency_run 0 (lst div 2) fr (node_hash sr x) it' (ms @ [node_msg sr x]))
      else (Some (fr, sr, it), ms))"
  by pat_completeness auto
termination
  by (relation "measures [\<lambda>(node, lst, fr, sr, it, ms). node, \<lambda>(node, lst, fr, sr, it, ms). lst]") auto

declare consistency_run.simps [simp del]

lemma consistency_run_walk:
  "fst (consistency_run node lst fr sr it ms) =
     (case walk_nodes node lst fr sr it of
        None \<Rightarrow> None
      | Some (lst', fr', sr', it') \<Rightarrow>
          (case walk_last lst' sr' it' of None \<Rightarrow> None | Some (sr'', it'') \<Rightarrow> Some (fr', sr'', it'')))"
proof (induction node lst fr sr it ms rule: consistency_run.induct)
  case (1 node lst fr sr it ms)
  show ?case
  proof (cases "node = 0")
    case True
    then have "walk_nodes node lst fr sr it = Some (lst, fr, sr, it)"
      by (simp add: walk_nodes.simps)
    moreover have "walk_nodes 0 l f s i = Some (l, f, s, i)" for l f s i
      by (simp add: walk_nodes.simps)
    ultimately show ?thesis
      using "1.IH"(4) True
      by (cases it) (simp_all add: consistency_run.simps [of 0 lst] walk_last.simps [of lst])
  next
    case False
    with "1.IH"(1-3) show ?thesis
      by (cases it)
         (simp_all add: consistency_run.simps [of node] walk_nodes.simps [of node])
  qed
qed

definition then_right :: "run2 \<Rightarrow> run2" where
  "then_right r =
     (case r of
        (Some (fr, sr, x # it), ms) \<Rightarrow> (Some (fr, node_hash sr x, it), ms @ [node_msg sr x])
      | (_, ms) \<Rightarrow> (None, ms))"

definition then_left :: "run2 \<Rightarrow> run2" where
  "then_left r =
     (case r of
        (Some (fr, sr, x # it), ms) \<Rightarrow>
          (Some (node_hash x fr, node_hash x sr, it), ms @ [node_msg x fr, node_msg x sr])
      | (_, ms) \<Rightarrow> (None, ms))"

lemma then_right_SomeD:
  assumes "then_right r = (Some (fr, sr', it), ms')"
  obtains sr x ms where "r = (Some (fr, sr, x # it), ms)" "sr' = node_hash sr x"
    "ms' = ms @ [node_msg sr x]"
  using assms by (auto simp: then_right_def split: prod.splits option.splits list.splits)

lemma then_left_SomeD:
  assumes "then_left r = (Some (fr', sr', it), ms')"
  obtains fr sr x ms where "r = (Some (fr, sr, x # it), ms)" "fr' = node_hash x fr"
    "sr' = node_hash x sr" "ms' = ms @ [node_msg x fr, node_msg x sr]"
  using assms by (auto simp: then_left_def split: prod.splits option.splits list.splits)

lemma consistency_run_zero [simp]: "consistency_run 0 0 fr sr it ms = (Some (fr, sr, it), ms)"
  by (simp add: consistency_run.simps)

lemma consistency_run_left:
  "node < 2 ^ h \<Longrightarrow> e < 2 ^ h \<Longrightarrow>
   consistency_run node (2 ^ h + e) fr sr it ms =
     then_right (consistency_run node (2 ^ h - 1) fr sr it ms)"
proof (induction h arbitrary: node e fr sr it ms)
  case 0
  then show ?case
    by (cases it) (simp_all add: consistency_run.simps [of 0 "Suc 0"] then_right_def)
next
  case (Suc h)
  define B F :: nat where "B = 2 ^ Suc h + e" and "F = 2 ^ Suc h - 1"
  have pos: "0 < (2::nat) ^ h" by simp
  then have halves: "B div 2 = 2 ^ h + e div 2" "F div 2 = 2 ^ h - 1" "0 < B" "0 < F" "node < B"
    using Suc.prems unfolding B_def F_def power_Suc by linarith+
  have "odd F" and "node \<le> F" using Suc.prems by (simp_all add: F_def)
  then have full: "even node \<Longrightarrow> node < F" by (metis le_neq_implies_less)
  have "node div 2 < 2 ^ h" "e div 2 < 2 ^ h" using Suc.prems by simp_all
  note IH = Suc.IH [OF this] Suc.IH [OF pos this(2)]
  have "consistency_run node B fr sr it ms = then_right (consistency_run node F fr sr it ms)"
  proof (cases "node = 0")
    case True
    then show ?thesis
      using halves
      by (cases it)
         (simp_all add: consistency_run.simps [of 0 B] consistency_run.simps [of 0 F] IH
            then_right_def)
  next
    case False
    then show ?thesis
      using halves full
      by (cases it)
         (auto simp: consistency_run.simps [of node B] consistency_run.simps [of node F] IH
            then_right_def)
  qed
  then show ?case by (simp add: B_def F_def)
qed

lemma consistency_run_right:
  "node \<le> lst \<Longrightarrow> lst < 2 ^ t \<Longrightarrow>
   consistency_run (node + 2 ^ t) (lst + 2 ^ t) fr sr it ms =
     then_left (consistency_run node lst fr sr it ms)"
proof (induction t arbitrary: node lst fr sr it ms)
  case 0
  then show ?case
    by (cases it) (simp_all add: consistency_run.simps [of "Suc 0"] then_left_def)
next
  case (Suc t)
  define N L where "N = node + 2 ^ Suc t" and "L = lst + 2 ^ Suc t"
  have halves: "N div 2 = node div 2 + 2 ^ t" "L div 2 = lst div 2 + 2 ^ t" "0 < N"
    "even N = even node" "N < L \<longleftrightarrow> node < lst"
    by (simp_all add: N_def L_def)
  have le: "node div 2 \<le> lst div 2" "lst div 2 < 2 ^ t" using Suc.prems by auto
  note IH = Suc.IH [OF le] Suc.IH [OF _ le(2), of 0, simplified]
  have "consistency_run N L fr sr it ms = then_left (consistency_run node lst fr sr it ms)"
  proof (cases "node = 0")
    case True
    then show ?thesis
      using halves IH(2)
      by (cases it; cases "lst = 0")
         (simp_all add: consistency_run.simps [of N L] consistency_run.simps [of 0 lst]
            then_left_def)
  next
    case False
    then show ?thesis
      using halves
      by (cases it)
         (simp_all add: consistency_run.simps [of N L] consistency_run.simps [of node lst] IH(1)
            then_left_def)
  qed
  then show ?case by (simp add: N_def L_def)
qed

subsection \<open>Climbing the right spine\<close>

lemma climb_spine_left:
  "x < 2 ^ h \<Longrightarrow> e < 2 ^ h \<Longrightarrow>
   \<exists>node g d. climb_spine x (2 ^ h + e) = (node, 2 ^ g + d) \<and> climb_spine x (2 ^ h - 1) = (node, 2 ^ g - 1)
     \<and> node < 2 ^ g \<and> d < 2 ^ g"
proof (induction h arbitrary: x e)
  case (Suc h)
  show ?case
  proof (cases "odd x")
    case True
    have "0 < (2::nat) ^ h" by simp
    then have "(2 ^ Suc h + e) div 2 = 2 ^ h + e div 2" "(2 ^ Suc h - 1) div 2 = (2 ^ h - 1 :: nat)"
      unfolding power_Suc by linarith+
    moreover have "x div 2 < 2 ^ h" "e div 2 < 2 ^ h" using Suc.prems by simp_all
    ultimately show ?thesis using Suc.IH True by (simp add: climb_spine.simps [of x])
  next
    case False
    with Suc.prems show ?thesis
      by (intro exI [of _ x] exI [of _ "Suc h"] exI [of _ e]) (simp add: climb_spine.simps [of x])
  qed
next
  case 0
  then show ?case
    by (intro exI [of _ 0]) (simp add: climb_spine.simps)
qed

lemma climb_spine_right:
  "x < y \<Longrightarrow> y < 2 ^ h \<Longrightarrow>
   \<exists>node lst t. climb_spine x y = (node, lst) \<and>
     climb_spine (x + 2 ^ h) (y + 2 ^ h) = (node + 2 ^ t, lst + 2 ^ t) \<and> node \<le> lst \<and> lst < 2 ^ t"
proof (induction h arbitrary: x y)
  case (Suc h)
  show ?case
  proof (cases "odd x")
    case True
    then have "x div 2 < y div 2" "y div 2 < 2 ^ h"
      using Suc.prems by (auto elim!: oddE)
    with Suc.IH [of "x div 2" "y div 2"] True show ?thesis
      by (simp add: climb_spine.simps [of x] climb_spine.simps [of "x + 2 * 2 ^ h"] add.commute)
  next
    case False
    with Suc.prems show ?thesis
      by (intro exI [of _ x] exI [of _ y] exI [of _ "Suc h"])
         (simp add: climb_spine.simps [of x] climb_spine.simps [of "x + 2 * 2 ^ h"])
  qed
qed simp

lemma climb_spine_full: "climb_spine (2 ^ h - 1) (2 ^ h - 1) = (0, 0)"
proof (induction h)
  case (Suc h)
  have "0 < (2::nat) ^ h" by simp
  then have "(2 ^ Suc h - 1) div 2 = (2 ^ h - 1 :: nat)" "odd (2 ^ Suc h - 1 :: nat)"
    unfolding power_Suc by (linarith, simp)
  with Suc show ?case by (subst climb_spine.simps) simp
qed (simp add: climb_spine.simps)

text \<open>
  From the sizes to the walk: the start, and whether the starting node is the old root itself.
\<close>

definition spine_run :: "nat \<Rightarrow> nat \<Rightarrow> hash \<Rightarrow> hash list \<Rightarrow> bytes list \<Rightarrow> run2" where
  "spine_run m n seed it ms =
     (case climb_spine (m - 1) (n - 1) of (node, lst) \<Rightarrow> consistency_run node lst seed seed it ms)"

definition seed_is_root :: "nat \<Rightarrow> nat \<Rightarrow> bool" where
  "seed_is_root m n \<longleftrightarrow> fst (climb_spine (m - 1) (n - 1)) = 0"

lemma spine_full:
  "spine_run (2 ^ h) (2 ^ h) seed it ms = (Some (seed, seed, it), ms)" "seed_is_root (2 ^ h) (2 ^ h)"
  using climb_spine_full [of h] by (simp_all add: spine_run_def seed_is_root_def)

lemma spine_left:
  assumes "2 ^ h < n" "n \<le> 2 * 2 ^ h" "0 < m" "m \<le> 2 ^ h"
  shows "spine_run m n seed it ms = then_right (spine_run m (2 ^ h) seed it ms)"
    and "seed_is_root m n \<longleftrightarrow> seed_is_root m (2 ^ h)"
proof -
  have "m - 1 < 2 ^ h" "n - 1 - 2 ^ h < 2 ^ h" "n - 1 = 2 ^ h + (n - 1 - 2 ^ h)"
    using assms by linarith+
  with climb_spine_left [of "m - 1" h "n - 1 - 2 ^ h"] obtain node g d where
    "climb_spine (m - 1) (n - 1) = (node, 2 ^ g + d)"
    "climb_spine (m - 1) (2 ^ h - 1) = (node, 2 ^ g - 1)" "node < 2 ^ g" "d < 2 ^ g"
    by metis
  then show "spine_run m n seed it ms = then_right (spine_run m (2 ^ h) seed it ms)"
    and "seed_is_root m n \<longleftrightarrow> seed_is_root m (2 ^ h)"
    using consistency_run_left [of node g d] by (simp_all add: spine_run_def seed_is_root_def)
qed

lemma spine_right:
  assumes "2 ^ h < n" "n \<le> 2 * 2 ^ h" "2 ^ h < m" "m < n"
  shows "spine_run m n seed it ms = then_left (spine_run (m - 2 ^ h) (n - 2 ^ h) seed it ms)"
    and "\<not> seed_is_root m n"
proof -
  let ?x = "m - 2 ^ h - 1" and ?y = "n - 2 ^ h - 1"
  have "?x < ?y" "?y < 2 ^ h" "m - 1 = ?x + 2 ^ h" "n - 1 = ?y + 2 ^ h"
    using assms by linarith+
  with climb_spine_right [of ?x ?y h] obtain node lst t where
    "climb_spine ?x ?y = (node, lst)" "climb_spine (m - 1) (n - 1) = (node + 2 ^ t, lst + 2 ^ t)"
    "node \<le> lst" "lst < 2 ^ t"
    by metis
  then show "spine_run m n seed it ms = then_left (spine_run (m - 2 ^ h) (n - 2 ^ h) seed it ms)"
    and "\<not> seed_is_root m n"
    using consistency_run_right [of node lst t] by (simp_all add: spine_run_def seed_is_root_def)
qed

lemma subproof_split:
  assumes "2 ^ h < length ls" "length ls \<le> 2 * 2 ^ h" "m < length ls"
  shows "subproof ls m b =
           (if m \<le> 2 ^ h then subproof (take (2 ^ h) ls) m b @ [mth (drop (2 ^ h) ls)]
            else subproof (drop (2 ^ h) ls) (m - 2 ^ h) False @ [mth (take (2 ^ h) ls)])"
proof -
  have "\<not> length ls < 2" using assms(1) one_le_power [of "2::nat" h] by linarith
  then show ?thesis
    using assms(3) split_unique [OF assms(1,2)] by (simp add: subproof.simps [of ls] Let_def)
qed

lemma mth_take_split:
  assumes "2 ^ h < m" "m \<le> 2 * 2 ^ h" "m \<le> length ls"
  shows "mth (take m ls) = node_hash (mth (take (2 ^ h) ls)) (mth (take (m - 2 ^ h) (drop (2 ^ h) ls)))"
  using mth_split [of h "take m ls"] assms by (simp add: min_def drop_take)

text \<open>
  The node list the tree sends is a seed followed by the nodes the walk consumes, and the walk
  from that seed arrives at both roots. The seed is left out exactly when it is the old root.
\<close>

definition sizes_fit :: "nat \<Rightarrow> nat \<Rightarrow> bool" where
  "sizes_fit m n \<longleftrightarrow> 0 < m \<and> (m < n \<or> (\<exists>h. n = 2 ^ h \<and> m = n))"

lemma spine_complete:
  "sizes_fit m (length ls) \<Longrightarrow>
   \<exists>seed tl. subproof ls m False = seed # tl \<and>
     subproof ls m True = (if seed_is_root m (length ls) then tl else seed # tl) \<and>
     (seed_is_root m (length ls) \<longrightarrow> seed = mth (take m ls)) \<and>
     (\<forall>rest ms. fst (spine_run m (length ls) seed (tl @ rest) ms) =
        Some (mth (take m ls), mth ls, rest))"
proof (induction "length ls" arbitrary: ls m rule: less_induct)
  case less
  show ?case
  proof (cases "m < length ls")
    case False
    with less.prems obtain h where "length ls = 2 ^ h" "m = 2 ^ h"
      by (auto simp: sizes_fit_def)
    then show ?thesis
      using spine_full [of h] by (intro exI [of _ "mth ls"] exI [of _ "[]"])
        (simp add: subproof.simps [of ls])
  next
    case lt: True
    moreover have "0 < m" using less.prems by (simp add: sizes_fit_def)
    ultimately have "2 \<le> length ls" by linarith
    then obtain h where h: "2 ^ h < length ls" "length ls \<le> 2 * 2 ^ h"
      using split_power by blast
    let ?l = "take (2 ^ h) ls" and ?r = "drop (2 ^ h) ls"
    show ?thesis
    proof (cases "m \<le> 2 ^ h")
      case True
      have "sizes_fit m (length ?l)" and len: "length ?l = 2 ^ h" "length ?l < length ls"
        using True h \<open>0 < m\<close> by (auto simp: sizes_fit_def)
      from less.hyps [OF len(2) this(1)] obtain seed tl where IH:
        "subproof ?l m False = seed # tl"
        "subproof ?l m True = (if seed_is_root m (2 ^ h) then tl else seed # tl)"
        "seed_is_root m (2 ^ h) \<longrightarrow> seed = mth (take m ?l)"
        "\<And>rest ms. fst (spine_run m (2 ^ h) seed (tl @ rest) ms) = Some (mth (take m ?l), mth ?l, rest)"
        unfolding len(1) by blast
      have "fst (spine_run m (length ls) seed ((tl @ [mth ?r]) @ rest) ms)
          = Some (mth (take m ls), mth ls, rest)" for rest ms
        using IH(4) [of "mth ?r # rest" ms] True
        by (cases "spine_run m (2 ^ h) seed (tl @ mth ?r # rest) ms")
           (simp add: spine_left [OF h \<open>0 < m\<close> True] then_right_def mth_split [OF h] min_def)
      then show ?thesis
        using IH(1-3) True
        by (intro exI [of _ seed] exI [of _ "tl @ [mth ?r]"])
           (simp add: subproof_split [OF h lt] spine_left [OF h \<open>0 < m\<close> True] min_def)
    next
      case False
      then have gt: "2 ^ h < m" by simp
      have "sizes_fit (m - 2 ^ h) (length ?r)" and len: "length ?r = length ls - 2 ^ h"
        "length ?r < length ls"
        using gt lt h by (auto simp: sizes_fit_def)
      from less.hyps [OF len(2) this(1)] obtain seed tl where IH:
        "subproof ?r (m - 2 ^ h) False = seed # tl"
        "\<And>rest ms. fst (spine_run (m - 2 ^ h) (length ls - 2 ^ h) seed (tl @ rest) ms)
           = Some (mth (take (m - 2 ^ h) ?r), mth ?r, rest)"
        unfolding len(1) by blast
      have "m \<le> 2 * 2 ^ h" "m \<le> length ls" using lt h by simp_all
      note roots = mth_take_split [OF gt this] mth_split [OF h]
      have "fst (spine_run m (length ls) seed ((tl @ [mth ?l]) @ rest) ms)
          = Some (mth (take m ls), mth ls, rest)" for rest ms
        using IH(2) [of "mth ?l # rest" ms]
        by (cases "spine_run (m - 2 ^ h) (length ls - 2 ^ h) seed (tl @ mth ?l # rest) ms")
           (simp add: spine_right [OF h gt lt] then_left_def roots)
      then show ?thesis
        using IH(1) gt
        by (intro exI [of _ seed] exI [of _ "tl @ [mth ?l]"])
           (simp add: subproof_split [OF h lt] spine_right [OF h gt lt])
    qed
  qed
qed

text \<open>
  Conversely, a walk that arrives at the root of a tree has computed, on the other accumulator,
  the root of the tree's own prefix.
\<close>

lemma spine_sound:
  "sizes_fit m (length ls) \<Longrightarrow>
   spine_run m (length ls) seed it ms0 = (Some (fr, mth ls, rest), ms) \<Longrightarrow>
   \<not> collides ms (mth_msgs ls) \<Longrightarrow> fr = mth (take m ls)"
proof (induction "length ls" arbitrary: ls m fr rest ms rule: less_induct)
  case less
  show ?case
  proof (cases "m < length ls")
    case False
    with less.prems(1) obtain h where "length ls = 2 ^ h" "m = 2 ^ h"
      by (auto simp: sizes_fit_def)
    with less.prems(2) show ?thesis by (auto simp: spine_full)
  next
    case lt: True
    moreover have "0 < m" using less.prems by (simp add: sizes_fit_def)
    ultimately have "2 \<le> length ls" by linarith
    then obtain h where h: "2 ^ h < length ls" "length ls \<le> 2 * 2 ^ h"
      using split_power by blast
    let ?l = "take (2 ^ h) ls" and ?r = "drop (2 ^ h) ls"
    show ?thesis
    proof (cases "m \<le> 2 ^ h")
      case True
      have fit: "sizes_fit m (length ?l)" and len: "length ?l = 2 ^ h" "length ?l < length ls"
        using True h \<open>0 < m\<close> by (auto simp: sizes_fit_def)
      from less.prems(2) have "then_right (spine_run m (2 ^ h) seed it ms0) = (Some (fr, mth ls, rest), ms)"
        by (simp add: spine_left [OF h \<open>0 < m\<close> True])
      then obtain sr x ms' where r: "spine_run m (2 ^ h) seed it ms0 = (Some (fr, sr, x # rest), ms')"
        "mth ls = node_hash sr x" "ms = ms' @ [node_msg sr x]"
        by (rule then_right_SomeD)
      then have "node_hash sr x = mth ls" "node_msg sr x \<in> set ms" by simp_all
      note step = node_hash_eq_mth [OF h this less.prems(3)]
      have "\<not> collides ms' (mth_msgs ?l)" using step(2) r(3) by (auto intro: collides_mono)
      with step(1) r(1) have "fr = mth (take m ?l)"
        by (intro less.hyps [OF len(2) fit, of fr "x # rest" ms']) (simp_all only: len(1) not_False_eq_True)
      with True show ?thesis by (simp add: min_def)
    next
      case False
      then have gt: "2 ^ h < m" by simp
      have fit: "sizes_fit (m - 2 ^ h) (length ?r)" and len: "length ?r = length ls - 2 ^ h"
        "length ?r < length ls"
        using gt lt h by (auto simp: sizes_fit_def)
      from less.prems(2) have "then_left (spine_run (m - 2 ^ h) (length ls - 2 ^ h) seed it ms0)
          = (Some (fr, mth ls, rest), ms)"
        by (simp add: spine_right [OF h gt lt])
      then obtain fr' sr x ms' where
        r: "spine_run (m - 2 ^ h) (length ls - 2 ^ h) seed it ms0 = (Some (fr', sr, x # rest), ms')"
        "fr = node_hash x fr'" "mth ls = node_hash x sr" "ms = ms' @ [node_msg x fr', node_msg x sr]"
        by (rule then_left_SomeD)
      then have "node_hash x sr = mth ls" "node_msg x sr \<in> set ms" by simp_all
      note step = node_hash_eq_mth [OF h this less.prems(3)]
      have "\<not> collides ms' (mth_msgs ?r)" using step(3) r(4) by (auto intro: collides_mono)
      with step(1) r(1) have "fr' = mth (take (m - 2 ^ h) ?r)"
        by (intro less.hyps [OF len(2) fit, of fr' "x # rest" ms']) (simp_all only: len(1) not_False_eq_True)
      moreover have "m \<le> 2 * 2 ^ h" "m \<le> length ls" using lt h by simp_all
      ultimately show ?thesis using step(1) r(2) mth_take_split [OF gt] by simp
    qed
  qed
qed

text \<open>The messages a whole consistency check hashes.\<close>

definition cp_msgs :: "ConsistencyProof \<Rightarrow> hash \<Rightarrow> bytes list" where
  "cp_msgs p old_root =
     (if seed_is_root (cp_old_size p) (cp_new_size p)
      then snd (spine_run (cp_old_size p) (cp_new_size p) old_root (cp_nodes p) [])
      else (case cp_nodes p of
              [] \<Rightarrow> []
            | first # it \<Rightarrow> snd (spine_run (cp_old_size p) (cp_new_size p) first it [])))"

lemma cp_recompute_run:
  assumes "0 < cp_old_size p" "cp_old_size p < cp_new_size p"
  shows "cp_recompute p old_root new_root \<longleftrightarrow>
    (\<exists>seed it. (if seed_is_root (cp_old_size p) (cp_new_size p)
                then seed = old_root \<and> it = cp_nodes p else cp_nodes p = seed # it) \<and>
       spine_run (cp_old_size p) (cp_new_size p) seed it [] = (Some (old_root, new_root, []), cp_msgs p old_root))"
proof -
  let ?m = "cp_old_size p" and ?n = "cp_new_size p"
  obtain node lst where c: "climb_spine (?m - Suc 0) (?n - Suc 0) = (node, lst)" by fastforce
  have run: "(case walk_nodes node lst seed seed it of None \<Rightarrow> False
       | Some (lst, fr, sr, it) \<Rightarrow>
           (case walk_last lst sr it of None \<Rightarrow> False
            | Some (sr, it) \<Rightarrow> it = [] \<and> digests_equal fr old_root \<and> digests_equal sr new_root))
     \<longleftrightarrow> fst (spine_run ?m ?n seed it []) = Some (old_root, new_root, [])" for seed it
    by (auto simp: spine_run_def c consistency_run_walk split: option.splits)
  have pair: "fst r = Some a \<longleftrightarrow> r = (Some a, snd r)" for r :: run2 and a
    by (cases r) auto
  have "cp_recompute p old_root new_root \<longleftrightarrow>
    (if node = 0 then fst (spine_run ?m ?n old_root (cp_nodes p) []) = Some (old_root, new_root, [])
     else case cp_nodes p of [] \<Rightarrow> False
          | first # it \<Rightarrow> fst (spine_run ?m ?n first it []) = Some (old_root, new_root, []))"
    using assms run [symmetric]
    by (cases "node = 0"; cases "cp_nodes p") (simp_all add: cp_recompute_def c)
  then show ?thesis
    by (auto simp: seed_is_root_def c cp_msgs_def pair split: list.splits)
qed

lemma verify_between_complete:
  assumes "0 < m" "m \<le> length ls"
  shows "verify_between \<lparr>cp_old_size = m, cp_new_size = length ls, cp_nodes = subproof ls m True\<rparr>
           (mth (take m ls)) m (mth ls) (length ls)"
proof (cases "m = length ls")
  case True
  with assms show ?thesis
    by (simp add: verify_between_def cp_recompute_def subproof.simps [of ls])
next
  case False
  then have lt: "m < length ls" and "sizes_fit m (length ls)"
    using assms by (auto simp: sizes_fit_def)
  from spine_complete [OF this(2)] obtain seed tl where s:
    "subproof ls m True = (if seed_is_root m (length ls) then tl else seed # tl)"
    "seed_is_root m (length ls) \<longrightarrow> seed = mth (take m ls)"
    "fst (spine_run m (length ls) seed tl []) = Some (mth (take m ls), mth ls, [])"
    by (metis append_Nil2)
  let ?p = "\<lparr>cp_old_size = m, cp_new_size = length ls, cp_nodes = subproof ls m True\<rparr>"
  have "spine_run m (length ls) seed tl [] =
      (Some (mth (take m ls), mth ls, []), cp_msgs ?p (mth (take m ls)))"
    using s by (cases "spine_run m (length ls) seed tl []") (auto simp: cp_msgs_def)
  then have "cp_recompute ?p (mth (take m ls)) (mth ls)"
    using s(1,2) lt assms by (subst cp_recompute_run) auto
  then show ?thesis by (simp add: verify_between_def)
qed

lemma verify_between_sound:
  assumes "verify_between p old_root m (mth ls) (length ls)"
  shows "0 < m \<and> m \<le> length ls \<and> old_root = mth (take m ls) \<or>
         collides (cp_msgs p old_root) (mth_msgs ls)"
proof -
  have v: "cp_old_size p = m" "cp_new_size p = length ls" "cp_recompute p old_root (mth ls)"
    using assms by (simp_all add: verify_between_def)
  then have m: "0 < m" "m \<le> length ls" by (auto simp: cp_recompute_def split: if_splits)
  show ?thesis
  proof (cases "m = length ls")
    case True
    with v m show ?thesis by (simp add: cp_recompute_def)
  next
    case False
    with m have lt: "m < length ls" by simp
    with m v obtain seed it where
      "spine_run m (length ls) seed it [] = (Some (old_root, mth ls, []), cp_msgs p old_root)"
      by (auto simp: cp_recompute_run)
    moreover have "sizes_fit m (length ls)" using m lt by (simp add: sizes_fit_def)
    ultimately show ?thesis using m spine_sound by blast
  qed
qed

subsection \<open>The interface the levels above rely on\<close>

text \<open>
  What an index, a shard and a store need of a committed list: a proof for every position that
  checks, and a check that binds the position to the committed element unless it is \<open>broken\<close>
  (exhibits a collision). The clients below are proved from these two laws only.
\<close>

locale authenticated_list =
  fixes commit :: "hash list \<Rightarrow> hash"
    and prove :: "hash list \<Rightarrow> nat \<Rightarrow> 'p"
    and check :: "'p \<Rightarrow> hash \<Rightarrow> hash \<Rightarrow> nat \<Rightarrow> nat \<Rightarrow> bool"
    and broken :: "'p \<Rightarrow> hash \<Rightarrow> hash list \<Rightarrow> bool"
  assumes check_prove: "i < length ls \<Longrightarrow> check (prove ls i) (ls ! i) (commit ls) i (length ls)"
    and check_binds: "check p leaf (commit ls) i (length ls) \<Longrightarrow> \<not> broken p leaf ls \<Longrightarrow>
      i < length ls \<and> leaf = ls ! i"
begin

text \<open>Consecutive positions: the checked leaves are a slice of the committed list.\<close>

lemma check_slice:
  assumes "length ps = length xs"
    and "\<And>k. k < length xs \<Longrightarrow> check (ps ! k) (xs ! k) (commit ls) (first + k) (length ls)"
    and "\<And>k. k < length xs \<Longrightarrow> \<not> broken (ps ! k) (xs ! k) ls"
  shows "xs = take (length xs) (drop first ls)"
    and "xs \<noteq> [] \<Longrightarrow> first + length xs \<le> length ls"
proof -
  have k: "first + k < length ls \<and> xs ! k = ls ! (first + k)" if "k < length xs" for k
    using check_binds [OF assms(2) assms(3)] that by blast
  show len: "first + length xs \<le> length ls" if "xs \<noteq> []"
    using k [of "length xs - 1"] that by (cases xs) auto
  show "xs = take (length xs) (drop first ls)"
  proof (cases "xs = []")
    case False
    then show ?thesis using k len by (intro nth_equalityI) auto
  qed simp
qed

text \<open>One proof for every position, and all of them: the checked list is the committed one.\<close>

lemma check_all:
  assumes "length ps = length ls" "length xs = length ls"
    and "\<And>k. k < length ls \<Longrightarrow> check (ps ! k) (xs ! k) (commit ls) k (length ls)"
    and "\<And>k. k < length ls \<Longrightarrow> \<not> broken (ps ! k) (xs ! k) ls"
  shows "xs = ls"
  using check_slice [of ps xs ls 0] assms by simp

end

definition ip_broken :: "InclusionProof \<Rightarrow> hash \<Rightarrow> hash list \<Rightarrow> bool" where
  "ip_broken p leaf ls \<longleftrightarrow> collides (ip_msgs p leaf) (mth_msgs ls)"

definition path_proof :: "hash list \<Rightarrow> nat \<Rightarrow> InclusionProof" where
  "path_proof ls i = \<lparr>ip_index = i, ip_size = length ls, ip_path = mth_path ls i\<rparr>"

interpretation merkle: authenticated_list mth path_proof verify_at ip_broken
proof unfold_locales
  show "verify_at (path_proof ls i) (ls ! i) (mth ls) i (length ls)" if "i < length ls" for i ls
    using that verify_at_complete by (simp add: path_proof_def)
  show "i < length ls \<and> leaf = ls ! i"
    if "verify_at p leaf (mth ls) i (length ls)" "\<not> ip_broken p leaf ls" for p leaf ls i
    using that verify_at_sound unfolding ip_broken_def by blast
qed

lemma inclusion_proof_path:
  "i < length (leaves t) \<Longrightarrow> inclusion_proof t i (length (leaves t)) = Some (path_proof (leaves t) i)"
  by (simp add: inclusion_proof_def path_proof_def)

subsection \<open>Properties\<close>

text \<open>A tree to which the data items have been pushed one after another.\<close>

definition push_all :: "bytes list \<Rightarrow> MerkleTree" where
  "push_all ds = foldl (\<lambda>t d. fst (push_data t d)) MerkleTree_new ds"

lemma leaves_push_all: "leaves (push_all ds) = map leaf_hash ds"
proof -
  have "leaves (foldl (\<lambda>t d. fst (push_data t d)) t ds) = leaves t @ map leaf_hash ds" for t
    by (induction ds arbitrary: t) (simp_all add: push_data_def push_leaf_def)
  then show ?thesis by (simp add: push_all_def MerkleTree_new_def)
qed

text \<open>
  Every proof the tree produces is accepted by the verifier against the root of the size it
  was produced for, for every position and every size up to the current one.
\<close>

theorem inclusion_proof_verifies:
  assumes "i < n" "n \<le> tree_len t"
  shows "\<exists>p leaf r. inclusion_proof t i n = Some p \<and> tree_leaf t i = Some leaf \<and>
           root_at t n = Some r \<and> verify_at p leaf r i n"
  using verify_at_complete [of i "take n (leaves t)"] assms
  by (simp add: inclusion_proof_def tree_leaf_def root_at_def tree_len_def)

theorem inclusion_proof_verifies_witness:
  "\<exists>p leaf r. inclusion_proof (from_leaf_hashes [1, 2, 3, 4, 5]) 3 4 = Some p \<and>
     tree_leaf (from_leaf_hashes [1, 2, 3, 4, 5]) 3 = Some leaf \<and>
     root_at (from_leaf_hashes [1, 2, 3, 4, 5]) 4 = Some r \<and> verify_at p leaf r 3 4"
  by (rule inclusion_proof_verifies) (simp_all add: tree_len_def from_leaf_hashes_def)

text \<open>
  C16. An inclusion proof that verifies against the root of a tree is about that tree: the data it
  is presented with is the data pushed at that position, or the verifier and the tree hashed two
  different messages to one digest. The proof, its path and its declared size are arbitrary.
\<close>

theorem inclusion_binds_data:
  assumes "verify_at p (leaf_hash data) (root (push_all ds)) i (tree_len (push_all ds))"
  shows "i < length ds \<and> data = ds ! i \<or>
         collides (leaf_msg data # ip_msgs p (leaf_hash data))
                  (map leaf_msg ds @ mth_msgs (map leaf_hash ds))"
proof -
  from assms verify_at_sound [of p "leaf_hash data" "map leaf_hash ds" i]
  consider "i < length ds" "leaf_hash data = leaf_hash (ds ! i)"
    | "collides (ip_msgs p (leaf_hash data)) (mth_msgs (map leaf_hash ds))"
    by (auto simp: root_def tree_len_def leaves_push_all)
  then show ?thesis
  proof cases
    case 1
    then have "ds ! i \<in> set ds" "Sha384_digest (leaf_msg data) = Sha384_digest (leaf_msg (ds ! i))"
      by (simp_all add: leaf_hash_digest)
    with 1(1) show ?thesis by (auto simp: collides_def leaf_msg_def)
  qed (auto intro: collides_mono)
qed

theorem inclusion_binds_data_witness:
  "1 < length [[7], [8::u8]] \<and> [8::u8] = [[7], [8]] ! 1 \<or>
   collides (leaf_msg [8] # ip_msgs (path_proof (map leaf_hash [[7], [8]]) 1) (leaf_hash [8]))
            (map leaf_msg [[7], [8]] @ mth_msgs (map leaf_hash [[7], [8]]))"
proof (rule inclusion_binds_data)
  show "verify_at (path_proof (map leaf_hash [[7], [8]]) 1) (leaf_hash [8])
          (root (push_all [[7], [8]])) 1 (tree_len (push_all [[7], [8]]))"
    using merkle.check_prove [of 1 "map leaf_hash [[7], [8]]"]
    by (simp add: root_def tree_len_def leaves_push_all)
qed

text \<open>
  Every consistency proof the tree produces between two of its sizes is accepted against the
  two roots of those sizes.
\<close>

theorem consistency_proof_verifies:
  assumes "0 < m" "m \<le> n" "n \<le> tree_len t"
  shows "\<exists>p ro rn. consistency_proof t m n = Some p \<and> root_at t m = Some ro \<and>
           root_at t n = Some rn \<and> verify_between p ro m rn n"
  using verify_between_complete [of m "take n (leaves t)"] assms
  by (simp add: consistency_proof_def root_at_def tree_len_def min_absorb1 min_absorb2)

theorem consistency_proof_verifies_witness:
  "\<exists>p ro rn. consistency_proof (from_leaf_hashes [1, 2, 3, 4, 5, 6, 7]) 3 7 = Some p \<and>
     root_at (from_leaf_hashes [1, 2, 3, 4, 5, 6, 7]) 3 = Some ro \<and>
     root_at (from_leaf_hashes [1, 2, 3, 4, 5, 6, 7]) 7 = Some rn \<and> verify_between p ro 3 rn 7"
  by (rule consistency_proof_verifies) (simp_all add: tree_len_def from_leaf_hashes_def)

text \<open>
  C17. Append-only: a consistency proof that verifies between a remembered root and the root of a
  tree shows that the remembered root is the tree's own root at the remembered size, so that the
  first leaves are unchanged, or a collision is exhibited.
\<close>

theorem consistency_is_append_only:
  assumes "verify_between p old_root m (root t) (tree_len t)"
  shows "0 < m \<and> root_at t m = Some old_root \<or> collides (cp_msgs p old_root) (mth_msgs (leaves t))"
  using verify_between_sound [of p old_root m "leaves t"] assms
  by (auto simp: root_def tree_len_def root_at_def)

theorem consistency_is_append_only_witness:
  "0 < (3::nat) \<and> root_at (from_leaf_hashes [1, 2, 3, 4, 5]) 3 = Some (mth [1, 2, 3]) \<or>
   collides (cp_msgs \<lparr>cp_old_size = 3, cp_new_size = 5, cp_nodes = subproof [1, 2, 3, 4, 5] 3 True\<rparr>
               (mth [1, 2, 3]))
     (mth_msgs (leaves (from_leaf_hashes [1, 2, 3, 4, 5])))"
  by (rule consistency_is_append_only)
     (use verify_between_complete [of 3 "[1, 2, 3, 4, 5]"] in
      \<open>simp add: root_def tree_len_def from_leaf_hashes_def eval_nat_numeral\<close>)

end
