(* ===== verification/Ids.thy ===== *)
theory Ids
  imports Sha384
begin

text \<open>
  The values a record is made of: hexadecimal digests (\<open>crates/trailryx-record/src/hash.rs\<close>),
  constrained tokens (\<open>ids.rs\<close>) and the trusted and untrusted clocks (\<open>time.rs\<close>).

  A Rust \<open>str\<close> is the list of its UTF-8 bytes; \<open>from_utf8\<close> and \<open>char_indices\<close> are modelled with
  the decoder below, and a \<open>char\<close> is its code point. A token type is a newtype around \<open>String\<close>
  whose only constructor is \<open>parse\<close>; here it is the byte list, and \<open>token_ok\<close> is what the type
  promises. The results: which strings each constructor accepts, exactly, and what the strict
  constructors add; the hexadecimal round trip; the clock comparison.
\<close>

subsection \<open>Strings\<close>

type_synonym str = bytes

definition is_cont :: "u8 \<Rightarrow> bool" where
  "is_cont b \<longleftrightarrow> 0x80 \<le> unat b \<and> unat b \<le> 0xBF"

text \<open>The first character of a byte string with its width in bytes, if it is well-formed UTF-8.\<close>

definition utf8_first :: "bytes \<Rightarrow> (nat \<times> nat) option" where
  "utf8_first bs =
     (case bs of
        [] \<Rightarrow> None
      | b0 # r0 \<Rightarrow>
          let n0 = unat b0 in
          if n0 < 0x80 then Some (n0, 1)
          else (case r0 of
             [] \<Rightarrow> None
           | b1 # r1 \<Rightarrow>
               let n1 = unat b1 in
               if 0xC2 \<le> n0 \<and> n0 \<le> 0xDF then
                 (if is_cont b1 then Some ((n0 - 0xC0) * 64 + (n1 - 0x80), 2) else None)
               else (case r1 of
                  [] \<Rightarrow> None
                | b2 # r2 \<Rightarrow>
                    let n2 = unat b2 in
                    if 0xE0 \<le> n0 \<and> n0 \<le> 0xEF then
                      (if is_cont b1 \<and> is_cont b2 \<and> (n0 = 0xE0 \<longrightarrow> 0xA0 \<le> n1) \<and>
                          (n0 = 0xED \<longrightarrow> n1 \<le> 0x9F)
                       then Some (((n0 - 0xE0) * 64 + (n1 - 0x80)) * 64 + (n2 - 0x80), 3)
                       else None)
                    else (case r2 of
                       [] \<Rightarrow> None
                     | b3 # _ \<Rightarrow>
                         if 0xF0 \<le> n0 \<and> n0 \<le> 0xF4 \<and> is_cont b1 \<and> is_cont b2 \<and> is_cont b3 \<and>
                            (n0 = 0xF0 \<longrightarrow> 0x90 \<le> n1) \<and> (n0 = 0xF4 \<longrightarrow> n1 \<le> 0x8F)
                         then Some ((((n0 - 0xF0) * 64 + (n1 - 0x80)) * 64 + (n2 - 0x80)) * 64
                                    + (unat b3 - 0x80), 4)
                         else None))))"

lemma utf8_first_width: "utf8_first bs = Some (c, w) \<Longrightarrow> 0 < w \<and> bs \<noteq> []"
  by (auto simp: utf8_first_def Let_def split: list.splits if_splits)

text \<open>
  \<open>char_indices\<close>: each character with the offset of its first byte; \<open>None\<close> when the bytes are
  not UTF-8.
\<close>

function utf8_chars :: "nat \<Rightarrow> bytes \<Rightarrow> (nat \<times> nat) list option" where
  "utf8_chars at bs =
     (if bs = [] then Some []
      else case utf8_first bs of
             None \<Rightarrow> None
           | Some (c, w) \<Rightarrow> map_option ((#) (at, c)) (utf8_chars (at + w) (drop w bs)))"
  by auto

termination
  by (relation "measure (length \<circ> snd)") (auto dest: utf8_first_width)

declare utf8_chars.simps [simp del]

definition utf8_valid :: "bytes \<Rightarrow> bool" where
  "utf8_valid bs \<longleftrightarrow> utf8_chars 0 bs \<noteq> None"

definition char_indices :: "str \<Rightarrow> (nat \<times> nat) list" where
  "char_indices s = (case utf8_chars 0 s of Some cs \<Rightarrow> cs | None \<Rightarrow> [])"

lemma utf8_first_ascii:
  "unat b < 0x80 \<Longrightarrow> utf8_first (b # bs) = Some (unat b, 1)"
  by (simp add: utf8_first_def)

text \<open>A character below 128 is one byte, and only such a character is.\<close>

lemma utf8_first_small:
  assumes "utf8_first bs = Some (c, w)" "c < 0x80"
  shows "w = 1 \<and> hd bs = of_nat c"
  using assms
  by (auto simp: utf8_first_def Let_def is_cont_def split: list.splits if_splits)

lemma utf8_chars_Cons_ascii:
  "unat b < 0x80 \<Longrightarrow>
   utf8_chars at (b # bs) = map_option ((#) (at, unat b)) (utf8_chars (Suc at) bs)"
  by (subst utf8_chars.simps) (simp add: utf8_first_ascii)

text \<open>
  A string all of whose characters are ASCII has one character per byte, at its own offset.
\<close>

lemma utf8_chars_ascii:
  "\<forall>b \<in> set bs. unat b < 0x80 \<Longrightarrow>
   utf8_chars at bs = Some (zip [at ..< at + length bs] (map unat bs))"
proof (induction bs arbitrary: at)
  case Nil
  then show ?case by (simp add: utf8_chars.simps)
next
  case (Cons b bs)
  then show ?case
    by (simp add: utf8_chars_Cons_ascii upt_conv_Cons del: upt_Suc)
qed

lemma utf8_chars_small_bytes:
  assumes "utf8_chars at bs = Some cs" "\<forall>(k, c) \<in> set cs. c < 0x80"
  shows "\<forall>b \<in> set bs. unat b < 0x80"
  using assms
proof (induction at bs arbitrary: cs rule: utf8_chars.induct)
  case (1 at bs)
  show ?case
  proof (cases "bs = []")
    case False
    with "1.prems"(1) obtain c w cs' where
      f: "utf8_first bs = Some (c, w)" "utf8_chars (at + w) (drop w bs) = Some cs'"
        "cs = (at, c) # cs'"
      by (subst (asm) utf8_chars.simps) (auto split: option.splits)
    then have c: "c < 0x80" using "1.prems"(2) by simp
    then have w: "w = 1" "hd bs = of_nat c" using utf8_first_small [OF f(1)] by simp_all
    have "\<forall>b \<in> set (drop w bs). unat b < 0x80"
      using "1.IH" [OF False f(1) _ f(2)] f(3) "1.prems"(2) by simp
    moreover have "unat (hd bs) < 0x80" using w c by (simp add: unat_of_nat)
    ultimately show ?thesis using w(1) False by (cases bs) simp_all
  qed simp
qed

subsection \<open>Tokens\<close>

datatype IdError =
    IdEmpty
  | TooLong nat nat
  | BadChar nat nat
  | BadShape string

definition segment_char :: "nat \<Rightarrow> bool" where
  "segment_char c \<longleftrightarrow>
     0x61 \<le> c \<and> c \<le> 0x7A \<or> 0x30 \<le> c \<and> c \<le> 0x39 \<or> c = 0x2E \<or> c = 0x5F \<or> c = 0x2D"

definition uri_char :: "nat \<Rightarrow> bool" where
  "uri_char c \<longleftrightarrow> segment_char c \<or> c = 0x2F \<or> c = 0x3A"

definition model_char :: "nat \<Rightarrow> bool" where
  "model_char c \<longleftrightarrow> segment_char c \<or> c = 0x2F"

definition check :: "str \<Rightarrow> nat \<Rightarrow> (nat \<Rightarrow> bool) \<Rightarrow> IdError + unit" where
  "check s max_bytes allowed =
     (if s = [] then Inl IdEmpty
      else if max_bytes < length s then Inl (TooLong max_bytes (length s))
      else case find (\<lambda>(at, ch). \<not> allowed ch) (char_indices s) of
             Some (at, ch) \<Rightarrow> Inl (BadChar at ch)
           | None \<Rightarrow> Inr ())"

text \<open>The body the \<open>token!\<close> macro gives every token type's \<open>parse\<close>.\<close>

definition parse_token :: "nat \<Rightarrow> (nat \<Rightarrow> bool) \<Rightarrow> str \<Rightarrow> IdError + str" where
  "parse_token max_bytes allowed s = bind_res (check s max_bytes allowed) (\<lambda>_. Inr s)"

type_synonym AgentId = str
type_synonym PrincipalId = str
type_synonym RunId = str
type_synonym PolicyVersion = str
type_synonym TokenId = str
type_synonym KeyThumbprint = str
type_synonym IssuerId = str
type_synonym ModelId = str
type_synonym ToolName = str
type_synonym TenantId = str

definition AgentId_parse :: "str \<Rightarrow> IdError + AgentId" where
  "AgentId_parse = parse_token 255 uri_char"

definition PrincipalId_parse :: "str \<Rightarrow> IdError + PrincipalId" where
  "PrincipalId_parse = parse_token 255 uri_char"

definition RunId_parse :: "str \<Rightarrow> IdError + RunId" where
  "RunId_parse = parse_token 64 segment_char"

definition PolicyVersion_parse :: "str \<Rightarrow> IdError + PolicyVersion" where
  "PolicyVersion_parse = parse_token 64 segment_char"

definition TokenId_parse :: "str \<Rightarrow> IdError + TokenId" where
  "TokenId_parse = parse_token 128 segment_char"

definition KeyThumbprint_parse :: "str \<Rightarrow> IdError + KeyThumbprint" where
  "KeyThumbprint_parse = parse_token 128 segment_char"

definition IssuerId_parse :: "str \<Rightarrow> IdError + IssuerId" where
  "IssuerId_parse = parse_token 255 uri_char"

definition ModelId_parse :: "str \<Rightarrow> IdError + ModelId" where
  "ModelId_parse = parse_token 128 model_char"

definition ToolName_parse :: "str \<Rightarrow> IdError + ToolName" where
  "ToolName_parse = parse_token 64 segment_char"

definition TenantId_parse :: "str \<Rightarrow> IdError + TenantId" where
  "TenantId_parse = parse_token 64 segment_char"

lemmas token_parsers = AgentId_parse_def PrincipalId_parse_def RunId_parse_def
  PolicyVersion_parse_def TokenId_parse_def KeyThumbprint_parse_def IssuerId_parse_def
  ModelId_parse_def ToolName_parse_def TenantId_parse_def

subsection \<open>Strict constructors\<close>

definition strip_prefix :: "str \<Rightarrow> str \<Rightarrow> str option" where
  "strip_prefix pre s = (if take (length pre) s = pre then Some (drop (length pre) s) else None)"

text \<open>\<open>split_once\<close>: the parts before and after the first occurrence.\<close>

fun split_once :: "u8 \<Rightarrow> str \<Rightarrow> (str \<times> str) option" where
  "split_once c [] = None"
| "split_once c (b # bs) =
     (if b = c then Some ([], bs) else map_option (\<lambda>(x, y). (b # x, y)) (split_once c bs))"

definition slash :: u8 where
  "slash = 0x2F"

definition ok_or :: "'e \<Rightarrow> 'a option \<Rightarrow> 'e + 'a" where
  "ok_or e x = (case x of None \<Rightarrow> Inl e | Some y \<Rightarrow> Inr y)"

definition domain_and_path :: "str \<Rightarrow> str \<Rightarrow> IdError + str" where
  "domain_and_path ident rest =
     bind_res (ok_or (BadShape ''must have a path after the trust domain'') (split_once slash rest))
       (\<lambda>(dom, path).
          if dom = [] then Inl (BadShape ''empty trust domain'')
          else if path = [] then Inl (BadShape ''empty path'')
          else Inr ident)"

definition AgentId_parse_strict :: "str \<Rightarrow> IdError + AgentId" where
  "AgentId_parse_strict s =
     bind_res (AgentId_parse s) (\<lambda>ident.
     bind_res (ok_or (BadShape ''must start with agent://'') (strip_prefix (ascii ''agent://'') ident))
       (\<lambda>rest. domain_and_path ident rest))"

definition find_map :: "('a \<Rightarrow> 'b option) \<Rightarrow> 'a list \<Rightarrow> 'b option" where
  "find_map f xs = (case dropWhile (\<lambda>x. f x = None) xs of [] \<Rightarrow> None | x # _ \<Rightarrow> f x)"

definition PrincipalId_parse_strict :: "str \<Rightarrow> IdError + PrincipalId" where
  "PrincipalId_parse_strict s =
     bind_res (PrincipalId_parse s) (\<lambda>ident.
     bind_res
       (ok_or (BadShape ''must start with agent:// or user://'')
         (find_map (\<lambda>scheme. strip_prefix scheme ident) [ascii ''agent://'', ascii ''user://'']))
       (\<lambda>rest. domain_and_path ident rest))"

subsection \<open>What the constructors accept\<close>

definition token_ok :: "nat \<Rightarrow> (nat \<Rightarrow> bool) \<Rightarrow> str \<Rightarrow> bool" where
  "token_ok max_bytes allowed s \<longleftrightarrow>
     s \<noteq> [] \<and> length s \<le> max_bytes \<and> (\<forall>b \<in> set s. allowed (unat b))"

lemma char_classes_ascii:
  "segment_char c \<Longrightarrow> c < 0x80" "uri_char c \<Longrightarrow> c < 0x80" "model_char c \<Longrightarrow> c < 0x80"
  by (auto simp: segment_char_def uri_char_def model_char_def)

lemma char_indices_ascii:
  "\<forall>b \<in> set s. unat b < 0x80 \<Longrightarrow> char_indices s = zip [0 ..< length s] (map unat s)"
  by (simp add: char_indices_def utf8_chars_ascii)

lemma utf8_valid_ascii: "\<forall>b \<in> set s. unat b < 0x80 \<Longrightarrow> utf8_valid s"
  by (simp add: utf8_valid_def utf8_chars_ascii)

lemma set_zip_snd:
  "length xs = length ys \<Longrightarrow> (\<forall>(x, y) \<in> set (zip xs ys). P y) \<longleftrightarrow> (\<forall>y \<in> set ys. P y)"
  by (induction xs ys rule: list_induct2) auto

text \<open>The character loop of \<open>check\<close>, for a class of ASCII characters.\<close>

lemma all_chars_iff:
  assumes "utf8_valid s" "\<And>c. allowed c \<Longrightarrow> c < 0x80"
  shows "(\<forall>(at, ch) \<in> set (char_indices s). allowed ch) \<longleftrightarrow> (\<forall>b \<in> set s. allowed (unat b))"
proof
  assume l: "\<forall>(at, ch) \<in> set (char_indices s). allowed ch"
  from assms(1) obtain cs where cs: "utf8_chars 0 s = Some cs" by (auto simp: utf8_valid_def)
  with l assms(2) have "\<forall>b \<in> set s. unat b < 0x80"
    by (intro utf8_chars_small_bytes [OF cs]) (auto simp: char_indices_def)
  then show "\<forall>b \<in> set s. allowed (unat b)"
    using l set_zip_snd [of "[0 ..< length s]" "map unat s" allowed] by (simp add: char_indices_ascii)
next
  assume r: "\<forall>b \<in> set s. allowed (unat b)"
  then have "\<forall>b \<in> set s. unat b < 0x80" using assms(2) by blast
  then show "\<forall>(at, ch) \<in> set (char_indices s). allowed ch"
    using r set_zip_snd [of "[0 ..< length s]" "map unat s" allowed] by (simp add: char_indices_ascii)
qed

lemma check_ok_iff:
  assumes "utf8_valid s" "\<And>c. allowed c \<Longrightarrow> c < 0x80"
  shows "check s n allowed = Inr () \<longleftrightarrow> token_ok n allowed s"
proof -
  have "find (\<lambda>(at, ch). \<not> allowed ch) (char_indices s) = None \<longleftrightarrow> (\<forall>b \<in> set s. allowed (unat b))"
    using all_chars_iff [OF assms] by (auto simp: find_None_iff)
  then show ?thesis by (auto simp: check_def token_ok_def split: option.splits)
qed

lemma parse_token_iff:
  assumes "utf8_valid s" "\<And>c. allowed c \<Longrightarrow> c < 0x80"
  shows "parse_token n allowed s = Inr t \<longleftrightarrow> t = s \<and> token_ok n allowed s"
  using check_ok_iff [OF assms, where n = n]
  by (auto simp: parse_token_def bind_res_Inr_iff)

lemma parse_token_class:
  assumes "utf8_valid s"
  shows "parse_token n segment_char s = Inr t \<longleftrightarrow> t = s \<and> token_ok n segment_char s"
    and "parse_token n uri_char s = Inr t \<longleftrightarrow> t = s \<and> token_ok n uri_char s"
    and "parse_token n model_char s = Inr t \<longleftrightarrow> t = s \<and> token_ok n model_char s"
  using parse_token_iff [OF assms] char_classes_ascii by blast+

lemma token_ok_valid:
  "token_ok n allowed s \<Longrightarrow> (\<And>c. allowed c \<Longrightarrow> c < 0x80) \<Longrightarrow> utf8_valid s"
  unfolding token_ok_def using utf8_valid_ascii by blast

lemma split_once_iff:
  "split_once c s = Some (x, y) \<longleftrightarrow> s = x @ c # y \<and> c \<notin> set x"
proof (induction s arbitrary: x)
  case (Cons b bs)
  then show ?case by (cases x) auto
qed simp

lemma strip_prefix_iff: "strip_prefix pre s = Some r \<longleftrightarrow> s = pre @ r"
  by (auto simp: strip_prefix_def) (metis append_take_drop_id)

lemma ok_or_simps [simp]: "ok_or e x = Inr y \<longleftrightarrow> x = Some y"
  by (cases x) (auto simp: ok_or_def)

lemma domain_and_path_iff:
  "domain_and_path ident rest = Inr t \<longleftrightarrow>
     t = ident \<and> (\<exists>dom path. rest = dom @ slash # path \<and> slash \<notin> set dom \<and> dom \<noteq> [] \<and> path \<noteq> [])"
  unfolding domain_and_path_def bind_res_Inr_iff ok_or_simps
  by (auto simp: split_once_iff split: if_splits)

lemma find_map_iff_two:
  "find_map f [a, b] = (case f a of Some r \<Rightarrow> Some r | None \<Rightarrow> f b)"
  by (simp add: find_map_def split: option.splits)

definition names_domain_path :: "string \<Rightarrow> str \<Rightarrow> bool" where
  "names_domain_path scheme s \<longleftrightarrow>
     (\<exists>dom path. s = ascii scheme @ dom @ slash # path \<and> slash \<notin> set dom \<and> dom \<noteq> [] \<and> path \<noteq> [])"

lemma AgentId_parse_strict_iff:
  assumes "utf8_valid s"
  shows "AgentId_parse_strict s = Inr t \<longleftrightarrow>
           t = s \<and> token_ok 255 uri_char s \<and> names_domain_path ''agent://'' s"
  unfolding AgentId_parse_strict_def bind_res_Inr_iff AgentId_parse_def
    parse_token_class [OF assms] ok_or_simps strip_prefix_iff
    domain_and_path_iff names_domain_path_def
  by auto

lemma PrincipalId_parse_strict_iff:
  assumes "utf8_valid s"
  shows "PrincipalId_parse_strict s = Inr t \<longleftrightarrow>
           t = s \<and> token_ok 255 uri_char s \<and>
           (names_domain_path ''agent://'' s \<or> names_domain_path ''user://'' s)"
proof -
  have "find_map (\<lambda>scheme. strip_prefix scheme s) [ascii ''agent://'', ascii ''user://''] = Some r \<longleftrightarrow>
          s = ascii ''agent://'' @ r \<or> s = ascii ''user://'' @ r" for r
  proof (cases "strip_prefix (ascii ''agent://'') s")
    case None
    then have "s \<noteq> ascii ''agent://'' @ r" by (auto simp: strip_prefix_def)
    with None show ?thesis by (simp add: find_map_iff_two strip_prefix_iff)
  next
    case (Some q)
    then have "s = ascii ''agent://'' @ q" by (simp add: strip_prefix_iff)
    moreover have "ascii ''agent://'' @ q \<noteq> ascii ''user://'' @ r" by (simp add: ascii_def)
    ultimately show ?thesis using Some by (auto simp: find_map_iff_two)
  qed
  then show ?thesis
    unfolding PrincipalId_parse_strict_def bind_res_Inr_iff PrincipalId_parse_def
      parse_token_class [OF assms] ok_or_simps
      domain_and_path_iff names_domain_path_def
    by auto
qed

subsection \<open>Hexadecimal digests\<close>

definition HASH_BYTES :: nat where
  "HASH_BYTES = 48"

text \<open>\<open>char::from_digit\<close> and \<open>char::to_digit\<close> at radix 16, on the bytes of ASCII characters.\<close>

definition from_digit :: "nat \<Rightarrow> u8 option" where
  "from_digit d = (if d < 10 then Some (of_nat (0x30 + d))
                   else if d < 16 then Some (of_nat (0x57 + d)) else None)"

definition to_digit :: "u8 \<Rightarrow> nat option" where
  "to_digit b =
     (let n = unat b in
      if 0x30 \<le> n \<and> n \<le> 0x39 then Some (n - 0x30)
      else if 0x61 \<le> n \<and> n \<le> 0x66 then Some (n - 0x57)
      else if 0x41 \<le> n \<and> n \<le> 0x46 then Some (n - 0x37)
      else None)"

definition unwrap_or :: "'a \<Rightarrow> 'a option \<Rightarrow> 'a" where
  "unwrap_or d x = (case x of None \<Rightarrow> d | Some y \<Rightarrow> y)"

definition to_hex :: "hash \<Rightarrow> str" where
  "to_hex h =
     concat (map (\<lambda>b. [unwrap_or 0x30 (from_digit (unat (drop_bit 4 b))),
                       unwrap_or 0x30 (from_digit (unat (b AND 0x0F)))]) (as_bytes h))"

fun from_hex_loop :: "bytes \<Rightarrow> bytes option" where
  "from_hex_loop [] = Some []"
| "from_hex_loop [_] = None"
| "from_hex_loop (b0 # b1 # bs) =
     (case to_digit b0 of None \<Rightarrow> None | Some hi \<Rightarrow>
      case to_digit b1 of None \<Rightarrow> None | Some lo \<Rightarrow>
      if hi * 16 + lo < 256 then map_option ((#) (of_nat (hi * 16 + lo))) (from_hex_loop bs)
      else None)"

definition from_hex :: "str \<Rightarrow> hash option" where
  "from_hex s = (if length s \<noteq> HASH_BYTES * 2 then None
                 else map_option Hash_of_bytes (from_hex_loop s))"

lemma to_digit_from_digit: "d < 16 \<Longrightarrow> to_digit (unwrap_or 0x30 (from_digit d)) = Some d"
proof -
  assume d: "d < 16"
  then have "unat (of_nat (0x30 + d) :: u8) = 0x30 + d" "unat (of_nat (0x57 + d) :: u8) = 0x57 + d"
    by (simp_all add: unat_of_nat del: of_nat_add)
  with d show ?thesis
    by (auto simp: to_digit_def unwrap_or_def from_digit_def Let_def simp del: of_nat_add)
qed

lemma nibbles: "unat (drop_bit 4 (b::u8)) < 16" "unat (b AND 0x0F) < 16"
  "unat (drop_bit 4 b) * 16 + unat (b AND 0x0F) = unat b"
proof -
  have d: "unat (drop_bit 4 b) = unat b div 16" by (simp add: drop_bit_eq_div unat_div_distrib)
  have "b AND 0x0F = take_bit 4 b" by (simp add: take_bit_eq_mask mask_eq_exp_minus_1)
  then have m: "unat (b AND 0x0F) = unat b mod 16"
    by (simp add: take_bit_eq_mod unat_mod_distrib)
  have "unat b < 16 * 16" by simp
  then show "unat (drop_bit 4 b) < 16" unfolding d by (rule less_mult_imp_div_less)
  show "unat (b AND 0x0F) < 16" using m by simp
  show "unat (drop_bit 4 b) * 16 + unat (b AND 0x0F) = unat b" using d m by simp
qed

lemma from_hex_loop_encode:
  "from_hex_loop (concat (map (\<lambda>b. [unwrap_or 0x30 (from_digit (unat (drop_bit 4 b))),
      unwrap_or 0x30 (from_digit (unat (b AND 0x0F)))]) bs)) = Some bs"
proof (induction bs)
  case (Cons b bs)
  then show ?case
    using to_digit_from_digit [OF nibbles(1) [of b]] to_digit_from_digit [OF nibbles(2) [of b]]
      nibbles(3) [of b] unat_u8_less [of b]
    by (simp del: unat_u8_less)
qed simp

lemma length_to_hex: "length (to_hex h) = 96"
  by (simp add: to_hex_def length_concat comp_def sum_list_triv)

lemma from_hex_to_hex: "from_hex (to_hex h) = Some h"
  using length_to_hex [of h] by (simp add: from_hex_def HASH_BYTES_def to_hex_def from_hex_loop_encode)

subsection \<open>Clocks\<close>

type_synonym Timestamp = u64

datatype 'a Untrusted = Untrusted 'a

primrec as_untrusted :: "'a Untrusted \<Rightarrow> 'a" where
  "as_untrusted (Untrusted x) = x"

definition distance :: "Timestamp \<Rightarrow> Timestamp \<Rightarrow> u64" where
  "distance a b = (if a < b then b - a else a - b)"

definition CLOCK_SKEW_THRESHOLD_NANOS :: u64 where
  "CLOCK_SKEW_THRESHOLD_NANOS = 5000000000"

datatype SkewVerdict = Acceptable u64 | Excessive u64

primrec is_excessive :: "SkewVerdict \<Rightarrow> bool" where
  "is_excessive (Acceptable n) = False"
| "is_excessive (Excessive n) = True"

primrec skew_nanos :: "SkewVerdict \<Rightarrow> u64" where
  "skew_nanos (Acceptable n) = n"
| "skew_nanos (Excessive n) = n"

definition assess_skew :: "Timestamp Untrusted \<Rightarrow> Timestamp \<Rightarrow> SkewVerdict" where
  "assess_skew occurred_at recorded_at =
     (let skew = distance (as_untrusted occurred_at) recorded_at in
      if CLOCK_SKEW_THRESHOLD_NANOS < skew then Excessive skew else Acceptable skew)"

lemma distance_abs: "int (unat (distance a b)) = \<bar>int (unat a) - int (unat b)\<bar>"
proof (cases "a < b")
  case True
  then have "unat (b - a) = unat b - unat a" "unat a < unat b"
    using unat_sub [of a b] by (simp_all add: word_less_nat_alt order_less_imp_le)
  with True show ?thesis unfolding distance_def if_P [OF True] by linarith
next
  case False
  then have "unat (a - b) = unat a - unat b" "unat b \<le> unat a"
    by (simp_all add: unat_sub word_le_nat_alt linorder_not_less)
  with False show ?thesis unfolding distance_def if_not_P [OF False] by linarith
qed

subsection \<open>Properties\<close>

text \<open>
  Exactly which strings a strict constructor accepts: at most 255 bytes of the URI alphabet, an
  agent or user scheme, a non-empty trust domain without a slash and a non-empty path. The value
  returned is the string itself, so whatever a strict constructor accepts the lax constructor the
  journal reads back with accepts too.
\<close>

theorem strict_ids_shape:
  assumes "utf8_valid s"
  shows "(AgentId_parse_strict s = Inr a \<longleftrightarrow>
            a = s \<and> token_ok 255 uri_char s \<and> names_domain_path ''agent://'' s) \<and>
         (PrincipalId_parse_strict s = Inr p \<longleftrightarrow>
            p = s \<and> token_ok 255 uri_char s \<and>
            (names_domain_path ''agent://'' s \<or> names_domain_path ''user://'' s)) \<and>
         (AgentId_parse s = Inr a \<longleftrightarrow> a = s \<and> token_ok 255 uri_char s) \<and>
         (PrincipalId_parse s = Inr p \<longleftrightarrow> p = s \<and> token_ok 255 uri_char s)"
  using AgentId_parse_strict_iff [OF assms] PrincipalId_parse_strict_iff [OF assms]
    parse_token_class(2) [OF assms]
  by (simp add: AgentId_parse_def PrincipalId_parse_def)

theorem strict_ids_shape_witness:
  "(AgentId_parse_strict (ascii ''agent://d/p'') = Inr (ascii ''agent://d/p'') \<longleftrightarrow>
      token_ok 255 uri_char (ascii ''agent://d/p'') \<and>
      names_domain_path ''agent://'' (ascii ''agent://d/p'')) \<and>
   AgentId_parse_strict (ascii ''agent://d/p'') = Inr (ascii ''agent://d/p'')"
proof -
  have v: "utf8_valid (ascii ''agent://d/p'')"
    by (rule utf8_valid_ascii) (simp add: ascii_def)
  have "token_ok 255 uri_char (ascii ''agent://d/p'')"
    by (simp add: token_ok_def ascii_def uri_char_def segment_char_def)
  moreover have "names_domain_path ''agent://'' (ascii ''agent://d/p'')"
    unfolding names_domain_path_def
    by (rule exI [of _ "ascii ''d''"], rule exI [of _ "ascii ''p''"]) (simp add: ascii_def slash_def)
  ultimately show ?thesis using strict_ids_shape [OF v] by simp
qed

text \<open>
  Every token constructor accepts exactly the non-empty strings of its alphabet within its
  length, and returns them unchanged: the invariant the token types carry.
\<close>

theorem token_parsers_accept:
  assumes "utf8_valid s"
  shows "(RunId_parse s = Inr t \<longleftrightarrow> t = s \<and> token_ok 64 segment_char s) \<and>
         (TenantId_parse s = Inr t \<longleftrightarrow> t = s \<and> token_ok 64 segment_char s) \<and>
         (PolicyVersion_parse s = Inr t \<longleftrightarrow> t = s \<and> token_ok 64 segment_char s) \<and>
         (ToolName_parse s = Inr t \<longleftrightarrow> t = s \<and> token_ok 64 segment_char s) \<and>
         (TokenId_parse s = Inr t \<longleftrightarrow> t = s \<and> token_ok 128 segment_char s) \<and>
         (KeyThumbprint_parse s = Inr t \<longleftrightarrow> t = s \<and> token_ok 128 segment_char s) \<and>
         (ModelId_parse s = Inr t \<longleftrightarrow> t = s \<and> token_ok 128 model_char s) \<and>
         (IssuerId_parse s = Inr t \<longleftrightarrow> t = s \<and> token_ok 255 uri_char s)"
  using parse_token_class [OF assms] by (simp add: token_parsers)

theorem token_parsers_accept_witness:
  "RunId_parse (ascii ''run-1'') = Inr (ascii ''run-1'') \<longleftrightarrow> token_ok 64 segment_char (ascii ''run-1'')"
  using token_parsers_accept [OF utf8_valid_ascii [of "ascii ''run-1''"]] by (simp add: ascii_def)

text \<open>A digest printed in hexadecimal reads back as itself, and prints as ninety-six characters.\<close>

theorem hex_roundtrip: "from_hex (to_hex h) = Some h \<and> length (to_hex h) = 2 * HASH_BYTES"
  by (simp add: from_hex_to_hex length_to_hex HASH_BYTES_def)

text \<open>
  The clock comparison never wraps: the skew is the absolute difference of the two instants,
  whichever is later, and it is excessive exactly above five seconds.
\<close>

theorem skew_is_distance:
  "int (unat (skew_nanos (assess_skew occurred recorded))) =
     \<bar>int (unat (as_untrusted occurred)) - int (unat recorded)\<bar> \<and>
   (is_excessive (assess_skew occurred recorded) \<longleftrightarrow>
     5000000000 < \<bar>int (unat (as_untrusted occurred)) - int (unat recorded)\<bar>)"
proof -
  have "skew_nanos (assess_skew occurred recorded) = distance (as_untrusted occurred) recorded"
    by (simp add: assess_skew_def Let_def)
  moreover have "is_excessive (assess_skew occurred recorded) \<longleftrightarrow>
      5000000000 < unat (distance (as_untrusted occurred) recorded)"
    by (simp add: assess_skew_def Let_def CLOCK_SKEW_THRESHOLD_NANOS_def word_less_nat_alt)
  ultimately show ?thesis
    using distance_abs [of "as_untrusted occurred" recorded] by (simp only:) linarith
qed

end
