(* ===== verification/Records.thy ===== *)
theory Records
  imports Ids
begin

text \<open>
  The canonical decision record of \<open>crates/trailryx-record/src/record.rs\<close>: the closed
  vocabularies with their names, the basis, outcome and payload blocks, and the record itself.
  Numbers keep the source's widths; an \<open>i64\<close> is a 64-bit word read with \<open>sint\<close>. The vocabularies
  that the source orders carry their declaration order. \<open>record_ok\<close> is what the token types
  promise about a record.
\<close>

subsection \<open>Closed vocabularies\<close>

type_synonym i64 = "64 word"
type_synonym RecordId = u128
type_synonym SegmentId = u64
type_synonym ShardIx = u16
type_synonym MapperVersion = u16

datatype EventType =
    RequestReceived | ModelCall | ToolCall | PolicyDecision | BudgetCheck | MemoryAccess |
    Delegation | RunCompleted | Erasure | StoreEvent | NotificationDispatched |
    IdentityFinding

definition EventType_ALL :: "EventType list" where
  "EventType_ALL = [RequestReceived, ModelCall, ToolCall, PolicyDecision, BudgetCheck, MemoryAccess,
      Delegation, RunCompleted, Erasure, StoreEvent, NotificationDispatched,
      IdentityFinding]"

primrec EventType_as_str :: "EventType \<Rightarrow> str" where
  "EventType_as_str RequestReceived = ascii ''request_received''"
| "EventType_as_str ModelCall = ascii ''model_call''"
| "EventType_as_str ToolCall = ascii ''tool_call''"
| "EventType_as_str PolicyDecision = ascii ''policy_decision''"
| "EventType_as_str BudgetCheck = ascii ''budget_check''"
| "EventType_as_str MemoryAccess = ascii ''memory_access''"
| "EventType_as_str Delegation = ascii ''delegation''"
| "EventType_as_str RunCompleted = ascii ''run_completed''"
| "EventType_as_str Erasure = ascii ''erasure''"
| "EventType_as_str StoreEvent = ascii ''store_event''"
| "EventType_as_str NotificationDispatched = ascii ''notification_dispatched''"
| "EventType_as_str IdentityFinding = ascii ''identity_finding''"

datatype Severity =
    Debug | Info | Notice | Warning | Error | Critical

definition Severity_ALL :: "Severity list" where
  "Severity_ALL = [Debug, Info, Notice, Warning, Error, Critical]"

primrec Severity_as_str :: "Severity \<Rightarrow> str" where
  "Severity_as_str Debug = ascii ''debug''"
| "Severity_as_str Info = ascii ''info''"
| "Severity_as_str Notice = ascii ''notice''"
| "Severity_as_str Warning = ascii ''warning''"
| "Severity_as_str Error = ascii ''error''"
| "Severity_as_str Critical = ascii ''critical''"

datatype Verdict =
    Allowed | Denied | Held | Failed | NotApplicable

definition Verdict_ALL :: "Verdict list" where
  "Verdict_ALL = [Allowed, Denied, Held, Failed, NotApplicable]"

primrec Verdict_as_str :: "Verdict \<Rightarrow> str" where
  "Verdict_as_str Allowed = ascii ''allowed''"
| "Verdict_as_str Denied = ascii ''denied''"
| "Verdict_as_str Held = ascii ''held''"
| "Verdict_as_str Failed = ascii ''failed''"
| "Verdict_as_str NotApplicable = ascii ''not_applicable''"

datatype ErrorCode =
    ErrorNone | Timeout | RateLimited | Unauthorized | BudgetExceeded | PolicyDenied |
    UpstreamError | Malformed | Internal

definition ErrorCode_ALL :: "ErrorCode list" where
  "ErrorCode_ALL = [ErrorNone, Timeout, RateLimited, Unauthorized, BudgetExceeded, PolicyDenied,
      UpstreamError, Malformed, Internal]"

primrec ErrorCode_as_str :: "ErrorCode \<Rightarrow> str" where
  "ErrorCode_as_str ErrorNone = ascii ''none''"
| "ErrorCode_as_str Timeout = ascii ''timeout''"
| "ErrorCode_as_str RateLimited = ascii ''rate_limited''"
| "ErrorCode_as_str Unauthorized = ascii ''unauthorized''"
| "ErrorCode_as_str BudgetExceeded = ascii ''budget_exceeded''"
| "ErrorCode_as_str PolicyDenied = ascii ''policy_denied''"
| "ErrorCode_as_str UpstreamError = ascii ''upstream_error''"
| "ErrorCode_as_str Malformed = ascii ''malformed''"
| "ErrorCode_as_str Internal = ascii ''internal''"

datatype PayloadClass =
    Prompt | Completion | ToolArguments | ToolResult | Document | Diagnostic

definition PayloadClass_ALL :: "PayloadClass list" where
  "PayloadClass_ALL = [Prompt, Completion, ToolArguments, ToolResult, Document, Diagnostic]"

primrec PayloadClass_as_str :: "PayloadClass \<Rightarrow> str" where
  "PayloadClass_as_str Prompt = ascii ''prompt''"
| "PayloadClass_as_str Completion = ascii ''completion''"
| "PayloadClass_as_str ToolArguments = ascii ''tool_arguments''"
| "PayloadClass_as_str ToolResult = ascii ''tool_result''"
| "PayloadClass_as_str Document = ascii ''document''"
| "PayloadClass_as_str Diagnostic = ascii ''diagnostic''"

datatype HashAlg =
    Alg_Sha384

definition HashAlg_ALL :: "HashAlg list" where
  "HashAlg_ALL = [Alg_Sha384]"

primrec HashAlg_as_str :: "HashAlg \<Rightarrow> str" where
  "HashAlg_as_str Alg_Sha384 = ascii ''sha384''"

datatype SigAlg =
    Es256 | Es384 | MlDsa65 | SlhDsa

definition SigAlg_ALL :: "SigAlg list" where
  "SigAlg_ALL = [Es256, Es384, MlDsa65, SlhDsa]"

primrec SigAlg_as_str :: "SigAlg \<Rightarrow> str" where
  "SigAlg_as_str Es256 = ascii ''es256''"
| "SigAlg_as_str Es384 = ascii ''es384''"
| "SigAlg_as_str MlDsa65 = ascii ''ml-dsa-65''"
| "SigAlg_as_str SlhDsa = ascii ''slh-dsa''"

datatype KemAlg =
    X25519MlKem768

definition KemAlg_ALL :: "KemAlg list" where
  "KemAlg_ALL = [X25519MlKem768]"

primrec KemAlg_as_str :: "KemAlg \<Rightarrow> str" where
  "KemAlg_as_str X25519MlKem768 = ascii ''x25519-ml-kem-768''"

lemmas all_lists = EventType_ALL_def Severity_ALL_def Verdict_ALL_def ErrorCode_ALL_def
  PayloadClass_ALL_def HashAlg_ALL_def SigAlg_ALL_def KemAlg_ALL_def

lemma set_eq_UNIV: "(\<And>x. x \<in> set xs) \<Longrightarrow> set xs = UNIV"
  by blast

lemma set_ALL [simp]:
  "set EventType_ALL = UNIV"
  "set Severity_ALL = UNIV"
  "set Verdict_ALL = UNIV"
  "set ErrorCode_ALL = UNIV"
  "set PayloadClass_ALL = UNIV"
  "set HashAlg_ALL = UNIV"
  "set SigAlg_ALL = UNIV"
  "set KemAlg_ALL = UNIV"
  by (rule set_eq_UNIV, case_tac x; simp add: all_lists)+

text \<open>The derived order of an enum is the order of its variants.\<close>

primrec EventType_ix :: "EventType \<Rightarrow> nat" where
  "EventType_ix RequestReceived = 0"
| "EventType_ix ModelCall = 1"
| "EventType_ix ToolCall = 2"
| "EventType_ix PolicyDecision = 3"
| "EventType_ix BudgetCheck = 4"
| "EventType_ix MemoryAccess = 5"
| "EventType_ix Delegation = 6"
| "EventType_ix RunCompleted = 7"
| "EventType_ix Erasure = 8"
| "EventType_ix StoreEvent = 9"
| "EventType_ix NotificationDispatched = 10"
| "EventType_ix IdentityFinding = 11"

primrec Severity_ix :: "Severity \<Rightarrow> nat" where
  "Severity_ix Debug = 0"
| "Severity_ix Info = 1"
| "Severity_ix Notice = 2"
| "Severity_ix Warning = 3"
| "Severity_ix Error = 4"
| "Severity_ix Critical = 5"

lemma EventType_ix_inj: "EventType_ix a = EventType_ix b \<longleftrightarrow> a = b"
  by (cases a; cases b) simp_all

instantiation EventType :: linorder
begin

definition less_eq_EventType :: "EventType \<Rightarrow> EventType \<Rightarrow> bool" where
  "less_eq_EventType a b \<longleftrightarrow> EventType_ix a \<le> EventType_ix b"

definition less_EventType :: "EventType \<Rightarrow> EventType \<Rightarrow> bool" where
  "less_EventType a b \<longleftrightarrow> EventType_ix a < EventType_ix b"

instance
  by intro_classes (auto simp: less_eq_EventType_def less_EventType_def EventType_ix_inj)

end

lemma Severity_ix_inj: "Severity_ix a = Severity_ix b \<longleftrightarrow> a = b"
  by (cases a; cases b) simp_all

instantiation Severity :: linorder
begin

definition less_eq_Severity :: "Severity \<Rightarrow> Severity \<Rightarrow> bool" where
  "less_eq_Severity a b \<longleftrightarrow> Severity_ix a \<le> Severity_ix b"

definition less_Severity :: "Severity \<Rightarrow> Severity \<Rightarrow> bool" where
  "less_Severity a b \<longleftrightarrow> Severity_ix a < Severity_ix b"

instance
  by intro_classes (auto simp: less_eq_Severity_def less_Severity_def Severity_ix_inj)

end

subsection \<open>The record\<close>

record DelegationProof =
  dp_jti :: TokenId
  dp_jkt :: KeyThumbprint
  dp_iss :: IssuerId
  dp_exp :: Timestamp

record Basis =
  policy_version :: "PolicyVersion option"
  budget_remaining_micros :: "i64 option"
  memory_ref :: "hash option"
  basis_model :: "ModelId option"
  temperature_milli :: "u16 option"
  max_tokens :: "u32 option"
  prompt_hash :: "hash option"
  tool_manifest :: "ToolName list"
  identity_chain :: "PrincipalId list"
  delegation_proof :: "DelegationProof option"

record Outcome =
  out_verdict :: "Verdict option"
  out_error :: "ErrorCode option"
  latency_micros :: "u64 option"
  tokens_in :: "u32 option"
  tokens_out :: "u32 option"
  cost_micros :: "i64 option"

record PayloadRef =
  pay_hash :: hash
  size_bytes :: u64
  pay_class :: PayloadClass
  key_id :: hash

record Algorithms =
  alg_hash :: HashAlg
  alg_signature :: SigAlg
  alg_kem :: KemAlg

definition Algorithms_default :: Algorithms where
  "Algorithms_default = \<lparr>alg_hash = Alg_Sha384, alg_signature = Es384, alg_kem = X25519MlKem768\<rparr>"

definition UNMAPPED :: MapperVersion where
  "UNMAPPED = 0"

record Record =
  rec_id :: RecordId
  tenant :: TenantId
  rec_shard :: ShardIx
  agent_id :: AgentId
  run_id :: RunId
  parent_run_id :: "RunId option"
  on_behalf_of :: "PrincipalId list"
  occurred_at :: "Timestamp Untrusted"
  decided_at :: "Timestamp Untrusted option"
  recorded_at :: Timestamp
  knowledge_as_of :: "Timestamp option"
  clock_skew_nanos :: "u64 option"
  event_type :: EventType
  severity :: Severity
  basis :: Basis
  caused_by :: "RecordId list"
  outcome :: Outcome
  payload :: "PayloadRef option"
  rec_seq :: u64
  prev_hash :: hash
  segment_id :: SegmentId
  algorithms :: Algorithms
  mapper :: MapperVersion

text \<open>The invariants the token types carry, for every token of a record.\<close>

definition proof_ok :: "DelegationProof \<Rightarrow> bool" where
  "proof_ok p \<longleftrightarrow> token_ok 128 segment_char (dp_jti p) \<and> token_ok 128 segment_char (dp_jkt p) \<and>
     token_ok 255 uri_char (dp_iss p)"

definition basis_ok :: "Basis \<Rightarrow> bool" where
  "basis_ok b \<longleftrightarrow>
     pred_option (token_ok 64 segment_char) (policy_version b) \<and>
     pred_option (token_ok 128 model_char) (basis_model b) \<and>
     list_all (token_ok 64 segment_char) (tool_manifest b) \<and>
     list_all (token_ok 255 uri_char) (identity_chain b) \<and>
     pred_option proof_ok (delegation_proof b)"

definition record_ok :: "Record \<Rightarrow> bool" where
  "record_ok r \<longleftrightarrow>
     token_ok 64 segment_char (tenant r) \<and> token_ok 255 uri_char (agent_id r) \<and>
     token_ok 64 segment_char (run_id r) \<and>
     pred_option (token_ok 64 segment_char) (parent_run_id r) \<and>
     list_all (token_ok 255 uri_char) (on_behalf_of r) \<and> basis_ok (basis r)"

subsection \<open>Properties\<close>

text \<open>
  Each vocabulary's list of variants is complete and its printed names are distinct, so a name
  looked up in the list finds the variant that printed it.
\<close>

theorem vocabulary_names_distinct:
  "(set EventType_ALL = UNIV \<and> distinct (map EventType_as_str EventType_ALL)) \<and>
   (set Severity_ALL = UNIV \<and> distinct (map Severity_as_str Severity_ALL)) \<and>
   (set Verdict_ALL = UNIV \<and> distinct (map Verdict_as_str Verdict_ALL)) \<and>
   (set ErrorCode_ALL = UNIV \<and> distinct (map ErrorCode_as_str ErrorCode_ALL)) \<and>
   (set PayloadClass_ALL = UNIV \<and> distinct (map PayloadClass_as_str PayloadClass_ALL)) \<and>
   (set HashAlg_ALL = UNIV \<and> distinct (map HashAlg_as_str HashAlg_ALL)) \<and>
   (set SigAlg_ALL = UNIV \<and> distinct (map SigAlg_as_str SigAlg_ALL)) \<and>
   (set KemAlg_ALL = UNIV \<and> distinct (map KemAlg_as_str KemAlg_ALL))"
  unfolding set_ALL by (simp add: all_lists)

end
