(* ===== verification/Wire.thy ===== *)
theory Wire
  imports Records
begin

text \<open>
  The byte-level primitives of the on-disk encoding: the \<open>Writer\<close> and \<open>Reader\<close> of
  \<open>crates/trailryx-journal/src/wire.rs\<close>, the checksum and the discriminant tables.

  A \<open>Writer\<close> only ever appends to its buffer, so a \<open>put\<close> function is the bytes it appends. A
  \<open>Reader\<close> is a slice and a position that only moves forward; every method depends on the bytes
  that remain, so a \<open>get\<close> function maps the remaining bytes to an error or to a value and the bytes
  left. \<open>usize\<close> is 64 bits wide, so \<open>usize::try_from\<close> of a \<open>u64\<close> succeeds, and positions stay
  below the length of a slice, so adding a bounded length to one does not overflow.

  The results are stated through the locale \<open>codec\<close>: a reader accepts exactly the bytes its writer
  produces, for exactly the values the writer is given. That is the round trip and the canonicity
  of the format at once, and it is what makes the format prefix-free.
\<close>

subsection \<open>Errors and constants\<close>

definition FRAME_MAGIC :: u8 where
  "FRAME_MAGIC = 0xA7"

definition FRAME_VERSION :: u8 where
  "FRAME_VERSION = 2"

definition OLDEST_FRAME_VERSION :: u8 where
  "OLDEST_FRAME_VERSION = 1"

definition SEGMENT_MAGIC :: bytes where
  "SEGMENT_MAGIC = ascii ''TRLX''"

definition FORMAT_VERSION :: u16 where
  "FORMAT_VERSION = 1"

definition MAX_BODY_BYTES :: nat where
  "MAX_BODY_BYTES = 4194304"

definition MAX_SEGMENT_HEADER_LEN :: nat where
  "MAX_SEGMENT_HEADER_LEN = 4 + 3 + 3 + 10 + 10 + 4"

datatype WireError =
    Truncated
  | BadMagic
  | UnknownVersion u8
  | BadCrc
  | BadDiscriminant string u8
  | TooLarge nat
  | BadId string IdError
  | NonCanonical string
  | Trailing nat

type_synonym 'a get = "bytes \<Rightarrow> WireError + 'a \<times> bytes"

definition get_return :: "'a \<Rightarrow> 'a get" where
  "get_return x bs = Inr (x, bs)"

definition get_fail :: "WireError \<Rightarrow> 'a get" where
  "get_fail e bs = Inl e"

text \<open>Sequencing two reads with \<open>?\<close> between them.\<close>

definition get_then :: "'a get \<Rightarrow> ('a \<Rightarrow> 'b get) \<Rightarrow> 'b get" where
  "get_then g f bs = bind_res (g bs) (\<lambda>(x, r). f x r)"

subsection \<open>The writer\<close>

definition put_u8 :: "u8 \<Rightarrow> bytes" where
  "put_u8 v = [v]"

lemma unat_drop_bit_less:
  assumes "drop_bit 7 (v::u64) \<noteq> 0"
  shows "unat (drop_bit 7 v) < unat v"
proof -
  have "unat (drop_bit 7 v) = unat v div 128" by (simp add: drop_bit_eq_div unat_div_distrib)
  moreover have "0 < unat v" using assms by (metis drop_bit_of_0 unat_gt_0)
  ultimately show ?thesis by simp
qed

function put_varint :: "u64 \<Rightarrow> bytes" where
  "put_varint v =
     (let byte = ucast (v AND 0x7F) :: u8;
          v' = drop_bit 7 v
      in if v' = 0 then [byte] else (byte OR 0x80) # put_varint v')"
  by auto

termination
  by (relation "measure unat") (simp_all add: unat_drop_bit_less)

declare put_varint.simps [simp del]

definition put_varint_i64 :: "i64 \<Rightarrow> bytes" where
  "put_varint_i64 v = put_varint (push_bit 1 v XOR signed_drop_bit 63 v)"

definition put_bytes :: "bytes \<Rightarrow> bytes" where
  "put_bytes b = put_varint (of_nat (length b)) @ b"

definition put_str :: "str \<Rightarrow> bytes" where
  "put_str s = put_bytes s"

definition put_hash :: "hash \<Rightarrow> bytes" where
  "put_hash h = as_bytes h"

definition put_u128 :: "u128 \<Rightarrow> bytes" where
  "put_u128 v = to_be_bytes v"

definition put_opt :: "('a \<Rightarrow> bytes) \<Rightarrow> 'a option \<Rightarrow> bytes" where
  "put_opt f v = (case v of Some x \<Rightarrow> put_u8 1 @ f x | None \<Rightarrow> put_u8 0)"

definition put_seq :: "('a \<Rightarrow> bytes) \<Rightarrow> 'a list \<Rightarrow> bytes" where
  "put_seq f items = put_varint (of_nat (length items)) @ concat (map f items)"

subsection \<open>The reader\<close>

definition get_finish :: "bytes \<Rightarrow> WireError + unit" where
  "get_finish bs = (if bs = [] then Inr () else Inl (Trailing (length bs)))"

fun get_u8 :: "u8 get" where
  "get_u8 [] = Inl Truncated"
| "get_u8 (b # bs) = Inr (b, bs)"

fun varint_loop :: "u64 \<Rightarrow> nat \<Rightarrow> nat \<Rightarrow> u64 get" where
  "varint_loop out shift groups [] = Inl Truncated"
| "varint_loop out shift groups (b # bs) =
     (let groups = groups + 1 in
      if 10 < groups \<or> groups = 10 \<and> b AND 0x7E \<noteq> 0
      then Inl (NonCanonical ''varint overflows u64'')
      else
        let out = out OR push_bit shift (ucast (b AND 0x7F)) in
        if b AND 0x80 = 0
        then (if 1 < groups \<and> b = 0 then Inl (NonCanonical ''overlong varint'') else Inr (out, bs))
        else varint_loop out (shift + 7) groups bs)"

definition get_varint :: "u64 get" where
  "get_varint = varint_loop 0 0 0"

definition get_varint_i64 :: "i64 get" where
  "get_varint_i64 = get_then get_varint (\<lambda>u. get_return (drop_bit 1 u XOR - (u AND 1)))"

definition get_take :: "nat \<Rightarrow> bytes get" where
  "get_take n bs = (if length bs < n then Inl Truncated else Inr (take n bs, drop n bs))"

definition get_bytes :: "bytes get" where
  "get_bytes = get_then get_varint (\<lambda>v. let len = unat v in
     if MAX_BODY_BYTES < len then get_fail (TooLarge len) else get_take len)"

definition get_str :: "str get" where
  "get_str = get_then get_bytes (\<lambda>b. if utf8_valid b then get_return b else get_fail Truncated)"

definition get_hash :: "hash get" where
  "get_hash = get_then (get_take HASH_BYTES) (\<lambda>b. get_return (Hash_of_bytes b))"

definition get_u128 :: "u128 get" where
  "get_u128 = get_then (get_take 16) (\<lambda>b. get_return (from_be_bytes b))"

definition get_opt :: "'a get \<Rightarrow> 'a option get" where
  "get_opt f = get_then get_u8 (\<lambda>got.
     if got = 0 then get_return None
     else if got = 1 then get_then f (\<lambda>x. get_return (Some x))
     else get_fail (BadDiscriminant ''option'' got))"

primrec get_n :: "'a get \<Rightarrow> nat \<Rightarrow> 'a list get" where
  "get_n f 0 = get_return []"
| "get_n f (Suc n) = get_then f (\<lambda>x. get_then (get_n f n) (\<lambda>xs. get_return (x # xs)))"

definition get_seq :: "'a get \<Rightarrow> 'a list get" where
  "get_seq f = get_then get_varint (\<lambda>v. let n = unat v in
     if MAX_BODY_BYTES < n then get_fail (TooLarge n) else get_n f n)"

text \<open>\<open>u16::try_from(r.varint()?).map_err(|_| Truncated)\<close> and its \<open>u32\<close> twin.\<close>

definition get_u16 :: "u16 get" where
  "get_u16 = get_then get_varint (\<lambda>v.
     if unat v < 2 ^ 16 then get_return (ucast v) else get_fail Truncated)"

definition get_u32 :: "u32 get" where
  "get_u32 = get_then get_varint (\<lambda>v.
     if unat v < 2 ^ 32 then get_return (ucast v) else get_fail Truncated)"

subsection \<open>The checksum\<close>

definition crc_bit :: "u32 \<Rightarrow> u32" where
  "crc_bit crc = (let mask = - (crc AND 1) in drop_bit 1 crc XOR (0xEDB88320 AND mask))"

definition crc32 :: "bytes \<Rightarrow> u32" where
  "crc32 data = NOT (foldl (\<lambda>crc b. (crc_bit ^^ 8) (crc XOR ucast b)) 0xFFFFFFFF data)"

subsection \<open>Discriminants\<close>

text \<open>
  The \<open>disc!\<close> macro expands one table of variants and codes into a writer and a reader.
\<close>

definition disc_put :: "('a \<times> u8) list \<Rightarrow> 'a \<Rightarrow> bytes" where
  "disc_put table v = (case map_of table v of Some code \<Rightarrow> put_u8 code | None \<Rightarrow> [])"

definition disc_get :: "('a \<times> u8) list \<Rightarrow> string \<Rightarrow> 'a get" where
  "disc_get table field = get_then get_u8 (\<lambda>got.
     case map_of (map (\<lambda>(v, c). (c, v)) table) got of
       Some v \<Rightarrow> get_return v
     | None \<Rightarrow> get_fail (BadDiscriminant field got))"

definition event_type_table :: "(EventType \<times> u8) list" where
  "event_type_table =
     [(RequestReceived, 1), (ModelCall, 2), (ToolCall, 3), (PolicyDecision, 4), (BudgetCheck, 5),
      (MemoryAccess, 6), (Delegation, 7), (RunCompleted, 8), (Erasure, 9), (StoreEvent, 10),
      (NotificationDispatched, 11), (IdentityFinding, 12)]"

definition severity_table :: "(Severity \<times> u8) list" where
  "severity_table =
     [(Debug, 1), (Info, 2), (Notice, 3), (Warning, 4), (Error, 5), (Critical, 6)]"

definition verdict_table :: "(Verdict \<times> u8) list" where
  "verdict_table = [(Allowed, 1), (Denied, 2), (Held, 3), (Failed, 4), (NotApplicable, 5)]"

definition error_code_table :: "(ErrorCode \<times> u8) list" where
  "error_code_table =
     [(ErrorNone, 1), (Timeout, 2), (RateLimited, 3), (Unauthorized, 4), (BudgetExceeded, 5),
      (PolicyDenied, 6), (UpstreamError, 7), (Malformed, 8), (Internal, 9)]"

definition payload_class_table :: "(PayloadClass \<times> u8) list" where
  "payload_class_table =
     [(Prompt, 1), (Completion, 2), (ToolArguments, 3), (ToolResult, 4), (Document, 5),
      (Diagnostic, 6)]"

definition hash_alg_table :: "(HashAlg \<times> u8) list" where
  "hash_alg_table = [(Alg_Sha384, 1)]"

definition sig_alg_table :: "(SigAlg \<times> u8) list" where
  "sig_alg_table = [(Es256, 1), (MlDsa65, 2), (SlhDsa, 3), (Es384, 4)]"

definition kem_alg_table :: "(KemAlg \<times> u8) list" where
  "kem_alg_table = [(X25519MlKem768, 1)]"

lemmas disc_tables = event_type_table_def severity_table_def verdict_table_def
  error_code_table_def payload_class_table_def hash_alg_table_def sig_alg_table_def
  kem_alg_table_def

subsection \<open>The interface of a codec\<close>

locale codec =
  fixes put :: "'a \<Rightarrow> bytes"
    and get :: "bytes \<Rightarrow> WireError + 'a \<times> bytes"
    and ok :: "'a \<Rightarrow> bool"
  assumes get_iff: "get bs = Inr (x, rest) \<longleftrightarrow> ok x \<and> bs = put x @ rest"
begin

lemma get_put: "ok x \<Longrightarrow> get (put x @ rest) = Inr (x, rest)"
  by (simp add: get_iff)

lemma get_put_all: "ok x \<Longrightarrow> get (put x) = Inr (x, [])"
  using get_put [of x "[]"] by simp

text \<open>Canonicity: the bytes read are the bytes the writer produces for the value read.\<close>

lemma get_canonical: "get bs = Inr (x, rest) \<Longrightarrow> bs = put x @ rest"
  by (simp add: get_iff)

text \<open>Prefix freedom: what follows a value does not change which value is read.\<close>

lemma put_prefix_free:
  assumes "ok x" "ok y" "put x @ r = put y @ s"
  shows "x = y \<and> r = s"
proof -
  have "get (put x @ r) = Inr (x, r)" "get (put y @ s) = Inr (y, s)"
    using assms(1,2) by (simp_all add: get_put)
  then have "Inr (x, r) = (Inr (y, s) :: WireError + 'a \<times> bytes)" using assms(3) by metis
  then show ?thesis by simp
qed

end

named_theorems codecs

lemma get_return_Inr [simp]: "get_return x bs = Inr (y, r) \<longleftrightarrow> y = x \<and> bs = r"
  by (auto simp: get_return_def)

lemma get_fail_Inr [simp]: "get_fail e bs \<noteq> Inr z"
  by (simp add: get_fail_def)

lemma get_then_Inr:
  "get_then g f bs = Inr (y, r) \<longleftrightarrow> (\<exists>x q. g bs = Inr (x, q) \<and> f x q = Inr (y, r))"
  by (auto simp: get_then_def bind_res_Inr_iff)

lemma get_guard_Inr [simp]:
  "(if P then get_fail e else g) bs = Inr z \<longleftrightarrow> \<not> P \<and> g bs = Inr z"
  "(if P then g else get_fail e) bs = Inr z \<longleftrightarrow> P \<and> g bs = Inr z"
  by auto

lemma get_then_u8 [simp]:
  "get_then get_u8 f [] = Inl Truncated"
  "get_then get_u8 f (b # bs) = f b bs"
  by (simp_all add: get_then_def)

lemma get_take_Inr: "get_take n bs = Inr (x, r) \<longleftrightarrow> length x = n \<and> bs = x @ r"
  by (auto simp: get_take_def)

lemma codec_u8 [codecs]: "codec put_u8 get_u8 (\<lambda>_. True)"
proof
  show "get_u8 bs = Inr (x, rest) \<longleftrightarrow> True \<and> bs = put_u8 x @ rest" for bs x rest
    by (cases bs) (auto simp: put_u8_def)
qed

subsection \<open>Variable-length integers\<close>

text \<open>No bit of \<open>v\<close> at position \<open>k\<close> or above.\<close>

definition fits :: "nat \<Rightarrow> u64 \<Rightarrow> bool" where
  "fits k v \<longleftrightarrow> (\<forall>n. bit v n \<longrightarrow> n < k)"

lemma bit_masks [simp]:
  "bit (0x7F :: int) n \<longleftrightarrow> n < 7"
  "bit (0x80 :: int) n \<longleftrightarrow> n = 7"
  "bit (0x7E :: int) n \<longleftrightarrow> 0 < n \<and> n < 7"
proof -
  have m: "(0x7F :: int) = mask 7" "(0x80 :: int) = 2 ^ 7" "(0x7E :: int) = push_bit 1 (mask 6)"
    by (simp_all add: mask_eq_exp_minus_1)
  show "bit (0x7F :: int) n \<longleftrightarrow> n < 7" unfolding m(1) by (auto simp: bit_simps)
  show "bit (0x80 :: int) n \<longleftrightarrow> n = 7" unfolding m(2) bit_exp_iff by auto
  show "bit (0x7E :: int) n \<longleftrightarrow> 0 < n \<and> n < 7"
    unfolding m(3) bit_push_bit_iff by (auto simp: bit_simps)
qed

text \<open>Splitting a value into its low seven bits and the rest, and putting it together again.\<close>

lemma varint_join:
  "out OR push_bit s (v AND 0x7F) OR push_bit (s + 7) (drop_bit 7 v) = (out OR push_bit s v :: u64)"
proof (rule bit_eqI)
  fix n
  have "7 + (n - (s + 7)) = n - s" if "s + 7 \<le> n" using that by simp
  then show "bit (out OR push_bit s (v AND 0x7F) OR push_bit (s + 7) (drop_bit 7 v)) n \<longleftrightarrow>
             bit (out OR push_bit s v) n"
    by (cases "s + 7 \<le> n") (auto simp: bit_simps)
qed

lemma low_byte:
  "ucast (ucast (v AND 0x7F) AND 0x7F :: u8) = (v AND 0x7F :: u64)"
  "ucast ((ucast (v AND 0x7F) OR 0x80) AND 0x7F :: u8) = (v AND 0x7F :: u64)"
  "(ucast (v AND 0x7F) :: u8) AND 0x80 = 0"
  "(ucast (v AND 0x7F) OR 0x80 :: u8) AND 0x80 \<noteq> 0"
proof -
  show "ucast (ucast (v AND 0x7F) AND 0x7F :: u8) = (v AND 0x7F :: u64)"
    by (rule bit_eqI) (auto simp: bit_simps)
  show "ucast ((ucast (v AND 0x7F) OR 0x80) AND 0x7F :: u8) = (v AND 0x7F :: u64)"
    by (rule bit_eqI) (auto simp: bit_simps)
  show "(ucast (v AND 0x7F) :: u8) AND 0x80 = 0"
    by (rule bit_eqI) (auto simp: bit_simps)
  have "bit ((ucast (v AND 0x7F) OR 0x80 :: u8) AND 0x80) 7" by (simp add: bit_simps)
  then show "(ucast (v AND 0x7F) OR 0x80 :: u8) AND 0x80 \<noteq> 0" by auto
qed

lemma fits_drop_bit: "fits k v \<Longrightarrow> fits (k - 7) (drop_bit 7 v)"
  by (auto simp: fits_def bit_simps)

lemma fits_0: "fits 0 v \<longleftrightarrow> v = 0"
  by (auto simp: fits_def intro: bit_eqI)

lemma drop_bit_7_eq_0: "drop_bit 7 v = 0 \<Longrightarrow> v AND 0x7F = (v :: u64)"
proof (rule bit_eqI)
  fix n assume "drop_bit 7 v = 0"
  then have "\<not> bit (drop_bit 7 v) (n - 7)" by simp
  then show "bit (v AND 0x7F) n \<longleftrightarrow> bit v n"
    by (cases "n < 7") (auto simp: bit_simps dest: bit_imp_le_length)
qed

lemma varint_loop_put:
  "g \<le> 9 \<Longrightarrow> fits (64 - 7 * g) v \<Longrightarrow> 0 < g \<longrightarrow> v \<noteq> 0 \<Longrightarrow>
   varint_loop out (7 * g) g (put_varint v @ rest) = Inr (out OR push_bit (7 * g) v, rest)"
proof (induction v arbitrary: out g rule: put_varint.induct)
  case (1 v)
  let ?b = "ucast (v AND 0x7F) :: u8"
  have tenth: "(if P then ?b else ?b OR 0x80) AND 0x7E = 0" if "g = 9" for P
    using "1.prems"(2) that by (intro bit_eqI) (auto simp: bit_simps fits_def)
  show ?case
  proof (cases "drop_bit 7 v = 0")
    case True
    then have v: "v AND 0x7F = v" by (rule drop_bit_7_eq_0)
    have nz: "?b \<noteq> 0" if "v \<noteq> 0"
    proof
      assume "?b = 0"
      then have "v AND 0x7F = 0" using low_byte(1) [of v] by simp
      with v that show False by simp
    qed
    from True v show ?thesis
      using tenth [of True] nz "1.prems" low_byte [of v]
      by (subst put_varint.simps) (auto simp: Let_def)
  next
    case False
    have g: "g \<noteq> 9"
    proof
      assume "g = 9"
      then have "fits 0 (drop_bit 7 v)" using fits_drop_bit "1.prems"(2) by fastforce
      then show False using False fits_0 by simp
    qed
    then have "varint_loop (out OR push_bit (7 * g) (v AND 0x7F)) (7 * Suc g) (Suc g)
        (put_varint (drop_bit 7 v) @ rest) =
      Inr (out OR push_bit (7 * g) (v AND 0x7F) OR push_bit (7 * Suc g) (drop_bit 7 v), rest)"
      using "1.IH" [OF refl refl False, of "Suc g"] "1.prems" False fits_drop_bit [OF "1.prems"(2)]
      by (simp add: diff_mult_distrib2 or.assoc)
    then show ?thesis
      using False g "1.prems" low_byte [of v] varint_join [of out "7 * g" v]
      by (subst put_varint.simps) (simp add: Let_def add.commute)
  qed
qed

text \<open>The reader never accepts more than ten groups.\<close>

lemma varint_loop_groups: "10 \<le> g \<Longrightarrow> varint_loop out s g bs \<noteq> Inr z"
  by (cases bs) (auto simp: Let_def)

text \<open>The value behind a continuation byte and the groups after it.\<close>

definition varint_cons :: "u8 \<Rightarrow> u64 \<Rightarrow> u64" where
  "varint_cons b v = ucast (b AND 0x7F) OR push_bit 7 v"

lemma varint_cons_parts:
  assumes "fits k v" "k \<le> 57"
  shows "varint_cons b v AND 0x7F = ucast (b AND 0x7F)"
    and "drop_bit 7 (varint_cons b v) = v"
    and "fits (k + 7) (varint_cons b v) \<or> k = 0 \<and> v = 0"
    and "out OR push_bit s (ucast (b AND 0x7F)) OR push_bit (s + 7) v = out OR push_bit s (varint_cons b v)"
proof -
  have bound: "n < 57" if "bit v n" for n using assms that by (auto simp: fits_def)
  show low: "varint_cons b v AND 0x7F = ucast (b AND 0x7F)"
    by (rule bit_eqI) (auto simp: bit_simps varint_cons_def)
  show high: "drop_bit 7 (varint_cons b v) = v"
    using bound by (intro bit_eqI) (auto simp: bit_simps varint_cons_def)
  show "fits (k + 7) (varint_cons b v) \<or> k = 0 \<and> v = 0"
    using assms(1) by (fastforce simp: fits_def varint_cons_def bit_simps)
  show "out OR push_bit s (ucast (b AND 0x7F)) OR push_bit (s + 7) v = out OR push_bit s (varint_cons b v)"
    using varint_join [of out s "varint_cons b v"] low high by simp
qed

lemma continuation_byte:
  "b AND 0x80 \<noteq> (0::u8) \<Longrightarrow> ucast (ucast (b AND 0x7F) :: u64) OR 0x80 = b"
proof (rule bit_eqI)
  fix n
  assume "b AND 0x80 \<noteq> 0"
  moreover have "b AND 0x80 = 0" if "\<not> bit b 7"
    using that by (intro bit_eqI) (auto simp: bit_simps)
  ultimately have "bit b 7" by blast
  then show "bit (ucast (ucast (b AND 0x7F) :: u64) OR 0x80 :: u8) n \<longleftrightarrow> bit b n"
    by (auto simp: bit_simps dest: bit_imp_le_length)
qed

lemma high_bit_clear:
  assumes "b AND 0x80 = (0::u8)"
  shows "\<not> bit b 7"
proof -
  have "\<not> bit (b AND 0x80) 7" using assms by simp
  then show ?thesis by (simp add: bit_simps)
qed

lemma final_byte:
  assumes "b AND 0x80 = (0::u8)"
  shows "ucast (b AND 0x7F) = (ucast b :: u64)" and "fits 7 (ucast b)"
    and "put_varint (ucast b) = [b]" and "(ucast b :: u64) = 0 \<longleftrightarrow> b = 0"
    and "b AND 0x7E = 0 \<Longrightarrow> fits 1 (ucast b)"
proof -
  have n: "n < 7" if "bit b n" for n
    using that high_bit_clear [OF assms] bit_imp_le_length [OF that] by (cases "n = 7") auto
  show low: "ucast (b AND 0x7F) = (ucast b :: u64)"
    by (intro bit_eqI) (auto simp: bit_simps dest: n)
  show fits: "fits 7 (ucast b)" using n by (auto simp: fits_def bit_simps)
  show "(ucast b :: u64) = 0 \<longleftrightarrow> b = 0"
  proof
    assume "(ucast b :: u64) = 0"
    then have "\<not> bit (ucast b :: u64) n" for n by simp
    then have "\<not> bit b n" for n using n [of n] by (auto simp: bit_simps)
    then show "b = 0" by (intro bit_eqI) simp
  qed simp
  have "drop_bit 7 (ucast b :: u64) = 0" "ucast ((ucast b :: u64) AND 0x7F) = b"
    using n by (fastforce intro!: bit_eqI simp: bit_simps)+
  then show "put_varint (ucast b) = [b]" by (subst put_varint.simps) (simp add: Let_def)
  show "fits 1 (ucast b)" if "b AND 0x7E = 0"
  proof -
    have z: "\<not> bit (b AND 0x7E) n" for n using that by simp
    have "n = 0" if "bit b n" for n using that n [OF that] z [of n] by (auto simp: bit_simps)
    then show ?thesis by (auto simp: fits_def bit_simps)
  qed
qed

text \<open>Whatever the loop accepts is what the writer produces for the value it returns.\<close>

lemma varint_loop_canonical:
  "g \<le> 9 \<Longrightarrow> varint_loop out (7 * g) g bs = Inr (x, rest) \<Longrightarrow>
   \<exists>v. bs = put_varint v @ rest \<and> x = out OR push_bit (7 * g) v \<and> fits (64 - 7 * g) v \<and>
       (0 < g \<longrightarrow> v \<noteq> 0)"
proof (induction bs arbitrary: g out)
  case (Cons b bs)
  let ?out = "out OR push_bit (7 * g) (ucast (b AND 0x7F))"
  have tenth: "b AND 0x7E = 0" if "g = 9" using Cons.prems that by (auto simp: Let_def split: if_splits)
  show ?case
  proof (cases "b AND 0x80 = 0")
    case True
    have x: "x = ?out" "bs = rest" "0 < g \<longrightarrow> b \<noteq> 0"
      using Cons.prems True by (auto simp: Let_def split: if_splits)
    have "fits (64 - 7 * g) (ucast b)"
    proof (cases "g = 9")
      case True
      then show ?thesis using final_byte(5) [OF \<open>b AND 0x80 = 0\<close>] tenth by simp
    next
      case False
      then have "7 \<le> 64 - 7 * g" using Cons.prems(1) by simp
      then show ?thesis
        using final_byte(2) [OF True] unfolding fits_def by (meson order_less_le_trans)
    qed
    then show ?thesis
      using x final_byte [OF True] by (intro exI [of _ "ucast b"]) simp
  next
    case False
    have rec: "varint_loop ?out (7 * Suc g) (Suc g) bs = Inr (x, rest)"
      using Cons.prems False by (auto simp: Let_def add.commute split: if_splits)
    then have "\<not> 10 \<le> Suc g" using varint_loop_groups by blast
    then have g: "Suc g \<le> 9" by simp
    from Cons.IH [OF g rec] obtain v where
      v: "bs = put_varint v @ rest" "x = ?out OR push_bit (7 * Suc g) v"
        "fits (64 - 7 * Suc g) v" "v \<noteq> 0"
      by auto
    note parts = varint_cons_parts [OF v(3), where b = b]
    have "put_varint (varint_cons b v) = b # put_varint v"
      using parts(1,2) v(4) continuation_byte [OF False] g
      by (subst put_varint.simps) (simp add: Let_def)
    moreover have "fits (64 - 7 * g) (varint_cons b v)" using parts(3) v(4) g by (simp add: algebra_simps)
    moreover have "x = out OR push_bit (7 * g) (varint_cons b v)"
      using v(2) parts(4) [of out "7 * g"] g by (simp add: algebra_simps or.assoc)
    moreover have "varint_cons b v \<noteq> 0" using parts(2) v(4) g by auto
    ultimately show ?thesis using v(1) by (intro exI [of _ "varint_cons b v"]) simp
  qed
qed simp

lemma codec_varint [codecs]: "codec put_varint get_varint (\<lambda>_. True)"
proof
  fix bs x rest
  have "fits 64 (v :: u64)" for v by (auto simp: fits_def dest: bit_imp_le_length)
  then show "get_varint bs = Inr (x, rest) \<longleftrightarrow> True \<and> bs = put_varint x @ rest"
    using varint_loop_put [of 0 x 0 rest] varint_loop_canonical [of 0 0 bs x rest]
    by (auto simp: get_varint_def)
qed

lemmas varint_iff [simp] = codec.get_iff [OF codec_varint]
lemmas u8_iff [simp] = codec.get_iff [OF codec_u8]

subsection \<open>Zigzag integers\<close>

definition zigzag :: "i64 \<Rightarrow> u64" where
  "zigzag v = push_bit 1 v XOR signed_drop_bit 63 v"

definition unzigzag :: "u64 \<Rightarrow> i64" where
  "unzigzag u = drop_bit 1 u XOR - (u AND 1)"

lemma minus_low_bit: "bit (- (u AND 1) :: u64) n \<longleftrightarrow> n < 64 \<and> bit u 0"
proof -
  have "u AND 1 = of_bool (odd u)" by (simp add: and_one_eq mod_2_eq_odd)
  then show ?thesis by (cases "odd u") (simp_all add: bit_0 bit_simps)
qed

lemma bit_zigzag:
  "bit (zigzag v) n \<longleftrightarrow> n < 64 \<and> (if n = 0 then bit v 63 else bit v (n - 1) \<noteq> bit v 63)"
  unfolding zigzag_def bit_xor_iff bit_push_bit_iff bit_signed_drop_bit_iff
  by (auto simp: bit_simps dest: bit_imp_le_length)

lemma bit_unzigzag: "bit (unzigzag u) n \<longleftrightarrow> n < 64 \<and> (bit u (Suc n) \<noteq> bit u 0)"
  unfolding unzigzag_def bit_xor_iff bit_drop_bit_eq minus_low_bit
  by (auto simp: comp_def dest: bit_imp_le_length)

lemma unzigzag_zigzag [simp]: "unzigzag (zigzag v) = v"
proof (rule bit_eqI)
  show "bit (unzigzag (zigzag v)) n \<longleftrightarrow> bit v n" for n
    by (cases "n = 63") (auto simp: bit_unzigzag bit_zigzag dest: bit_imp_le_length)
qed

lemma zigzag_unzigzag [simp]: "zigzag (unzigzag u) = u"
proof (rule bit_eqI)
  fix n
  have "\<not> bit u 64" using bit_imp_le_length [of u 64] by auto
  then show "bit (zigzag (unzigzag u)) n \<longleftrightarrow> bit u n"
    by (cases n) (auto simp: bit_unzigzag bit_zigzag dest: bit_imp_le_length)
qed

lemma codec_varint_i64 [codecs]: "codec put_varint_i64 get_varint_i64 (\<lambda>_. True)"
proof
  show "get_varint_i64 bs = Inr (x, rest) \<longleftrightarrow> True \<and> bs = put_varint_i64 x @ rest" for bs x rest
    unfolding get_varint_i64_def put_varint_i64_def zigzag_def [symmetric] unzigzag_def [symmetric]
    by (auto simp: get_then_Inr)
qed

subsection \<open>Byte strings, digests, options and sequences\<close>

lemma unat_of_nat_small: "n \<le> MAX_BODY_BYTES \<Longrightarrow> unat (of_nat n :: u64) = n"
  by (simp add: unat_of_nat MAX_BODY_BYTES_def)

lemma codec_bytes [codecs]: "codec put_bytes get_bytes (\<lambda>b. length b \<le> MAX_BODY_BYTES)"
proof
  fix bs x rest
  have "(\<exists>v. unat v \<le> MAX_BODY_BYTES \<and> length x = unat v \<and> bs = put_varint v @ x @ rest) \<longleftrightarrow>
        length x \<le> MAX_BODY_BYTES \<and> bs = put_varint (of_nat (length x)) @ x @ rest"
    by (auto simp: unat_of_nat_small intro!: exI [of _ "of_nat (length x)"])
  then show "get_bytes bs = Inr (x, rest) \<longleftrightarrow>
      length x \<le> MAX_BODY_BYTES \<and> bs = put_bytes x @ rest"
    by (auto simp: get_bytes_def put_bytes_def get_then_Inr get_take_Inr Let_def)
qed

lemma codec_str [codecs]: "codec put_str get_str (\<lambda>s. length s \<le> MAX_BODY_BYTES \<and> utf8_valid s)"
proof
  show "get_str bs = Inr (x, rest) \<longleftrightarrow>
          (length x \<le> MAX_BODY_BYTES \<and> utf8_valid x) \<and> bs = put_str x @ rest" for bs x rest
    by (auto simp: get_str_def put_str_def get_then_Inr codec.get_iff [OF codec_bytes])
qed

lemma codec_hash [codecs]: "codec put_hash get_hash (\<lambda>_. True)"
proof
  show "get_hash bs = Inr (x, rest) \<longleftrightarrow> True \<and> bs = put_hash x @ rest" for bs x rest
    by (auto simp: get_hash_def put_hash_def get_then_Inr get_take_Inr HASH_BYTES_def
        as_bytes_Hash_of_bytes)
qed

lemma codec_u128 [codecs]: "codec put_u128 get_u128 (\<lambda>_. True)"
proof
  show "get_u128 bs = Inr (x, rest) \<longleftrightarrow> True \<and> bs = put_u128 x @ rest" for bs x rest
    by (auto simp: get_u128_def put_u128_def get_then_Inr get_take_Inr to_from_be_bytes)
qed

lemma codec_opt:
  assumes "codec p g ok"
  shows "codec (put_opt p) (get_opt g) (pred_option ok)"
proof
  show "get_opt g bs = Inr (x, rest) \<longleftrightarrow> pred_option ok x \<and> bs = put_opt p x @ rest" for bs x rest
    using codec.get_iff [OF assms]
    by (cases bs; cases x) (auto simp: get_opt_def put_opt_def put_u8_def get_then_Inr)
qed

lemma get_n_iff:
  assumes "codec p g ok"
  shows "get_n g n bs = Inr (xs, rest) \<longleftrightarrow>
           length xs = n \<and> list_all ok xs \<and> bs = concat (map p xs) @ rest"
proof (induction n arbitrary: bs xs)
  case (Suc n)
  then show ?case
    using codec.get_iff [OF assms] by (cases xs) (auto simp: get_then_Inr)
qed auto

lemma codec_seq:
  assumes "codec p g ok"
  shows "codec (put_seq p) (get_seq g) (\<lambda>xs. length xs \<le> MAX_BODY_BYTES \<and> list_all ok xs)"
proof
  fix bs xs rest
  have "(\<exists>v q. bs = put_varint v @ q \<and> unat v \<le> MAX_BODY_BYTES \<and> length xs = unat v \<and>
              list_all ok xs \<and> q = concat (map p xs) @ rest) \<longleftrightarrow>
        (length xs \<le> MAX_BODY_BYTES \<and> list_all ok xs) \<and> bs = put_seq p xs @ rest"
    by (auto simp: put_seq_def unat_of_nat_small intro!: exI [of _ "of_nat (length xs)"])
  then show "get_seq g bs = Inr (xs, rest) \<longleftrightarrow>
      (length xs \<le> MAX_BODY_BYTES \<and> list_all ok xs) \<and> bs = put_seq p xs @ rest"
    by (simp add: get_seq_def get_then_Inr get_n_iff [OF assms] Let_def linorder_not_less)
qed

text \<open>Narrow integers travel as variable-length ones and are range-checked when read.\<close>

lemma codec_narrow:
  assumes "\<And>bs y r. get bs = Inr (y, r) \<longleftrightarrow>
      (\<exists>v. get_varint bs = Inr (v, r) \<and> unat v < 2 ^ LENGTH('a::len) \<and> y = (ucast v :: 'a word))"
    and "LENGTH('a) \<le> 64"
  shows "codec (\<lambda>v :: 'a word. put_varint (ucast v)) get (\<lambda>_. True)"
proof
  fix bs :: bytes and x :: "'a word" and rest
  have "unat (ucast x :: u64) < 2 ^ LENGTH('a)" using assms(2) by (simp add: unat_ucast_up)
  moreover have "ucast (ucast x :: u64) = x" using assms(2)
    by (simp add: ucast_up_down)
  moreover have "ucast (ucast v :: 'a word) = v" if "unat (v :: u64) < 2 ^ LENGTH('a)" for v
    using that assms(2) by (simp add: ucast_down_up)
  ultimately show "get bs = Inr (x, rest) \<longleftrightarrow> True \<and> bs = put_varint (ucast x) @ rest"
    unfolding assms(1) by auto
qed

lemma codec_u16 [codecs]: "codec (\<lambda>v :: u16. put_varint (ucast v)) get_u16 (\<lambda>_. True)"
  by (rule codec_narrow) (auto simp: get_u16_def get_then_Inr)

lemma codec_u32 [codecs]: "codec (\<lambda>v :: u32. put_varint (ucast v)) get_u32 (\<lambda>_. True)"
  by (rule codec_narrow) (auto simp: get_u32_def get_then_Inr)

subsection \<open>Discriminant tables\<close>

definition table_ok :: "('a \<times> u8) list \<Rightarrow> bool" where
  "table_ok table \<longleftrightarrow> set (map fst table) = UNIV \<and> distinct (map fst table) \<and> distinct (map snd table)"

lemma codec_disc:
  assumes "table_ok table"
  shows "codec (disc_put table) (disc_get table field) (\<lambda>_. True)"
proof
  fix bs x rest
  have d: "distinct (map fst table)" "distinct (map fst (map (\<lambda>(v, c). (c, v)) table))"
    using assms by (simp_all add: table_ok_def comp_def case_prod_beta)
  have m: "map_of (map (\<lambda>(v, c). (c, v)) table) c = Some v \<longleftrightarrow> map_of table v = Some c" for c v
    using d by (auto simp: map_of_eq_Some_iff)
  obtain c where "map_of table x = Some c"
    using assms by (metis UNIV_I list.set_map map_of_eq_None_iff not_None_eq table_ok_def)
  moreover have "(case map_of ts b of Some v \<Rightarrow> get_return v | None \<Rightarrow> get_fail e) q = Inr (x, rest) \<longleftrightarrow>
      map_of ts b = Some x \<and> q = rest" for ts :: "(u8 \<times> 'a) list" and b e q
    by (auto split: option.splits)
  ultimately show "disc_get table field bs = Inr (x, rest) \<longleftrightarrow> True \<and> bs = disc_put table x @ rest"
    by (cases bs) (auto simp: disc_get_def disc_put_def put_u8_def m)
qed

lemma tables_ok:
  "table_ok event_type_table" "table_ok severity_table" "table_ok verdict_table"
  "table_ok error_code_table" "table_ok payload_class_table" "table_ok hash_alg_table"
  "table_ok sig_alg_table" "table_ok kem_alg_table"
  unfolding table_ok_def
  by (intro conjI set_eq_UNIV, case_tac x; simp add: disc_tables; fail | simp add: disc_tables)+

lemmas codec_discs [codecs] = tables_ok [THEN codec_disc]

subsection \<open>Tokens\<close>

definition get_id :: "string \<Rightarrow> (str \<Rightarrow> IdError + str) \<Rightarrow> str get" where
  "get_id field parse = get_then get_str (\<lambda>s.
     case parse s of Inl e \<Rightarrow> get_fail (BadId field e) | Inr t \<Rightarrow> get_return t)"

lemma codec_id:
  assumes "\<And>s t. utf8_valid s \<Longrightarrow> parse s = Inr t \<longleftrightarrow> t = s \<and> token_ok n allowed s"
    and "\<And>c. allowed c \<Longrightarrow> c < 0x80" and "n \<le> MAX_BODY_BYTES"
  shows "codec put_str (get_id field parse) (token_ok n allowed)"
proof
  fix bs x rest
  have v: "utf8_valid x \<and> length x \<le> MAX_BODY_BYTES" if "token_ok n allowed x" for x
    using that token_ok_valid [OF that assms(2)] assms(3) by (simp add: token_ok_def)
  have F: "(case parse s of Inl e \<Rightarrow> get_fail (BadId field e) | Inr t \<Rightarrow> get_return t) q = Inr (x, rest) \<longleftrightarrow>
        x = s \<and> token_ok n allowed s \<and> q = rest" if "utf8_valid s" for s q
    using assms(1) [OF that, of x] assms(1) [OF that, of s] by (cases "parse s") auto
  have "get_id field parse bs = Inr (x, rest) \<longleftrightarrow>
      (\<exists>s q. ((length s \<le> MAX_BODY_BYTES \<and> utf8_valid s) \<and> bs = put_str s @ q) \<and>
             x = s \<and> token_ok n allowed s \<and> q = rest)"
    by (simp only: get_id_def get_then_Inr codec.get_iff [OF codec_str] F cong: conj_cong)
  then show "get_id field parse bs = Inr (x, rest) \<longleftrightarrow> token_ok n allowed x \<and> bs = put_str x @ rest"
    using v [of x] by auto
qed

lemma token_bounds [simp]:
  "64 \<le> MAX_BODY_BYTES" "128 \<le> MAX_BODY_BYTES" "255 \<le> MAX_BODY_BYTES"
  by (simp_all add: MAX_BODY_BYTES_def)

lemma codec_tokens [codecs]:
  "codec put_str (get_id field TenantId_parse) (token_ok 64 segment_char)"
  "codec put_str (get_id field AgentId_parse) (token_ok 255 uri_char)"
  "codec put_str (get_id field RunId_parse) (token_ok 64 segment_char)"
  "codec put_str (get_id field PrincipalId_parse) (token_ok 255 uri_char)"
  "codec put_str (get_id field PolicyVersion_parse) (token_ok 64 segment_char)"
  "codec put_str (get_id field ModelId_parse) (token_ok 128 model_char)"
  "codec put_str (get_id field ToolName_parse) (token_ok 64 segment_char)"
  "codec put_str (get_id field TokenId_parse) (token_ok 128 segment_char)"
  "codec put_str (get_id field KeyThumbprint_parse) (token_ok 128 segment_char)"
  "codec put_str (get_id field IssuerId_parse) (token_ok 255 uri_char)"
  unfolding token_parsers
  by (rule codec_id; simp add: parse_token_class char_classes_ascii)+

subsection \<open>The codecs of the format\<close>

interpretation varint: codec put_varint get_varint "\<lambda>_. True"
  by (rule codec_varint)

interpretation varint_i64: codec put_varint_i64 get_varint_i64 "\<lambda>_. True"
  by (rule codec_varint_i64)

interpretation byte_string: codec put_bytes get_bytes "\<lambda>b. length b \<le> MAX_BODY_BYTES"
  by (rule codec_bytes)

text \<open>How long a variable-length integer is.\<close>

lemma length_put_varint_fits: "0 < k \<Longrightarrow> fits (7 * k) v \<Longrightarrow> length (put_varint v) \<le> k"
proof (induction v arbitrary: k rule: put_varint.induct)
  case (1 v)
  show ?case
  proof (cases "drop_bit 7 v = 0")
    case True
    then show ?thesis using "1.prems" by (subst put_varint.simps) (simp add: Let_def)
  next
    case False
    then have k: "0 < k - 1"
      using "1.prems" fits_drop_bit [OF "1.prems"(2)] fits_0 [of "drop_bit 7 v"] by (cases "k = 1") auto
    then have "length (put_varint (drop_bit 7 v)) \<le> k - 1"
      using "1.IH" [OF refl refl False, of "k - 1"] fits_drop_bit [OF "1.prems"(2)]
      by (simp add: diff_mult_distrib2)
    then show ?thesis using False k by (subst put_varint.simps) (simp add: Let_def)
  qed
qed

lemma fits_less:
  assumes "unat v < 2 ^ k"
  shows "fits k v"
proof -
  have "\<not> bit v n" if "k \<le> n" for n
  proof -
    have "unat v < 2 ^ n" by (rule less_le_trans [OF assms]) (simp add: that power_increasing)
    then have "\<not> bit (unat v) n" by (simp add: bit_iff_odd)
    then show ?thesis by (simp add: bit_unsigned_iff)
  qed
  then show ?thesis unfolding fits_def using linorder_not_less by blast
qed

lemma length_put_varint: "length (put_varint v) \<le> 10"
  by (rule length_put_varint_fits) (auto simp: fits_def dest: bit_imp_le_length)

lemma length_put_varint_less: "0 < k \<Longrightarrow> unat v < 2 ^ (7 * k) \<Longrightarrow> length (put_varint v) \<le> k"
  by (rule length_put_varint_fits) (simp_all add: fits_less)

lemma put_varint_nonempty [simp]: "put_varint v \<noteq> []"
  by (subst put_varint.simps) (simp add: Let_def)

end
