(* ===== verification/Encoding.thy ===== *)
theory Encoding
  imports Wire
begin

text \<open>
  The record body, the frame around it and the segment header, from
  \<open>crates/trailryx-journal/src/wire.rs\<close>. The blocks the source reads and writes in place (basis,
  outcome, payload reference, delegation proof) have functions of their own here.

  The results: encoding a record and decoding it gives the record back; whatever decodes is the
  encoding of what it decoded to, so one record has one byte form; an old body reads as a record
  with no delegation proof; frames and segment headers round-trip and stay within their bounds.
\<close>

subsection \<open>The record body\<close>

definition put_basis :: "Basis \<Rightarrow> bytes" where
  "put_basis b =
     put_opt put_str (policy_version b) @
     put_opt put_varint_i64 (budget_remaining_micros b) @
     put_opt put_hash (memory_ref b) @
     put_opt put_str (basis_model b) @
     put_opt (\<lambda>v. put_varint (ucast v)) (temperature_milli b) @
     put_opt (\<lambda>v. put_varint (ucast v)) (max_tokens b) @
     put_opt put_hash (prompt_hash b) @
     put_seq put_str (tool_manifest b) @
     put_seq put_str (identity_chain b)"

definition put_outcome :: "Outcome \<Rightarrow> bytes" where
  "put_outcome oc =
     put_opt (disc_put verdict_table) (out_verdict oc) @
     put_opt (disc_put error_code_table) (out_error oc) @
     put_opt put_varint (latency_micros oc) @
     put_opt (\<lambda>v. put_varint (ucast v)) (tokens_in oc) @
     put_opt (\<lambda>v. put_varint (ucast v)) (tokens_out oc) @
     put_opt put_varint_i64 (cost_micros oc)"

definition put_payload :: "PayloadRef \<Rightarrow> bytes" where
  "put_payload p =
     put_hash (pay_hash p) @ put_varint (size_bytes p) @
     disc_put payload_class_table (pay_class p) @ put_hash (key_id p)"

definition put_proof :: "DelegationProof \<Rightarrow> bytes" where
  "put_proof p =
     put_str (dp_jti p) @ put_str (dp_jkt p) @ put_str (dp_iss p) @ put_varint (dp_exp p)"

text \<open>The fields every version of the body has, in the order of the format.\<close>

definition put_body :: "Record \<Rightarrow> bytes" where
  "put_body rec =
     put_u128 (rec_id rec) @
     put_str (tenant rec) @
     put_varint (ucast (rec_shard rec)) @
     put_str (agent_id rec) @
     put_str (run_id rec) @
     put_opt put_str (parent_run_id rec) @
     put_seq put_str (on_behalf_of rec) @
     put_varint (as_untrusted (occurred_at rec)) @
     put_opt (\<lambda>v. put_varint (as_untrusted v)) (decided_at rec) @
     put_varint (recorded_at rec) @
     put_opt put_varint (knowledge_as_of rec) @
     put_opt put_varint (clock_skew_nanos rec) @
     disc_put event_type_table (event_type rec) @
     disc_put severity_table (severity rec) @
     put_basis (basis rec) @
     put_seq put_u128 (caused_by rec) @
     put_outcome (outcome rec) @
     put_opt put_payload (payload rec) @
     put_varint (rec_seq rec) @
     put_hash (prev_hash rec) @
     put_varint (segment_id rec) @
     disc_put hash_alg_table (alg_hash (algorithms rec)) @
     disc_put sig_alg_table (alg_signature (algorithms rec)) @
     disc_put kem_alg_table (alg_kem (algorithms rec)) @
     put_varint (ucast (mapper rec))"

text \<open>Version 2 appends the delegation proof.\<close>

definition encode_record :: "Record \<Rightarrow> bytes" where
  "encode_record rec = put_body rec @ put_opt put_proof (delegation_proof (basis rec))"

definition get_untrusted :: "Timestamp Untrusted get" where
  "get_untrusted = get_then get_varint (\<lambda>v. get_return (Untrusted v))"

text \<open>The basis as the body's middle has it, with no delegation proof yet.\<close>

definition get_basis :: "Basis get" where
  "get_basis =
     get_then (get_opt (get_id ''basis.policy_version'' PolicyVersion_parse)) (\<lambda>pv.
     get_then (get_opt get_varint_i64) (\<lambda>br.
     get_then (get_opt get_hash) (\<lambda>mr.
     get_then (get_opt (get_id ''basis.model'' ModelId_parse)) (\<lambda>mo.
     get_then (get_opt get_u16) (\<lambda>te.
     get_then (get_opt get_u32) (\<lambda>mt.
     get_then (get_opt get_hash) (\<lambda>ph.
     get_then (get_seq (get_id ''basis.tool_manifest'' ToolName_parse)) (\<lambda>tm.
     get_then (get_seq (get_id ''basis.identity_chain'' PrincipalId_parse)) (\<lambda>ic.
     get_return \<lparr>policy_version = pv, budget_remaining_micros = br, memory_ref = mr,
       basis_model = mo, temperature_milli = te, max_tokens = mt, prompt_hash = ph,
       tool_manifest = tm, identity_chain = ic, delegation_proof = None\<rparr>)))))))))"

definition get_outcome :: "Outcome get" where
  "get_outcome =
     get_then (get_opt (disc_get verdict_table ''verdict'')) (\<lambda>v.
     get_then (get_opt (disc_get error_code_table ''error'')) (\<lambda>e.
     get_then (get_opt get_varint) (\<lambda>l.
     get_then (get_opt get_u32) (\<lambda>ti.
     get_then (get_opt get_u32) (\<lambda>to.
     get_then (get_opt get_varint_i64) (\<lambda>c.
     get_return \<lparr>out_verdict = v, out_error = e, latency_micros = l, tokens_in = ti,
       tokens_out = to, cost_micros = c\<rparr>))))))"

definition get_payload :: "PayloadRef get" where
  "get_payload =
     get_then get_hash (\<lambda>h.
     get_then get_varint (\<lambda>s.
     get_then (disc_get payload_class_table ''payload.class'') (\<lambda>c.
     get_then get_hash (\<lambda>k.
     get_return \<lparr>pay_hash = h, size_bytes = s, pay_class = c, key_id = k\<rparr>))))"

definition get_proof :: "DelegationProof get" where
  "get_proof =
     get_then (get_id ''basis.delegation_proof.jti'' TokenId_parse) (\<lambda>jti.
     get_then (get_id ''basis.delegation_proof.jkt'' KeyThumbprint_parse) (\<lambda>jkt.
     get_then (get_id ''basis.delegation_proof.iss'' IssuerId_parse) (\<lambda>iss.
     get_then get_varint (\<lambda>exp.
     get_return \<lparr>dp_jti = jti, dp_jkt = jkt, dp_iss = iss, dp_exp = exp\<rparr>))))"

definition get_algorithms :: "Algorithms get" where
  "get_algorithms =
     get_then (disc_get hash_alg_table ''algorithms.hash'') (\<lambda>h.
     get_then (disc_get sig_alg_table ''algorithms.signature'') (\<lambda>s.
     get_then (disc_get kem_alg_table ''algorithms.kem'') (\<lambda>k.
     get_return \<lparr>alg_hash = h, alg_signature = s, alg_kem = k\<rparr>)))"

definition get_body :: "Record get" where
  "get_body =
     get_then get_u128 (\<lambda>ident.
     get_then (get_id ''tenant'' TenantId_parse) (\<lambda>ten.
     get_then get_u16 (\<lambda>shard.
     get_then (get_id ''agent_id'' AgentId_parse) (\<lambda>agent.
     get_then (get_id ''run_id'' RunId_parse) (\<lambda>run.
     get_then (get_opt (get_id ''parent_run_id'' RunId_parse)) (\<lambda>parent.
     get_then (get_seq (get_id ''on_behalf_of'' PrincipalId_parse)) (\<lambda>behalf.
     get_then get_untrusted (\<lambda>occurred.
     get_then (get_opt get_untrusted) (\<lambda>decided.
     get_then get_varint (\<lambda>recorded.
     get_then (get_opt get_varint) (\<lambda>known.
     get_then (get_opt get_varint) (\<lambda>skew.
     get_then (disc_get event_type_table ''event_type'') (\<lambda>ev.
     get_then (disc_get severity_table ''severity'') (\<lambda>sev.
     get_then get_basis (\<lambda>bas.
     get_then (get_seq get_u128) (\<lambda>caused.
     get_then get_outcome (\<lambda>outc.
     get_then (get_opt get_payload) (\<lambda>pay.
     get_then get_varint (\<lambda>sq.
     get_then get_hash (\<lambda>prev.
     get_then get_varint (\<lambda>seg.
     get_then get_algorithms (\<lambda>algs.
     get_then get_u16 (\<lambda>mapv.
     get_return \<lparr>rec_id = ident, tenant = ten, rec_shard = shard, agent_id = agent, run_id = run,
       parent_run_id = parent, on_behalf_of = behalf, occurred_at = occurred, decided_at = decided,
       recorded_at = recorded, knowledge_as_of = known, clock_skew_nanos = skew,
       event_type = ev, severity = sev, basis = bas,
       caused_by = caused, outcome = outc, payload = pay, rec_seq = sq, prev_hash = prev,
       segment_id = seg, algorithms = algs, mapper = mapv\<rparr>)))))))))))))))))))))))"

definition get_record :: "u8 \<Rightarrow> Record get" where
  "get_record version =
     get_then get_body (\<lambda>rec.
     if 2 \<le> version
     then get_then (get_opt get_proof) (\<lambda>pf.
            get_return (rec\<lparr>basis := basis rec\<lparr>delegation_proof := pf\<rparr>\<rparr>))
     else get_return rec)"

definition decode_record_at :: "bytes \<Rightarrow> u8 \<Rightarrow> WireError + Record" where
  "decode_record_at bs version =
     bind_res (get_record version bs) (\<lambda>(rec, rest). bind_res (get_finish rest) (\<lambda>_. Inr rec))"

definition decode_record :: "bytes \<Rightarrow> WireError + Record" where
  "decode_record bs = decode_record_at bs FRAME_VERSION"

subsection \<open>Block codecs\<close>

definition short :: "'a list \<Rightarrow> bool" where
  "short xs \<longleftrightarrow> length xs \<le> MAX_BODY_BYTES"

definition basis_fits :: "Basis \<Rightarrow> bool" where
  "basis_fits b \<longleftrightarrow> basis_ok b \<and> short (tool_manifest b) \<and> short (identity_chain b)"

definition record_fits :: "Record \<Rightarrow> bool" where
  "record_fits r \<longleftrightarrow>
     record_ok r \<and> short (on_behalf_of r) \<and> short (caused_by r) \<and> basis_fits (basis r)"

lemma codec_untrusted [codecs]: "codec (\<lambda>v. put_varint (as_untrusted v)) get_untrusted (\<lambda>_. True)"
proof
  show "get_untrusted bs = Inr (x, rest) \<longleftrightarrow> True \<and> bs = put_varint (as_untrusted x) @ rest" for bs x rest
    by (cases x) (auto simp: get_untrusted_def get_then_Inr)
qed

lemmas codec_iffs = get_then_Inr codecs [THEN codec.get_iff]
lemmas opt_iffs = codecs [THEN codec_opt, THEN codec.get_iff]
lemmas seq_iffs = codecs [THEN codec_seq, THEN codec.get_iff]

lemma codec_payload: "codec put_payload get_payload (\<lambda>_. True)"
proof
  show "get_payload bs = Inr (x, rest) \<longleftrightarrow> True \<and> bs = put_payload x @ rest" for bs x rest
    by (cases x) (auto simp: get_payload_def put_payload_def codec_iffs)
qed

lemma codec_proof: "codec put_proof get_proof proof_ok"
proof
  show "get_proof bs = Inr (x, rest) \<longleftrightarrow> proof_ok x \<and> bs = put_proof x @ rest" for bs x rest
    by (cases x) (auto simp: get_proof_def put_proof_def proof_ok_def codec_iffs)
qed

lemma codec_outcome: "codec put_outcome get_outcome (\<lambda>_. True)"
proof
  show "get_outcome bs = Inr (x, rest) \<longleftrightarrow> True \<and> bs = put_outcome x @ rest" for bs x rest
    by (cases x) (auto simp: get_outcome_def put_outcome_def codec_iffs opt_iffs)
qed

lemma codec_algorithms:
  "codec (\<lambda>a. disc_put hash_alg_table (alg_hash a) @ disc_put sig_alg_table (alg_signature a) @
      disc_put kem_alg_table (alg_kem a)) get_algorithms (\<lambda>_. True)"
proof
  show "get_algorithms bs = Inr (x, rest) \<longleftrightarrow> True \<and> bs = (disc_put hash_alg_table (alg_hash x) @
      disc_put sig_alg_table (alg_signature x) @ disc_put kem_alg_table (alg_kem x)) @ rest"
    for bs x rest
    by (cases x) (auto simp: get_algorithms_def codec_iffs)
qed

lemma codec_basis:
  "codec put_basis get_basis (\<lambda>b. basis_fits b \<and> delegation_proof b = None)"
proof
  show "get_basis bs = Inr (x, rest) \<longleftrightarrow>
      (basis_fits x \<and> delegation_proof x = None) \<and> bs = put_basis x @ rest" for bs x rest
    by (cases x)
       (auto simp: get_basis_def put_basis_def basis_fits_def basis_ok_def short_def
        codec_iffs opt_iffs seq_iffs)
qed

lemmas block_iffs = codec_payload [THEN codec_opt, THEN codec.get_iff]
  codec_proof [THEN codec_opt, THEN codec.get_iff] codec_outcome [THEN codec.get_iff]
  codec_algorithms [THEN codec.get_iff] codec_basis [THEN codec.get_iff]

lemma codec_body:
  "codec put_body get_body (\<lambda>r. record_fits r \<and> delegation_proof (basis r) = None)"
proof
  show "get_body bs = Inr (x, rest) \<longleftrightarrow>
      (record_fits x \<and> delegation_proof (basis x) = None) \<and> bs = put_body x @ rest" for bs x rest
    by (cases x)
       (auto simp: get_body_def put_body_def record_fits_def record_ok_def basis_fits_def short_def
        codec_iffs opt_iffs seq_iffs block_iffs)
qed

interpretation record_body: codec put_body get_body
  "\<lambda>r. record_fits r \<and> delegation_proof (basis r) = None"
  by (rule codec_body)

subsection \<open>Whole records\<close>

definition without_proof :: "Record \<Rightarrow> Record" where
  "without_proof r = r\<lparr>basis := basis r\<lparr>delegation_proof := None\<rparr>\<rparr>"

lemma put_body_without_proof [simp]: "put_body (without_proof r) = put_body r"
  by (simp add: without_proof_def put_body_def put_basis_def)

lemma record_fits_without_proof:
  "record_fits r \<longleftrightarrow>
     record_fits (without_proof r) \<and> pred_option proof_ok (delegation_proof (basis r))"
  by (auto simp: without_proof_def record_fits_def record_ok_def basis_fits_def basis_ok_def)

lemma get_record_v1:
  "\<not> 2 \<le> version \<Longrightarrow> get_record version bs = Inr (r, rest) \<longleftrightarrow>
     (record_fits r \<and> delegation_proof (basis r) = None) \<and> bs = put_body r @ rest"
  by (simp add: get_record_def get_then_Inr record_body.get_iff)

lemma get_record_v2:
  assumes "2 \<le> version"
  shows "get_record version bs = Inr (r, rest) \<longleftrightarrow> record_fits r \<and> bs = encode_record r @ rest"
    (is "?l \<longleftrightarrow> ?r")
proof
  assume ?l
  then obtain q pf where "record_fits q" "delegation_proof (basis q) = None"
    "bs = put_body q @ put_opt put_proof pf @ rest" "pred_option proof_ok pf"
    "r = q\<lparr>basis := basis q\<lparr>delegation_proof := pf\<rparr>\<rparr>"
    using assms by (auto simp: get_record_def get_then_Inr record_body.get_iff block_iffs)
  moreover from this have "without_proof r = q" by (simp add: without_proof_def)
  ultimately show ?r
    using put_body_without_proof [of r] record_fits_without_proof [of r]
    by (simp add: encode_record_def)
next
  assume ?r
  then have "get_body bs = Inr (without_proof r, put_opt put_proof (delegation_proof (basis r)) @ rest)"
    using record_fits_without_proof [of r]
    by (simp add: record_body.get_iff encode_record_def) (simp add: without_proof_def)
  moreover have "get_opt get_proof (put_opt put_proof (delegation_proof (basis r)) @ rest) =
      Inr (delegation_proof (basis r), rest)"
    using \<open>?r\<close> record_fits_without_proof [of r] by (simp add: block_iffs)
  ultimately show ?l
    using assms by (simp add: get_record_def get_then_def get_return_def without_proof_def)
qed

lemma get_finish_Inr [simp]: "get_finish bs = Inr u \<longleftrightarrow> bs = []"
  by (simp add: get_finish_def)

lemma decode_record_iff:
  "2 \<le> version \<Longrightarrow> decode_record_at bs version = Inr r \<longleftrightarrow> record_fits r \<and> bs = encode_record r"
  "\<not> 2 \<le> version \<Longrightarrow> decode_record_at bs version = Inr r \<longleftrightarrow>
     record_fits r \<and> delegation_proof (basis r) = None \<and> bs = put_body r"
proof -
  have d: "decode_record_at bs version = Inr r \<longleftrightarrow> get_record version bs = Inr (r, [])"
    by (auto simp: decode_record_at_def bind_res_Inr_iff)
  show "2 \<le> version \<Longrightarrow>
      decode_record_at bs version = Inr r \<longleftrightarrow> record_fits r \<and> bs = encode_record r"
    by (simp add: d get_record_v2)
  show "\<not> 2 \<le> version \<Longrightarrow> decode_record_at bs version = Inr r \<longleftrightarrow>
      record_fits r \<and> delegation_proof (basis r) = None \<and> bs = put_body r"
    by (simp add: d get_record_v1)
qed

subsection \<open>Frames\<close>

definition encode_frame_at :: "bytes \<Rightarrow> hash \<Rightarrow> u8 \<Rightarrow> bytes" where
  "encode_frame_at body chain_link version =
     (let out = put_u8 FRAME_MAGIC @ put_u8 version @ put_varint (of_nat (length body));
          out = out @ body;
          out = out @ as_bytes chain_link;
          crc = crc32 out
      in out @ to_le_bytes crc)"

definition encode_frame :: "bytes \<Rightarrow> hash \<Rightarrow> bytes" where
  "encode_frame body chain_link = encode_frame_at body chain_link FRAME_VERSION"

record Frame =
  fr_body :: bytes
  chain_link :: hash
  total_len :: nat
  fr_version :: u8

definition decode_frame :: "bytes \<Rightarrow> WireError + Frame" where
  "decode_frame buf =
     bind_res (get_u8 buf) (\<lambda>(magic, r).
     if magic \<noteq> FRAME_MAGIC then Inl BadMagic
     else bind_res (get_u8 r) (\<lambda>(version, r).
     if \<not> (OLDEST_FRAME_VERSION \<le> version \<and> version \<le> FRAME_VERSION)
     then Inl (UnknownVersion version)
     else bind_res (get_varint r) (\<lambda>(v, r).
     let len = unat v in
     if MAX_BODY_BYTES < len then Inl (TooLarge len)
     else
       let header_len = length buf - length r;
           body_end = header_len + len;
           link_end = body_end + HASH_BYTES;
           crc_end = link_end + 4
       in if length buf < crc_end then Inl Truncated
          else
            let want = from_le_bytes (take 4 (drop link_end buf)) in
            if crc32 (take link_end buf) \<noteq> want then Inl BadCrc
            else Inr \<lparr>fr_body = take len (drop header_len buf),
                      chain_link = Hash_of_bytes (take HASH_BYTES (drop body_end buf)),
                      total_len = crc_end, fr_version = version\<rparr>)))"

definition known_version :: "u8 \<Rightarrow> bool" where
  "known_version v \<longleftrightarrow> OLDEST_FRAME_VERSION \<le> v \<and> v \<le> FRAME_VERSION"

lemma length_encode_frame:
  "length (encode_frame_at body link v) =
     2 + length (put_varint (of_nat (length body))) + length body + 52"
  by (simp add: encode_frame_at_def Let_def put_u8_def)

text \<open>The one computation both directions rest on: a buffer that is long enough, cut into its parts.\<close>

lemma decode_frame_parts:
  assumes "unat v \<le> MAX_BODY_BYTES" "known_version ver"
    and "length body = unat v" "length l = 48" "length c = 4"
  shows "decode_frame (FRAME_MAGIC # ver # put_varint v @ body @ l @ c @ rest) =
    (if crc32 (FRAME_MAGIC # ver # put_varint v @ body @ l) \<noteq> from_le_bytes c then Inl BadCrc
     else Inr \<lparr>fr_body = body, chain_link = Hash_of_bytes l,
               total_len = length (put_varint v) + unat v + 54, fr_version = ver\<rparr>)"
proof -
  define h where "h = FRAME_MAGIC # ver # put_varint v"
  have len: "length h = 2 + length (put_varint v)" by (simp add: h_def)
  have buf: "FRAME_MAGIC # ver # put_varint v @ q = h @ q" for q by (simp add: h_def)
  have "decode_frame (h @ body @ l @ c @ rest) =
    (if crc32 (take (length h + unat v + 48) (h @ body @ l @ c @ rest)) \<noteq>
        from_le_bytes (take 4 (drop (length h + unat v + 48) (h @ body @ l @ c @ rest))) then Inl BadCrc
     else Inr \<lparr>fr_body = take (unat v) (drop (length h) (h @ body @ l @ c @ rest)),
               chain_link = Hash_of_bytes (take 48 (drop (length h + unat v) (h @ body @ l @ c @ rest))),
               total_len = length h + unat v + 52, fr_version = ver\<rparr>)"
    using assms len unfolding buf [symmetric]
    by (simp add: decode_frame_def known_version_def Let_def HASH_BYTES_def varint.get_put)
  moreover have "take (length h + unat v + 48) (h @ body @ l @ c @ rest) = h @ body @ l"
    using assms by simp
  moreover have "take 4 (drop (length h + unat v + 48) (h @ body @ l @ c @ rest)) = c"
    using assms by simp
  moreover have "take 48 (drop (length h + unat v) (h @ body @ l @ c @ rest)) = l"
    using assms by simp
  ultimately show ?thesis using assms len unfolding buf by simp
qed

lemma encode_frame_parts:
  "encode_frame_at body link v =
     FRAME_MAGIC # v # put_varint (of_nat (length body)) @ body @ as_bytes link @
     to_le_bytes (crc32 (FRAME_MAGIC # v # put_varint (of_nat (length body)) @ body @ as_bytes link))"
  by (simp add: encode_frame_at_def Let_def put_u8_def)

lemma decode_encode_frame:
  assumes "length body \<le> MAX_BODY_BYTES" "known_version v"
  shows "decode_frame (encode_frame_at body link v @ rest) =
     Inr \<lparr>fr_body = body, chain_link = link, total_len = length (encode_frame_at body link v),
          fr_version = v\<rparr>"
  using decode_frame_parts [of "of_nat (length body)" v body "as_bytes link"
      "to_le_bytes (crc32 (FRAME_MAGIC # v # put_varint (of_nat (length body)) @ body @ as_bytes link))"
      rest] assms
  by (simp add: unat_of_nat_small encode_frame_parts)

lemma cut_parts:
  assumes "n + 52 \<le> length r"
  obtains b l c rest where "r = b @ l @ c @ rest" "length b = n" "length l = 48" "length c = 4"
proof
  have "drop (n + 48) r = drop 48 (drop n r)" "drop (n + 52) r = drop 4 (drop 48 (drop n r))"
    by (simp_all add: add.commute)
  then show "r = take n r @ take 48 (drop n r) @ take 4 (drop (n + 48) r) @ drop (n + 52) r"
    by (simp only: append_take_drop_id)
qed (use assms in simp_all)

lemma decode_frame_canonical:
  assumes "decode_frame buf = Inr f"
  shows "\<exists>rest. buf = encode_frame_at (fr_body f) (chain_link f) (fr_version f) @ rest"
    and "total_len f = length (encode_frame_at (fr_body f) (chain_link f) (fr_version f))"
    and "length (fr_body f) \<le> MAX_BODY_BYTES" and "known_version (fr_version f)"
proof -
  from assms obtain ver v r where
    buf: "buf = FRAME_MAGIC # ver # put_varint v @ r" and ver: "known_version ver"
    and v: "unat v \<le> MAX_BODY_BYTES" and long: "unat v + 52 \<le> length r"
    by (auto simp: decode_frame_def bind_res_Inr_iff put_u8_def known_version_def Let_def
        HASH_BYTES_def split: if_splits)
  from cut_parts [OF long] obtain b l c rest where
    r: "r = b @ l @ c @ rest" "length b = unat v" "length l = 48" "length c = 4" .
  have f: "f = \<lparr>fr_body = b, chain_link = Hash_of_bytes l,
      total_len = length (put_varint v) + unat v + 54, fr_version = ver\<rparr>"
    and crc: "crc32 (FRAME_MAGIC # ver # put_varint v @ b @ l) = from_le_bytes c"
    using decode_frame_parts [OF v ver r(2-4), of rest] assms unfolding buf r(1)
    by (auto split: if_splits)
  have "to_le_bytes (crc32 (FRAME_MAGIC # ver # put_varint v @ b @ l)) = c"
    unfolding crc using r(4) by (simp add: to_from_le_bytes)
  then have e: "encode_frame_at b (Hash_of_bytes l) ver = FRAME_MAGIC # ver # put_varint v @ b @ l @ c"
    using r by (simp add: encode_frame_parts as_bytes_Hash_of_bytes)
  show "\<exists>rest. buf = encode_frame_at (fr_body f) (chain_link f) (fr_version f) @ rest"
    using buf r(1) e f by simp
  show "total_len f = length (encode_frame_at (fr_body f) (chain_link f) (fr_version f))"
    using e f r by simp
  show "length (fr_body f) \<le> MAX_BODY_BYTES" "known_version (fr_version f)"
    using f v ver r by simp_all
qed

subsection \<open>Segment headers\<close>

definition encode_segment_header :: "ShardIx \<Rightarrow> SegmentId \<Rightarrow> Timestamp \<Rightarrow> bytes" where
  "encode_segment_header shard segment created_at =
     (let out = SEGMENT_MAGIC @ put_varint (ucast FORMAT_VERSION) @ put_varint (ucast shard) @
                put_varint segment @ put_varint created_at;
          crc = crc32 out
      in out @ to_le_bytes crc)"

record SegmentHeader =
  hd_format_version :: u16
  hd_shard :: ShardIx
  hd_segment :: SegmentId
  hd_created_at :: Timestamp
  hd_len :: nat

definition decode_segment_header :: "bytes \<Rightarrow> WireError + SegmentHeader" where
  "decode_segment_header buf =
     (if length buf < 4 then Inl Truncated
      else if take 4 buf \<noteq> SEGMENT_MAGIC then Inl BadMagic
      else bind_res (get_u16 (drop 4 buf)) (\<lambda>(version, r).
        if version \<noteq> FORMAT_VERSION
        then Inl (UnknownVersion (if unat version < 256 then ucast version else 255))
        else bind_res (get_u16 r) (\<lambda>(shard, r).
             bind_res (get_varint r) (\<lambda>(segment, r).
             bind_res (get_varint r) (\<lambda>(created_at, r).
             let consumed = 4 + (length buf - 4 - length r);
                 crc_end = consumed + 4
             in if length buf < crc_end then Inl Truncated
                else
                  let want = from_le_bytes (take 4 (drop consumed buf)) in
                  if crc32 (take consumed buf) \<noteq> want then Inl BadCrc
                  else Inr \<lparr>hd_format_version = version, hd_shard = shard, hd_segment = segment,
                            hd_created_at = created_at, hd_len = crc_end\<rparr>)))))"

definition header_bytes :: "ShardIx \<Rightarrow> SegmentId \<Rightarrow> Timestamp \<Rightarrow> bytes" where
  "header_bytes shard segment created_at =
     SEGMENT_MAGIC @ put_varint (ucast FORMAT_VERSION) @ put_varint (ucast shard) @
     put_varint segment @ put_varint created_at"

lemma encode_header_parts:
  "encode_segment_header s g c = header_bytes s g c @ to_le_bytes (crc32 (header_bytes s g c))"
  by (simp add: encode_segment_header_def header_bytes_def Let_def)

lemma length_SEGMENT_MAGIC [simp]: "length SEGMENT_MAGIC = 4"
  by (simp add: SEGMENT_MAGIC_def)

lemmas u16_iff = codec.get_iff [OF codec_u16]
lemmas u16_get_put = codec.get_put [OF codec_u16, OF TrueI]

lemma decode_header_parts:
  "decode_segment_header (header_bytes s g t @ q) =
     (if length q < 4 then Inl Truncated
      else if crc32 (header_bytes s g t) \<noteq> from_le_bytes (take 4 q) then Inl BadCrc
      else Inr \<lparr>hd_format_version = FORMAT_VERSION, hd_shard = s, hd_segment = g,
                hd_created_at = t, hd_len = length (header_bytes s g t) + 4\<rparr>)"
proof -
  define h where "h = header_bytes s g t"
  have h: "h @ q = SEGMENT_MAGIC @ put_varint (ucast FORMAT_VERSION) @ put_varint (ucast s) @
      put_varint g @ put_varint t @ q"
    by (simp add: h_def header_bytes_def)
  then have "length h + length q = 4 + length (put_varint (ucast FORMAT_VERSION)) +
      length (put_varint (ucast s)) + length (put_varint g) + length (put_varint t) + length q"
    by (metis (no_types) add.assoc length_SEGMENT_MAGIC length_append)
  then have consumed: "4 + (length (h @ q) - 4 - length q) = length h" by simp
  have reads: "get_u16 (drop 4 (h @ q)) = Inr (FORMAT_VERSION, put_varint (ucast s) @ put_varint g @ put_varint t @ q)"
    "take 4 (h @ q) = SEGMENT_MAGIC" "4 \<le> length (h @ q)"
    unfolding h by (simp_all add: u16_get_put)
  show ?thesis
    unfolding h_def [symmetric] decode_segment_header_def reads(1,2)
    using reads(3) consumed
    by (simp add: u16_get_put varint.get_put Let_def)
qed

lemma decode_header_canonical:
  assumes "decode_segment_header buf = Inr hdr"
  shows "\<exists>rest. buf = encode_segment_header (hd_shard hdr) (hd_segment hdr) (hd_created_at hdr) @ rest"
    and "hd_len hdr = length (encode_segment_header (hd_shard hdr) (hd_segment hdr) (hd_created_at hdr))"
    and "hd_format_version hdr = FORMAT_VERSION"
proof -
  have "\<exists>s g t q. buf = header_bytes s g t @ q"
  proof -
    from assms have m: "take 4 buf = SEGMENT_MAGIC" by (auto simp: decode_segment_header_def split: if_splits)
    from assms obtain s r1 g r2 t r3 q where
      "get_u16 (drop 4 buf) = Inr (FORMAT_VERSION, r1)" "get_u16 r1 = Inr (s, r2)"
      "get_varint r2 = Inr (g, r3)" "get_varint r3 = Inr (t, q)"
      by (auto simp: decode_segment_header_def bind_res_Inr_iff simp del: varint_iff
          split: if_splits)
    then have "drop 4 buf = put_varint (ucast FORMAT_VERSION) @ put_varint (ucast s) @
        put_varint g @ put_varint t @ q"
      by (simp add: u16_iff)
    then have "buf = header_bytes s g t @ q"
      using m append_take_drop_id [of 4 buf] by (simp add: header_bytes_def)
    then show ?thesis by blast
  qed
  then obtain s g t q where buf: "buf = header_bytes s g t @ q" by blast
  have q: "4 \<le> length q" and crc: "crc32 (header_bytes s g t) = from_le_bytes (take 4 q)"
    and hdr: "hdr = \<lparr>hd_format_version = FORMAT_VERSION, hd_shard = s, hd_segment = g,
        hd_created_at = t, hd_len = length (header_bytes s g t) + 4\<rparr>"
    using assms unfolding buf decode_header_parts by (auto split: if_splits)
  have "to_le_bytes (crc32 (header_bytes s g t)) = take 4 q"
    unfolding crc using q by (simp add: to_from_le_bytes)
  then have "buf = encode_segment_header s g t @ drop 4 q"
    unfolding buf encode_header_parts by simp
  then show "\<exists>rest. buf = encode_segment_header (hd_shard hdr) (hd_segment hdr) (hd_created_at hdr) @ rest"
    using hdr by auto
  show "hd_len hdr = length (encode_segment_header (hd_shard hdr) (hd_segment hdr) (hd_created_at hdr))"
    "hd_format_version hdr = FORMAT_VERSION"
    using hdr by (simp_all add: encode_header_parts)
qed

lemma decode_encode_header:
  "decode_segment_header (encode_segment_header s g t @ rest) =
     Inr \<lparr>hd_format_version = FORMAT_VERSION, hd_shard = s, hd_segment = g, hd_created_at = t,
          hd_len = length (encode_segment_header s g t)\<rparr>"
  by (simp add: encode_header_parts decode_header_parts)

lemma length_header: "length (encode_segment_header s g t) \<le> MAX_SEGMENT_HEADER_LEN"
proof -
  have "unat (ucast w :: u64) < 2 ^ (7 * 3)" for w :: u16
  proof -
    have "unat w < 2 ^ 16" using unsigned_less [of w, where ?'a = nat] by simp
    then show ?thesis by (simp add: unat_ucast_up)
  qed
  then have "length (put_varint (ucast w)) \<le> 3" for w :: u16
    by (intro length_put_varint_less) simp_all
  from this [of FORMAT_VERSION] this [of s] show ?thesis
    using length_put_varint [of g] length_put_varint [of t]
    by (simp add: encode_header_parts header_bytes_def MAX_SEGMENT_HEADER_LEN_def)
qed

subsection \<open>A record to try things on\<close>

definition sample_record :: Record where
  "sample_record =
     \<lparr>rec_id = 7, tenant = ascii ''acme'', rec_shard = 3, agent_id = ascii ''agent://d/p'',
      run_id = ascii ''run-1'', parent_run_id = None, on_behalf_of = [ascii ''user://d/u''],
      occurred_at = Untrusted 1000, decided_at = Some (Untrusted 1001), recorded_at = 1002,
      knowledge_as_of = None, clock_skew_nanos = None, event_type = ToolCall, severity = Info,
      basis = \<lparr>policy_version = Some (ascii ''v1''), budget_remaining_micros = Some (- 5),
        memory_ref = None, basis_model = Some (ascii ''m/x''), temperature_milli = Some 700,
        max_tokens = None, prompt_hash = None, tool_manifest = [ascii ''search''],
        identity_chain = [], delegation_proof = None\<rparr>,
      caused_by = [5, 6],
      outcome = \<lparr>out_verdict = Some Allowed, out_error = None, latency_micros = Some 12,
        tokens_in = None, tokens_out = None, cost_micros = Some (- 1)\<rparr>,
      payload = None, rec_seq = 1, prev_hash = 0, segment_id = 1,
      algorithms = Algorithms_default, mapper = 1\<rparr>"

lemma sample_fits: "record_fits sample_record" "delegation_proof (basis sample_record) = None"
  by (simp_all add: record_fits_def record_ok_def basis_fits_def basis_ok_def sample_record_def
      token_ok_def ascii_def segment_char_def uri_char_def model_char_def short_def
      MAX_BODY_BYTES_def)

subsection \<open>Properties\<close>

text \<open>
  C32. One record, one byte form. A current-version body decodes to a record exactly when it is that
  record's encoding and the record is well formed (its tokens are valid and its lists are within
  the format's bound). So encoding and decoding give the record back, and nothing else decodes to
  it: no overlong integer, no other discriminant, no trailing byte.
\<close>

theorem record_encoding_canonical:
  "decode_record bs = Inr r \<longleftrightarrow> record_fits r \<and> bs = encode_record r"
  unfolding decode_record_def by (rule decode_record_iff) (simp add: FRAME_VERSION_def)

text \<open>
  The migration is in the reader: a version 1 body decodes to a record without a delegation
  proof, and exactly the bytes of the current encoding of that record, less the one byte that says
  the proof is absent, are the body it came from.
\<close>

theorem v1_body_reads_unproven:
  "decode_record_at bs 1 = Inr r \<longleftrightarrow>
     record_fits r \<and> delegation_proof (basis r) = None \<and> encode_record r = bs @ [0]"
proof -
  have "encode_record r = put_body r @ [0]" if "delegation_proof (basis r) = None"
    using that by (simp add: encode_record_def put_opt_def put_u8_def)
  moreover have "\<not> (2 :: u8) \<le> 1" by (simp add: word_le_nat_alt)
  ultimately show ?thesis using decode_record_iff(2) [of 1 bs r] by auto
qed

text \<open>
  A frame written around a body reads back as that body, link, version and length whatever
  follows it in the file; and whatever frame is read from the front of a buffer is, byte for byte,
  the frame a writer makes of what was read.
\<close>

theorem frame_roundtrip:
  assumes "length body \<le> MAX_BODY_BYTES" "known_version v"
  shows "decode_frame (encode_frame_at body link v @ rest) =
     Inr \<lparr>fr_body = body, chain_link = link, total_len = length (encode_frame_at body link v),
          fr_version = v\<rparr>"
  by (rule decode_encode_frame [OF assms])

theorem frame_roundtrip_witness:
  "decode_frame (encode_frame_at [1, 2, 3] 9 2 @ [4]) =
     Inr \<lparr>fr_body = [1, 2, 3], chain_link = 9, total_len = length (encode_frame_at [1, 2, 3] 9 2),
          fr_version = 2\<rparr>"
  by (rule frame_roundtrip)
     (simp_all add: MAX_BODY_BYTES_def known_version_def OLDEST_FRAME_VERSION_def FRAME_VERSION_def)

text \<open>
  Frames are canonical: a buffer from which a frame is read starts with exactly the bytes the
  writer produces for that frame, the length reported is their number, and it covers the part that
  was read and nothing after it.
\<close>

theorem frame_canonical:
  assumes "decode_frame buf = Inr f"
  shows "take (total_len f) buf = encode_frame_at (fr_body f) (chain_link f) (fr_version f) \<and>
         total_len f \<le> length buf \<and> length (fr_body f) \<le> MAX_BODY_BYTES"
  using decode_frame_canonical [OF assms] by auto

theorem frame_canonical_witness:
  "take (length (encode_frame_at [1] 9 1)) (encode_frame_at [1] 9 1 @ [7]) = encode_frame_at [1] 9 1"
proof -
  have "decode_frame (encode_frame_at [1] 9 1 @ [7]) =
     Inr \<lparr>fr_body = [1], chain_link = 9, total_len = length (encode_frame_at [1] 9 1), fr_version = 1\<rparr>"
    by (rule decode_encode_frame)
       (simp_all add: MAX_BODY_BYTES_def known_version_def OLDEST_FRAME_VERSION_def FRAME_VERSION_def)
  from frame_canonical [OF this] show ?thesis by simp
qed

text \<open>
  A segment header reads back as what it was written from, is never longer than the bound
  recovery relies on, and a header that reads is the one a writer makes of what was read.
\<close>

theorem segment_header_roundtrip:
  "decode_segment_header (encode_segment_header s g t @ rest) =
     Inr \<lparr>hd_format_version = FORMAT_VERSION, hd_shard = s, hd_segment = g, hd_created_at = t,
          hd_len = length (encode_segment_header s g t)\<rparr> \<and>
   length (encode_segment_header s g t) \<le> MAX_SEGMENT_HEADER_LEN \<and>
   (decode_segment_header buf = Inr h \<longrightarrow>
      (\<exists>q. buf = encode_segment_header (hd_shard h) (hd_segment h) (hd_created_at h) @ q))"
  using decode_encode_header length_header decode_header_canonical(1) by blast

theorem segment_header_roundtrip_witness:
  "decode_segment_header (encode_segment_header 3 1 5 @ []) =
     Inr \<lparr>hd_format_version = FORMAT_VERSION, hd_shard = 3, hd_segment = 1, hd_created_at = 5,
          hd_len = length (encode_segment_header 3 1 5)\<rparr> \<and>
   (\<exists>q. encode_segment_header 3 1 5 @ [] = encode_segment_header 3 1 5 @ q)"
  using segment_header_roundtrip [of 3 1 5 "[]" "encode_segment_header 3 1 5 @ []"
      "\<lparr>hd_format_version = FORMAT_VERSION, hd_shard = 3, hd_segment = 1, hd_created_at = 5,
        hd_len = length (encode_segment_header 3 1 5)\<rparr>"]
  by simp

end
