(* ===== verification/Completeness.thy ===== *)
theory Completeness
  imports Merkle Encoding
begin

text \<open>
  Range answers with a proof that nothing is missing:
  \<open>crates/trailryx-index/src/completeness.rs\<close>. One sorted, authenticated index per segment and
  dimension; a range answer carries its entries, an inclusion proof for each, and the two
  neighbours that bound it.

  The results: keys sort as the values they stand for; an index built from records with no
  duplicate position answers every range, reversed ones included, with a proof that verifies; and
  a proof that verifies against the root of a sorted index holds exactly the index's entries in the
  range, unless the verifier and the index hashed two different messages to one digest.

  Positions and sizes (\<open>usize\<close>) are natural numbers. The verifier adds an offset to the declared
  \<open>first_index\<close>; the sum is only reached after the positions before it have been checked against
  the tree, and \<open>verified_positions\<close> bounds it by the size of the index.
\<close>

subsection \<open>Dimensions and keys\<close>

datatype Dimension = Dim_RecordId | Dim_RecordedAt | Dim_AgentId | Dim_RunId | Dim_EventType

definition Dimension_ALL :: "Dimension list" where
  "Dimension_ALL = [Dim_RecordId, Dim_RecordedAt, Dim_AgentId, Dim_RunId, Dim_EventType]"

primrec Dimension_as_str :: "Dimension \<Rightarrow> str" where
  "Dimension_as_str Dim_RecordId = ascii ''id''"
| "Dimension_as_str Dim_RecordedAt = ascii ''recorded_at''"
| "Dimension_as_str Dim_AgentId = ascii ''agent_id''"
| "Dimension_as_str Dim_RunId = ascii ''run_id''"
| "Dimension_as_str Dim_EventType = ascii ''event_type''"

primrec event_code :: "EventType \<Rightarrow> u8" where
  "event_code RequestReceived = 1"
| "event_code ModelCall = 2"
| "event_code ToolCall = 3"
| "event_code PolicyDecision = 4"
| "event_code BudgetCheck = 5"
| "event_code MemoryAccess = 6"
| "event_code Delegation = 7"
| "event_code RunCompleted = 8"
| "event_code Erasure = 9"
| "event_code StoreEvent = 10"
| "event_code NotificationDispatched = 11"
| "event_code IdentityFinding = 12"

primrec key_of :: "Dimension \<Rightarrow> Record \<Rightarrow> bytes" where
  "key_of Dim_RecordId r = to_be_bytes (rec_id r)"
| "key_of Dim_RecordedAt r = to_be_bytes (recorded_at r)"
| "key_of Dim_AgentId r = agent_id r"
| "key_of Dim_RunId r = run_id r"
| "key_of Dim_EventType r = [event_code (event_type r)]"

definition time_key :: "u64 \<Rightarrow> bytes" where
  "time_key nanos = to_be_bytes nanos"

definition id_key :: "RecordId \<Rightarrow> bytes" where
  "id_key i = to_be_bytes i"

definition event_key :: "EventType \<Rightarrow> bytes" where
  "event_key e = [event_code e]"

text \<open>\<open>u64::from_str\<close>: an optional plus sign, at least one decimal digit, no overflow.\<close>

definition decimal_digit :: "u8 \<Rightarrow> nat option" where
  "decimal_digit b = (if 0x30 \<le> unat b \<and> unat b \<le> 0x39 then Some (unat b - 0x30) else None)"

fun parse_digits :: "nat \<Rightarrow> str \<Rightarrow> nat option" where
  "parse_digits acc [] = Some acc"
| "parse_digits acc (b # bs) =
     (case decimal_digit b of
        None \<Rightarrow> None
      | Some d \<Rightarrow> if 2 ^ 64 \<le> acc * 10 + d then None else parse_digits (acc * 10 + d) bs)"

definition parse_u64 :: "str \<Rightarrow> u64 option" where
  "parse_u64 s =
     (let ds = (case s of b # bs \<Rightarrow> if b = 0x2B then bs else s | [] \<Rightarrow> s) in
      if ds = [] then None else map_option of_nat (parse_digits 0 ds))"

definition key_from_text :: "Dimension \<Rightarrow> str \<Rightarrow> bytes option" where
  "key_from_text d text =
     (case d of
        Dim_RecordId \<Rightarrow>
          if length text \<noteq> 32 \<or> \<not> list_all (\<lambda>b. to_digit b \<noteq> None) text then None
          else from_hex_loop text
      | Dim_RecordedAt \<Rightarrow> map_option to_be_bytes (parse_u64 text)
      | Dim_AgentId \<Rightarrow> Some text
      | Dim_RunId \<Rightarrow> Some text
      | Dim_EventType \<Rightarrow>
          map_option (\<lambda>e. [event_code e]) (find (\<lambda>e. EventType_as_str e = text) EventType_ALL))"

definition key_from_i64 :: "Dimension \<Rightarrow> i64 \<Rightarrow> bytes option" where
  "key_from_i64 d value =
     (case d of
        Dim_RecordedAt \<Rightarrow> if 0 \<le> sint value then Some (to_be_bytes (value :: u64)) else None
      | Dim_EventType \<Rightarrow>
          if 0 \<le> sint value \<and> sint value < 256
          then (let code = ucast value in
                if list_ex (\<lambda>e. event_code e = code) EventType_ALL then Some [code] else None)
          else None
      | _ \<Rightarrow> None)"

subsection \<open>Entries and the index\<close>

record Entry =
  en_key :: bytes
  en_seq :: u64
  record_link :: hash

definition Entry_leaf_hash :: "Entry \<Rightarrow> hash" where
  "Entry_leaf_hash e =
     (let h = Sha384_new;
          h = Sha384_update h [0x00];
          h = Sha384_update h (to_be_bytes (of_nat (length (en_key e)) :: u64));
          h = Sha384_update h (en_key e);
          h = Sha384_update h (to_be_bytes (en_seq e));
          h = Sha384_update h (as_bytes (record_link e))
      in Sha384_finish h)"

record SortedIndex =
  ix_dimension :: Dimension
  ix_entries :: "Entry list"
  ix_tree :: MerkleTree

text \<open>The position of an entry: \<open>(key, seq)\<close>, compared lexicographically.\<close>

definition position :: "Entry \<Rightarrow> bytes \<times> u64" where
  "position e = (en_key e, en_seq e)"

definition entry_of :: "Dimension \<Rightarrow> Record \<times> hash \<Rightarrow> Entry" where
  "entry_of dim rl =
     (case rl of (r, leaf) \<Rightarrow> \<lparr>en_key = key_of dim r, en_seq = rec_seq r, record_link = leaf\<rparr>)"

definition SortedIndex_build :: "Dimension \<Rightarrow> (Record \<times> hash) list \<Rightarrow> SortedIndex" where
  "SortedIndex_build dim records =
     (let entries = map (entry_of dim) records;
          entries = sort_key position entries;
          tree = from_leaf_hashes (map Entry_leaf_hash entries)
      in \<lparr>ix_dimension = dim, ix_entries = entries, ix_tree = tree\<rparr>)"

definition ix_root :: "SortedIndex \<Rightarrow> hash" where
  "ix_root ix = root (ix_tree ix)"

definition ix_len :: "SortedIndex \<Rightarrow> nat" where
  "ix_len ix = length (ix_entries ix)"

definition ix_entry :: "SortedIndex \<Rightarrow> nat \<Rightarrow> Entry option" where
  "ix_entry ix i = (if i < length (ix_entries ix) then Some (ix_entries ix ! i) else None)"

definition ix_inclusion :: "SortedIndex \<Rightarrow> nat \<Rightarrow> InclusionProof option" where
  "ix_inclusion ix i = inclusion_proof (ix_tree ix) i (length (ix_entries ix))"

fun first_duplicate :: "Entry list \<Rightarrow> u64 option" where
  "first_duplicate (a # b # es) =
     (if position b \<le> position a then Some (en_seq b) else first_duplicate (b # es))"
| "first_duplicate _ = None"

definition first_duplicate_position :: "SortedIndex \<Rightarrow> u64 option" where
  "first_duplicate_position ix = first_duplicate (ix_entries ix)"

record CompletenessProof =
  pf_dimension :: Dimension
  pf_size :: nat
  first_index :: nat
  pf_entries :: "Entry list"
  entry_proofs :: "InclusionProof list"
  left_boundary :: "(Entry \<times> InclusionProof) option"
  right_boundary :: "(Entry \<times> InclusionProof) option"

text \<open>
  \<open>partition_point\<close> on a slice that is partitioned by the predicate, which a sorted index is.
\<close>

definition partition_point :: "('a \<Rightarrow> bool) \<Rightarrow> 'a list \<Rightarrow> nat" where
  "partition_point P xs = length (takeWhile P xs)"

text \<open>\<open>range\<close>; \<open>None\<close> stands for the panic of an \<open>expect\<close> on a missing inclusion proof.\<close>

fun collect_proofs :: "SortedIndex \<Rightarrow> nat list \<Rightarrow> InclusionProof list option" where
  "collect_proofs ix [] = Some []"
| "collect_proofs ix (i # is) =
     (case ix_inclusion ix i of
        None \<Rightarrow> None
      | Some p \<Rightarrow> map_option ((#) p) (collect_proofs ix is))"

definition boundary_at :: "SortedIndex \<Rightarrow> nat \<Rightarrow> (Entry \<times> InclusionProof) option" where
  "boundary_at ix i = map_option (Pair (ix_entries ix ! i)) (ix_inclusion ix i)"

definition range_proof :: "SortedIndex \<Rightarrow> bytes \<Rightarrow> bytes \<Rightarrow> CompletenessProof option" where
  "range_proof ix lo hi =
     (let sz = length (ix_entries ix);
          first = partition_point (\<lambda>e. en_key e < lo) (ix_entries ix);
          after = max (partition_point (\<lambda>e. en_key e \<le> hi) (ix_entries ix)) first;
          entries = take (after - first) (drop first (ix_entries ix))
      in case collect_proofs ix [first ..< after] of
           None \<Rightarrow> None
         | Some proofs \<Rightarrow>
             (case (if 0 < first then map_option Some (boundary_at ix (first - 1)) else Some None) of
                None \<Rightarrow> None
              | Some left \<Rightarrow>
                  (case (if after < sz then map_option Some (boundary_at ix after) else Some None) of
                     None \<Rightarrow> None
                   | Some right \<Rightarrow>
                       Some \<lparr>pf_dimension = ix_dimension ix, pf_size = sz, first_index = first,
                             pf_entries = entries, entry_proofs = proofs, left_boundary = left,
                             right_boundary = right\<rparr>)))"

subsection \<open>The verifier\<close>

datatype ProofFailure =
    WrongDimension
  | WrongSize nat nat
  | EmptyAnswerAgainstNonEmptyIndex
  | EntriesAgainstEmptyIndex
  | CountMismatch
  | EntryNotInTree nat
  | NotContiguous nat nat
  | OutsideRange nat
  | OutOfOrder nat
  | MissingLeftBoundary
  | MissingRightBoundary
  | BoundaryDoesNotBound string
  | BoundaryNotInTree string
  | BoundaryAtWrongPosition string nat nat
  | SpuriousBoundary string

text \<open>The loop over the entries; \<open>prev\<close> is the entry before, absent at \<open>k = 0\<close>.\<close>

fun verify_entries ::
  "bytes \<Rightarrow> bytes \<Rightarrow> hash \<Rightarrow> nat \<Rightarrow> nat \<Rightarrow> nat \<Rightarrow> Entry option \<Rightarrow> (Entry \<times> InclusionProof) list \<Rightarrow>
   ProofFailure + unit" where
  "verify_entries lo hi rt sz first k prev [] = Inr ()"
| "verify_entries lo hi rt sz first k prev ((entry, pf) # rest) =
     (let expected = first + k in
      if ip_index pf \<noteq> expected \<or> ip_size pf \<noteq> sz then Inl (NotContiguous expected (ip_index pf))
      else if \<not> verify_at pf (Entry_leaf_hash entry) rt expected sz then Inl (EntryNotInTree k)
      else if en_key entry < lo \<or> hi < en_key entry then Inl (OutsideRange k)
      else if (case prev of None \<Rightarrow> False | Some p \<Rightarrow> position entry \<le> position p) then Inl (OutOfOrder k)
      else verify_entries lo hi rt sz first (k + 1) (Some entry) rest)"

definition verify_left :: "CompletenessProof \<Rightarrow> bytes \<Rightarrow> hash \<Rightarrow> ProofFailure + unit" where
  "verify_left p lo rt =
     (case left_boundary p of
        None \<Rightarrow> if first_index p = 0 then Inr () else Inl MissingLeftBoundary
      | Some (entry, pf) \<Rightarrow>
          if first_index p = 0 then Inl (SpuriousBoundary ''left'')
          else if ip_index pf \<noteq> first_index p - 1
          then Inl (BoundaryAtWrongPosition ''left'' (first_index p - 1) (ip_index pf))
          else if \<not> verify_at pf (Entry_leaf_hash entry) rt (first_index p - 1) (pf_size p)
          then Inl (BoundaryNotInTree ''left'')
          else if lo \<le> en_key entry then Inl (BoundaryDoesNotBound ''left'')
          else Inr ())"

definition verify_right :: "CompletenessProof \<Rightarrow> bytes \<Rightarrow> hash \<Rightarrow> ProofFailure + unit" where
  "verify_right p hi rt =
     (let after = first_index p + length (pf_entries p) in
      case right_boundary p of
        None \<Rightarrow> if after = pf_size p then Inr () else Inl MissingRightBoundary
      | Some (entry, pf) \<Rightarrow>
          if after = pf_size p then Inl (SpuriousBoundary ''right'')
          else if ip_index pf \<noteq> after
          then Inl (BoundaryAtWrongPosition ''right'' after (ip_index pf))
          else if \<not> verify_at pf (Entry_leaf_hash entry) rt after (pf_size p)
          then Inl (BoundaryNotInTree ''right'')
          else if en_key entry \<le> hi then Inl (BoundaryDoesNotBound ''right'')
          else Inr ())"

definition completeness_verify ::
  "CompletenessProof \<Rightarrow> Dimension \<Rightarrow> bytes \<Rightarrow> bytes \<Rightarrow> hash \<Rightarrow> nat \<Rightarrow> ProofFailure + unit" where
  "completeness_verify p dim lo hi rt expected_size =
     (if pf_dimension p \<noteq> dim then Inl WrongDimension
      else if pf_size p \<noteq> expected_size then Inl (WrongSize expected_size (pf_size p))
      else if length (pf_entries p) \<noteq> length (entry_proofs p) then Inl CountMismatch
      else if pf_size p = 0 then
        (if \<not> digests_equal rt empty_root then Inl EmptyAnswerAgainstNonEmptyIndex
         else if pf_entries p \<noteq> [] \<or> entry_proofs p \<noteq> [] \<or> first_index p \<noteq> 0 \<or>
                 left_boundary p \<noteq> None \<or> right_boundary p \<noteq> None
         then Inl EntriesAgainstEmptyIndex
         else Inr ())
      else
        bind_res (verify_entries lo hi rt (pf_size p) (first_index p) 0 None
                    (zip (pf_entries p) (entry_proofs p)))
          (\<lambda>_. bind_res (verify_left p lo rt) (\<lambda>_. verify_right p hi rt)))"

subsection \<open>Entries and their messages\<close>

definition entry_msg :: "Entry \<Rightarrow> bytes" where
  "entry_msg e = 0x00 # to_be_bytes (of_nat (length (en_key e)) :: u64) @ en_key e @
     to_be_bytes (en_seq e) @ as_bytes (record_link e)"

lemma entry_leaf_digest: "Entry_leaf_hash e = Sha384_digest (entry_msg e)"
  using streaming_digest [of "[[0x00], to_be_bytes (of_nat (length (en_key e)) :: u64), en_key e,
      to_be_bytes (en_seq e), as_bytes (record_link e)]"]
  by (simp add: Entry_leaf_hash_def entry_msg_def Let_def)

lemma entry_msg_inj: "entry_msg a = entry_msg b \<longleftrightarrow> a = b"
proof
  assume eq: "entry_msg a = entry_msg b"
  then have "length (entry_msg a) = length (entry_msg b)" by simp
  then have "length (en_key a) = length (en_key b)" by (simp add: entry_msg_def)
  with eq show "a = b" by (cases a; cases b) (simp add: entry_msg_def to_be_bytes_inj)
qed simp

text \<open>The messages behind a checked entry, and behind a committed index.\<close>

definition pair_msgs :: "Entry \<times> InclusionProof \<Rightarrow> bytes list" where
  "pair_msgs ep = entry_msg (fst ep) # ip_msgs (snd ep) (Entry_leaf_hash (fst ep))"

definition index_msgs :: "Entry list \<Rightarrow> bytes list" where
  "index_msgs es = map entry_msg es @ mth_msgs (map Entry_leaf_hash es)"

definition proof_pairs :: "CompletenessProof \<Rightarrow> (Entry \<times> InclusionProof) list" where
  "proof_pairs p = zip (pf_entries p) (entry_proofs p) @
     (case left_boundary p of None \<Rightarrow> [] | Some b \<Rightarrow> [b]) @
     (case right_boundary p of None \<Rightarrow> [] | Some b \<Rightarrow> [b])"

definition completeness_msgs :: "CompletenessProof \<Rightarrow> bytes list" where
  "completeness_msgs p = concat (map pair_msgs (proof_pairs p))"

text \<open>
  An entry whose leaf checks at a position of the committed index is the entry at that position.
  This is the interface \<open>authenticated_list\<close> carried from digests to entries.
\<close>

definition check_entry :: "Entry \<times> InclusionProof \<Rightarrow> Entry list \<Rightarrow> nat \<Rightarrow> bool" where
  "check_entry ep es i \<longleftrightarrow>
     verify_at (snd ep) (Entry_leaf_hash (fst ep)) (mth (map Entry_leaf_hash es)) i (length es)"

lemma check_entry_binds:
  assumes "check_entry ep es i" "\<not> collides (pair_msgs ep) (index_msgs es)"
  shows "i < length es \<and> fst ep = es ! i"
proof -
  have nb: "\<not> ip_broken (snd ep) (Entry_leaf_hash (fst ep)) (map Entry_leaf_hash es)"
    using assms(2) unfolding ip_broken_def pair_msgs_def index_msgs_def
    by (auto simp: collides_def)
  have "i < length es" "Entry_leaf_hash (fst ep) = Entry_leaf_hash (es ! i)"
    using merkle.check_binds [of "snd ep" "Entry_leaf_hash (fst ep)" "map Entry_leaf_hash es" i]
      assms(1) nb by (auto simp: check_entry_def)
  then have "Sha384_digest (entry_msg (fst ep)) = Sha384_digest (entry_msg (es ! i))"
    "entry_msg (es ! i) \<in> set (index_msgs es)"
    by (simp_all add: entry_leaf_digest index_msgs_def)
  then have "entry_msg (fst ep) = entry_msg (es ! i)"
    using assms(2) by (intro collidesD) (auto simp: pair_msgs_def)
  with \<open>i < length es\<close> show ?thesis by (simp add: entry_msg_inj)
qed

subsection \<open>What the verifier has established when it accepts\<close>

lemma verify_entries_ok:
  "verify_entries lo hi rt sz first k prev eps = Inr () \<Longrightarrow> i < length eps \<Longrightarrow>
   verify_at (snd (eps ! i)) (Entry_leaf_hash (fst (eps ! i))) rt (first + (k + i)) sz \<and>
   lo \<le> en_key (fst (eps ! i)) \<and> en_key (fst (eps ! i)) \<le> hi"
proof (induction eps arbitrary: k prev i)
  case (Cons ep eps)
  obtain e pf where ep: "ep = (e, pf)" by (cases ep)
  have now: "verify_at pf (Entry_leaf_hash e) rt (first + k) sz" "lo \<le> en_key e" "en_key e \<le> hi"
    and rest: "verify_entries lo hi rt sz first (Suc k) (Some e) eps = Inr ()"
    using Cons.prems(1) by (auto simp: ep Let_def split: if_splits)
  show ?case
  proof (cases i)
    case 0
    then show ?thesis using now by (simp add: ep)
  next
    case (Suc j)
    then show ?thesis using Cons.IH [OF rest, of j] Cons.prems(2) by simp
  qed
qed simp

definition sorted_entries :: "Entry list \<Rightarrow> bool" where
  "sorted_entries es \<longleftrightarrow> sorted (map en_key es)"

lemma sorted_entries_le: "sorted_entries es \<Longrightarrow> i \<le> j \<Longrightarrow> j < length es \<Longrightarrow> en_key (es ! i) \<le> en_key (es ! j)"
  unfolding sorted_entries_def using sorted_nth_mono [of "map en_key es" i j] by simp

text \<open>In a sorted list the entries of a range are a slice, found by its two edges.\<close>

lemma filter_slice:
  assumes "a + n \<le> length es"
    and "\<And>i. i < a \<Longrightarrow> \<not> P (es ! i)"
    and "\<And>i. a \<le> i \<Longrightarrow> i < a + n \<Longrightarrow> P (es ! i)"
    and "\<And>i. a + n \<le> i \<Longrightarrow> i < length es \<Longrightarrow> \<not> P (es ! i)"
  shows "filter P es = take n (drop a es)"
proof -
  have es: "es = take a es @ take n (drop a es) @ drop (a + n) es"
    by (metis append_take_drop_id drop_drop add.commute)
  have "filter P (take a es) = []"
    using assms(1,2) by (auto simp: filter_empty_conv in_set_conv_nth)
  moreover have "filter P (drop (a + n) es) = []"
    using assms(1,4) by (auto simp: filter_empty_conv in_set_conv_nth)
  moreover have "filter P (take n (drop a es)) = take n (drop a es)"
    using assms(1,3) by (auto simp: filter_id_conv in_set_conv_nth)
  ultimately show ?thesis by (subst es) simp
qed

definition in_range :: "bytes \<Rightarrow> bytes \<Rightarrow> Entry \<Rightarrow> bool" where
  "in_range lo hi e \<longleftrightarrow> lo \<le> en_key e \<and> en_key e \<le> hi"

lemma pair_not_collides:
  "\<not> collides (completeness_msgs p) ms \<Longrightarrow> ep \<in> set (proof_pairs p) \<Longrightarrow> \<not> collides (pair_msgs ep) ms"
  unfolding completeness_msgs_def by (auto simp: collides_def)

lemma verify_left_ok:
  assumes "verify_left p lo (mth (map Entry_leaf_hash es)) = Inr ()" "pf_size p = length es"
    and "\<not> collides (completeness_msgs p) (index_msgs es)"
  shows "first_index p = 0 \<or>
    0 < first_index p \<and> first_index p \<le> length es \<and> en_key (es ! (first_index p - 1)) < lo"
proof (cases "left_boundary p")
  case None
  then show ?thesis using assms(1) by (auto simp: verify_left_def split: if_splits)
next
  case (Some ep)
  have c: "check_entry ep es (first_index p - 1)" "0 < first_index p" "en_key (fst ep) < lo"
    using assms(1,2) Some
    by (auto simp: verify_left_def check_entry_def linorder_not_le split: prod.splits if_splits)
  have "ep \<in> set (proof_pairs p)" using Some by (simp add: proof_pairs_def)
  from check_entry_binds [OF c(1) pair_not_collides [OF assms(3) this]] c
  show ?thesis by auto
qed

lemma verify_right_ok:
  assumes "verify_right p hi (mth (map Entry_leaf_hash es)) = Inr ()" "pf_size p = length es"
    and "\<not> collides (completeness_msgs p) (index_msgs es)"
  shows "first_index p + length (pf_entries p) = length es \<or>
    first_index p + length (pf_entries p) < length es \<and>
    hi < en_key (es ! (first_index p + length (pf_entries p)))"
proof (cases "right_boundary p")
  case None
  then show ?thesis using assms(1,2) by (auto simp: verify_right_def Let_def split: if_splits)
next
  case (Some ep)
  have c: "check_entry ep es (first_index p + length (pf_entries p))" "hi < en_key (fst ep)"
    using assms(1,2) Some
    by (auto simp: verify_right_def Let_def check_entry_def linorder_not_le
        split: prod.splits if_splits)
  have "ep \<in> set (proof_pairs p)" using Some by (simp add: proof_pairs_def)
  from check_entry_binds [OF c(1) pair_not_collides [OF assms(3) this]] c
  show ?thesis by auto
qed

lemma verify_entries_slice:
  assumes "verify_entries lo hi (mth (map Entry_leaf_hash es)) (length es) first 0 None (zip xs ps) = Inr ()"
    and "length xs = length ps"
    and "\<And>ep. ep \<in> set (zip xs ps) \<Longrightarrow> \<not> collides (pair_msgs ep) (index_msgs es)"
    and "k < length xs"
  shows "first + k < length es" "xs ! k = es ! (first + k)" "in_range lo hi (xs ! k)"
proof -
  have k: "k < length (zip xs ps)" "fst (zip xs ps ! k) = xs ! k" using assms(2,4) by simp_all
  note m = nth_mem [OF k(1)]
  have ok: "check_entry (zip xs ps ! k) es (first + k)" "in_range lo hi (xs ! k)"
    using verify_entries_ok [OF assms(1) k(1)] k(2) by (simp_all add: check_entry_def in_range_def)
  show "first + k < length es" "xs ! k = es ! (first + k)" "in_range lo hi (xs ! k)"
    using check_entry_binds [OF ok(1) assms(3) [OF m]] ok(2) k(2) by simp_all
qed

text \<open>An accepted answer is exactly the committed entries of the range.\<close>

lemma completeness_sound:
  assumes "completeness_verify p dim lo hi (mth (map Entry_leaf_hash es)) (length es) = Inr ()"
    and "sorted_entries es" "\<not> collides (completeness_msgs p) (index_msgs es)"
  shows "pf_entries p = filter (in_range lo hi) es"
    and "first_index p + length (pf_entries p) \<le> length es"
proof -
  let ?f = "first_index p" and ?n = "length (pf_entries p)"
  have sz: "pf_size p = length es" and len: "length (pf_entries p) = length (entry_proofs p)"
    using assms(1) by (auto simp: completeness_verify_def split: if_splits)
  have "pf_entries p = filter (in_range lo hi) es \<and> ?f + ?n \<le> length es"
  proof (cases "es = []")
    case True
    then show ?thesis using assms(1) sz by (auto simp: completeness_verify_def split: if_splits)
  next
    case False
    then have v: "verify_entries lo hi (mth (map Entry_leaf_hash es)) (length es) ?f 0 None
          (zip (pf_entries p) (entry_proofs p)) = Inr ()"
      "verify_left p lo (mth (map Entry_leaf_hash es)) = Inr ()"
      "verify_right p hi (mth (map Entry_leaf_hash es)) = Inr ()"
      using assms(1) sz by (auto simp: completeness_verify_def bind_res_Inr_iff split: if_splits)
    have nc: "\<not> collides (pair_msgs ep) (index_msgs es)"
      if "ep \<in> set (zip (pf_entries p) (entry_proofs p))" for ep
      using that pair_not_collides [OF assms(3), of ep] by (simp add: proof_pairs_def)
    note slice = verify_entries_slice [OF v(1) len nc]
    note left = verify_left_ok [OF v(2) sz assms(3)]
    note right = verify_right_ok [OF v(3) sz assms(3)]
    from right have end_le: "?f + ?n \<le> length es" by auto
    have "\<not> in_range lo hi (es ! i)" if "i < ?f" for i
    proof -
      have "en_key (es ! i) \<le> en_key (es ! (?f - 1))" "en_key (es ! (?f - 1)) < lo"
        using left that end_le sorted_entries_le [OF assms(2), of i "?f - 1"] by auto
      then show ?thesis by (auto simp: in_range_def)
    qed
    moreover have "in_range lo hi (es ! i)" if "?f \<le> i" "i < ?f + ?n" for i
      using slice(2,3) [of "i - ?f"] that by simp
    moreover have "\<not> in_range lo hi (es ! i)" if "?f + ?n \<le> i" "i < length es" for i
    proof -
      have "en_key (es ! (?f + ?n)) \<le> en_key (es ! i)" "hi < en_key (es ! (?f + ?n))"
        using right that sorted_entries_le [OF assms(2), of "?f + ?n" i] by auto
      then show ?thesis by (auto simp: in_range_def)
    qed
    ultimately have "filter (in_range lo hi) es = take ?n (drop ?f es)"
      by (intro filter_slice [OF end_le]) auto
    moreover have "pf_entries p = take ?n (drop ?f es)"
      using slice(2) end_le by (intro nth_equalityI) auto
    ultimately show ?thesis using end_le by simp
  qed
  then show "pf_entries p = filter (in_range lo hi) es" "?f + ?n \<le> length es" by blast+
qed

subsection \<open>What the index promises\<close>

definition index_wf :: "SortedIndex \<Rightarrow> bool" where
  "index_wf ix \<longleftrightarrow> leaves (ix_tree ix) = map Entry_leaf_hash (ix_entries ix) \<and> sorted_entries (ix_entries ix)"

lemma sorted_positions_keys: "sorted (map position es) \<Longrightarrow> sorted_entries es"
  unfolding sorted_entries_def
  by (induction es) (fastforce simp: position_def less_eq_prod_def)+

lemma build_wf: "index_wf (SortedIndex_build dim records)"
  by (simp add: index_wf_def SortedIndex_build_def Let_def from_leaf_hashes_def
      sorted_positions_keys)

lemma build_fields:
  "ix_dimension (SortedIndex_build dim records) = dim"
  "length (ix_entries (SortedIndex_build dim records)) = length records"
  by (simp_all add: SortedIndex_build_def Let_def)

lemma build_entries_set: "set (ix_entries (SortedIndex_build dim records)) = entry_of dim ` set records"
  by (simp add: SortedIndex_build_def Let_def)

lemma entry_of_key [simp]: "en_key (entry_of dim rl) = key_of dim (fst rl)"
  by (simp add: entry_of_def split: prod.splits)

lemma root_of_wf: "index_wf ix \<Longrightarrow> ix_root ix = mth (map Entry_leaf_hash (ix_entries ix))"
  by (simp add: index_wf_def ix_root_def root_def)

lemma first_duplicate_None:
  "first_duplicate es = None \<Longrightarrow> Suc i < length es \<Longrightarrow> position (es ! i) < position (es ! Suc i)"
proof (induction es arbitrary: i rule: first_duplicate.induct)
  case (1 a b es)
  then show ?case by (cases i) (auto split: if_splits)
qed auto

lemma ix_inclusion_wf:
  "index_wf ix \<Longrightarrow> i < length (ix_entries ix) \<Longrightarrow>
   ix_inclusion ix i = Some (path_proof (map Entry_leaf_hash (ix_entries ix)) i)"
  unfolding ix_inclusion_def index_wf_def
  using inclusion_proof_path [of i "ix_tree ix"] by (metis length_map)

lemma path_checks:
  "i < length es \<Longrightarrow>
   verify_at (path_proof (map Entry_leaf_hash es) i) (Entry_leaf_hash (es ! i))
     (mth (map Entry_leaf_hash es)) i (length es)"
  using merkle.check_prove [of i "map Entry_leaf_hash es"] by simp

lemma collect_proofs_wf:
  "index_wf ix \<Longrightarrow> \<forall>i \<in> set is. i < length (ix_entries ix) \<Longrightarrow>
   collect_proofs ix is = Some (map (path_proof (map Entry_leaf_hash (ix_entries ix))) is)"
  by (induction "is") (simp_all add: ix_inclusion_wf)

text \<open>The verifier's loop accepts consecutive entries of a strictly sorted index.\<close>

lemma verify_entries_accepts:
  assumes "\<And>i. Suc i < length es \<Longrightarrow> position (es ! i) < position (es ! Suc i)"
    and "b \<le> length es" "\<And>i. a \<le> i \<Longrightarrow> i < b \<Longrightarrow> in_range lo hi (es ! i)"
  shows "a \<le> b \<Longrightarrow> first + k = a \<Longrightarrow> (case prev of None \<Rightarrow> True | Some e \<Rightarrow> 0 < a \<and> e = es ! (a - 1)) \<Longrightarrow>
    verify_entries lo hi (mth (map Entry_leaf_hash es)) (length es) first k prev
      (map (\<lambda>i. (es ! i, path_proof (map Entry_leaf_hash es) i)) [a ..< b]) = Inr ()"
  using assms(3)
proof (induction "b - a" arbitrary: a k prev)
  case (Suc n)
  then have ab: "a < b" by simp
  let ?rest = "map (\<lambda>i. (es ! i, path_proof (map Entry_leaf_hash es) i)) [Suc a ..< b]"
  have "verify_entries lo hi (mth (map Entry_leaf_hash es)) (length es) first (k + 1)
      (Some (es ! a)) ?rest = Inr ()"
    using Suc ab by (intro Suc.hyps(1)) auto
  moreover have "verify_at (path_proof (map Entry_leaf_hash es) a) (Entry_leaf_hash (es ! a))
      (mth (map Entry_leaf_hash es)) (first + k) (length es)"
    using path_checks [of a es] ab assms(2) Suc.prems(2) by simp
  moreover have "in_range lo hi (es ! a)" using Suc.prems(4) ab by simp
  moreover have "\<not> (case prev of None \<Rightarrow> False | Some p \<Rightarrow> position (es ! a) \<le> position p)"
    using Suc.prems(3) assms(1) [of "a - 1"] ab assms(2) by (auto split: option.splits)
  ultimately show ?case
    using Suc.prems(2) ab
    by (simp add: upt_conv_Cons path_proof_def in_range_def linorder_not_less)
qed simp

lemma partition_point_below:
  "i < partition_point P xs \<Longrightarrow> P (xs ! i)"
  unfolding partition_point_def by (metis nth_mem set_takeWhileD takeWhile_nth)

lemma partition_point_le: "partition_point P xs \<le> length xs"
  by (simp add: partition_point_def length_takeWhile_le)

lemma partition_point_above:
  assumes "sorted_entries es" "partition_point P es \<le> i" "i < length es"
    and "\<And>x y. P y \<Longrightarrow> en_key x \<le> en_key y \<Longrightarrow> P x"
  shows "\<not> P (es ! i)"
proof -
  have "\<not> P (es ! partition_point P es)"
    using assms(2,3) unfolding partition_point_def by (intro nth_length_takeWhile) simp
  then show ?thesis
    using assms(4) [of "es ! i" "es ! partition_point P es"] sorted_entries_le [OF assms(1,2,3)] by blast
qed

lemma slice_zip:
  "b \<le> length es \<Longrightarrow>
   zip (take (b - a) (drop a es)) (map f [a ..< b]) = map (\<lambda>i. (es ! i, f i)) [a ..< b]"
  by (intro nth_equalityI) auto

lemma mth_Nil: "mth [] = empty_root"
  by (simp add: mth.simps)

lemma range_proof_complete:
  assumes wf: "index_wf ix" and dup: "first_duplicate_position ix = None"
  shows "\<exists>p. range_proof ix lo hi = Some p \<and>
    completeness_verify p (ix_dimension ix) lo hi (ix_root ix) (ix_len ix) = Inr () \<and>
    pf_entries p = filter (in_range lo hi) (ix_entries ix)"
proof -
  define es where "es = ix_entries ix"
  define pp where "pp = path_proof (map Entry_leaf_hash es)"
  define f where "f = partition_point (\<lambda>e. en_key e < lo) es"
  define g where "g = max (partition_point (\<lambda>e. en_key e \<le> hi) es) f"
  define p where "p = \<lparr>pf_dimension = ix_dimension ix, pf_size = length es, first_index = f,
      pf_entries = take (g - f) (drop f es), entry_proofs = map pp [f ..< g],
      left_boundary = (if 0 < f then Some (es ! (f - 1), pp (f - 1)) else None),
      right_boundary = (if g < length es then Some (es ! g, pp g) else None)\<rparr>"
  have so: "sorted_entries es" using wf by (simp add: index_wf_def es_def)
  have b: "f \<le> g" "g \<le> length es"
    by (simp_all add: f_def g_def partition_point_le)
  have below: "en_key (es ! i) < lo" if "i < f" for i
    using partition_point_below [of i "\<lambda>e. en_key e < lo"] that unfolding f_def by blast
  have above: "hi < en_key (es ! i)" if "g \<le> i" "i < length es" for i
    using partition_point_above [OF so, of "\<lambda>e. en_key e \<le> hi" i] that unfolding g_def by force
  have from_lo: "lo \<le> en_key (es ! i)" if "f \<le> i" "i < length es" for i
    using partition_point_above [OF so, of "\<lambda>e. en_key e < lo" i] that unfolding f_def by force
  have inside: "in_range lo hi (es ! i)" if "f \<le> i" "i < g" for i
    using from_lo [of i] partition_point_below [of i "\<lambda>e. en_key e \<le> hi" es] that b
    unfolding in_range_def g_def by auto
  have incl: "ix_inclusion ix i = Some (pp i)" if "i < length es" for i
    using ix_inclusion_wf [OF wf] that by (simp add: pp_def es_def)
  have "collect_proofs ix [f ..< g] = Some (map pp [f ..< g])"
    using collect_proofs_wf [OF wf] b(2) by (simp add: pp_def es_def)
  then have r: "range_proof ix lo hi = Some p"
    unfolding range_proof_def Let_def es_def [symmetric] f_def [symmetric] g_def [symmetric]
    using b incl by (simp add: p_def boundary_at_def es_def [symmetric])
  have e: "length (pf_entries p) = g - f" "first_index p = f" "length (entry_proofs p) = g - f"
    using b by (simp_all add: p_def)
  have root: "ix_root ix = mth (map Entry_leaf_hash es)" using root_of_wf [OF wf] by (simp add: es_def)
  have "verify_entries lo hi (ix_root ix) (length es) f 0 None (zip (pf_entries p) (entry_proofs p)) = Inr ()"
    using verify_entries_accepts [of es g f lo hi f 0 None] first_duplicate_None inside b dup
    by (simp add: root p_def slice_zip pp_def first_duplicate_position_def es_def)
  moreover have "verify_left p lo (ix_root ix) = Inr ()"
  proof (cases "f = 0")
    case False
    then have "en_key (es ! (f - 1)) < lo" "f - 1 < length es" using below [of "f - 1"] b by simp_all
    with False path_checks [of "f - 1" es] show ?thesis
      by (simp add: verify_left_def p_def root pp_def path_proof_def linorder_not_le)
  qed (simp add: verify_left_def p_def)
  moreover have "verify_right p hi (ix_root ix) = Inr ()"
  proof (cases "g < length es")
    case True
    with above [of g] path_checks [of g es] b show ?thesis
      by (simp add: verify_right_def p_def root pp_def path_proof_def Let_def linorder_not_le)
  qed (use b in \<open>simp add: verify_right_def p_def Let_def\<close>)
  moreover have dim: "pf_dimension p = ix_dimension ix" "pf_size p = length es" "ix_len ix = length es"
    by (simp_all add: p_def ix_len_def es_def)
  ultimately have "completeness_verify p (ix_dimension ix) lo hi (ix_root ix) (ix_len ix) = Inr ()"
  proof (cases "es = []")
    case True
    then have "f = 0" "g = 0" using b by simp_all
    then have "pf_entries p = []" "entry_proofs p = []" "first_index p = 0" "left_boundary p = None"
      "right_boundary p = None"
      using True by (simp_all add: p_def)
    with True dim show ?thesis by (simp add: completeness_verify_def root mth_Nil)
  qed (simp add: completeness_verify_def e)
  moreover have "pf_entries p = filter (in_range lo hi) es"
  proof -
    have "filter (in_range lo hi) es = take (g - f) (drop f es)"
    proof (rule filter_slice)
      show "\<not> in_range lo hi (es ! i)" if "i < f" for i
        using below [OF that] by (simp add: in_range_def linorder_not_le)
      show "\<not> in_range lo hi (es ! i)" if "f + (g - f) \<le> i" "i < length es" for i
        using above [of i] that b by (simp add: in_range_def linorder_not_le)
    qed (use b inside in auto)
    then show ?thesis by (simp add: p_def)
  qed
  ultimately show ?thesis using r by (auto simp: es_def)
qed

subsection \<open>Keys sort as values\<close>

lemma event_code_inj: "event_code a = event_code b \<longleftrightarrow> a = b"
  by (cases a; cases b) simp_all

lemma event_code_less: "event_code a < event_code b \<longleftrightarrow> a < b"
  by (cases a; cases b) (simp_all add: less_EventType_def)

text \<open>The rendering a reader sees: \<open>{:032x}\<close> of a record id.\<close>

definition record_id_text :: "RecordId \<Rightarrow> str" where
  "record_id_text i =
     concat (map (\<lambda>b. [unwrap_or 0x30 (from_digit (unat (drop_bit 4 b))),
                       unwrap_or 0x30 (from_digit (unat (b AND 0x0F)))]) (to_be_bytes i))"

lemma record_id_text_key: "key_from_text Dim_RecordId (record_id_text i) = Some (to_be_bytes i)"
proof -
  have "length (record_id_text i) = 32"
    by (simp add: record_id_text_def length_concat comp_def sum_list_triv)
  moreover have "to_digit (unwrap_or 0x30 (from_digit (unat (drop_bit 4 (b::u8))))) \<noteq> None"
    "to_digit (unwrap_or 0x30 (from_digit (unat (b AND 0x0F)))) \<noteq> None" for b
    using to_digit_from_digit nibbles by simp_all
  then have "list_all (\<lambda>b. to_digit b \<noteq> None) (record_id_text i)"
    by (auto simp: record_id_text_def list_all_iff)
  ultimately show ?thesis
    by (simp add: key_from_text_def record_id_text_def from_hex_loop_encode)
qed

lemma event_text_key: "key_from_text Dim_EventType (EventType_as_str e) = Some [event_code e]"
  by (cases e) (simp_all add: key_from_text_def EventType_ALL_def)

lemma time_i64_key:
  "0 \<le> sint t \<Longrightarrow> key_from_i64 Dim_RecordedAt t = Some (to_be_bytes t)"
  by (simp add: key_from_i64_def)

subsection \<open>Properties\<close>

text \<open>
  C9. Completeness of a range answer. If an answer verifies against the root of a sorted index of
  the committed size, its entries are exactly the index's entries with keys in the range, in
  order: none missing, none added, none from elsewhere; or the verifier and the index hashed two
  different messages to one digest. The answer is arbitrary, its positions, proofs and
  boundaries included.
\<close>

theorem range_answer_is_complete:
  assumes "completeness_verify p dim lo hi (ix_root ix) (ix_len ix) = Inr ()" "index_wf ix"
  shows "pf_entries p = filter (in_range lo hi) (ix_entries ix) \<or>
         collides (completeness_msgs p) (index_msgs (ix_entries ix))"
  using completeness_sound(1) assms root_of_wf [OF assms(2)]
  by (auto simp: ix_len_def index_wf_def)

definition sample_index :: SortedIndex where
  "sample_index = SortedIndex_build Dim_RecordedAt [(sample_record, 5)]"

lemma sample_index_ok: "first_duplicate_position sample_index = None" "index_wf sample_index"
  by (simp_all add: sample_index_def build_wf)
     (simp add: first_duplicate_position_def SortedIndex_build_def Let_def)

lemma sample_answer:
  "\<exists>p. completeness_verify p Dim_RecordedAt lo hi (ix_root sample_index) (ix_len sample_index) = Inr ()"
proof -
  have "ix_dimension sample_index = Dim_RecordedAt" by (simp add: sample_index_def build_fields)
  then show ?thesis using range_proof_complete [OF sample_index_ok(2,1), of lo hi] by auto
qed

theorem range_answer_is_complete_witness:
  "\<exists>p. completeness_verify p Dim_RecordedAt (time_key 0) (time_key 5000) (ix_root sample_index)
         (ix_len sample_index) = Inr () \<and>
       (pf_entries p = filter (in_range (time_key 0) (time_key 5000)) (ix_entries sample_index) \<or>
        collides (completeness_msgs p) (index_msgs (ix_entries sample_index)))"
  using sample_answer range_answer_is_complete [OF _ sample_index_ok(2)] by blast

text \<open>
  Every range query on an index built from records with no duplicate position is answered
  (the \<open>expect\<close> on its inclusion proofs cannot fail), the answer verifies, and its entries are
  exactly those of the records whose keys lie in the range, in index order. Reversed and
  out-of-bounds ranges included.
\<close>

theorem range_query_answers:
  assumes "first_duplicate_position (SortedIndex_build dim records) = None"
  shows "\<exists>p. range_proof (SortedIndex_build dim records) lo hi = Some p \<and>
    completeness_verify p dim lo hi (ix_root (SortedIndex_build dim records)) (length records) = Inr () \<and>
    set (pf_entries p) = entry_of dim ` {rl \<in> set records. lo \<le> key_of dim (fst rl) \<and> key_of dim (fst rl) \<le> hi}"
proof -
  have "set (filter (in_range lo hi) (ix_entries (SortedIndex_build dim records))) =
      entry_of dim ` {rl \<in> set records. lo \<le> key_of dim (fst rl) \<and> key_of dim (fst rl) \<le> hi}"
    by (auto simp: build_entries_set in_range_def)
  then show ?thesis
    using range_proof_complete [OF build_wf assms, of lo hi] by (auto simp: build_fields ix_len_def)
qed

theorem range_query_answers_witness:
  "\<exists>p. range_proof (SortedIndex_build Dim_RecordedAt [(sample_record, 5)]) [9] [3] = Some p \<and>
    completeness_verify p Dim_RecordedAt [9] [3]
      (ix_root (SortedIndex_build Dim_RecordedAt [(sample_record, 5)])) (length [(sample_record, 5 :: hash)]) = Inr () \<and>
    set (pf_entries p) = entry_of Dim_RecordedAt ` {rl \<in> set [(sample_record, 5)].
      [9] \<le> key_of Dim_RecordedAt (fst rl) \<and> key_of Dim_RecordedAt (fst rl) \<le> [3]}"
  by (rule range_query_answers) (use sample_index_ok(1) in \<open>simp add: sample_index_def\<close>)

text \<open>
  An accepted answer stays inside the index, so the verifier's sum of the declared first index
  and an offset is bounded by the committed size; or a collision is exhibited.
\<close>

theorem verified_positions_bounded:
  assumes "completeness_verify p dim lo hi (ix_root ix) (ix_len ix) = Inr ()" "index_wf ix"
  shows "first_index p + length (pf_entries p) \<le> ix_len ix \<or>
         collides (completeness_msgs p) (index_msgs (ix_entries ix))"
  using completeness_sound(2) assms root_of_wf [OF assms(2)]
  by (auto simp: ix_len_def index_wf_def)

theorem verified_positions_bounded_witness:
  "\<exists>p. completeness_verify p Dim_RecordedAt [] [] (ix_root sample_index) (ix_len sample_index) = Inr () \<and>
       (first_index p + length (pf_entries p) \<le> ix_len sample_index \<or>
        collides (completeness_msgs p) (index_msgs (ix_entries sample_index)))"
  using sample_answer verified_positions_bounded [OF _ sample_index_ok(2)] by blast

text \<open>
  Byte order is value order: on the id, time and event-type dimensions the key comparison the
  index and the verifier use is the comparison of the values, and the event-type key is the very
  byte the journal writes.
\<close>

theorem keys_sort_as_values:
  "(key_of Dim_RecordId a \<le> key_of Dim_RecordId b \<longleftrightarrow> rec_id a \<le> rec_id b) \<and>
   (key_of Dim_RecordedAt a \<le> key_of Dim_RecordedAt b \<longleftrightarrow> recorded_at a \<le> recorded_at b) \<and>
   (key_of Dim_EventType a < key_of Dim_EventType b \<longleftrightarrow> event_type a < event_type b) \<and>
   key_of Dim_EventType a = disc_put event_type_table (event_type a)"
  by (simp add: to_be_bytes_le_iff event_code_less)
     (cases "event_type a"; simp add: disc_put_def event_type_table_def put_u8_def)

text \<open>
  A literal a reader types finds the record it was read from: the text form of a record's id,
  agent, run or event type, and the integer form of its time, derive the record's own index key.
\<close>

theorem literal_keys_match:
  assumes "0 \<le> sint (recorded_at r)"
  shows "key_from_text Dim_RecordId (record_id_text (rec_id r)) = Some (key_of Dim_RecordId r) \<and>
         key_from_text Dim_AgentId (agent_id r) = Some (key_of Dim_AgentId r) \<and>
         key_from_text Dim_RunId (run_id r) = Some (key_of Dim_RunId r) \<and>
         key_from_text Dim_EventType (EventType_as_str (event_type r)) = Some (key_of Dim_EventType r) \<and>
         key_from_i64 Dim_RecordedAt (recorded_at r) = Some (key_of Dim_RecordedAt r)"
  using record_id_text_key event_text_key time_i64_key [OF assms] by (simp add: key_from_text_def)

theorem literal_keys_match_witness:
  "key_from_i64 Dim_RecordedAt (recorded_at sample_record) = Some (key_of Dim_RecordedAt sample_record)"
  using literal_keys_match [of sample_record] by (simp add: sample_record_def)

end
