(* ===== verification/Segment.thy ===== *)
theory Segment
  imports Completeness "HOL-Library.AList"
begin

text \<open>
  Segments, shards, the store, and the verifier of a store-wide answer:
  \<open>crates/trailryx-index/src/segment.rs\<close>.

  Each level is a Merkle tree over the level below, so the facts of the interface
  \<open>authenticated_list\<close> are used three times: for the entries of an index, the manifests of a shard
  and the shards of a store. The results: a manifest's root commits to every field of it; sealing
  yields a segment whose manifest commits to its indexes; and a store-wide answer that verifies
  against the store root holds exactly the entries of the range from every segment of every shard,
  skipped segments included, unless the verifier and the store hashed two different messages to
  one digest.

  A count that travels inside an answer (\<open>segments_in_shard\<close>, a \<open>usize\<close>) is a 64-bit word, so that
  nothing is assumed about it; lengths of lists in memory are natural numbers.
\<close>

subsection \<open>Manifests\<close>

record SegmentManifest =
  m_format_version :: u16
  m_segment :: SegmentId
  m_shard :: ShardIx
  m_records :: u64
  history_root :: hash
  index_roots :: "(Dimension \<times> hash) list"
  chain_before :: hash
  chain_after :: hash
  first_recorded_at :: Timestamp
  last_recorded_at :: Timestamp
  m_algorithms :: Algorithms

definition algorithm_code :: "Algorithms \<Rightarrow> bytes" where
  "algorithm_code a =
     [case alg_hash a of Alg_Sha384 \<Rightarrow> 1,
      case alg_signature a of Es256 \<Rightarrow> 1 | MlDsa65 \<Rightarrow> 2 | SlhDsa \<Rightarrow> 3 | Es384 \<Rightarrow> 4,
      case alg_kem a of X25519MlKem768 \<Rightarrow> 1]"

definition hash_index_root :: "Sha384 \<Rightarrow> Dimension \<times> hash \<Rightarrow> Sha384" where
  "hash_index_root h dr =
     (let name = Dimension_as_str (fst dr);
          h = Sha384_update h (to_be_bytes (of_nat (length name) :: u64));
          h = Sha384_update h name
      in Sha384_update h (as_bytes (snd dr)))"

definition manifest_root :: "SegmentManifest \<Rightarrow> hash" where
  "manifest_root m =
     (let h = Sha384_new;
          h = Sha384_update h (ascii ''trailryx/segment-manifest/v1'' @ [0]);
          h = Sha384_update h (to_be_bytes (m_format_version m));
          h = Sha384_update h (to_be_bytes (m_segment m));
          h = Sha384_update h (to_be_bytes (m_shard m));
          h = Sha384_update h (to_be_bytes (m_records m));
          h = Sha384_update h (as_bytes (history_root m));
          h = Sha384_update h (as_bytes (chain_before m));
          h = Sha384_update h (as_bytes (chain_after m));
          h = Sha384_update h (to_be_bytes (of_nat (length (index_roots m)) :: u64));
          h = foldl hash_index_root h (index_roots m);
          h = Sha384_update h (to_be_bytes (first_recorded_at m));
          h = Sha384_update h (to_be_bytes (last_recorded_at m));
          h = Sha384_update h (algorithm_code (m_algorithms m))
      in Sha384_finish h)"

definition index_root :: "SegmentManifest \<Rightarrow> Dimension \<Rightarrow> hash option" where
  "index_root m d = map_option snd (find (\<lambda>(dim, _). dim = d) (index_roots m))"

subsection \<open>Sealing\<close>

datatype SealError = DuplicateKey Dimension u64 | MixedAlgorithms

record Segment =
  sg_manifest :: SegmentManifest
  sg_indexes :: "SortedIndex list"
  sg_history :: MerkleTree
  sg_records :: "Record list"
  by_link :: "(hash \<times> nat) list"

fun first_duplicate_index :: "SortedIndex list \<Rightarrow> SealError option" where
  "first_duplicate_index [] = None"
| "first_duplicate_index (idx # rest) =
     (case first_duplicate_position idx of
        Some sq \<Rightarrow> Some (DuplicateKey (ix_dimension idx) sq)
      | None \<Rightarrow> first_duplicate_index rest)"

text \<open>\<open>Iterator::min\<close> and \<open>Iterator::max\<close> with the default for an empty segment.\<close>

definition min_or :: "'a::linorder \<Rightarrow> 'a list \<Rightarrow> 'a" where
  "min_or d xs = (case xs of [] \<Rightarrow> d | x # xs \<Rightarrow> foldl min x xs)"

definition max_or :: "'a::linorder \<Rightarrow> 'a list \<Rightarrow> 'a" where
  "max_or d xs = (case xs of [] \<Rightarrow> d | x # xs \<Rightarrow> foldl max x xs)"

definition seal :: "SegmentId \<Rightarrow> ShardIx \<Rightarrow> hash \<Rightarrow> (Record \<times> hash) list \<Rightarrow> SealError + Segment" where
  "seal segment shard before records =
     (if (case records of [] \<Rightarrow> False
          | (first, _) # _ \<Rightarrow> list_ex (\<lambda>(r, _). algorithms r \<noteq> algorithms first) records)
      then Inl MixedAlgorithms
      else
        let history = from_leaf_hashes (map (\<lambda>(_, link). leaf_hash (as_bytes link)) records);
            indexes = map (\<lambda>d. SortedIndex_build d records) Dimension_ALL
        in case first_duplicate_index indexes of
             Some e \<Rightarrow> Inl e
           | None \<Rightarrow>
               let first = min_or 0 (map (\<lambda>(r, _). recorded_at r) records);
                   lst = max_or 0 (map (\<lambda>(r, _). recorded_at r) records);
                   manifest = \<lparr>m_format_version = 1, m_segment = segment, m_shard = shard,
                     m_records = of_nat (length records), history_root = root history,
                     index_roots = map (\<lambda>i. (ix_dimension i, ix_root i)) indexes,
                     chain_before = before,
                     chain_after = (if records = [] then before else snd (last records)),
                     first_recorded_at = first, last_recorded_at = lst,
                     m_algorithms = (case records of [] \<Rightarrow> Algorithms_default | (r, _) # _ \<Rightarrow> algorithms r)\<rparr>
               in Inr \<lparr>sg_manifest = manifest, sg_indexes = indexes, sg_history = history,
                       sg_records = map fst records,
                       by_link = foldl (\<lambda>m (i, _, link). AList.update link i m) [] (enumerate 0 records)\<rparr>)"

definition sg_root :: "Segment \<Rightarrow> hash" where
  "sg_root s = manifest_root (sg_manifest s)"

definition record_by_link :: "Segment \<Rightarrow> hash \<Rightarrow> Record option" where
  "record_by_link s link =
     (case map_of (by_link s) link of
        None \<Rightarrow> None
      | Some i \<Rightarrow> if i < length (sg_records s) then Some (sg_records s ! i) else None)"

definition sg_links :: "Segment \<Rightarrow> hash list" where
  "sg_links s = foldl (\<lambda>out (link, at). out[at := link]) (replicate (length (sg_records s)) Hash_ZERO) (by_link s)"

definition sg_index :: "Segment \<Rightarrow> Dimension \<Rightarrow> SortedIndex option" where
  "sg_index s d = find (\<lambda>i. ix_dimension i = d) (sg_indexes s)"

text \<open>The outer \<open>None\<close> is the missing dimension, the inner one the panic of the index.\<close>

definition sg_range :: "Segment \<Rightarrow> Dimension \<Rightarrow> bytes \<Rightarrow> bytes \<Rightarrow> CompletenessProof option option" where
  "sg_range s d lo hi = map_option (\<lambda>i. range_proof i lo hi) (sg_index s d)"

record TimeSpan =
  ts_min :: Entry
  min_proof :: InclusionProof
  ts_max :: Entry
  max_proof :: InclusionProof

definition time_span :: "Segment \<Rightarrow> TimeSpan option" where
  "time_span s =
     (case sg_index s Dim_RecordedAt of
        None \<Rightarrow> None
      | Some idx \<Rightarrow>
          if ix_entries idx = [] then None
          else
            let lst = ix_len idx - 1 in
            case (ix_entry idx 0, ix_inclusion idx 0, ix_entry idx lst, ix_inclusion idx lst) of
              (Some mn, Some mnp, Some mx, Some mxp) \<Rightarrow>
                Some \<lparr>ts_min = mn, min_proof = mnp, ts_max = mx, max_proof = mxp\<rparr>
            | _ \<Rightarrow> None)"

subsection \<open>Shards and the store\<close>

record ShardTree =
  st_shard :: ShardIx
  manifests :: "SegmentManifest list"
  st_tree :: MerkleTree

definition ShardTree_new :: "ShardIx \<Rightarrow> ShardTree" where
  "ShardTree_new shard = \<lparr>st_shard = shard, manifests = [], st_tree = MerkleTree_new\<rparr>"

definition ShardTree_push :: "ShardTree \<Rightarrow> SegmentManifest \<Rightarrow> ShardTree" where
  "ShardTree_push s manifest =
     s\<lparr>st_tree := fst (push_leaf (st_tree s) (leaf_hash (as_bytes (manifest_root manifest)))),
       manifests := manifests s @ [manifest]\<rparr>"

definition ShardTree_root :: "ShardTree \<Rightarrow> hash" where
  "ShardTree_root s = root (st_tree s)"

definition ShardTree_len :: "ShardTree \<Rightarrow> nat" where
  "ShardTree_len s = length (manifests s)"

definition ShardTree_inclusion :: "ShardTree \<Rightarrow> nat \<Rightarrow> InclusionProof option" where
  "ShardTree_inclusion s i = inclusion_proof (st_tree s) i (tree_len (st_tree s))"

definition shard_leaf :: "ShardIx \<Rightarrow> u64 \<Rightarrow> hash \<Rightarrow> hash" where
  "shard_leaf shard segments rt =
     (let h = Sha384_new;
          h = Sha384_update h (ascii ''trailryx/store-leaf/v1'' @ [0]);
          h = Sha384_update h (to_be_bytes shard);
          h = Sha384_update h (to_be_bytes segments);
          h = Sha384_update h (as_bytes rt)
      in leaf_hash (as_bytes (Sha384_finish h)))"

record StoreTree =
  store_shards :: "(ShardIx \<times> u64 \<times> hash) list"
  store_tree :: MerkleTree

definition from_shards :: "ShardTree list \<Rightarrow> StoreTree" where
  "from_shards shards =
     (let entries = map (\<lambda>s. (st_shard s, of_nat (ShardTree_len s), ShardTree_root s)) shards;
          tree = from_leaf_hashes (map (\<lambda>(ix, n, r). shard_leaf ix n r) entries)
      in \<lparr>store_shards = entries, store_tree = tree\<rparr>)"

definition store_root :: "StoreTree \<Rightarrow> hash" where
  "store_root s = root (store_tree s)"

definition store_len :: "StoreTree \<Rightarrow> nat" where
  "store_len s = length (store_shards s)"

definition store_inclusion :: "StoreTree \<Rightarrow> nat \<Rightarrow> InclusionProof option" where
  "store_inclusion s i = inclusion_proof (store_tree s) i (tree_len (store_tree s))"

subsection \<open>Store-wide answers\<close>

datatype SegmentContribution =
    Answered SegmentManifest InclusionProof CompletenessProof
  | ExcludedByTime SegmentManifest InclusionProof "TimeSpan option"

primrec contribution_manifest :: "SegmentContribution \<Rightarrow> SegmentManifest" where
  "contribution_manifest (Answered m mp p) = m"
| "contribution_manifest (ExcludedByTime m mp sp) = m"

primrec contribution_proof :: "SegmentContribution \<Rightarrow> InclusionProof" where
  "contribution_proof (Answered m mp p) = mp"
| "contribution_proof (ExcludedByTime m mp sp) = mp"

primrec is_excluded :: "SegmentContribution \<Rightarrow> bool" where
  "is_excluded (Answered m mp p) = False"
| "is_excluded (ExcludedByTime m mp sp) = True"

record ShardContribution =
  sc_shard :: ShardIx
  shard_root :: hash
  segments_in_shard :: u64
  shard_proof :: InclusionProof
  sc_segments :: "SegmentContribution list"

record CompositeProof =
  comp_dimension :: Dimension
  comp_shards :: "ShardContribution list"

datatype CompositeFailure =
    ShardMissing nat nat
  | ShardNotInStore ShardIx
  | SegmentsMissing ShardIx u64 nat
  | SegmentNotInShard ShardIx nat
  | ManifestShardMismatch ShardIx nat
  | ExclusionNotJustified ShardIx nat
  | ExclusionNotCheckable Dimension
  | ExclusionUnproven ShardIx nat
  | SegmentProof ShardIx nat ProofFailure
  | IndexRootMissing ShardIx nat

definition composite_matched :: "CompositeProof \<Rightarrow> nat" where
  "composite_matched p =
     sum_list (map (\<lambda>c. case c of Answered _ _ pf \<Rightarrow> length (pf_entries pf) | ExcludedByTime _ _ _ \<Rightarrow> 0)
       (concat (map sc_segments (comp_shards p))))"

definition verify_exclusion ::
  "ShardIx \<Rightarrow> nat \<Rightarrow> SegmentManifest \<Rightarrow> TimeSpan option \<Rightarrow> bytes \<Rightarrow> bytes \<Rightarrow> CompositeFailure + unit" where
  "verify_exclusion shard j manifest span lo hi =
     (case index_root manifest Dim_RecordedAt of
        None \<Rightarrow> Inl (IndexRootMissing shard j)
      | Some time_root \<Rightarrow>
          (case span of
             None \<Rightarrow>
               if m_records manifest \<noteq> 0 \<or> \<not> digests_equal time_root empty_root
               then Inl (ExclusionUnproven shard j) else Inr ()
           | Some s \<Rightarrow>
               let sz = unat (m_records manifest);
                   bounded = verify_at (min_proof s) (Entry_leaf_hash (ts_min s)) time_root 0 sz \<and>
                             verify_at (max_proof s) (Entry_leaf_hash (ts_max s)) time_root (sz - 1) sz
               in if \<not> bounded then Inl (ExclusionUnproven shard j)
                  else if \<not> (en_key (ts_max s) < lo \<or> hi < en_key (ts_min s))
                  then Inl (ExclusionNotJustified shard j)
                  else Inr ()))"

definition verify_contribution ::
  "Dimension \<Rightarrow> bytes \<Rightarrow> bytes \<Rightarrow> ShardContribution \<Rightarrow> nat \<Rightarrow> SegmentContribution \<Rightarrow> CompositeFailure + unit" where
  "verify_contribution dim lo hi sc j c =
     (let manifest = contribution_manifest c in
      if m_shard manifest \<noteq> sc_shard sc then Inl (ManifestShardMismatch (sc_shard sc) j)
      else if \<not> verify_at (contribution_proof c) (leaf_hash (as_bytes (manifest_root manifest)))
                (shard_root sc) j (unat (segments_in_shard sc))
      then Inl (SegmentNotInShard (sc_shard sc) j)
      else case c of
             ExcludedByTime manifest _ span \<Rightarrow> verify_exclusion (sc_shard sc) j manifest span lo hi
           | Answered manifest _ pf \<Rightarrow>
               (case index_root manifest dim of
                  None \<Rightarrow> Inl (IndexRootMissing (sc_shard sc) j)
                | Some rt \<Rightarrow>
                    map_err (SegmentProof (sc_shard sc) j)
                      (completeness_verify pf dim lo hi rt (unat (m_records manifest)))))"

fun verify_segments ::
  "Dimension \<Rightarrow> bytes \<Rightarrow> bytes \<Rightarrow> ShardContribution \<Rightarrow> nat \<Rightarrow> SegmentContribution list \<Rightarrow> CompositeFailure + unit" where
  "verify_segments dim lo hi sc j [] = Inr ()"
| "verify_segments dim lo hi sc j (c # cs) =
     bind_res (verify_contribution dim lo hi sc j c) (\<lambda>_. verify_segments dim lo hi sc (j + 1) cs)"

definition verify_shard ::
  "Dimension \<Rightarrow> bytes \<Rightarrow> bytes \<Rightarrow> hash \<Rightarrow> nat \<Rightarrow> nat \<Rightarrow> ShardContribution \<Rightarrow> CompositeFailure + unit" where
  "verify_shard dim lo hi rt shards_in_store i sc =
     (if \<not> verify_at (shard_proof sc) (shard_leaf (sc_shard sc) (segments_in_shard sc) (shard_root sc))
           rt i shards_in_store
      then Inl (ShardNotInStore (sc_shard sc))
      else if length (sc_segments sc) \<noteq> unat (segments_in_shard sc)
      then Inl (SegmentsMissing (sc_shard sc) (segments_in_shard sc) (length (sc_segments sc)))
      else verify_segments dim lo hi sc 0 (sc_segments sc))"

fun verify_shards ::
  "Dimension \<Rightarrow> bytes \<Rightarrow> bytes \<Rightarrow> hash \<Rightarrow> nat \<Rightarrow> nat \<Rightarrow> ShardContribution list \<Rightarrow> CompositeFailure + unit" where
  "verify_shards dim lo hi rt n i [] = Inr ()"
| "verify_shards dim lo hi rt n i (sc # scs) =
     bind_res (verify_shard dim lo hi rt n i sc) (\<lambda>_. verify_shards dim lo hi rt n (i + 1) scs)"

definition composite_verify ::
  "CompositeProof \<Rightarrow> Dimension \<Rightarrow> bytes \<Rightarrow> bytes \<Rightarrow> hash \<Rightarrow> nat \<Rightarrow> CompositeFailure + unit" where
  "composite_verify p dim lo hi rt shards_in_store =
     (if length (comp_shards p) \<noteq> shards_in_store
      then Inl (ShardMissing shards_in_store (length (comp_shards p)))
      else if dim \<noteq> Dim_RecordedAt \<and> list_ex is_excluded (concat (map sc_segments (comp_shards p)))
      then Inl (ExclusionNotCheckable dim)
      else verify_shards dim lo hi rt shards_in_store 0 (comp_shards p))"

subsection \<open>What a manifest root commits to\<close>

definition index_root_pieces :: "Dimension \<times> hash \<Rightarrow> bytes list" where
  "index_root_pieces dr =
     [to_be_bytes (of_nat (length (Dimension_as_str (fst dr))) :: u64), Dimension_as_str (fst dr),
      as_bytes (snd dr)]"

definition index_root_msg :: "Dimension \<times> hash \<Rightarrow> bytes" where
  "index_root_msg dr = concat (index_root_pieces dr)"

definition manifest_head :: "SegmentManifest \<Rightarrow> bytes list" where
  "manifest_head m =
     [ascii ''trailryx/segment-manifest/v1'' @ [0], to_be_bytes (m_format_version m),
      to_be_bytes (m_segment m), to_be_bytes (m_shard m), to_be_bytes (m_records m),
      as_bytes (history_root m), as_bytes (chain_before m), as_bytes (chain_after m),
      to_be_bytes (of_nat (length (index_roots m)) :: u64)]"

definition manifest_tail :: "SegmentManifest \<Rightarrow> bytes list" where
  "manifest_tail m =
     [to_be_bytes (first_recorded_at m), to_be_bytes (last_recorded_at m),
      algorithm_code (m_algorithms m)]"

definition manifest_msg :: "SegmentManifest \<Rightarrow> bytes" where
  "manifest_msg m = concat (manifest_head m) @ concat (map index_root_msg (index_roots m)) @
     concat (manifest_tail m)"

lemma foldl_index_roots:
  "foldl hash_index_root h rs = foldl Sha384_update h (concat (map index_root_pieces rs))"
  by (induction rs arbitrary: h) (simp_all add: hash_index_root_def index_root_pieces_def Let_def)

lemma concat_pieces: "concat (concat (map index_root_pieces rs)) = concat (map index_root_msg rs)"
  by (induction rs) (simp_all add: index_root_msg_def)

lemma manifest_root_digest: "manifest_root m = Sha384_digest (manifest_msg m)"
proof -
  have "manifest_root m = Sha384_finish (foldl Sha384_update Sha384_new
      (manifest_head m @ concat (map index_root_pieces (index_roots m)) @ manifest_tail m))"
    by (simp add: manifest_root_def manifest_head_def manifest_tail_def foldl_index_roots Let_def)
  also have "\<dots> = Sha384_digest (manifest_msg m)"
    unfolding streaming_digest
    by (simp add: manifest_msg_def concat_pieces)
  finally show ?thesis .
qed

lemma length_index_root_msg: "58 \<le> length (index_root_msg dr)" "length (index_root_msg dr) \<le> 67"
  by (cases "fst dr"; simp add: index_root_msg_def index_root_pieces_def)+

lemma as_str_inj: "Dimension_as_str a = Dimension_as_str b \<longleftrightarrow> a = b"
  by (cases a; cases b) simp_all

lemma as_str_prefix:
  "to_be_bytes (of_nat (length (Dimension_as_str a)) :: u64) =
   to_be_bytes (of_nat (length (Dimension_as_str b)) :: u64) \<Longrightarrow>
   length (Dimension_as_str a) = length (Dimension_as_str b)"
  by (cases a; cases b) (simp_all add: to_be_bytes_inj)

text \<open>An index root is self-delimiting, so a run of them reads in one way only.\<close>

lemma index_root_msg_prefix_free:
  assumes "index_root_msg a @ x = index_root_msg b @ y"
  shows "a = b \<and> x = y"
proof -
  have "to_be_bytes (of_nat (length (Dimension_as_str (fst a))) :: u64) =
      to_be_bytes (of_nat (length (Dimension_as_str (fst b))) :: u64)"
    using assms by (simp add: index_root_msg_def index_root_pieces_def)
  from as_str_prefix [OF this] assms show ?thesis
    by (auto simp: index_root_msg_def index_root_pieces_def as_str_inj prod_eq_iff)
qed

lemma index_roots_prefix_free:
  "length xs = length ys \<Longrightarrow>
   concat (map index_root_msg xs) @ s = concat (map index_root_msg ys) @ t \<Longrightarrow> xs = ys \<and> s = t"
proof (induction xs ys rule: list_induct2)
  case (Cons x xs y ys)
  then show ?case using index_root_msg_prefix_free [of x _ y] by (metis append.assoc concat.simps(2) list.simps(9))
qed simp

lemma length_concat_index_roots:
  "58 * length rs \<le> length (concat (map index_root_msg rs))"
  "length (concat (map index_root_msg rs)) \<le> 67 * length rs"
proof (induction rs)
  case (Cons r rs)
  case 1 show ?case using Cons length_index_root_msg [of r] by simp
  case 2 show ?case using Cons length_index_root_msg [of r] by simp
qed simp_all

lemma algorithm_code_inj: "algorithm_code a = algorithm_code b \<longleftrightarrow> a = b"
proof
  assume eq: "algorithm_code a = algorithm_code b"
  have "alg_hash a = alg_hash b" "alg_kem a = alg_kem b"
    by (metis HashAlg.exhaust) (metis KemAlg.exhaust)
  moreover have "alg_signature a = alg_signature b"
    using eq by (cases "alg_signature a"; cases "alg_signature b") (simp_all add: algorithm_code_def)
  ultimately show "a = b" by simp
qed simp

lemma manifest_msg_inj:
  assumes eq: "manifest_msg m = manifest_msg n" and small: "length (index_roots n) < 2 ^ 60"
  shows "m = n"
proof -
  have "length (concat (manifest_head m)) = length (concat (manifest_head n))"
    "length (concat (manifest_tail m)) = length (concat (manifest_tail n))"
    by (simp_all add: manifest_head_def manifest_tail_def algorithm_code_def)
  then have head: "concat (manifest_head m) = concat (manifest_head n)"
    and rest: "concat (map index_root_msg (index_roots m)) @ concat (manifest_tail m) =
      concat (map index_root_msg (index_roots n)) @ concat (manifest_tail n)"
    and len: "length (concat (map index_root_msg (index_roots m))) =
      length (concat (map index_root_msg (index_roots n)))"
    using eq arg_cong [OF eq, of length] by (simp_all add: manifest_msg_def)
  have "58 * length (index_roots m) \<le> 67 * length (index_roots n)"
    using length_concat_index_roots(1) [of "index_roots m"]
      length_concat_index_roots(2) [of "index_roots n"] len by linarith
  then have "length (index_roots m) < 2 ^ 64" using small by simp
  moreover have "(of_nat (length (index_roots m)) :: u64) = of_nat (length (index_roots n))"
    using head by (simp add: manifest_head_def to_be_bytes_inj)
  ultimately have "length (index_roots m) = length (index_roots n)"
    using small by (auto intro: of_nat_word_inj)
  from index_roots_prefix_free [OF this rest] head show "m = n"
    by (cases m; cases n)
       (simp add: manifest_head_def manifest_tail_def to_be_bytes_inj algorithm_code_inj)
qed

subsection \<open>What sealing yields\<close>

lemma find_dimension:
  "find (\<lambda>i. ix_dimension i = d) (map (\<lambda>d. SortedIndex_build d rs) Dimension_ALL) =
     Some (SortedIndex_build d rs)"
  "find (\<lambda>(dim, _). dim = d) (map (\<lambda>i. (ix_dimension i, ix_root i))
      (map (\<lambda>d. SortedIndex_build d rs) Dimension_ALL)) = Some (d, ix_root (SortedIndex_build d rs))"
  by (cases d; simp add: Dimension_ALL_def build_fields)+

lemma first_duplicate_index_iff:
  "first_duplicate_index ixs = None \<longleftrightarrow> (\<forall>ix \<in> set ixs. first_duplicate_position ix = None)"
  by (induction ixs) (auto split: option.splits)

lemma set_Dimension_ALL: "set Dimension_ALL = UNIV"
  by (rule set_eq_UNIV, case_tac x; simp add: Dimension_ALL_def)

lemma seal_facts:
  assumes "seal segment shard before records = Inr s"
  shows "sg_index s d = Some (SortedIndex_build d records)"
    and "index_root (sg_manifest s) d = Some (ix_root (SortedIndex_build d records))"
    and "m_records (sg_manifest s) = of_nat (length records)"
    and "m_shard (sg_manifest s) = shard"
    and "length (index_roots (sg_manifest s)) = 5"
    and "first_duplicate_position (SortedIndex_build d records) = None"
    and "sg_records s = map fst records"
    and "by_link s = foldl (\<lambda>m (i, _, link). AList.update link i m) [] (enumerate 0 records)"
proof -
  let ?ixs = "map (\<lambda>d. SortedIndex_build d records) Dimension_ALL"
  have none: "first_duplicate_index ?ixs = None"
    using assms by (auto simp: seal_def Let_def split: if_splits option.splits)
  have f: "sg_indexes s = ?ixs"
    "index_roots (sg_manifest s) = map (\<lambda>i. (ix_dimension i, ix_root i)) ?ixs"
    "m_records (sg_manifest s) = of_nat (length records)" "m_shard (sg_manifest s) = shard"
    "sg_records s = map fst records"
    "by_link s = foldl (\<lambda>m (i, _, link). AList.update link i m) [] (enumerate 0 records)"
    using assms none by (auto simp: seal_def Let_def split: if_splits)
  show "sg_index s d = Some (SortedIndex_build d records)"
    "index_root (sg_manifest s) d = Some (ix_root (SortedIndex_build d records))"
    unfolding sg_index_def index_root_def f find_dimension by simp_all
  show "length (index_roots (sg_manifest s)) = 5" unfolding f by (simp add: Dimension_ALL_def)
  show "m_records (sg_manifest s) = of_nat (length records)" "m_shard (sg_manifest s) = shard"
    "sg_records s = map fst records"
    "by_link s = foldl (\<lambda>m (i, _, link). AList.update link i m) [] (enumerate 0 records)"
    by (rule f)+
  show "first_duplicate_position (SortedIndex_build d records) = None"
    using none set_Dimension_ALL by (simp add: first_duplicate_index_iff)
qed

definition sealed :: "ShardIx \<Rightarrow> Segment \<Rightarrow> bool" where
  "sealed shard s \<longleftrightarrow>
     (\<exists>segment before records. seal segment shard before records = Inr s \<and> length records < 2 ^ 64)"

definition segment_entries :: "Dimension \<Rightarrow> Segment \<Rightarrow> Entry list" where
  "segment_entries d s = (case sg_index s d of None \<Rightarrow> [] | Some ix \<Rightarrow> ix_entries ix)"

lemma sealed_index:
  assumes "sealed shard s"
  shows "index_root (sg_manifest s) d = Some (mth (map Entry_leaf_hash (segment_entries d s)))"
    and "unat (m_records (sg_manifest s)) = length (segment_entries d s)"
    and "sorted_entries (segment_entries d s)"
    and "m_shard (sg_manifest s) = shard" and "length (index_roots (sg_manifest s)) = 5"
proof -
  from assms obtain g b rs where s: "seal g shard b rs = Inr s" "length rs < 2 ^ 64"
    by (auto simp: sealed_def)
  have e: "segment_entries d s = ix_entries (SortedIndex_build d rs)"
    by (simp add: segment_entries_def seal_facts(1) [OF s(1)])
  show "index_root (sg_manifest s) d = Some (mth (map Entry_leaf_hash (segment_entries d s)))"
    using seal_facts(2) [OF s(1)] root_of_wf [OF build_wf] by (simp add: e)
  show "unat (m_records (sg_manifest s)) = length (segment_entries d s)"
    using seal_facts(3) [OF s(1)] s(2) by (simp add: e build_fields unat_of_nat)
  show "sorted_entries (segment_entries d s)" using build_wf by (simp add: e index_wf_def)
  show "m_shard (sg_manifest s) = shard" "length (index_roots (sg_manifest s)) = 5"
    using seal_facts(4,5) [OF s(1)] by simp_all
qed

subsection \<open>A leaf that hashes a digest\<close>

definition digest_leaf :: "bytes \<Rightarrow> hash" where
  "digest_leaf x = leaf_hash (as_bytes (Sha384_digest x))"

definition digest_leaf_msgs :: "bytes \<Rightarrow> bytes list" where
  "digest_leaf_msgs x = [x, leaf_msg (as_bytes (Sha384_digest x))]"

lemma digest_leaf_binds:
  assumes "verify_at p (digest_leaf x) (mth (map digest_leaf ys)) i (length ys)"
    and "\<not> collides (digest_leaf_msgs x @ ip_msgs p (digest_leaf x))
            (concat (map digest_leaf_msgs ys) @ mth_msgs (map digest_leaf ys))"
  shows "i < length ys \<and> x = ys ! i"
proof -
  have "\<not> ip_broken p (digest_leaf x) (map digest_leaf ys)" using assms(2) by (simp add: ip_broken_def)
  with merkle.check_binds [of p "digest_leaf x" "map digest_leaf ys" i] assms(1)
  have i: "i < length ys" and l: "digest_leaf x = digest_leaf (ys ! i)" by auto
  have nc: "\<not> collides (digest_leaf_msgs x) (digest_leaf_msgs (ys ! i))"
    by (rule not_collides_concat(2) [where xs = ys]) (use assms(2) i in simp_all)
  have "Sha384_digest (leaf_msg (as_bytes (Sha384_digest x))) =
      Sha384_digest (leaf_msg (as_bytes (Sha384_digest (ys ! i))))"
    using l unfolding digest_leaf_def leaf_hash_digest .
  then have "leaf_msg (as_bytes (Sha384_digest x)) = leaf_msg (as_bytes (Sha384_digest (ys ! i)))"
    by (rule collidesD [OF nc, rotated 2]) (simp_all add: digest_leaf_msgs_def)
  then have "Sha384_digest x = Sha384_digest (ys ! i)" by (simp add: leaf_msg_def)
  then have "x = ys ! i"
    by (rule collidesD [OF nc, rotated 2]) (simp_all add: digest_leaf_msgs_def)
  with i show ?thesis by simp
qed

definition store_leaf_msg :: "ShardIx \<Rightarrow> u64 \<Rightarrow> hash \<Rightarrow> bytes" where
  "store_leaf_msg shard n rt =
     (ascii ''trailryx/store-leaf/v1'' @ [0]) @ to_be_bytes shard @ to_be_bytes n @ as_bytes rt"

lemma shard_leaf_digest: "shard_leaf shard n rt = digest_leaf (store_leaf_msg shard n rt)"
  using streaming_digest [of "[ascii ''trailryx/store-leaf/v1'' @ [0], to_be_bytes shard,
      to_be_bytes n, as_bytes rt]"]
  by (simp add: shard_leaf_def digest_leaf_def store_leaf_msg_def Let_def)

lemma store_leaf_msg_inj:
  "store_leaf_msg a n r = store_leaf_msg b m q \<longleftrightarrow> a = b \<and> n = m \<and> r = q"
  by (auto simp: store_leaf_msg_def to_be_bytes_inj)

lemma manifest_leaf_digest: "leaf_hash (as_bytes (manifest_root m)) = digest_leaf (manifest_msg m)"
  by (simp add: digest_leaf_def manifest_root_digest)

subsection \<open>A store built from sealed segments\<close>

definition shard_tree :: "ShardIx \<times> Segment list \<Rightarrow> ShardTree" where
  "shard_tree sh = foldl (\<lambda>t s. ShardTree_push t (sg_manifest s)) (ShardTree_new (fst sh)) (snd sh)"

definition built_store :: "(ShardIx \<times> Segment list) list \<Rightarrow> StoreTree" where
  "built_store shards = from_shards (map shard_tree shards)"

definition store_ok :: "(ShardIx \<times> Segment list) list \<Rightarrow> bool" where
  "store_ok shards \<longleftrightarrow> (\<forall>sh \<in> set shards. length (snd sh) < 2 ^ 64 \<and> (\<forall>s \<in> set (snd sh). sealed (fst sh) s))"

lemma shard_tree_fields:
  "st_shard (shard_tree sh) = fst sh"
  "manifests (shard_tree sh) = map sg_manifest (snd sh)"
  "leaves (st_tree (shard_tree sh)) = map (\<lambda>s. digest_leaf (manifest_msg (sg_manifest s))) (snd sh)"
proof -
  have "st_shard t' = st_shard t \<and> manifests t' = manifests t @ map sg_manifest ss \<and>
      leaves (st_tree t') = leaves (st_tree t) @ map (\<lambda>s. digest_leaf (manifest_msg (sg_manifest s))) ss"
    if "t' = foldl (\<lambda>t s. ShardTree_push t (sg_manifest s)) t ss" for t t' ss
    using that
    by (induction ss arbitrary: t)
       (simp_all add: ShardTree_push_def push_leaf_def manifest_leaf_digest)
  from this [OF refl, of "ShardTree_new (fst sh)" "snd sh"] show
    "st_shard (shard_tree sh) = fst sh" "manifests (shard_tree sh) = map sg_manifest (snd sh)"
    "leaves (st_tree (shard_tree sh)) = map (\<lambda>s. digest_leaf (manifest_msg (sg_manifest s))) (snd sh)"
    by (simp_all add: shard_tree_def ShardTree_new_def MerkleTree_new_def)
qed

definition shard_msg :: "ShardIx \<times> Segment list \<Rightarrow> bytes" where
  "shard_msg sh = store_leaf_msg (fst sh) (of_nat (length (snd sh))) (ShardTree_root (shard_tree sh))"

definition manifest_msgs :: "Segment list \<Rightarrow> bytes list" where
  "manifest_msgs segs = map (\<lambda>s. manifest_msg (sg_manifest s)) segs"

lemma shard_root_mth: "ShardTree_root (shard_tree sh) = mth (map digest_leaf (manifest_msgs (snd sh)))"
  by (simp add: ShardTree_root_def root_def shard_tree_fields manifest_msgs_def comp_def)

lemma store_root_mth: "store_root (built_store shards) = mth (map digest_leaf (map shard_msg shards))"
  by (simp add: store_root_def built_store_def from_shards_def Let_def root_def from_leaf_hashes_def
      shard_leaf_digest shard_msg_def ShardTree_len_def shard_tree_fields comp_def)

text \<open>The messages the two sides hash.\<close>

definition tree_msgs :: "bytes list \<Rightarrow> bytes list" where
  "tree_msgs ys = concat (map digest_leaf_msgs ys) @ mth_msgs (map digest_leaf ys)"

definition store_msgs :: "Dimension \<Rightarrow> (ShardIx \<times> Segment list) list \<Rightarrow> bytes list" where
  "store_msgs d shards = tree_msgs (map shard_msg shards) @
     concat (map (\<lambda>sh. tree_msgs (manifest_msgs (snd sh)) @
       concat (map (\<lambda>s. index_msgs (segment_entries d s)) (snd sh))) shards)"

definition span_pairs :: "TimeSpan option \<Rightarrow> (Entry \<times> InclusionProof) list" where
  "span_pairs span = (case span of None \<Rightarrow> [] | Some s \<Rightarrow> [(ts_min s, min_proof s), (ts_max s, max_proof s)])"

primrec answer_msgs :: "SegmentContribution \<Rightarrow> bytes list" where
  "answer_msgs (Answered m mp pf) = completeness_msgs pf"
| "answer_msgs (ExcludedByTime m mp span) = concat (map pair_msgs (span_pairs span))"

definition leaf_check_msgs :: "bytes \<Rightarrow> InclusionProof \<Rightarrow> bytes list" where
  "leaf_check_msgs x p = digest_leaf_msgs x @ ip_msgs p (digest_leaf x)"

definition contribution_msgs :: "SegmentContribution \<Rightarrow> bytes list" where
  "contribution_msgs c =
     leaf_check_msgs (manifest_msg (contribution_manifest c)) (contribution_proof c) @ answer_msgs c"

definition shard_contribution_msgs :: "ShardContribution \<Rightarrow> bytes list" where
  "shard_contribution_msgs sc =
     leaf_check_msgs (store_leaf_msg (sc_shard sc) (segments_in_shard sc) (shard_root sc)) (shard_proof sc) @
     concat (map contribution_msgs (sc_segments sc))"

definition composite_msgs :: "CompositeProof \<Rightarrow> bytes list" where
  "composite_msgs p = concat (map shard_contribution_msgs (comp_shards p))"

text \<open>What an answer offers, segment by segment.\<close>

primrec contribution_entries :: "SegmentContribution \<Rightarrow> Entry list" where
  "contribution_entries (Answered m mp pf) = pf_entries pf"
| "contribution_entries (ExcludedByTime m mp span) = []"

definition answer_entries :: "CompositeProof \<Rightarrow> Entry list" where
  "answer_entries p = concat (map contribution_entries (concat (map sc_segments (comp_shards p))))"

definition store_entries :: "Dimension \<Rightarrow> (ShardIx \<times> Segment list) list \<Rightarrow> Entry list" where
  "store_entries d shards = concat (map (segment_entries d) (concat (map snd shards)))"

subsection \<open>Soundness, level by level\<close>

text \<open>An exclusion that verifies leaves nothing of the range in the segment.\<close>

lemma exclusion_sound:
  assumes v: "verify_exclusion shard j (sg_manifest s) span lo hi = Inr ()" and s: "sealed ix s"
    and nc: "\<not> collides (concat (map pair_msgs (span_pairs span)))
               (index_msgs (segment_entries Dim_RecordedAt s))"
  shows "filter (in_range lo hi) (segment_entries Dim_RecordedAt s) = []"
proof -
  let ?es = "segment_entries Dim_RecordedAt s"
  note si = sealed_index(1-3) [OF s, where d = Dim_RecordedAt]
  show ?thesis
  proof (cases span)
    case None
    then have "m_records (sg_manifest s) = 0"
      using v si(1) by (auto simp: verify_exclusion_def split: if_splits)
    then show ?thesis using si(2) by simp
  next
    case (Some ts)
    have c: "check_entry (ts_min ts, min_proof ts) ?es 0"
      "check_entry (ts_max ts, max_proof ts) ?es (length ?es - 1)"
      and out: "en_key (ts_max ts) < lo \<or> hi < en_key (ts_min ts)"
      using v si(1,2) Some
      by (auto simp: verify_exclusion_def check_entry_def Let_def split: if_splits)
    have "0 < length ?es \<and> ts_min ts = ?es ! 0" "ts_max ts = ?es ! (length ?es - 1)"
      using check_entry_binds [OF c(1)] check_entry_binds [OF c(2)] nc Some
      by (auto simp: span_pairs_def)
    then have "en_key (ts_min ts) \<le> en_key (?es ! i)" "en_key (?es ! i) \<le> en_key (ts_max ts)"
      if "i < length ?es" for i
      using that sorted_entries_le [OF si(3), of 0 i] sorted_entries_le [OF si(3), of i "length ?es - 1"]
      by auto
    then have "\<not> in_range lo hi (?es ! i)" if "i < length ?es" for i
      using that out unfolding in_range_def by (meson order_less_le_trans linorder_not_less order_trans)
    then show ?thesis by (auto simp: filter_empty_conv in_set_conv_nth)
  qed
qed

lemma contribution_sound:
  assumes v: "verify_contribution d lo hi sc j c = Inr ()"
    and rt: "shard_root sc = mth (map digest_leaf (manifest_msgs segs))"
    and n: "unat (segments_in_shard sc) = length segs"
    and segs: "\<And>s. s \<in> set segs \<Longrightarrow> sealed ix s"
    and ex: "is_excluded c \<Longrightarrow> d = Dim_RecordedAt"
    and nc: "\<not> collides (contribution_msgs c)
      (tree_msgs (manifest_msgs segs) @ concat (map (\<lambda>s. index_msgs (segment_entries d s)) segs))"
  shows "j < length segs \<and> contribution_entries c = filter (in_range lo hi) (segment_entries d (segs ! j))"
proof -
  let ?m = "contribution_manifest c"
  have at: "verify_at (contribution_proof c) (digest_leaf (manifest_msg ?m))
      (mth (map digest_leaf (manifest_msgs segs))) j (length (manifest_msgs segs))"
    using v rt n by (auto simp: verify_contribution_def Let_def manifest_leaf_digest manifest_msgs_def
        split: if_splits)
  have "j < length (manifest_msgs segs) \<and> manifest_msg ?m = manifest_msgs segs ! j"
    by (rule digest_leaf_binds [OF at])
       (use nc in \<open>simp add: contribution_msgs_def leaf_check_msgs_def tree_msgs_def\<close>)
  then have j: "j < length segs" and "manifest_msg ?m = manifest_msg (sg_manifest (segs ! j))"
    by (simp_all add: manifest_msgs_def)
  have s: "sealed ix (segs ! j)" using segs j by simp
  have m: "?m = sg_manifest (segs ! j)"
    by (rule manifest_msg_inj [OF \<open>manifest_msg ?m = _\<close>]) (simp add: sealed_index(5) [OF s])
  note si = sealed_index(1-3) [OF s, where d = d]
  have nc': "\<not> collides (answer_msgs c) (index_msgs (segment_entries d (segs ! j)))"
    by (rule not_collides_concat(2) [where xs = segs]) (use nc j in \<open>simp_all add: contribution_msgs_def\<close>)
  show ?thesis
  proof (cases c)
    case (Answered m' mp pf)
    then have "completeness_verify pf d lo hi (mth (map Entry_leaf_hash (segment_entries d (segs ! j))))
        (length (segment_entries d (segs ! j))) = Inr ()"
      using v m si(1,2) by (auto simp: verify_contribution_def Let_def split: if_splits)
    from completeness_sound(1) [OF this si(3)] nc' j Answered show ?thesis by simp
  next
    case (ExcludedByTime m' mp span)
    then have "verify_exclusion (sc_shard sc) j (sg_manifest (segs ! j)) span lo hi = Inr ()"
      using v m by (auto simp: verify_contribution_def Let_def split: if_splits)
    from exclusion_sound [OF this s] nc' ex j ExcludedByTime show ?thesis by simp
  qed
qed

lemma verify_segments_nth:
  "verify_segments d lo hi sc j cs = Inr () \<Longrightarrow> i < length cs \<Longrightarrow>
   verify_contribution d lo hi sc (j + i) (cs ! i) = Inr ()"
proof (induction cs arbitrary: i j)
  case (Cons c cs)
  then show ?case by (cases i) (fastforce simp: bind_res_Inr_iff)+
qed simp

lemma verify_shards_nth:
  "verify_shards d lo hi rt n k scs = Inr () \<Longrightarrow> i < length scs \<Longrightarrow>
   verify_shard d lo hi rt n (k + i) (scs ! i) = Inr ()"
proof (induction scs arbitrary: i k)
  case (Cons c cs)
  then show ?case by (cases i) (fastforce simp: bind_res_Inr_iff)+
qed simp

lemma shard_sound:
  assumes v: "verify_shard d lo hi (mth (map digest_leaf (map shard_msg shards))) (length shards) i sc = Inr ()"
    and ok: "store_ok shards"
    and ex: "\<And>c. c \<in> set (sc_segments sc) \<Longrightarrow> is_excluded c \<Longrightarrow> d = Dim_RecordedAt"
    and nc: "\<not> collides (shard_contribution_msgs sc) (store_msgs d shards)"
  shows "i < length shards \<and> map contribution_entries (sc_segments sc) =
    map (\<lambda>s. filter (in_range lo hi) (segment_entries d s)) (snd (shards ! i))"
proof -
  let ?x = "store_leaf_msg (sc_shard sc) (segments_in_shard sc) (shard_root sc)"
  have at: "verify_at (shard_proof sc) (digest_leaf ?x) (mth (map digest_leaf (map shard_msg shards))) i
      (length (map shard_msg shards))"
    and len: "length (sc_segments sc) = unat (segments_in_shard sc)"
    and vs: "verify_segments d lo hi sc 0 (sc_segments sc) = Inr ()"
    using v by (auto simp: verify_shard_def shard_leaf_digest split: if_splits)
  have "i < length (map shard_msg shards) \<and> ?x = map shard_msg shards ! i"
    by (rule digest_leaf_binds [OF at])
       (use nc in \<open>simp add: shard_contribution_msgs_def leaf_check_msgs_def store_msgs_def tree_msgs_def\<close>)
  then have i: "i < length shards" and "?x = shard_msg (shards ! i)" by simp_all
  obtain ix segs where sh: "shards ! i = (ix, segs)" by (cases "shards ! i")
  have mem: "(ix, segs) \<in> set shards" using nth_mem [OF i] sh by simp
  have segs: "length segs < 2 ^ 64" "\<And>s. s \<in> set segs \<Longrightarrow> sealed ix s"
    using ok mem unfolding store_ok_def by fastforce+
  have n: "unat (segments_in_shard sc) = length segs"
    and rt: "shard_root sc = mth (map digest_leaf (manifest_msgs segs))"
    using \<open>?x = _\<close> segs(1)
    by (simp_all add: sh shard_msg_def store_leaf_msg_inj shard_root_mth unat_of_nat)
  have ncs: "\<not> collides (contribution_msgs c)
      (tree_msgs (manifest_msgs segs) @ concat (map (\<lambda>s. index_msgs (segment_entries d s)) segs))"
    if "c \<in> set (sc_segments sc)" for c
  proof -
    have "\<not> collides (contribution_msgs c) (store_msgs d shards)"
      by (rule not_collides_concat(1) [OF _ that]) (use nc in \<open>simp add: shard_contribution_msgs_def\<close>)
    then show ?thesis
      using not_collides_concat(2) [OF _ mem, of "contribution_msgs c" "\<lambda>sh. tree_msgs (manifest_msgs (snd sh)) @
        concat (map (\<lambda>s. index_msgs (segment_entries d s)) (snd sh))"]
      by (simp add: store_msgs_def)
  qed
  have "contribution_entries (sc_segments sc ! j) = filter (in_range lo hi) (segment_entries d (segs ! j))"
    if "j < length (sc_segments sc)" for j
    using contribution_sound [OF _ rt n segs(2) ex ncs, of lo hi j "sc_segments sc ! j"]
      verify_segments_nth [OF vs that] nth_mem [OF that] by auto
  with len n i sh show ?thesis by (auto intro: nth_equalityI)
qed

lemma composite_sound:
  assumes v: "composite_verify p d lo hi (store_root (built_store shards)) (length shards) = Inr ()"
    and ok: "store_ok shards" and nc: "\<not> collides (composite_msgs p) (store_msgs d shards)"
  shows "answer_entries p = filter (in_range lo hi) (store_entries d shards)"
proof -
  have len: "length (comp_shards p) = length shards"
    and ex: "\<And>c sc. sc \<in> set (comp_shards p) \<Longrightarrow> c \<in> set (sc_segments sc) \<Longrightarrow> is_excluded c \<Longrightarrow> d = Dim_RecordedAt"
    and vs: "verify_shards d lo hi (mth (map digest_leaf (map shard_msg shards))) (length shards) 0 (comp_shards p) = Inr ()"
    using v by (auto simp: composite_verify_def store_root_mth list_ex_iff split: if_splits)
  have sh: "map contribution_entries (sc_segments (comp_shards p ! i)) =
      map (\<lambda>s. filter (in_range lo hi) (segment_entries d s)) (snd (shards ! i))"
    if i: "i < length shards" for i
  proof -
    have m: "comp_shards p ! i \<in> set (comp_shards p)" using i len by simp
    have "\<not> collides (shard_contribution_msgs (comp_shards p ! i)) (store_msgs d shards)"
      by (rule not_collides_concat(1) [OF _ m]) (use nc in \<open>simp add: composite_msgs_def\<close>)
    then show ?thesis
      using shard_sound [OF _ ok ex [OF m], of lo hi i] verify_shards_nth [OF vs, of i] i len by auto
  qed
  have "map (\<lambda>sc. map contribution_entries (sc_segments sc)) (comp_shards p) =
      map (\<lambda>sh. map (\<lambda>s. filter (in_range lo hi) (segment_entries d s)) (snd sh)) shards"
    using sh len by (intro nth_equalityI) simp_all
  then have "concat (map (\<lambda>sc. map contribution_entries (sc_segments sc)) (comp_shards p)) =
      concat (map (\<lambda>sh. map (\<lambda>s. filter (in_range lo hi) (segment_entries d s)) (snd sh)) shards)"
    by (rule arg_cong)
  then show ?thesis
    by (simp add: answer_entries_def store_entries_def filter_concat map_concat comp_def)
qed

subsection \<open>Finding records by their links\<close>

lemma update_absent: "k \<notin> fst ` set al \<Longrightarrow> AList.update k v al = al @ [(k, v)]"
  by (induction al) auto

lemma by_link_distinct:
  "distinct (map snd records) \<Longrightarrow>
   foldl (\<lambda>m (i, _, link). AList.update link i m) [] (enumerate 0 records) =
   zip (map snd records) [0 ..< length records]"
proof (induction records rule: rev_induct)
  case (snoc r rs)
  have "map fst (zip (map snd rs) [0 ..< length rs]) = map snd rs" by (rule map_fst_zip) simp
  then have "fst ` set (zip (map snd rs) [0 ..< length rs]) = snd ` set rs" by (metis set_map)
  with snoc show ?case
    by (cases r) (auto simp: enumerate_append_eq update_absent)
qed simp

lemma fill_links:
  "n \<le> length out \<Longrightarrow> n = length ls \<Longrightarrow>
   foldl (\<lambda>out (link, at). out[at := link]) out (zip ls [0 ..< n]) = ls @ drop n out"
proof (induction ls arbitrary: n rule: rev_induct)
  case (snoc l ls)
  have "drop (length ls) out = out ! length ls # drop (Suc (length ls)) out"
    using Cons_nth_drop_Suc [of "length ls" out] snoc.prems by simp
  then show ?case using snoc by (simp add: list_update_append)
qed simp

lemma links_roundtrip:
  assumes "seal g ix b records = Inr s" "distinct (map snd records)"
  shows "sg_links s = map snd records"
    and "i < length records \<Longrightarrow> record_by_link s (snd (records ! i)) = Some (fst (records ! i))"
proof -
  have bl: "by_link s = zip (map snd records) [0 ..< length records]"
    using seal_facts(8) [OF assms(1)] by_link_distinct [OF assms(2)] by simp
  have len: "length (sg_records s) = length records" by (simp add: seal_facts(7) [OF assms(1)])
  show "sg_links s = map snd records"
    unfolding sg_links_def bl len by (simp add: fill_links)
  show "record_by_link s (snd (records ! i)) = Some (fst (records ! i))" if i: "i < length records"
  proof -
    have "map_of (zip (map snd records) [0 ..< length records]) (map snd records ! i) = Some ([0 ..< length records] ! i)"
      by (rule map_of_zip_nth) (use assms(2) i in simp_all)
    then show ?thesis using i by (simp add: record_by_link_def bl seal_facts(7) [OF assms(1)])
  qed
qed

subsection \<open>Honest answers\<close>

definition honest_segment :: "Dimension \<Rightarrow> bytes \<Rightarrow> bytes \<Rightarrow> ShardTree \<Rightarrow> nat \<Rightarrow> Segment \<Rightarrow> SegmentContribution" where
  "honest_segment d lo hi st j s =
     Answered (sg_manifest s) (the (ShardTree_inclusion st j)) (the (the (sg_range s d lo hi)))"

definition honest_shard ::
  "Dimension \<Rightarrow> bytes \<Rightarrow> bytes \<Rightarrow> StoreTree \<Rightarrow> nat \<Rightarrow> ShardIx \<times> Segment list \<Rightarrow> ShardContribution" where
  "honest_shard d lo hi store i sh =
     \<lparr>sc_shard = fst sh, shard_root = ShardTree_root (shard_tree sh),
      segments_in_shard = of_nat (length (snd sh)), shard_proof = the (store_inclusion store i),
      sc_segments = map (\<lambda>(j, s). honest_segment d lo hi (shard_tree sh) j s) (enumerate 0 (snd sh))\<rparr>"

definition honest_answer :: "Dimension \<Rightarrow> bytes \<Rightarrow> bytes \<Rightarrow> (ShardIx \<times> Segment list) list \<Rightarrow> CompositeProof" where
  "honest_answer d lo hi shards =
     \<lparr>comp_dimension = d,
      comp_shards = map (\<lambda>(i, sh). honest_shard d lo hi (built_store shards) i sh) (enumerate 0 shards)\<rparr>"

lemma verify_segments_all:
  "(\<And>i. i < length cs \<Longrightarrow> verify_contribution d lo hi sc (j + i) (cs ! i) = Inr ()) \<Longrightarrow>
   verify_segments d lo hi sc j cs = Inr ()"
proof (induction cs arbitrary: j)
  case (Cons c cs)
  have "verify_contribution d lo hi sc j c = Inr ()" using Cons.prems [of 0] by simp
  moreover have "verify_contribution d lo hi sc (Suc j + i) (cs ! i) = Inr ()" if "i < length cs" for i
    using Cons.prems [of "Suc i"] that by simp
  ultimately show ?case using Cons.IH [of "Suc j"] by simp
qed simp

lemma verify_shards_all:
  "(\<And>i. i < length cs \<Longrightarrow> verify_shard d lo hi rt n (k + i) (cs ! i) = Inr ()) \<Longrightarrow>
   verify_shards d lo hi rt n k cs = Inr ()"
proof (induction cs arbitrary: k)
  case (Cons c cs)
  have "verify_shard d lo hi rt n k c = Inr ()" using Cons.prems [of 0] by simp
  moreover have "verify_shard d lo hi rt n (Suc k + i) (cs ! i) = Inr ()" if "i < length cs" for i
    using Cons.prems [of "Suc i"] that by simp
  ultimately show ?case using Cons.IH [of "Suc k"] by simp
qed simp

lemma digest_tree_inclusion:
  assumes "leaves t = map digest_leaf ys" "i < length ys"
  shows "inclusion_proof t i (tree_len t) = Some (path_proof (map digest_leaf ys) i)"
    and "verify_at (path_proof (map digest_leaf ys) i) (digest_leaf (ys ! i)) (mth (map digest_leaf ys)) i (length ys)"
  using inclusion_proof_path [of i t] assms merkle.check_prove [of i "map digest_leaf ys"]
  by (simp_all add: tree_len_def)

lemma honest_segment_verifies:
  assumes "j < length (snd sh)" "length (snd sh) < 2 ^ 64" "sealed (fst sh) (snd sh ! j)"
    and "sc_shard sc = fst sh" "shard_root sc = ShardTree_root (shard_tree sh)"
    and "segments_in_shard sc = of_nat (length (snd sh))"
  shows "verify_contribution d lo hi sc j (honest_segment d lo hi (shard_tree sh) j (snd sh ! j)) = Inr ()"
proof -
  from assms(3) obtain g b rs where s: "seal g (fst sh) b rs = Inr (snd sh ! j)" "length rs < 2 ^ 64"
    by (auto simp: sealed_def)
  obtain p where p: "range_proof (SortedIndex_build d rs) lo hi = Some p"
    "completeness_verify p d lo hi (ix_root (SortedIndex_build d rs)) (length rs) = Inr ()"
    using range_proof_complete [OF build_wf seal_facts(6) [OF s(1)], of d lo hi]
    by (auto simp: build_fields ix_len_def)
  have t: "ShardTree_inclusion (shard_tree sh) j = Some (path_proof (map digest_leaf (manifest_msgs (snd sh))) j)"
    "verify_at (path_proof (map digest_leaf (manifest_msgs (snd sh))) j)
      (digest_leaf (manifest_msg (sg_manifest (snd sh ! j)))) (shard_root sc) j (length (snd sh))"
    using digest_tree_inclusion [of "st_tree (shard_tree sh)" "manifest_msgs (snd sh)" j] assms(1,5)
    by (simp_all add: ShardTree_inclusion_def shard_tree_fields manifest_msgs_def shard_root_mth comp_def)
  show ?thesis
    using t p seal_facts(1-4) [OF s(1)] s(2) assms(2,4,6)
    by (simp add: verify_contribution_def honest_segment_def sg_range_def manifest_leaf_digest Let_def
        unat_of_nat)
qed

lemma honest_verifies:
  assumes "store_ok shards"
  shows "composite_verify (honest_answer d lo hi shards) d lo hi (store_root (built_store shards))
    (length shards) = Inr ()"
proof -
  let ?sc = "\<lambda>i. honest_shard d lo hi (built_store shards) i (shards ! i)"
  have "verify_shard d lo hi (store_root (built_store shards)) (length shards) i (?sc i) = Inr ()"
    if i: "i < length shards" for i
  proof -
    have ok: "length (snd (shards ! i)) < 2 ^ 64" "\<And>s. s \<in> set (snd (shards ! i)) \<Longrightarrow> sealed (fst (shards ! i)) s"
      using assms nth_mem [OF i] unfolding store_ok_def by blast+
    have leaves: "leaves (store_tree (built_store shards)) = map digest_leaf (map shard_msg shards)"
      by (simp add: built_store_def from_shards_def Let_def from_leaf_hashes_def shard_leaf_digest
          shard_msg_def ShardTree_len_def shard_tree_fields comp_def)
    have "store_inclusion (built_store shards) i = Some (path_proof (map digest_leaf (map shard_msg shards)) i)"
      "verify_at (path_proof (map digest_leaf (map shard_msg shards)) i) (digest_leaf (shard_msg (shards ! i)))
        (store_root (built_store shards)) i (length shards)"
      using digest_tree_inclusion [OF leaves, of i] i by (simp_all add: store_inclusion_def store_root_mth)
    moreover have "verify_segments d lo hi (?sc i) 0 (sc_segments (?sc i)) = Inr ()"
    proof (rule verify_segments_all)
      fix j assume "j < length (sc_segments (?sc i))"
      then have j: "j < length (snd (shards ! i))" by (simp add: honest_shard_def)
      then have "sc_segments (?sc i) ! j = honest_segment d lo hi (shard_tree (shards ! i)) j (snd (shards ! i) ! j)"
        by (simp add: honest_shard_def nth_enumerate_eq)
      with honest_segment_verifies [OF j ok(1) ok(2) [OF nth_mem [OF j]], of "?sc i" d lo hi]
      show "verify_contribution d lo hi (?sc i) (0 + j) (sc_segments (?sc i) ! j) = Inr ()"
        by (simp add: honest_shard_def)
    qed
    ultimately show ?thesis using ok(1)
      by (simp add: verify_shard_def shard_leaf_digest shard_msg_def unat_of_nat)
         (simp add: honest_shard_def unat_of_nat)
  qed
  then have "verify_shards d lo hi (store_root (built_store shards)) (length shards) 0
      (comp_shards (honest_answer d lo hi shards)) = Inr ()"
    by (intro verify_shards_all) (simp add: honest_answer_def nth_enumerate_eq)
  moreover have "\<not> list_ex is_excluded (concat (map sc_segments (comp_shards (honest_answer d lo hi shards))))"
    by (auto simp: list_ex_iff honest_answer_def honest_shard_def honest_segment_def)
  ultimately show ?thesis by (simp add: composite_verify_def honest_answer_def)
qed

subsection \<open>Properties\<close>

text \<open>
  C8. Store-wide completeness. If a composite answer verifies against the root of a store built
  from sealed segments, for the store's number of shards, then what it offers is exactly the
  entries of the range from every segment of every shard, in order: no shard, no segment and no
  entry is missing, none is invented, and a segment skipped by time had nothing in the range. The
  alternative is a collision among the messages the verifier and the store hashed. The answer is
  arbitrary.
\<close>

theorem store_answer_is_complete:
  assumes "composite_verify p d lo hi (store_root (built_store shards)) (length shards) = Inr ()"
    and "store_ok shards"
  shows "answer_entries p = filter (in_range lo hi) (store_entries d shards) \<or>
         collides (composite_msgs p) (store_msgs d shards)"
  using composite_sound [OF assms] by blast

lemma seal_sample: "\<exists>s. seal 1 3 0 [(sample_record, 5)] = Inr s \<and> sealed 3 s"
proof -
  have "first_duplicate_index (map (\<lambda>d. SortedIndex_build d [(sample_record, 5)]) Dimension_ALL) = None"
    by (simp add: Dimension_ALL_def first_duplicate_position_def SortedIndex_build_def Let_def)
  then have "\<exists>s. seal 1 3 0 [(sample_record, 5)] = Inr s" by (simp add: seal_def Let_def)
  moreover have "length [(sample_record, 5 :: hash)] < 2 ^ 64" by simp
  ultimately show ?thesis unfolding sealed_def by blast
qed

theorem store_answer_is_complete_witness:
  "\<exists>s p. composite_verify p Dim_AgentId [] [255] (store_root (built_store [(3, [s])])) (length [(3 :: ShardIx, [s])]) = Inr () \<and>
     (answer_entries p = filter (in_range [] [255]) (store_entries Dim_AgentId [(3, [s])]) \<or>
      collides (composite_msgs p) (store_msgs Dim_AgentId [(3, [s])]))"
proof -
  from seal_sample obtain s where "sealed 3 s" by blast
  then have ok: "store_ok [(3, [s])]" by (simp add: store_ok_def)
  from honest_verifies [OF ok] store_answer_is_complete [OF _ ok] show ?thesis by blast
qed

text \<open>
  Honest answers verify: the answer assembled from the segments' own range proofs and the
  shard and store trees' own inclusion proofs is accepted, for every dimension and every range.
\<close>

theorem honest_store_answer_verifies:
  assumes "store_ok shards"
  shows "composite_verify (honest_answer d lo hi shards) d lo hi (store_root (built_store shards))
    (length shards) = Inr ()"
  by (rule honest_verifies [OF assms])

theorem honest_store_answer_verifies_witness:
  "\<exists>s. composite_verify (honest_answer Dim_RunId [] [9] [(3, [s, s])]) Dim_RunId [] [9]
     (store_root (built_store [(3, [s, s])])) (length [(3 :: ShardIx, [s, s])]) = Inr ()"
proof -
  from seal_sample obtain s where "sealed 3 s" by blast
  then have "store_ok [(3, [s, s])]" by (simp add: store_ok_def)
  from honest_store_answer_verifies [OF this] show ?thesis by blast
qed

text \<open>
  A segment's root commits to its whole manifest: two manifests with one root are equal in
  every field, the index roots and their dimensions included, or they exhibit a collision. One of
  the two may come from anywhere; of the other it is only needed that it has fewer than
  \<open>2 ^ 60\<close> index roots (a sealed one has five).
\<close>

theorem manifest_root_commits:
  assumes "manifest_root m = manifest_root n" "length (index_roots n) < 2 ^ 60"
  shows "m = n \<or> collides [manifest_msg m] [manifest_msg n]"
  using assms manifest_msg_inj by (auto simp: manifest_root_digest)

theorem manifest_root_commits_witness:
  "\<exists>s. (sg_manifest s = sg_manifest s \<or> collides [manifest_msg (sg_manifest s)] [manifest_msg (sg_manifest s)]) \<and>
       sealed 3 s"
proof -
  from seal_sample obtain s where s: "sealed 3 s" by blast
  then have "length (index_roots (sg_manifest s)) < 2 ^ 60" by (simp add: sealed_index(5))
  from manifest_root_commits [OF refl this] s show ?thesis by blast
qed

text \<open>
  Sealing succeeds exactly when the records share their algorithms and no dimension holds two
  entries at one position.
\<close>

theorem seal_succeeds_iff:
  "(\<exists>s. seal segment shard before records = Inr s) \<longleftrightarrow>
     list_all (\<lambda>rl. algorithms (fst rl) = algorithms (fst (hd records))) records \<and>
     list_all (\<lambda>d. first_duplicate_position (SortedIndex_build d records) = None) Dimension_ALL"
proof -
  have mixed: "(case records of [] \<Rightarrow> False
      | (first, _) # _ \<Rightarrow> list_ex (\<lambda>(r, _). algorithms r \<noteq> algorithms first) records) \<longleftrightarrow>
    \<not> list_all (\<lambda>rl. algorithms (fst rl) = algorithms (fst (hd records))) records"
    by (cases records) (auto simp: list_ex_iff list_all_iff case_prod_beta)
  have "(\<exists>s. seal segment shard before records = Inr s) \<longleftrightarrow>
      list_all (\<lambda>rl. algorithms (fst rl) = algorithms (fst (hd records))) records \<and>
      first_duplicate_index (map (\<lambda>d. SortedIndex_build d records) Dimension_ALL) = None"
    unfolding seal_def mixed by (simp add: Let_def split: option.splits)
  then show ?thesis by (simp add: first_duplicate_index_iff list_all_iff)
qed

text \<open>
  The segment that sealing yields commits, in its manifest, to the index of every dimension,
  to its number of records and to its shard, and none of its indexes has a duplicate position.
\<close>

theorem seal_commits_to_indexes:
  assumes "seal segment shard before records = Inr s"
  shows "index_root (sg_manifest s) d = Some (ix_root (SortedIndex_build d records)) \<and>
         m_records (sg_manifest s) = of_nat (length records) \<and> m_shard (sg_manifest s) = shard \<and>
         first_duplicate_position (SortedIndex_build d records) = None"
  using seal_facts [OF assms] by simp

theorem seal_commits_to_indexes_witness:
  "\<exists>s. seal 1 3 0 [(sample_record, 5)] = Inr s \<and>
     index_root (sg_manifest s) Dim_RunId = Some (ix_root (SortedIndex_build Dim_RunId [(sample_record, 5)]))"
proof -
  from seal_sample obtain s where "seal 1 3 0 [(sample_record, 5)] = Inr s" by blast
  from seal_commits_to_indexes [OF this, of Dim_RunId] this show ?thesis by blast
qed

text \<open>
  A sealed segment finds each of its records by the record's chain link, and lists the links in
  journal order, when the links are distinct.
\<close>

theorem links_find_records:
  assumes "seal segment shard before records = Inr s" "distinct (map snd records)" "i < length records"
  shows "sg_links s = map snd records \<and>
         record_by_link s (snd (records ! i)) = Some (fst (records ! i))"
  using links_roundtrip [OF assms(1,2)] assms(3) by simp

theorem links_find_records_witness:
  "\<exists>s. seal 1 3 0 [(sample_record, 5)] = Inr s \<and> sg_links s = [5] \<and> record_by_link s 5 = Some sample_record"
proof -
  from seal_sample obtain s where s: "seal 1 3 0 [(sample_record, 5)] = Inr s" by blast
  from links_find_records [OF s, of 0] s show ?thesis by simp
qed

end
