(* ===== verification/Storage.thy ===== *)
theory Storage
  imports Ids "HOL-Library.Sublist"
begin

text \<open>
  Storage as a capability: the \<open>Io\<close> trait and the simulated disk \<open>SimIo\<close> of
  \<open>crates/trailryx-sim/src/io.rs\<close>, with the random source of \<open>rng.rs\<close> that drives its faults.

  The trait is a record of functions, so that code generic in \<open>I: Io\<close> takes one as an argument. The
  locale \<open>io_contract\<close> says what such code may rely on: every file has a durable part and an unsynced
  tail, an append adds a prefix of its data to the tail, a sync that tells the truth moves the tail
  to the durable part, and a power cut keeps the durable part and some prefix of the tail. The
  simulated disk is shown to honour it whatever its seed and faults; the one fault that breaks a
  promise, an \<open>fsync\<close> that lies, is exactly what \<open>honest\<close> excludes.
\<close>

subsection \<open>Randomness\<close>

record SimRng =
  rng_state :: u64

definition SimRng_new :: "u64 \<Rightarrow> SimRng" where
  "SimRng_new seed = \<lparr>rng_state = seed\<rparr>"

definition next_u64 :: "SimRng \<Rightarrow> u64 \<times> SimRng" where
  "next_u64 r =
     (let s = rng_state r + 11400714819323198485;
          z = s;
          z = (z XOR drop_bit 30 z) * 13787848793156543929;
          z = (z XOR drop_bit 27 z) * 10723151780598845931
      in (z XOR drop_bit 31 z, r\<lparr>rng_state := s\<rparr>))"

definition below :: "u64 \<Rightarrow> SimRng \<Rightarrow> u64 \<times> SimRng" where
  "below n r = (if n = 0 then (0, r) else let (v, r) = next_u64 r in (v mod n, r))"

definition chance_ppm :: "u32 \<Rightarrow> SimRng \<Rightarrow> bool \<times> SimRng" where
  "chance_ppm ppm r =
     (if ppm = 0 then (False, r) else let (v, r) = below 1000000 r in (v < ucast ppm, r))"

definition rng_fork :: "SimRng \<Rightarrow> SimRng \<times> SimRng" where
  "rng_fork r = (let (v, r) = next_u64 r in (SimRng_new v, r))"

lemma below_less: "0 < n \<Longrightarrow> fst (below n r) < n"
  by (auto simp: below_def word_less_nat_alt unat_mod_distrib word_neq_0_conv split: prod.split)

lemma chance_never [simp]: "chance_ppm 0 r = (False, r)"
  by (simp add: chance_ppm_def)

subsection \<open>The trait\<close>

type_synonym FileId = u32

datatype IoError = NotFound | NoSpace | SyncFailed | IoOther str

record 'io Io =
  io_create :: "str \<Rightarrow> 'io \<Rightarrow> (IoError + FileId) \<times> 'io"
  io_append :: "FileId \<Rightarrow> bytes \<Rightarrow> 'io \<Rightarrow> (IoError + nat) \<times> 'io"
  io_fsync :: "FileId \<Rightarrow> 'io \<Rightarrow> (IoError + unit) \<times> 'io"
  io_truncate :: "FileId \<Rightarrow> u64 \<Rightarrow> 'io \<Rightarrow> (IoError + unit) \<times> 'io"
  io_read_all :: "FileId \<Rightarrow> 'io \<Rightarrow> (IoError + bytes) \<times> 'io"
  io_size :: "FileId \<Rightarrow> 'io \<Rightarrow> IoError + u64"

subsection \<open>The simulated disk\<close>

record IoFaults =
  short_write_ppm :: u32
  lying_fsync_ppm :: u32
  fsync_error_ppm :: u32
  no_space_ppm :: u32

definition IoFaults_NONE :: IoFaults where
  "IoFaults_NONE =
     \<lparr>short_write_ppm = 0, lying_fsync_ppm = 0, fsync_error_ppm = 0, no_space_ppm = 0\<rparr>"

definition IoFaults_HOSTILE :: IoFaults where
  "IoFaults_HOSTILE =
     \<lparr>short_write_ppm = 120000, lying_fsync_ppm = 40000, fsync_error_ppm = 20000,
      no_space_ppm = 10000\<rparr>"

record IoStats =
  st_appends :: u64
  st_short_writes :: u64
  st_fsyncs :: u64
  st_lying_fsyncs :: u64
  st_fsync_errors :: u64
  st_no_space :: u64
  st_crashes :: u64
  st_bytes_lost :: u64

definition IoStats_default :: IoStats where
  "IoStats_default =
     \<lparr>st_appends = 0, st_short_writes = 0, st_fsyncs = 0, st_lying_fsyncs = 0, st_fsync_errors = 0,
      st_no_space = 0, st_crashes = 0, st_bytes_lost = 0\<rparr>"

record SimFile =
  sf_name :: str
  sf_durable :: bytes
  sf_dirty :: bytes

record SimIo =
  sim_files :: "SimFile list"
  by_name :: "str \<rightharpoonup> FileId"
  sim_rng :: SimRng
  sim_faults :: IoFaults
  sim_stats :: IoStats

definition SimIo_new :: "u64 \<Rightarrow> IoFaults \<Rightarrow> SimIo" where
  "SimIo_new seed faults =
     \<lparr>sim_files = [], by_name = Map.empty, sim_rng = SimRng_new seed, sim_faults = faults,
      sim_stats = IoStats_default\<rparr>"

fun crash_files :: "SimFile list \<Rightarrow> SimRng \<Rightarrow> u64 \<Rightarrow> SimFile list \<times> SimRng \<times> u64" where
  "crash_files [] r lost = ([], r, lost)"
| "crash_files (f # fs) r lost =
     (if sf_dirty f = [] then
        let (fs, r, lost) = crash_files fs r lost in (f # fs, r, lost)
      else
        let (k, r) = below (of_nat (length (sf_dirty f)) + 1) r;
            keep = unat k;
            lost = lost + of_nat (length (sf_dirty f) - keep);
            f = f\<lparr>sf_durable := sf_durable f @ take keep (sf_dirty f), sf_dirty := []\<rparr>;
            (fs, r, lost) = crash_files fs r lost
        in (f # fs, r, lost))"

definition SimIo_crash :: "SimIo \<Rightarrow> SimIo" where
  "SimIo_crash io =
     (let st = (sim_stats io)\<lparr>st_crashes := st_crashes (sim_stats io) + 1\<rparr>;
          (fs, r, lost) = crash_files (sim_files io) (sim_rng io) 0
      in io\<lparr>sim_files := fs, sim_rng := r,
            sim_stats := st\<lparr>st_bytes_lost := st_bytes_lost st + lost\<rparr>\<rparr>)"

definition SimIo_file :: "SimIo \<Rightarrow> FileId \<Rightarrow> IoError + SimFile" where
  "SimIo_file io i =
     (if unat i < length (sim_files io) then Inr (sim_files io ! unat i) else Inl NotFound)"

definition SimIo_durable_len :: "SimIo \<Rightarrow> FileId \<Rightarrow> IoError + u64" where
  "SimIo_durable_len io i = bind_res (SimIo_file io i) (\<lambda>f. Inr (of_nat (length (sf_durable f))))"

definition SimIo_name_of :: "SimIo \<Rightarrow> FileId \<Rightarrow> str option" where
  "SimIo_name_of io i = (case SimIo_file io i of Inl e \<Rightarrow> None | Inr f \<Rightarrow> Some (sf_name f))"

text \<open>\<open>file_mut\<close>: the same lookup, with the change written back to the slot.\<close>

definition SimIo_put :: "FileId \<Rightarrow> SimFile \<Rightarrow> SimIo \<Rightarrow> SimIo" where
  "SimIo_put i f io = io\<lparr>sim_files := (sim_files io)[unat i := f]\<rparr>"

definition SimIo_create :: "str \<Rightarrow> SimIo \<Rightarrow> (IoError + FileId) \<times> SimIo" where
  "SimIo_create name io =
     (case by_name io name of
        Some i \<Rightarrow> (Inr i, io)
      | None \<Rightarrow>
          if 2 ^ 32 \<le> length (sim_files io) then (Inl NoSpace, io)
          else let i = of_nat (length (sim_files io))
               in (Inr i, io\<lparr>sim_files := sim_files io @
                                [\<lparr>sf_name = name, sf_durable = [], sf_dirty = []\<rparr>],
                             by_name := (by_name io)(name \<mapsto> i)\<rparr>))"

definition short_cut :: "bool \<Rightarrow> bytes \<Rightarrow> SimRng \<Rightarrow> nat \<times> SimRng" where
  "short_cut short data r =
     (if short \<and> 1 < length data
      then let (v, r) = below (of_nat (length data)) r in (unat v, r)
      else (length data, r))"

definition SimIo_append :: "FileId \<Rightarrow> bytes \<Rightarrow> SimIo \<Rightarrow> (IoError + nat) \<times> SimIo" where
  "SimIo_append i data io =
     (let (no_space, r) = chance_ppm (no_space_ppm (sim_faults io)) (sim_rng io);
          (short, r) = chance_ppm (short_write_ppm (sim_faults io)) r;
          (cut, r) = short_cut short data r;
          io = io\<lparr>sim_rng := r\<rparr>
      in if no_space
         then (Inl NoSpace,
               io\<lparr>sim_stats := (sim_stats io)\<lparr>st_no_space := st_no_space (sim_stats io) + 1\<rparr>\<rparr>)
         else case SimIo_file io i of
           Inl e \<Rightarrow> (Inl e, io)
         | Inr f \<Rightarrow>
             let io = SimIo_put i (f\<lparr>sf_dirty := sf_dirty f @ take cut data\<rparr>) io;
                 st = (sim_stats io)\<lparr>st_appends := st_appends (sim_stats io) + 1\<rparr>;
                 st = (if cut < length data
                       then st\<lparr>st_short_writes := st_short_writes st + 1\<rparr> else st)
             in (Inr cut, io\<lparr>sim_stats := st\<rparr>))"

definition SimIo_fsync :: "FileId \<Rightarrow> SimIo \<Rightarrow> (IoError + unit) \<times> SimIo" where
  "SimIo_fsync i io =
     (let (lying, r) = chance_ppm (lying_fsync_ppm (sim_faults io)) (sim_rng io);
          (failing, r) = chance_ppm (fsync_error_ppm (sim_faults io)) r;
          st = (sim_stats io)\<lparr>st_fsyncs := st_fsyncs (sim_stats io) + 1\<rparr>;
          io = io\<lparr>sim_rng := r\<rparr>
      in if failing
         then (Inl SyncFailed, io\<lparr>sim_stats := st\<lparr>st_fsync_errors := st_fsync_errors st + 1\<rparr>\<rparr>)
         else if lying
         then (Inr (), io\<lparr>sim_stats := st\<lparr>st_lying_fsyncs := st_lying_fsyncs st + 1\<rparr>\<rparr>)
         else
           let io = io\<lparr>sim_stats := st\<rparr>
           in case SimIo_file io i of
                Inl e \<Rightarrow> (Inl e, io)
              | Inr f \<Rightarrow>
                  (Inr (), SimIo_put i (f\<lparr>sf_durable := sf_durable f @ sf_dirty f, sf_dirty := []\<rparr>) io))"

definition SimIo_truncate :: "FileId \<Rightarrow> u64 \<Rightarrow> SimIo \<Rightarrow> (IoError + unit) \<times> SimIo" where
  "SimIo_truncate i len io =
     (case SimIo_file io i of
        Inl e \<Rightarrow> (Inl e, io)
      | Inr f \<Rightarrow>
          let n = unat len
          in (Inr (),
              SimIo_put i
                (if n \<le> length (sf_durable f)
                 then f\<lparr>sf_durable := take n (sf_durable f), sf_dirty := []\<rparr>
                 else let keep = n - length (sf_durable f)
                      in if keep < length (sf_dirty f) then f\<lparr>sf_dirty := take keep (sf_dirty f)\<rparr>
                         else f)
                io))"

definition SimIo_read_all :: "FileId \<Rightarrow> SimIo \<Rightarrow> (IoError + bytes) \<times> SimIo" where
  "SimIo_read_all i io =
     (bind_res (SimIo_file io i) (\<lambda>f. Inr (sf_durable f @ sf_dirty f)), io)"

definition SimIo_size :: "FileId \<Rightarrow> SimIo \<Rightarrow> IoError + u64" where
  "SimIo_size i io =
     bind_res (SimIo_file io i) (\<lambda>f. Inr (of_nat (length (sf_durable f) + length (sf_dirty f))))"

definition SimIo_Io :: "SimIo Io" where
  "SimIo_Io =
     \<lparr>io_create = SimIo_create, io_append = SimIo_append, io_fsync = SimIo_fsync,
      io_truncate = SimIo_truncate, io_read_all = SimIo_read_all, io_size = SimIo_size\<rparr>"

subsection \<open>What code generic in the trait relies on\<close>

text \<open>
  \<open>sto io f\<close> is the durable part and the unsynced tail of a file, \<open>names\<close> the directory, \<open>wf\<close> the
  implementation's own invariant, \<open>honest\<close> that a successful sync tells the truth, and
  \<open>crash io io'\<close> that a power cut may turn \<open>io\<close> into \<open>io'\<close>.
\<close>

locale io_contract =
  fixes I :: "'io Io"
    and sto :: "'io \<Rightarrow> FileId \<rightharpoonup> bytes \<times> bytes"
    and names :: "'io \<Rightarrow> str \<rightharpoonup> FileId"
    and wf :: "'io \<Rightarrow> bool"
    and honest :: "'io \<Rightarrow> bool"
    and crash :: "'io \<Rightarrow> 'io \<Rightarrow> bool"
  assumes names_stored: "wf io \<Longrightarrow> names io a = Some f \<Longrightarrow> sto io f \<noteq> None"
    and names_inj: "wf io \<Longrightarrow> names io a = Some f \<Longrightarrow> names io b = Some f \<Longrightarrow> a = b"
    and create_ok: "wf io \<Longrightarrow> io_create I a io = (Inr f, io') \<Longrightarrow>
      wf io' \<and> honest io' = honest io \<and> names io' = (names io)(a \<mapsto> f) \<and>
      (if a \<in> dom (names io) then names io a = Some f \<and> sto io' = sto io
       else sto io f = None \<and> sto io' = (sto io)(f \<mapsto> ([], [])))"
    and create_err: "wf io \<Longrightarrow> io_create I a io = (Inl e, io') \<Longrightarrow>
      wf io' \<and> honest io' = honest io \<and> names io' = names io \<and> sto io' = sto io"
    and append_ok: "wf io \<Longrightarrow> io_append I f b io = (Inr n, io') \<Longrightarrow>
      \<exists>d t. sto io f = Some (d, t) \<and> n \<le> length b \<and> sto io' = (sto io)(f \<mapsto> (d, t @ take n b))"
    and append_err: "wf io \<Longrightarrow> io_append I f b io = (Inl e, io') \<Longrightarrow> sto io' = sto io"
    and append_keeps: "wf io \<Longrightarrow> io_append I f b io = (r, io') \<Longrightarrow>
      wf io' \<and> names io' = names io \<and> honest io' = honest io"
    and fsync_ok: "wf io \<Longrightarrow> io_fsync I f io = (Inr u, io') \<Longrightarrow>
      sto io' = sto io \<and> \<not> honest io \<or>
      (\<exists>d t. sto io f = Some (d, t) \<and> sto io' = (sto io)(f \<mapsto> (d @ t, [])))"
    and fsync_err: "wf io \<Longrightarrow> io_fsync I f io = (Inl e, io') \<Longrightarrow> sto io' = sto io"
    and fsync_keeps: "wf io \<Longrightarrow> io_fsync I f io = (q, io') \<Longrightarrow>
      wf io' \<and> names io' = names io \<and> honest io' = honest io"
    and truncate_ok: "wf io \<Longrightarrow> io_truncate I f m io = (Inr v, io') \<Longrightarrow>
      \<exists>d t. sto io f = Some (d, t) \<and>
        sto io' = (sto io)(f \<mapsto> (take (unat m) d, take (unat m - length d) t))"
    and truncate_err: "wf io \<Longrightarrow> io_truncate I f m io = (Inl e, io') \<Longrightarrow> sto io' = sto io"
    and truncate_keeps: "wf io \<Longrightarrow> io_truncate I f m io = (w, io') \<Longrightarrow>
      wf io' \<and> names io' = names io \<and> honest io' = honest io"
    and read_ok: "wf io \<Longrightarrow> io_read_all I f io = (Inr b, io') \<Longrightarrow>
      \<exists>d t. sto io f = Some (d, t) \<and> b = d @ t"
    and read_keeps: "wf io \<Longrightarrow> io_read_all I f io = (s, io') \<Longrightarrow>
      wf io' \<and> names io' = names io \<and> honest io' = honest io \<and> sto io' = sto io"
    and crash_cuts: "wf io \<Longrightarrow> crash io io' \<Longrightarrow> sto io f = Some (d, t) \<Longrightarrow>
      \<exists>k. sto io' f = Some (d @ take k t, [])"
    and crash_keeps: "wf io \<Longrightarrow> crash io io' \<Longrightarrow>
      wf io' \<and> names io' = names io \<and> honest io' = honest io"
begin

text \<open>What the process sees of a file.\<close>

definition contents :: "'io \<Rightarrow> FileId \<rightharpoonup> bytes" where
  "contents io f = map_option (\<lambda>(d, t). d @ t) (sto io f)"

lemma contents_Some: "contents io f = Some b \<longleftrightarrow> (\<exists>d t. sto io f = Some (d, t) \<and> b = d @ t)"
  by (auto simp: contents_def)

text \<open>After a power cut a file holds a prefix of what was visible, and at least what was durable.\<close>

lemma crash_prefix:
  assumes "wf io" "crash io io'" "sto io f = Some (d, t)"
  obtains c where "sto io' f = Some (c, [])" "prefix d c" "prefix c (d @ t)"
proof -
  from crash_cuts [OF assms] obtain k where "sto io' f = Some (d @ take k t, [])" by blast
  then show thesis
    by (rule that) (simp_all add: take_is_prefix)
qed

end

text \<open>A disk that is calm besides: it takes at least a byte, and does what it is asked.\<close>

locale calm_io = io_contract +
  fixes calm :: "'a \<Rightarrow> bool"
  assumes calm_append: "wf io \<Longrightarrow> calm io \<Longrightarrow> sto io f \<noteq> None \<Longrightarrow> b \<noteq> [] \<Longrightarrow>
      \<exists>n io'. 0 < n \<and> io_append I f b io = (Inr n, io') \<and> calm io'"
    and calm_fsync: "wf io \<Longrightarrow> calm io \<Longrightarrow> sto io f \<noteq> None \<Longrightarrow>
      \<exists>io'. io_fsync I f io = (Inr (), io') \<and> calm io'"
    and calm_read: "wf io \<Longrightarrow> calm io \<Longrightarrow> sto io f \<noteq> None \<Longrightarrow>
      \<exists>b io'. io_read_all I f io = (Inr b, io') \<and> calm io'"
    and calm_truncate: "wf io \<Longrightarrow> calm io \<Longrightarrow> sto io f \<noteq> None \<Longrightarrow>
      \<exists>io'. io_truncate I f m io = (Inr (), io') \<and> calm io'"

subsection \<open>The simulated disk honours the contract\<close>

definition sim_sto :: "SimIo \<Rightarrow> FileId \<rightharpoonup> bytes \<times> bytes" where
  "sim_sto io i =
     (case SimIo_file io i of Inl e \<Rightarrow> None | Inr f \<Rightarrow> Some (sf_durable f, sf_dirty f))"

definition sim_wf :: "SimIo \<Rightarrow> bool" where
  "sim_wf io \<longleftrightarrow>
     length (sim_files io) \<le> 2 ^ 32 \<and> inj_on (by_name io) (dom (by_name io)) \<and>
     (\<forall>i \<in> ran (by_name io). unat i < length (sim_files io))"

definition sim_honest :: "SimIo \<Rightarrow> bool" where
  "sim_honest io \<longleftrightarrow> lying_fsync_ppm (sim_faults io) = 0"

definition sim_calm :: "SimIo \<Rightarrow> bool" where
  "sim_calm io \<longleftrightarrow> sim_faults io = IoFaults_NONE"

definition file_cut :: "SimFile \<Rightarrow> SimFile \<Rightarrow> bool" where
  "file_cut f g \<longleftrightarrow> sf_name g = sf_name f \<and> sf_dirty g = [] \<and>
     prefix (sf_durable f) (sf_durable g) \<and> prefix (sf_durable g) (sf_durable f @ sf_dirty f)"

text \<open>Any power cut: each file keeps some prefix of its tail, whichever the random source picks.\<close>

definition power_cut :: "SimIo \<Rightarrow> SimIo \<Rightarrow> bool" where
  "power_cut io io' \<longleftrightarrow> by_name io' = by_name io \<and> sim_faults io' = sim_faults io \<and>
     list_all2 file_cut (sim_files io) (sim_files io')"

lemma sim_sto_Some:
  "sim_sto io i = Some (d, t) \<longleftrightarrow>
     unat i < length (sim_files io) \<and> d = sf_durable (sim_files io ! unat i) \<and>
     t = sf_dirty (sim_files io ! unat i)"
  by (auto simp: sim_sto_def SimIo_file_def)

lemma sim_sto_None: "sim_sto io i = None \<longleftrightarrow> length (sim_files io) \<le> unat i"
  by (auto simp: sim_sto_def SimIo_file_def)

lemma sim_sto_cong: "sim_files io' = sim_files io \<Longrightarrow> sim_sto io' = sim_sto io"
  by (rule ext) (simp add: sim_sto_def SimIo_file_def)

lemma SimIo_put_fields [simp]:
  "by_name (SimIo_put i f io) = by_name io" "sim_faults (SimIo_put i f io) = sim_faults io"
  "length (sim_files (SimIo_put i f io)) = length (sim_files io)"
  by (simp_all add: SimIo_put_def)

lemma sim_sto_put:
  "unat i < length (sim_files io) \<Longrightarrow>
     sim_sto (SimIo_put i f io) = (sim_sto io)(i \<mapsto> (sf_durable f, sf_dirty f))"
  by (rule ext) (auto simp: sim_sto_def SimIo_file_def SimIo_put_def nth_list_update
      dest: word_unat_eq_iff [THEN iffD2])

lemma sim_wf_cong:
  "by_name io' = by_name io \<Longrightarrow> length (sim_files io') = length (sim_files io) \<Longrightarrow> sim_wf io' = sim_wf io"
  by (simp add: sim_wf_def)

text \<open>The power cut the simulator performs is one of them.\<close>

lemma crash_files_cut: "crash_files fs r l = (fs', r', l') \<Longrightarrow> list_all2 file_cut fs fs'"
proof (induction fs r l arbitrary: fs' r' l' rule: crash_files.induct)
  case (2 f fs r lost)
  then show ?case
    by (auto simp: file_cut_def Let_def take_is_prefix split: if_splits prod.splits)
qed simp

lemma SimIo_crash_power_cut: "power_cut io (SimIo_crash io)"
  by (auto simp: SimIo_crash_def power_cut_def Let_def split: prod.split dest: crash_files_cut)

text \<open>One lemma per operation: what it does to the stored bytes.\<close>

lemma SimIo_append_result:
  obtains n q st where "n \<le> length b"
    "SimIo_append i b io = (Inl NoSpace, io\<lparr>sim_rng := q, sim_stats := st\<rparr>) \<or>
     SimIo_append i b io = (case SimIo_file io i of
        Inl e \<Rightarrow> (Inl e, io\<lparr>sim_rng := q\<rparr>)
      | Inr f \<Rightarrow> (Inr n, SimIo_put i (f\<lparr>sf_dirty := sf_dirty f @ take n b\<rparr>)
                          (io\<lparr>sim_rng := q, sim_stats := st\<rparr>)))"
    "sim_faults io = IoFaults_NONE \<Longrightarrow> fst (SimIo_append i b io) = Inl NotFound \<or>
       fst (SimIo_append i b io) = Inr (length b)"
proof -
  obtain ns q1 where 1: "chance_ppm (no_space_ppm (sim_faults io)) (sim_rng io) = (ns, q1)"
    by fastforce
  obtain sh q2 where 2: "chance_ppm (short_write_ppm (sim_faults io)) q1 = (sh, q2)"
    by fastforce
  obtain c q where 3: "short_cut sh b q2 = (c, q)"
    by fastforce
  have cut: "unat (fst (below (of_nat (length b)) q2)) \<le> length b"
  proof (cases "of_nat (length b) = (0 :: u64)")
    case False
    then have "unat (fst (below (of_nat (length b)) q2)) < unat (of_nat (length b) :: u64)"
      using below_less by (simp add: word_less_nat_alt unat_gt_0)
    also have "\<dots> \<le> length b" by (simp add: unat_of_nat)
    finally show ?thesis by simp
  qed (simp add: below_def)
  have c: "c \<le> length b" "\<not> sh \<Longrightarrow> c = length b"
    using 3 cut by (auto simp: short_cut_def case_prod_unfold Let_def split: if_splits)
  have quiet: "\<not> ns" "\<not> sh" if "sim_faults io = IoFaults_NONE"
    using 1 2 that by (simp_all add: IoFaults_NONE_def)
  show thesis
  proof (cases ns)
    case True
    show thesis
      by (rule that [of c "(sim_stats io)\<lparr>st_no_space := st_no_space (sim_stats io) + 1\<rparr>" q])
         (use True c quiet in \<open>simp_all add: SimIo_append_def 1 2 3 Let_def\<close>)
  next
    case False
    define st where "st = (if c < length b then (sim_stats io)\<lparr>st_appends := st_appends (sim_stats io) + 1,
        st_short_writes := st_short_writes (sim_stats io) + 1\<rparr>
      else (sim_stats io)\<lparr>st_appends := st_appends (sim_stats io) + 1\<rparr>)"
    have "SimIo_append i b io = (case SimIo_file io i of
        Inl e \<Rightarrow> (Inl e, io\<lparr>sim_rng := q\<rparr>)
      | Inr f \<Rightarrow> (Inr c, SimIo_put i (f\<lparr>sf_dirty := sf_dirty f @ take c b\<rparr>)
                          (io\<lparr>sim_rng := q, sim_stats := st\<rparr>)))"
      using False
      by (simp add: SimIo_append_def 1 2 3 Let_def SimIo_file_def SimIo_put_def st_def split: sum.split)
    then show thesis
      by (intro that [of c st q]) (use c quiet in \<open>auto simp: SimIo_file_def split: if_splits\<close>)
  qed
qed

lemma SimIo_append_sto:
  assumes "SimIo_append i b io = (r, io')"
  shows "by_name io' = by_name io" "sim_faults io' = sim_faults io"
    "length (sim_files io') = length (sim_files io)"
    "r = Inl e \<Longrightarrow> sim_sto io' = sim_sto io"
    "r = Inr n \<Longrightarrow> \<exists>d t. sim_sto io i = Some (d, t) \<and> n \<le> length b \<and>
       sim_sto io' = (sim_sto io)(i \<mapsto> (d, t @ take n b))"
proof -
  obtain q st k where k: "k \<le> length b"
    and cases: "(r, io') = (Inl NoSpace, io\<lparr>sim_rng := q, sim_stats := st\<rparr>) \<or>
     (r, io') = (case SimIo_file io i of
        Inl e \<Rightarrow> (Inl e, io\<lparr>sim_rng := q\<rparr>)
      | Inr f \<Rightarrow> (Inr k, SimIo_put i (f\<lparr>sf_dirty := sf_dirty f @ take k b\<rparr>)
                          (io\<lparr>sim_rng := q, sim_stats := st\<rparr>)))"
    by (rule SimIo_append_result [of b i io]) (use assms in simp)
  have sto: "sim_sto (SimIo_put i f (io\<lparr>sim_rng := q, sim_stats := st\<rparr>)) =
      (sim_sto io)(i \<mapsto> (sf_durable f, sf_dirty f))" if "SimIo_file io i = Inr g" for f g
    using that sim_sto_put [of i "io\<lparr>sim_rng := q, sim_stats := st\<rparr>" f]
      sim_sto_cong [of "io\<lparr>sim_rng := q, sim_stats := st\<rparr>" io]
    by (auto simp: SimIo_file_def split: if_splits)
  show "by_name io' = by_name io" "sim_faults io' = sim_faults io"
    "length (sim_files io') = length (sim_files io)"
    using cases by (auto split: sum.splits)
  show "sim_sto io' = sim_sto io" if "r = Inl e"
    using cases that by (auto intro!: sim_sto_cong split: sum.splits)
  show "\<exists>d t. sim_sto io i = Some (d, t) \<and> n \<le> length b \<and>
       sim_sto io' = (sim_sto io)(i \<mapsto> (d, t @ take n b))" if "r = Inr n"
    using cases that k sto by (auto simp: sim_sto_def split: sum.splits)
qed

lemma SimIo_fsync_sto:
  assumes "SimIo_fsync i io = (r, io')"
  shows "by_name io' = by_name io" "sim_faults io' = sim_faults io"
    "length (sim_files io') = length (sim_files io)"
    "r = Inl e \<Longrightarrow> sim_sto io' = sim_sto io"
    "r = Inr u \<Longrightarrow> sim_sto io' = sim_sto io \<and> \<not> sim_honest io \<or>
       (\<exists>d t. sim_sto io i = Some (d, t) \<and> sim_sto io' = (sim_sto io)(i \<mapsto> (d @ t, [])))"
    "sim_faults io = IoFaults_NONE \<Longrightarrow> sim_sto io i \<noteq> None \<Longrightarrow> r = Inr ()"
proof -
  obtain ly q1 where 1: "chance_ppm (lying_fsync_ppm (sim_faults io)) (sim_rng io) = (ly, q1)"
    by fastforce
  obtain fl q where 2: "chance_ppm (fsync_error_ppm (sim_faults io)) q1 = (fl, q)"
    by fastforce
  have honest: "ly \<Longrightarrow> \<not> sim_honest io" using 1 by (auto simp: sim_honest_def)
  note res = assms [unfolded SimIo_fsync_def 1 2 prod.case Let_def]
  show "by_name io' = by_name io" "sim_faults io' = sim_faults io"
    "length (sim_files io') = length (sim_files io)"
    using res by (auto simp: 1 2 split: if_splits sum.splits)
  show "sim_sto io' = sim_sto io" if "r = Inl e"
    using res that by (auto simp: 1 2 intro!: sim_sto_cong split: if_splits sum.splits)
  show "sim_sto io' = sim_sto io \<and> \<not> sim_honest io \<or>
       (\<exists>d t. sim_sto io i = Some (d, t) \<and> sim_sto io' = (sim_sto io)(i \<mapsto> (d @ t, [])))"
    if r: "r = Inr u"
  proof (cases "ly \<and> \<not> fl")
    case True
    then show ?thesis using res honest by (auto simp: 1 2 intro!: sim_sto_cong)
  next
    case False
    then obtain st f where f: "SimIo_file io i = Inr f" and
      io': "io' = SimIo_put i (f\<lparr>sf_durable := sf_durable f @ sf_dirty f, sf_dirty := []\<rparr>)
        (io\<lparr>sim_rng := q, sim_stats := st\<rparr>)"
      using res r by (auto simp: 1 2 SimIo_file_def split: if_splits sum.splits)
    have "sim_sto io' = (sim_sto io)(i \<mapsto> (sf_durable f @ sf_dirty f, []))"
      using f sim_sto_put [of i "io\<lparr>sim_rng := q, sim_stats := st\<rparr>"]
        sim_sto_cong [of "io\<lparr>sim_rng := q, sim_stats := st\<rparr>" io]
      by (auto simp: io' SimIo_file_def split: if_splits)
    then show ?thesis using f by (auto simp: sim_sto_def)
  qed
  show "r = Inr ()" if "sim_faults io = IoFaults_NONE" "sim_sto io i \<noteq> None"
    using assms that by (auto simp: SimIo_fsync_def IoFaults_NONE_def Let_def sim_sto_def SimIo_file_def
        split: sum.splits if_splits)
qed

lemma SimIo_truncate_sto:
  assumes "SimIo_truncate i n io = (r, io')"
  shows "by_name io' = by_name io" "sim_faults io' = sim_faults io"
    "length (sim_files io') = length (sim_files io)"
    "r = Inl e \<Longrightarrow> sim_sto io' = sim_sto io"
    "r = Inr u \<Longrightarrow> \<exists>d t. sim_sto io i = Some (d, t) \<and>
       sim_sto io' = (sim_sto io)(i \<mapsto> (take (unat n) d, take (unat n - length d) t))"
    "sim_sto io i \<noteq> None \<Longrightarrow> r = Inr ()"
  using assms
  by (auto simp: SimIo_truncate_def Let_def sim_sto_def sim_sto_put fun_eq_iff split: sum.splits)
     (auto simp: Let_def SimIo_file_def SimIo_put_def nth_list_update split: if_splits
        dest: word_unat_eq_iff [THEN iffD2])

lemma SimIo_create_sto:
  assumes wf: "sim_wf io" and res: "SimIo_create a io = (Inr f, io')"
  shows "sim_wf io' \<and> sim_faults io' = sim_faults io \<and> by_name io' = (by_name io)(a \<mapsto> f) \<and>
    (if a \<in> dom (by_name io) then by_name io a = Some f \<and> sim_sto io' = sim_sto io
     else sim_sto io f = None \<and> sim_sto io' = (sim_sto io)(f \<mapsto> ([], [])))"
proof (cases "by_name io a")
  case (Some i)
  then show ?thesis using assms by (auto simp: SimIo_create_def)
next
  case None
  define n where "n = length (sim_files io)"
  from None res have n: "n < 2 ^ 32" and f: "f = of_nat n"
    and io': "io' = io\<lparr>sim_files := sim_files io @ [\<lparr>sf_name = a, sf_durable = [], sf_dirty = []\<rparr>],
      by_name := (by_name io)(a \<mapsto> f)\<rparr>"
    by (auto simp: SimIo_create_def Let_def n_def split: if_splits)
  have u: "unat f = n" using n by (simp add: f unat_of_nat)
  have other: "unat i = n \<longleftrightarrow> i = f" for i :: u32
    using u by (metis word_unat_eq_iff)
  have sto: "sim_sto io' = (sim_sto io)(f \<mapsto> ([], []))"
    by (rule ext) (auto simp: sim_sto_def SimIo_file_def io' nth_append u other n_def [symmetric]
        less_Suc_eq)
  have "f \<notin> ran (by_name io)" using wf u by (auto simp: sim_wf_def n_def)
  then have "sim_wf io'"
    using wf n u None by (auto simp: sim_wf_def io' n_def [symmetric] inj_on_def ran_def less_Suc_eq)
  then show ?thesis using None sto u by (auto simp: io' sim_sto_None n_def)
qed

lemma power_cut_sto:
  assumes "power_cut io io'" "sim_sto io f = Some (d, t)"
  shows "\<exists>k. sim_sto io' f = Some (d @ take k t, [])"
proof -
  from assms have "file_cut (sim_files io ! unat f) (sim_files io' ! unat f)"
    "unat f < length (sim_files io')" "unat f < length (sim_files io)"
    by (auto simp: power_cut_def sim_sto_Some list_all2_conv_all_nth)
  moreover from this assms(2) obtain x y where
    "sf_durable (sim_files io' ! unat f) = d @ x" "t = x @ y"
    by (auto simp: file_cut_def sim_sto_Some elim!: prefixE)
  ultimately have "sim_sto io' f = Some (d @ take (length x) t, [])"
    by (simp add: sim_sto_Some file_cut_def)
  then show ?thesis ..
qed

lemma sim_keeps:
  "sim_wf io \<Longrightarrow> by_name io' = by_name io \<Longrightarrow> sim_faults io' = sim_faults io \<Longrightarrow>
   length (sim_files io') = length (sim_files io) \<Longrightarrow>
   sim_wf io' \<and> by_name io' = by_name io \<and> sim_honest io' = sim_honest io"
  using sim_wf_cong [of io' io] by (simp add: sim_honest_def)

lemma SimIo_Io_sel [simp]:
  "io_create SimIo_Io = SimIo_create" "io_append SimIo_Io = SimIo_append"
  "io_fsync SimIo_Io = SimIo_fsync" "io_truncate SimIo_Io = SimIo_truncate"
  "io_read_all SimIo_Io = SimIo_read_all" "io_size SimIo_Io = SimIo_size"
  by (simp_all add: SimIo_Io_def)

interpretation sim: io_contract SimIo_Io sim_sto by_name sim_wf sim_honest power_cut
proof (unfold_locales, unfold SimIo_Io_sel, goal_cases)
  case 1 then show ?case by (auto simp: sim_wf_def sim_sto_None ran_def)
next
  case 2 then show ?case by (auto simp: sim_wf_def inj_on_def dom_def)
next
  case 3 then show ?case using SimIo_create_sto by (simp add: sim_honest_def)
next
  case 4 then show ?case by (auto simp: SimIo_create_def Let_def split: option.splits if_splits)
next
  case 5 then show ?case using SimIo_append_sto(5) by blast
next
  case 6 then show ?case using SimIo_append_sto(4) by blast
next
  case 7 then show ?case using SimIo_append_sto(1-3) sim_keeps by metis
next
  case 8 then show ?case using SimIo_fsync_sto(5) by blast
next
  case 9 then show ?case using SimIo_fsync_sto(4) by blast
next
  case 10 then show ?case using SimIo_fsync_sto(1-3) sim_keeps by metis
next
  case 11 then show ?case using SimIo_truncate_sto(5) by blast
next
  case 12 then show ?case using SimIo_truncate_sto(4) by blast
next
  case 13 then show ?case using SimIo_truncate_sto(1-3) sim_keeps by metis
next
  case 14 then show ?case
    by (auto simp: SimIo_read_all_def SimIo_file_def sim_sto_Some split: if_splits)
next
  case 15 then show ?case by (simp add: SimIo_read_all_def)
next
  case 16 then show ?case using power_cut_sto by blast
next
  case (17 io io')
  then show ?case
    using sim_keeps [of io io'] by (auto simp: power_cut_def list_all2_lengthD)
qed

interpretation sim: calm_io SimIo_Io sim_sto by_name sim_wf sim_honest power_cut sim_calm
proof (unfold_locales, unfold SimIo_Io_sel, goal_cases)
  case (1 io f b)
  obtain r io' where res: "SimIo_append f b io = (r, io')" by fastforce
  have "r = Inl NotFound \<or> r = Inr (length b)"
    by (rule SimIo_append_result [of b f io]) (use 1 res in \<open>simp add: sim_calm_def\<close>)
  moreover have "r \<noteq> Inl NotFound"
    by (rule SimIo_append_result [of b f io])
       (use 1 res in \<open>auto simp: sim_calm_def sim_sto_def split: sum.splits\<close>)
  ultimately show ?case
    using 1 res SimIo_append_sto(2) [OF res] by (auto simp: sim_calm_def)
next
  case (2 io f)
  then show ?case using SimIo_fsync_sto(2,6) [of f io] by (cases "SimIo_fsync f io") (auto simp: sim_calm_def)
next
  case (3 io f)
  then show ?case by (auto simp: SimIo_read_all_def sim_sto_def split: sum.splits)
next
  case (4 io f n)
  then show ?case
    using SimIo_truncate_sto(2,6) [of f n io] by (cases "SimIo_truncate f n io") (auto simp: sim_calm_def)
qed

end
