(* ===== verification/Journal.thy ===== *)
theory Journal
  imports Storage Chain Encoding
begin

text \<open>
  The append-only journal of \<open>crates/trailryx-journal/src/journal.rs\<close>: opening and recovery, the one
  walk both recovery and reading use, appending with short writes and refusals, syncing, the acked
  watermark on disk, and the bounded memory of record ids. Operations take the storage as a trait
  record and thread its state; each returns its result, the journal where \<open>self\<close> is mutable, and
  the storage. Byte offsets inside a buffer are \<open>nat\<close> (\<open>usize\<close>), counters and file offsets \<open>u64\<close>.
\<close>

subsection \<open>Data\<close>

datatype StoppedBecause =
    EndOfFile
  | TornTail WireError
  | ChainBroken u64
  | StoppedWrongOwner u64

datatype JournalError =
    JournalIo IoError
  | JournalWire WireError
  | NotAJournal WireError
  | WrongOwner ShardIx SegmentId
  | CorruptHeader WireError u64
  | CorruptMidFile u64 StoppedBecause u64

datatype Appended =
    Written u64 hash
  | Duplicate u64
  | Busy u64
  | Stalled nat

record DurabilityViolation =
  promised :: u64
  recovered :: u64

record Walked =
  wk_records :: "(Record \<times> hash) list"
  wk_chain :: ChainState
  wk_good_bytes :: u64
  wk_stopped :: StoppedBecause

record Recovered =
  rv_records :: u64
  rv_max_seq :: u64
  rv_head :: hash
  rv_good_bytes :: u64
  rv_discarded_bytes :: u64
  rv_stopped :: StoppedBecause
  rv_violation :: "DurabilityViolation option"

definition is_suspicious :: "Recovered \<Rightarrow> bool" where
  "is_suspicious r \<longleftrightarrow>
     (case rv_stopped r of ChainBroken _ \<Rightarrow> True | _ \<Rightarrow> False) \<or> rv_violation r \<noteq> None"

subsection \<open>The memory of record ids\<close>

record DedupWindow =
  dd_seen :: "RecordId \<rightharpoonup> u64"
  dd_order :: "RecordId list"
  dd_capacity :: nat

definition DedupWindow_new :: "nat \<Rightarrow> DedupWindow" where
  "DedupWindow_new capacity =
     \<lparr>dd_seen = Map.empty, dd_order = [], dd_capacity = max capacity 1\<rparr>"

definition dedup_contains :: "DedupWindow \<Rightarrow> RecordId \<Rightarrow> bool" where
  "dedup_contains w i \<longleftrightarrow> dd_seen w i \<noteq> None"

definition dedup_position :: "DedupWindow \<Rightarrow> RecordId \<Rightarrow> u64 option" where
  "dedup_position w i = dd_seen w i"

definition dedup_remember :: "DedupWindow \<Rightarrow> RecordId \<Rightarrow> u64 \<Rightarrow> DedupWindow" where
  "dedup_remember w i seq =
     (let old = dd_seen w i;
          w = w\<lparr>dd_seen := (dd_seen w)(i \<mapsto> seq)\<rparr>
      in if old \<noteq> None then w
         else
           let w = w\<lparr>dd_order := dd_order w @ [i]\<rparr>
           in if dd_capacity w < length (dd_order w) then
                (case dd_order w of
                   [] \<Rightarrow> w
                 | x # xs \<Rightarrow> w\<lparr>dd_order := xs, dd_seen := (dd_seen w)(x := None)\<rparr>)
              else w)"

definition dedup_len :: "DedupWindow \<Rightarrow> nat" where
  "dedup_len w = card (dom (dd_seen w))"

subsection \<open>The journal\<close>

record Pending =
  pd_bytes :: bytes
  pd_done :: nat
  pd_seq :: u64
  pd_link :: hash
  pd_id :: RecordId

datatype ChainStart = First | After hash

record Journal =
  jn_file :: FileId
  jn_shard :: ShardIx
  jn_segment :: SegmentId
  jn_created_at :: Timestamp
  jn_start :: ChainStart
  jn_genesis :: hash
  jn_chain :: ChainState
  jn_written :: u64
  jn_acked :: u64
  jn_watermark :: FileId
  jn_good_bytes :: u64
  jn_since_sync :: u64
  jn_sync_every :: u64
  jn_pending :: "Pending option"
  jn_dedup :: DedupWindow
  jn_gaps :: u64
  jn_degraded :: bool

text \<open>
  The bounded write loop, used for the header and for the watermark: keep appending what is left, a
  refusal for lack of space is tried again, and ten thousand attempts is where it gives up.
\<close>

function append_all ::
  "'io Io \<Rightarrow> FileId \<Rightarrow> bytes \<Rightarrow> nat \<Rightarrow> nat \<Rightarrow> 'io \<Rightarrow> (JournalError + unit) \<times> 'io" where
  "append_all I f buf pos attempts io =
     (if length buf \<le> pos then (Inr (), io)
      else
        let attempts = attempts + 1
        in if 10000 < attempts then (Inl (JournalIo NoSpace), io)
           else case io_append I f (drop pos buf) io of
             (Inr n, io) \<Rightarrow> append_all I f buf (pos + n) attempts io
           | (Inl e, io) \<Rightarrow>
               if e = NoSpace then append_all I f buf pos attempts io
               else (Inl (JournalIo e), io))"
  by pat_completeness auto
termination
  by (relation "measure (\<lambda>(I, f, buf, pos, attempts, io). 10001 - attempts)") auto

declare append_all.simps [simp del]

text \<open>The end of \<open>ensure_header\<close>: start the segment clean.\<close>

definition write_header :: "'io Io \<Rightarrow> Journal \<Rightarrow> 'io \<Rightarrow> (JournalError + nat) \<times> 'io" where
  "write_header I j io =
     (case io_truncate I (jn_file j) 0 io of
        (Inl e, io) \<Rightarrow> (Inl (JournalIo e), io)
      | (Inr _, io) \<Rightarrow>
          let header = encode_segment_header (jn_shard j) (jn_segment j) (jn_created_at j)
          in case append_all I (jn_file j) header 0 0 io of
               (Inl e, io) \<Rightarrow> (Inl e, io)
             | (Inr _, io) \<Rightarrow> (Inr (length header), io))"

definition ensure_header :: "'io Io \<Rightarrow> Journal \<Rightarrow> 'io \<Rightarrow> (JournalError + nat) \<times> 'io" where
  "ensure_header I j io =
     (case io_read_all I (jn_file j) io of
        (Inl e, io) \<Rightarrow> (Inl (JournalIo e), io)
      | (Inr bytes, io) \<Rightarrow>
          (case decode_segment_header bytes of
             Inr h \<Rightarrow>
               if hd_shard h \<noteq> jn_shard j \<or> hd_segment h \<noteq> jn_segment j
               then (Inl (WrongOwner (hd_shard h) (hd_segment h)), io)
               else (Inr (hd_len h), io)
           | Inl e \<Rightarrow>
               if bytes = [] then write_header I j io
               else if (e = Truncated \<or> e = BadCrc) \<and> length bytes \<le> MAX_SEGMENT_HEADER_LEN
               then write_header I j io
               else if e = Truncated \<or> e = BadCrc
               then (Inl (CorruptHeader e (of_nat (length bytes))), io)
               else (Inl (NotAJournal e), io)))"

text \<open>The walk: every rule a record has to pass, from the header to the first thing that fails.\<close>

lemma total_len_pos: "decode_frame b = Inr f \<Longrightarrow> 54 < total_len f"
proof -
  assume "decode_frame b = Inr f"
  moreover have "0 < length (put_varint (of_nat (length (fr_body f))))" by simp
  ultimately show ?thesis
    using decode_frame_canonical(2) [of b f] by (simp add: length_encode_frame del: length_greater_0_conv)
qed

function walk_loop ::
  "bytes \<Rightarrow> SegmentHeader \<Rightarrow> nat \<Rightarrow> ChainState \<Rightarrow> (Record \<times> hash) list \<Rightarrow> Walked" where
  "walk_loop bytes header off chain records =
     (let stop = (\<lambda>why. \<lparr>wk_records = records, wk_chain = chain, wk_good_bytes = of_nat off,
                         wk_stopped = why\<rparr>)
      in if length bytes \<le> off then stop EndOfFile
         else case decode_frame (drop off bytes) of
           Inl e \<Rightarrow> stop (TornTail e)
         | Inr frame \<Rightarrow>
             (case decode_record_at (fr_body frame) (fr_version frame) of
                Inl e \<Rightarrow> stop (TornTail e)
              | Inr rec \<Rightarrow>
                  let expect_seq = ch_length chain + 1;
                      prev = ch_head chain
                  in if rec_shard rec \<noteq> hd_shard header \<or> segment_id rec \<noteq> hd_segment header
                     then stop (StoppedWrongOwner expect_seq)
                     else if rec_seq rec \<noteq> expect_seq \<or> prev_hash rec \<noteq> prev \<or>
                       \<not> verify_step prev (rec_seq rec) (fr_body frame) (chain_link frame)
                     then stop (ChainBroken expect_seq)
                     else walk_loop bytes header (off + total_len frame)
                            (fst (ChainState_append chain (fr_body frame)))
                            (records @ [(rec, chain_link frame)])))"
  by pat_completeness auto
termination
  by (relation "measure (\<lambda>(bytes, header, off, chain, records). length bytes - off)")
     (auto dest!: total_len_pos)

declare walk_loop.simps [simp del]

definition walk :: "bytes \<Rightarrow> SegmentHeader \<Rightarrow> hash \<Rightarrow> Walked" where
  "walk bytes header genesis =
     walk_loop bytes header (hd_len header) (ChainState_resume genesis 0) []"

text \<open>The first offset, from a point on, at which a whole frame parses.\<close>

definition parsable_frame :: "bytes \<Rightarrow> bool" where
  "parsable_frame bs \<longleftrightarrow> bs ! 0 = FRAME_MAGIC \<and>
     (case decode_frame bs of
        Inl e \<Rightarrow> False
      | Inr frame \<Rightarrow> is_ok (decode_record_at (fr_body frame) (fr_version frame)))"

function next_parsable_frame :: "bytes \<Rightarrow> nat \<Rightarrow> nat option" where
  "next_parsable_frame bytes pos =
     (if length bytes \<le> pos then None
      else if parsable_frame (drop pos bytes) then Some pos
      else next_parsable_frame bytes (pos + 1))"
  by pat_completeness auto
termination
  by (relation "measure (\<lambda>(bytes, pos). length bytes - pos)") auto

declare next_parsable_frame.simps [simp del]

definition GENESIS_DOMAIN :: bytes where
  "GENESIS_DOMAIN = ascii ''trailryx/segment-genesis/v1'' @ [0]"

definition journal_genesis :: "bytes \<Rightarrow> hash" where
  "journal_genesis hdr =
     Sha384_finish (Sha384_update (Sha384_update Sha384_new GENESIS_DOMAIN) hdr)"

definition start_head :: "ChainStart \<Rightarrow> bytes \<Rightarrow> hash" where
  "start_head start hdr =
     (case start of First \<Rightarrow> journal_genesis hdr | After head \<Rightarrow> head)"

definition walk_bytes :: "bytes \<Rightarrow> ChainStart \<Rightarrow> JournalError + Walked" where
  "walk_bytes bytes start =
     bind_res (map_err NotAJournal (decode_segment_header bytes)) (\<lambda>header.
       Inr (walk bytes header (start_head start (take (hd_len header) bytes))))"

definition read_watermark :: "'io Io \<Rightarrow> Journal \<Rightarrow> 'io \<Rightarrow> u64 \<times> 'io" where
  "read_watermark I j io =
     (case io_read_all I (jn_watermark j) io of
        (Inl e, io) \<Rightarrow> (0, io)
      | (Inr bytes, io) \<Rightarrow>
          if length bytes \<noteq> 12 then (0, io)
          else if crc32 (take 8 bytes) \<noteq> from_le_bytes (drop 8 bytes) then (0, io)
          else (from_be_bytes (take 8 bytes), io))"

definition dedup_remember_all :: "DedupWindow \<Rightarrow> (Record \<times> hash) list \<Rightarrow> DedupWindow" where
  "dedup_remember_all w rs = foldl (\<lambda>w (r, _). dedup_remember w (rec_id r) (rec_seq r)) w rs"

text \<open>The end of \<open>recover\<close>: adopt what the walk found, and hold it against what was promised.\<close>

definition adopt :: "'io Io \<Rightarrow> Journal \<Rightarrow> Walked \<Rightarrow> u64 \<Rightarrow> 'io \<Rightarrow> Recovered \<times> Journal \<times> 'io" where
  "adopt I j walked discarded io =
     (let dedup = dedup_remember_all (jn_dedup j) (wk_records walked);
          (mark, io) = read_watermark I j io;
          promised = max (jn_acked j) mark;
          recovered = ch_length (wk_chain walked);
          violation = (if recovered < promised
                       then Some \<lparr>promised = promised, recovered = recovered\<rparr> else None);
          j = j\<lparr>jn_dedup := dedup, jn_chain := wk_chain walked, jn_written := recovered,
                jn_acked := min (jn_acked j) recovered, jn_since_sync := 0,
                jn_pending := None, jn_degraded := False, jn_good_bytes := wk_good_bytes walked\<rparr>
      in (\<lparr>rv_records = of_nat (length (wk_records walked)), rv_max_seq = recovered,
           rv_head = ch_head (jn_chain j), rv_good_bytes = wk_good_bytes walked,
           rv_discarded_bytes = discarded, rv_stopped = wk_stopped walked,
           rv_violation = violation\<rparr>, j, io))"

definition recover :: "'io Io \<Rightarrow> Journal \<Rightarrow> 'io \<Rightarrow> (JournalError + Recovered) \<times> Journal \<times> 'io" where
  "recover I j io =
     (case ensure_header I j io of
        (Inl e, io) \<Rightarrow> (Inl e, j, io)
      | (Inr header_len, io) \<Rightarrow>
     (case io_read_all I (jn_file j) io of
        (Inl e, io) \<Rightarrow> (Inl (JournalIo e), j, io)
      | (Inr bytes, io) \<Rightarrow>
     (case decode_segment_header bytes of
        Inl e \<Rightarrow> (Inl (NotAJournal e), j, io)
      | Inr header \<Rightarrow>
     (let genesis = start_head (jn_start j) (take header_len bytes);
          j = j\<lparr>jn_genesis := genesis\<rparr>;
          walked = walk bytes header genesis;
          discarded = of_nat (length bytes) - wk_good_bytes walked
      in if 0 < discarded then
           (case next_parsable_frame bytes (unat (wk_good_bytes walked)) of
              Some pos \<Rightarrow>
                (Inl (CorruptMidFile (wk_good_bytes walked) (wk_stopped walked) (of_nat pos)), j, io)
            | None \<Rightarrow>
                (case io_truncate I (jn_file j) (wk_good_bytes walked) io of
                   (Inl e, io) \<Rightarrow> (Inl (JournalIo e), j, io)
                 | (Inr _, io) \<Rightarrow> map_prod Inr id (adopt I j walked discarded io)))
         else map_prod Inr id (adopt I j walked discarded io)))))"

definition journal_open ::
  "'io Io \<Rightarrow> ShardIx \<Rightarrow> SegmentId \<Rightarrow> str \<Rightarrow> u64 \<Rightarrow> ChainStart \<Rightarrow> u64 \<Rightarrow> 'io \<Rightarrow>
   (JournalError + Journal \<times> Recovered) \<times> 'io" where
  "journal_open I shard segment name sync_every start wall_nanos io =
     (case io_create I name io of
        (Inl e, io) \<Rightarrow> (Inl (JournalIo e), io)
      | (Inr file, io) \<Rightarrow>
     (case io_create I (name @ ascii ''.ack'') io of
        (Inl e, io) \<Rightarrow> (Inl (JournalIo e), io)
      | (Inr watermark, io) \<Rightarrow>
     (let j = \<lparr>jn_file = file, jn_shard = shard, jn_segment = segment, jn_created_at = wall_nanos,
               jn_start = start, jn_genesis = Hash_ZERO, jn_chain = ChainState_genesis,
               jn_written = 0, jn_acked = 0, jn_watermark = watermark, jn_good_bytes = 0,
               jn_since_sync = 0, jn_sync_every = max sync_every 1, jn_pending = None,
               jn_dedup = DedupWindow_new 65536, jn_gaps = 0, jn_degraded = False\<rparr>
      in case recover I j io of
           (Inl e, j, io) \<Rightarrow> (Inl e, io)
         | (Inr report, j, io) \<Rightarrow> (Inr (j, report), io))))"

text \<open>
  The write loop of one record: it stops when the record is out, when the device made no progress or
  failed. How far it got stays in \<open>pending\<close> in every case, so it is part of the result.
\<close>

function push_loop :: "'io Io \<Rightarrow> FileId \<Rightarrow> bytes \<Rightarrow> nat \<Rightarrow> bool \<Rightarrow> 'io \<Rightarrow>
   JournalError option \<times> nat \<times> bool \<times> 'io" where
  "push_loop I f buf pos degraded io =
     (if length buf \<le> pos then (None, pos, degraded, io)
      else case io_append I f (drop pos buf) io of
        (Inr n, io) \<Rightarrow>
          if n = 0 then (None, pos, degraded, io) else push_loop I f buf (pos + n) degraded io
      | (Inl e, io) \<Rightarrow>
          if e = NoSpace then (None, pos, True, io) else (Some (JournalIo e), pos, degraded, io))"
  by pat_completeness auto
termination
  by (relation "measure (\<lambda>(I, f, buf, pos, degraded, io). length buf - pos)") auto

declare push_loop.simps [simp del]

definition push_pending :: "'io Io \<Rightarrow> Journal \<Rightarrow> 'io \<Rightarrow> (JournalError + Appended) \<times> Journal \<times> 'io" where
  "push_pending I j io =
     (case jn_pending j of
        None \<Rightarrow> (Inr (Stalled 0), j, io)
      | Some p \<Rightarrow>
          let (err, pos, degraded, io) =
                push_loop I (jn_file j) (pd_bytes p) (pd_done p) (jn_degraded j) io;
              p = p\<lparr>pd_done := pos\<rparr>;
              j = j\<lparr>jn_pending := Some p, jn_degraded := degraded\<rparr>
          in case err of
               Some e \<Rightarrow> (Inl e, j, io)
             | None \<Rightarrow>
                 if pd_done p < length (pd_bytes p) then (Inr (Stalled (pd_done p)), j, io)
                 else
                   (Inr (Written (pd_seq p) (pd_link p)),
                    j\<lparr>jn_pending := None, jn_chain := ChainState_resume (pd_link p) (pd_seq p),
                      jn_written := pd_seq p,
                      jn_good_bytes := jn_good_bytes j + of_nat (length (pd_bytes p)),
                      jn_since_sync := jn_since_sync j + 1, jn_degraded := False,
                      jn_dedup := dedup_remember (jn_dedup j) (pd_id p) (pd_seq p)\<rparr>,
                    io))"

text \<open>The journal owns the position: sequence, previous head, segment and shard are overwritten.\<close>

definition stamp :: "Journal \<Rightarrow> Record \<Rightarrow> Record" where
  "stamp j r = r\<lparr>rec_seq := jn_written j + 1, prev_hash := ch_head (jn_chain j),
                 segment_id := jn_segment j, rec_shard := jn_shard j\<rparr>"

definition stamped_frame :: "Journal \<Rightarrow> Record \<Rightarrow> Pending" where
  "stamped_frame j r =
     (let seq = jn_written j + 1;
          body = encode_record (stamp j r);
          link = chain_step (ch_head (jn_chain j)) seq body
      in \<lparr>pd_bytes = encode_frame body link, pd_done = 0, pd_seq = seq, pd_link = link,
          pd_id = rec_id r\<rparr>)"

definition journal_append ::
  "'io Io \<Rightarrow> Journal \<Rightarrow> Record \<Rightarrow> 'io \<Rightarrow> (JournalError + Appended) \<times> Journal \<times> 'io" where
  "journal_append I j r io =
     (case jn_pending j of
        Some p \<Rightarrow>
          if pd_id p \<noteq> rec_id r then (Inr (Busy (pd_seq p)), j, io) else push_pending I j io
      | None \<Rightarrow>
          (case dedup_position (jn_dedup j) (rec_id r) of
             Some seq \<Rightarrow> (Inr (Duplicate seq), j, io)
           | None \<Rightarrow> push_pending I (j\<lparr>jn_pending := Some (stamped_frame j r)\<rparr>) io))"

definition sync_due :: "Journal \<Rightarrow> bool" where
  "sync_due j \<longleftrightarrow> jn_sync_every j \<le> jn_since_sync j"

definition watermark_bytes :: "u64 \<Rightarrow> bytes" where
  "watermark_bytes acked = (let bytes = to_be_bytes acked in bytes @ to_le_bytes (crc32 bytes))"

definition write_watermark :: "'io Io \<Rightarrow> Journal \<Rightarrow> 'io \<Rightarrow> (JournalError + unit) \<times> 'io" where
  "write_watermark I j io =
     (case io_truncate I (jn_watermark j) 0 io of
        (Inl e, io) \<Rightarrow> (Inl (JournalIo e), io)
      | (Inr _, io) \<Rightarrow>
     (case append_all I (jn_watermark j) (watermark_bytes (jn_acked j)) 0 0 io of
        (Inl e, io) \<Rightarrow> (Inl e, io)
      | (Inr _, io) \<Rightarrow>
     (case io_fsync I (jn_watermark j) io of
        (Inl e, io) \<Rightarrow> (Inl (JournalIo e), io)
      | (Inr _, io) \<Rightarrow> (Inr (), io))))"

definition journal_sync :: "'io Io \<Rightarrow> Journal \<Rightarrow> 'io \<Rightarrow> (JournalError + u64) \<times> Journal \<times> 'io" where
  "journal_sync I j io =
     (case io_fsync I (jn_file j) io of
        (Inr _, io) \<Rightarrow>
          let j = j\<lparr>jn_acked := jn_written j, jn_since_sync := 0, jn_degraded := False\<rparr>;
              (_, io) = write_watermark I j io
          in (Inr (jn_acked j), j, io)
      | (Inl e, io) \<Rightarrow> (Inl (JournalIo e), j\<lparr>jn_degraded := True\<rparr>, io))"

definition note_gap :: "Journal \<Rightarrow> Journal" where
  "note_gap j = j\<lparr>jn_gaps := jn_gaps j + 1\<rparr>"

definition journal_read_all :: "'io Io \<Rightarrow> Journal \<Rightarrow> 'io \<Rightarrow> (JournalError + Walked) \<times> 'io" where
  "journal_read_all I j io =
     (case io_read_all I (jn_file j) io of
        (Inl e, io) \<Rightarrow> (Inl (JournalIo e), io)
      | (Inr bytes, io) \<Rightarrow>
          (bind_res (map_err NotAJournal (decode_segment_header bytes)) (\<lambda>header.
             Inr (walk bytes header (jn_genesis j))), io))"

definition frame_overhead :: "nat \<Rightarrow> nat" where
  "frame_overhead body_len = length (encode_frame (replicate body_len 0) Hash_ZERO) - body_len"

end
