(* ===== verification/Recovery.thy ===== *)
theory Recovery
  imports Journal
begin

text \<open>
  What the walk finds. A journal file is a header followed by the frames of a log; the walk of any
  prefix of it, which is what a power cut leaves, returns exactly the records whose frames are whole,
  and says \<open>EndOfFile\<close> or \<open>TornTail\<close>. Conversely whatever file is walked, what is returned is a log
  that was written: the walk accepts nothing but a chained, owned, well-formed prefix.
\<close>

subsection \<open>Logs\<close>

definition log_chain :: "ChainState \<Rightarrow> Record list \<Rightarrow> ChainState" where
  "log_chain c rs = chain_run c (map encode_record rs)"

fun log_items :: "ChainState \<Rightarrow> Record list \<Rightarrow> (Record \<times> hash) list" where
  "log_items c [] = []"
| "log_items c (r # rs) =
     (let c' = fst (ChainState_append c (encode_record r)) in (r, ch_head c') # log_items c' rs)"

fun log_bytes :: "ChainState \<Rightarrow> Record list \<Rightarrow> bytes" where
  "log_bytes c [] = []"
| "log_bytes c (r # rs) =
     (let c' = fst (ChainState_append c (encode_record r))
      in encode_frame (encode_record r) (ch_head c') @ log_bytes c' rs)"

definition entry_ok :: "ShardIx \<Rightarrow> SegmentId \<Rightarrow> ChainState \<Rightarrow> Record \<Rightarrow> bool" where
  "entry_ok s g c r \<longleftrightarrow>
     record_fits r \<and> length (encode_record r) \<le> MAX_BODY_BYTES \<and>
     rec_shard r = s \<and> segment_id r = g \<and> rec_seq r = ch_length c + 1 \<and> prev_hash r = ch_head c"

fun log_ok :: "ShardIx \<Rightarrow> SegmentId \<Rightarrow> ChainState \<Rightarrow> Record list \<Rightarrow> bool" where
  "log_ok s g c [] = True"
| "log_ok s g c (r # rs) \<longleftrightarrow>
     entry_ok s g c r \<and> log_ok s g (fst (ChainState_append c (encode_record r))) rs"

lemma log_chain_simps [simp]:
  "log_chain c [] = c"
  "log_chain c (r # rs) = log_chain (fst (ChainState_append c (encode_record r))) rs"
  "log_chain c (rs @ ss) = log_chain (log_chain c rs) ss"
  by (simp_all add: log_chain_def chain_run_append)

lemma log_appends [simp]:
  "log_items c (rs @ ss) = log_items c rs @ log_items (log_chain c rs) ss"
  "log_bytes c (rs @ ss) = log_bytes c rs @ log_bytes (log_chain c rs) ss"
  "log_ok s g c (rs @ ss) \<longleftrightarrow> log_ok s g c rs \<and> log_ok s g (log_chain c rs) ss"
  by (induction rs arbitrary: c) (simp_all add: Let_def)

lemma log_items_facts [simp]:
  "length (log_items c rs) = length rs" "map fst (log_items c rs) = rs"
  by (induction rs arbitrary: c) (simp_all add: Let_def)

lemma log_chain_length: "ch_length (log_chain c rs) = ch_length c + of_nat (length rs)"
  by (simp add: log_chain_def chain_run_length)

lemma length_encode_frame_ge: "55 \<le> length (encode_frame b l)"
proof -
  have "0 < length (put_varint (of_nat (length b)))" by simp
  then show ?thesis by (simp add: encode_frame_def length_encode_frame del: length_greater_0_conv)
qed

lemma length_log_bytes: "55 * length rs \<le> length (log_bytes c rs)"
proof (induction rs arbitrary: c)
  case (Cons r rs)
  show ?case
    using Cons [of "fst (ChainState_append c (encode_record r))"]
      length_encode_frame_ge [of "encode_record r" "ch_head (fst (ChainState_append c (encode_record r)))"]
    by (simp add: Let_def)
qed simp

lemma log_bytes_take_mono:
  "m \<le> n \<Longrightarrow> length (log_bytes c (take m rs)) \<le> length (log_bytes c (take n rs))"
proof -
  assume "m \<le> n"
  then have "take n rs = take m rs @ take (n - m) (drop m rs)"
    by (metis add_diff_cancel_left' le_Suc_ex take_add)
  then show ?thesis by simp
qed

lemma current_version [simp]: "known_version FRAME_VERSION"
  by (simp add: known_version_def FRAME_VERSION_def OLDEST_FRAME_VERSION_def)

subsection \<open>Torn frames\<close>

lemma prefix_short: "prefix q (a @ b) \<Longrightarrow> \<not> prefix a q \<Longrightarrow> strict_prefix q a"
  by (auto simp: prefix_append strict_prefix_def)

text \<open>No strict prefix of a frame parses, as any frame at all.\<close>

lemma torn_frame:
  assumes "strict_prefix q (encode_frame b l)" "length b \<le> MAX_BODY_BYTES"
  shows "\<exists>e. decode_frame q = Inl e"
proof (cases "decode_frame q")
  case (Inr f)
  from decode_frame_canonical(1) [OF Inr] obtain q' where
    q: "q = encode_frame_at (fr_body f) (chain_link f) (fr_version f) @ q'" by blast
  from assms(1) obtain w where w: "encode_frame b l = q @ w" "w \<noteq> []"
    by (auto elim!: strict_prefixE')
  from decode_encode_frame [OF assms(2) current_version, of l "[]"]
  have "decode_frame (encode_frame b l) = Inr \<lparr>fr_body = b, chain_link = l,
      total_len = length (encode_frame b l), fr_version = FRAME_VERSION\<rparr>"
    by (simp add: encode_frame_def)
  moreover have "decode_frame (encode_frame b l) = Inr \<lparr>fr_body = fr_body f, chain_link = chain_link f,
      total_len = length (encode_frame_at (fr_body f) (chain_link f) (fr_version f)),
      fr_version = fr_version f\<rparr>"
    unfolding w q append_assoc using decode_frame_canonical(3,4) [OF Inr]
    by (rule decode_encode_frame)
  ultimately have "length (encode_frame b l) \<le> length q" using q by (simp add: encode_frame_def)
  then show ?thesis using w by simp
qed simp

lemma frame_magic: "decode_frame b = Inr f \<Longrightarrow> b \<noteq> [] \<and> b ! 0 = FRAME_MAGIC"
  using decode_frame_canonical(1) [of b f] by (auto simp: encode_frame_parts)

text \<open>A prefix of a log is a log and, after it, less than one more frame.\<close>

lemma log_prefix:
  assumes "prefix q (log_bytes c rs)" "log_ok s g c rs"
  obtains n t where "n \<le> length rs" "q = log_bytes c (take n rs) @ t"
    "t = [] \<or> (\<exists>e. decode_frame t = Inl e)"
    "\<And>m. m \<le> length rs \<Longrightarrow> length (log_bytes c (take m rs)) \<le> length q \<Longrightarrow> m \<le> n"
proof -
  have "\<exists>n t. n \<le> length rs \<and> q = log_bytes c (take n rs) @ t \<and>
      (t = [] \<or> (\<exists>e. decode_frame t = Inl e)) \<and>
      (\<forall>m \<le> length rs. length (log_bytes c (take m rs)) \<le> length q \<longrightarrow> m \<le> n)"
    using assms
  proof (induction rs arbitrary: c q)
    case Nil
    then show ?case by simp
  next
    case (Cons r rs)
    define c' where "c' = fst (ChainState_append c (encode_record r))"
    define fr where "fr = encode_frame (encode_record r) (ch_head c')"
    have pre: "prefix q (fr @ log_bytes c' rs)" and ok: "entry_ok s g c r" "log_ok s g c' rs"
      using Cons.prems by (simp_all add: c'_def fr_def Let_def)
    have step: "log_bytes c (take (Suc m) (r # rs)) = fr @ log_bytes c' (take m rs)" for m
      by (simp add: c'_def fr_def Let_def)
    show ?case
    proof (cases "prefix fr q")
      case True
      then obtain q' where q: "q = fr @ q'" by (auto elim: prefixE)
      with pre have "prefix q' (log_bytes c' rs)" by simp
      from Cons.IH [OF this ok(2)] obtain n t where
        IH: "n \<le> length rs" "q' = log_bytes c' (take n rs) @ t" "t = [] \<or> (\<exists>e. decode_frame t = Inl e)"
        "\<And>m. m \<le> length rs \<Longrightarrow> length (log_bytes c' (take m rs)) \<le> length q' \<Longrightarrow> m \<le> n"
        by blast
      have "m \<le> Suc n" if "m \<le> length (r # rs)" "length (log_bytes c (take m (r # rs))) \<le> length q" for m
        using that IH(4) [of "m - 1"]
        by (cases m) (simp_all add: q step del: take_Suc_Cons)
      then show ?thesis
        using IH(1-3) step [of n] by (intro exI [of _ "Suc n"] exI [of _ t]) (simp add: q)
    next
      case False
      with pre have "strict_prefix q fr" by (intro prefix_short)
      with ok(1) have torn: "\<exists>e. decode_frame q = Inl e" "length q < length fr"
        using torn_frame [of q "encode_record r" "ch_head c'"]
        by (auto simp: fr_def entry_ok_def prefix_length_less)
      have "m = 0" if "length (log_bytes c (take m (r # rs))) \<le> length q" for m
        using that torn(2) by (cases m) (simp_all add: step del: take_Suc_Cons)
      then show ?thesis using torn(1) by (intro exI [of _ 0] exI [of _ q]) simp
    qed
  qed
  then show thesis using that by blast
qed

subsection \<open>The walk of a log\<close>

lemma decode_entry:
  assumes "entry_ok s g c r"
  shows "decode_frame (encode_frame (encode_record r) l @ t) =
     Inr \<lparr>fr_body = encode_record r, chain_link = l,
          total_len = length (encode_frame (encode_record r) l), fr_version = FRAME_VERSION\<rparr>"
    and "decode_record_at (encode_record r) FRAME_VERSION = Inr r"
proof -
  from assms show "decode_frame (encode_frame (encode_record r) l @ t) =
     Inr \<lparr>fr_body = encode_record r, chain_link = l,
          total_len = length (encode_frame (encode_record r) l), fr_version = FRAME_VERSION\<rparr>"
    unfolding encode_frame_def by (intro decode_encode_frame) (simp_all add: entry_ok_def)
  have "(2 :: u8) \<le> FRAME_VERSION" by (simp add: FRAME_VERSION_def)
  with assms show "decode_record_at (encode_record r) FRAME_VERSION = Inr r"
    using decode_record_iff(1) [of FRAME_VERSION "encode_record r" r] by (simp add: entry_ok_def)
qed

lemma walk_entry:
  assumes "drop off bytes = encode_frame (encode_record r) l @ t"
    and "entry_ok (hd_shard h) (hd_segment h) c r"
    and "l = ch_head (fst (ChainState_append c (encode_record r)))"
  shows "walk_loop bytes h off c acc =
     walk_loop bytes h (off + length (encode_frame (encode_record r) l))
       (fst (ChainState_append c (encode_record r))) (acc @ [(r, l)])"
proof -
  have "length bytes - off = length (encode_frame (encode_record r) l) + length t"
    using assms(1) by (metis length_append length_drop)
  then have "\<not> length bytes \<le> off"
    using length_encode_frame_ge [of "encode_record r" l] by simp
  then show ?thesis
    unfolding walk_loop.simps [of bytes h off] assms(1)
    using assms(2,3)
    by (simp add: decode_entry [OF assms(2)] verify_step_def digests_equal_iff entry_ok_def Let_def)
qed

lemma walk_log:
  assumes "drop off bytes = log_bytes c rs @ t" "log_ok (hd_shard h) (hd_segment h) c rs"
  shows "walk_loop bytes h off c acc =
     walk_loop bytes h (off + length (log_bytes c rs)) (log_chain c rs) (acc @ log_items c rs)"
  using assms
proof (induction rs arbitrary: off c acc)
  case (Cons r rs)
  define c' where "c' = fst (ChainState_append c (encode_record r))"
  define fr where "fr = encode_frame (encode_record r) (ch_head c')"
  have d: "drop off bytes = fr @ (log_bytes c' rs @ t)" and ok: "entry_ok (hd_shard h) (hd_segment h) c r"
    and rest: "log_ok (hd_shard h) (hd_segment h) c' rs"
    using Cons.prems by (simp_all add: c'_def fr_def Let_def)
  have d': "drop (off + length fr) bytes = log_bytes c' rs @ t"
    by (metis (no_types) add.commute append_eq_conv_conj d drop_drop)
  have "walk_loop bytes h off c acc = walk_loop bytes h (off + length fr) c' (acc @ [(r, ch_head c')])"
    using walk_entry [OF d [unfolded fr_def] ok] by (simp add: c'_def fr_def)
  also have "\<dots> = walk_loop bytes h (off + length fr + length (log_bytes c' rs)) (log_chain c' rs)
      ((acc @ [(r, ch_head c')]) @ log_items c' rs)"
    by (rule Cons.IH [OF d' rest])
  finally show ?case by (simp add: c'_def fr_def Let_def add.assoc)
qed simp

lemma walk_finds:
  assumes "bytes = hdr @ log_bytes c rs @ t" "hd_len h = length hdr" "c = ChainState_resume g 0"
    and "log_ok (hd_shard h) (hd_segment h) c rs"
    and "t = [] \<or> (\<exists>e. decode_frame t = Inl e)"
  shows "wk_records (walk bytes h g) = log_items c rs"
    "wk_chain (walk bytes h g) = log_chain c rs"
    "wk_good_bytes (walk bytes h g) = of_nat (length hdr + length (log_bytes c rs))"
    "if t = [] then wk_stopped (walk bytes h g) = EndOfFile
     else \<exists>e. wk_stopped (walk bytes h g) = TornTail e"
proof -
  have "drop (length hdr) bytes = log_bytes c rs @ t" using assms(1) by simp
  from walk_log [OF this assms(4)] have
    w: "walk bytes h g = walk_loop bytes h (length hdr + length (log_bytes c rs)) (log_chain c rs)
      (log_items c rs)"
    using assms(2,3) by (simp add: walk_def)
  have d: "drop (length hdr + length (log_bytes c rs)) bytes = t" using assms(1) by simp
  show "wk_records (walk bytes h g) = log_items c rs" "wk_chain (walk bytes h g) = log_chain c rs"
    "wk_good_bytes (walk bytes h g) = of_nat (length hdr + length (log_bytes c rs))"
    "if t = [] then wk_stopped (walk bytes h g) = EndOfFile
     else \<exists>e. wk_stopped (walk bytes h g) = TornTail e"
    unfolding w walk_loop.simps [of bytes h "length hdr + length (log_bytes c rs)"] d
    using assms(1,5) by (auto simp: Let_def)
qed

subsection \<open>Torn headers\<close>

lemma torn_varint_loop:
  assumes "strict_prefix q (put_varint v)" "g + length (put_varint v) \<le> 10"
  shows "varint_loop out sh g q = Inl Truncated"
  using assms
proof (induction v arbitrary: q g out sh rule: put_varint.induct)
  case (1 v)
  show ?case
  proof (cases q)
    case (Cons b q')
    have nz: "drop_bit 7 v \<noteq> 0"
      using "1.prems"(1) Cons put_varint.simps [of v] by (auto simp: Let_def)
    have v: "put_varint v = (ucast (v AND 0x7F) OR 0x80) # put_varint (drop_bit 7 v)"
      using nz put_varint.simps [of v] by (simp add: Let_def)
    with "1.prems"(1) Cons have b: "b = ucast (v AND 0x7F) OR 0x80"
      and q': "strict_prefix q' (put_varint (drop_bit 7 v))" by simp_all
    have "0 < length (put_varint (drop_bit 7 v))" by simp
    then have g: "Suc g + length (put_varint (drop_bit 7 v)) \<le> 10" "Suc g < 10"
      using "1.prems"(2) v by (simp_all del: length_greater_0_conv)
    have cont: "b AND 0x80 \<noteq> 0" unfolding b by (rule low_byte(4))
    have "varint_loop out sh g q =
        varint_loop (out OR push_bit sh (ucast (b AND 0x7F))) (sh + 7) (Suc g) q'"
      using cont g by (simp add: Cons)
    then show ?thesis using "1.IH" [OF refl refl nz q' g(1)] by simp
  qed simp
qed

lemma torn_varint: "strict_prefix q (put_varint v) \<Longrightarrow> get_varint q = Inl Truncated"
  unfolding get_varint_def by (rule torn_varint_loop) (simp_all add: length_put_varint)

text \<open>Reading a varint from a prefix: it is torn, or it is read and the rest is a prefix of the rest.\<close>

lemma prefix_varint_cases:
  assumes "prefix q (put_varint v @ r)"
  obtains "get_varint q = Inl Truncated" "strict_prefix q (put_varint v)"
    | q' where "q = put_varint v @ q'" "prefix q' r"
proof (cases "prefix (put_varint v) q")
  case True
  then obtain q' where "q = put_varint v @ q'" by (auto elim: prefixE)
  with assms that(2) show ?thesis by simp
next
  case False
  with assms have "strict_prefix q (put_varint v)" by (intro prefix_short)
  with that(1) torn_varint show ?thesis by blast
qed

lemma prefix_append_long:
  assumes "prefix q (a @ b)" "length a \<le> length q"
  obtains q' where "q = a @ q'" "prefix q' b"
proof -
  have "prefix a (a @ b)" by simp
  then have "prefix a q" using assms by (rule prefix_length_prefix)
  then obtain q' where "q = a @ q'" by (auto elim: prefixE)
  with assms(1) that show thesis by simp
qed

lemma torn_header:
  assumes "strict_prefix q (encode_segment_header s g t)"
  shows "decode_segment_header q = Inl Truncated"
proof (cases "length q < 4")
  case False
  define crc where "crc = to_le_bytes (crc32 (header_bytes s g t))"
  have len: "length q < length (header_bytes s g t) + 4"
    using prefix_length_less [OF assms] by (simp add: encode_header_parts)
  have "prefix q (SEGMENT_MAGIC @ put_varint (ucast FORMAT_VERSION) @ put_varint (ucast s) @
      put_varint g @ put_varint t @ crc)"
    using assms by (simp add: strict_prefix_def encode_header_parts header_bytes_def crc_def)
  then obtain q1 where q: "q = SEGMENT_MAGIC @ q1"
    and q1: "prefix q1 (put_varint (ucast FORMAT_VERSION) @ put_varint (ucast s) @
      put_varint g @ put_varint t @ crc)"
    by (rule prefix_append_long) (use False in simp)
  have q4: "take 4 q = SEGMENT_MAGIC" "drop 4 q = q1" "\<not> length q < 4"
    using False by (simp_all add: q)
  note start = decode_segment_header_def [of q] q4
  have u16: "get_u16 r = Inl Truncated" if "get_varint r = Inl Truncated" for r
    using that by (simp add: get_u16_def get_then_def)
  show ?thesis
  proof (rule prefix_varint_cases [OF q1])
    fix q2 assume e1: "q1 = put_varint (ucast FORMAT_VERSION) @ q2"
      and q2: "prefix q2 (put_varint (ucast s) @ put_varint g @ put_varint t @ crc)"
    show ?thesis
    proof (rule prefix_varint_cases [OF q2])
      fix q3 assume e2: "q2 = put_varint (ucast s) @ q3"
        and q3: "prefix q3 (put_varint g @ put_varint t @ crc)"
      show ?thesis
      proof (rule prefix_varint_cases [OF q3])
        fix q4 assume e3: "q3 = put_varint g @ q4" and q4: "prefix q4 (put_varint t @ crc)"
        show ?thesis
        proof (rule prefix_varint_cases [OF q4])
          fix q5 assume e4: "q4 = put_varint t @ q5"
          then have "q = header_bytes s g t @ q5" by (simp add: q e1 e2 e3 header_bytes_def)
          then show ?thesis using len by (simp add: decode_header_parts)
        qed (simp add: start e1 e2 e3 u16_get_put varint.get_put)
      qed (simp add: start e1 e2 u16_get_put)
    qed (simp add: start e1 u16_get_put u16)
  qed (simp add: start u16)
qed (simp add: decode_segment_header_def)

subsection \<open>What the walk accepts\<close>

text \<open>Entries with the body and the frame version they were read from, which may be an older one.\<close>

fun framed :: "ChainState \<Rightarrow> (Record \<times> bytes \<times> u8) list \<Rightarrow> bytes" where
  "framed c [] = []"
| "framed c ((r, b, v) # es) =
     (let c' = fst (ChainState_append c b) in encode_frame_at b (ch_head c') v @ framed c' es)"

fun framed_ok :: "ShardIx \<Rightarrow> SegmentId \<Rightarrow> ChainState \<Rightarrow> (Record \<times> bytes \<times> u8) list \<Rightarrow> bool" where
  "framed_ok s g c [] = True"
| "framed_ok s g c ((r, b, v) # es) \<longleftrightarrow>
     decode_record_at b v = Inr r \<and> rec_shard r = s \<and> segment_id r = g \<and>
     rec_seq r = ch_length c + 1 \<and> prev_hash r = ch_head c \<and>
     framed_ok s g (fst (ChainState_append c b)) es"

definition accepts :: "bytes \<Rightarrow> SegmentHeader \<Rightarrow> nat \<Rightarrow> ChainState \<Rightarrow> (Record \<times> hash) list \<Rightarrow> Walked \<Rightarrow> bool" where
  "accepts bytes h off c acc w \<longleftrightarrow>
     (\<exists>es n. framed_ok (hd_shard h) (hd_segment h) c es \<and>
       map fst (wk_records w) = map fst acc @ map fst es \<and>
       wk_chain w = chain_run c (map (fst \<circ> snd) es) \<and>
       wk_good_bytes w = of_nat n \<and> off \<le> n \<and> n \<le> length bytes \<and>
       take (n - off) (drop off bytes) = framed c es \<and>
       (wk_stopped w = EndOfFile \<longleftrightarrow> n = length bytes) \<and>
       (\<forall>s. wk_stopped w = ChainBroken s \<or> wk_stopped w = StoppedWrongOwner s \<longrightarrow>
          parsable_frame (drop n bytes)))"

lemma accepts_stop:
  assumes "off \<le> length bytes" "why = EndOfFile \<longleftrightarrow> off = length bytes"
    "\<And>s. why = ChainBroken s \<or> why = StoppedWrongOwner s \<Longrightarrow> parsable_frame (drop off bytes)"
  shows "accepts bytes h off c acc
    \<lparr>wk_records = acc, wk_chain = c, wk_good_bytes = of_nat off, wk_stopped = why\<rparr>"
  unfolding accepts_def using assms by (intro exI [of _ "[]"] exI [of _ off]) auto

lemma accepts_step:
  assumes frame: "decode_frame (drop off bytes) = Inr f"
    and rec: "decode_record_at (fr_body f) (fr_version f) = Inr r"
    and owner: "rec_shard r = hd_shard h" "segment_id r = hd_segment h"
    and link: "rec_seq r = ch_length c + 1" "prev_hash r = ch_head c"
      "chain_link f = ch_head (fst (ChainState_append c (fr_body f)))"
    and rest: "accepts bytes h (off + total_len f) (fst (ChainState_append c (fr_body f)))
      (acc @ [(r, l)]) w"
  shows "accepts bytes h off c acc w"
proof -
  define c' where "c' = fst (ChainState_append c (fr_body f))"
  define fr where "fr = encode_frame_at (fr_body f) (chain_link f) (fr_version f)"
  from decode_frame_canonical [OF frame] obtain rst where
    d: "drop off bytes = fr @ rst" and len: "total_len f = length fr"
    by (auto simp: fr_def)
  from rest obtain es n where
    es: "framed_ok (hd_shard h) (hd_segment h) c' es"
      "map fst (wk_records w) = map fst (acc @ [(r, l)]) @ map fst es"
      "wk_chain w = chain_run c' (map (fst \<circ> snd) es)"
    and n: "wk_good_bytes w = of_nat n" "off + length fr \<le> n" "n \<le> length bytes"
    and bs: "take (n - (off + length fr)) (drop (off + length fr) bytes) = framed c' es"
    and stop: "wk_stopped w = EndOfFile \<longleftrightarrow> n = length bytes"
      "\<forall>s. wk_stopped w = ChainBroken s \<or> wk_stopped w = StoppedWrongOwner s \<longrightarrow>
        parsable_frame (drop n bytes)"
    unfolding accepts_def c'_def [symmetric] len by blast
  have "drop (off + length fr) bytes = rst"
    by (metis (no_types) add.commute append_eq_conv_conj d drop_drop)
  then have "take (n - off) (drop off bytes) = fr @ framed c' es"
    using bs n(2) unfolding d by (simp add: take_append)
  then have "take (n - off) (drop off bytes) = framed c ((r, fr_body f, fr_version f) # es)"
    using link(3) by (simp add: c'_def fr_def Let_def)
  moreover have "framed_ok (hd_shard h) (hd_segment h) c ((r, fr_body f, fr_version f) # es)"
    using es(1) rec owner link by (simp add: c'_def)
  ultimately show ?thesis
    unfolding accepts_def using es(2,3) n stop
    by (intro exI [of _ "(r, fr_body f, fr_version f) # es"] exI [of _ n]) (simp add: c'_def)
qed

lemma walk_loop_accepts:
  "off \<le> length bytes \<Longrightarrow> accepts bytes h off c acc (walk_loop bytes h off c acc)"
proof (induction bytes h off c acc rule: walk_loop.induct)
  case (1 bytes h off c acc)
  show ?case
  proof (cases "length bytes \<le> off")
    case True
    then show ?thesis
      using "1.prems" by (subst walk_loop.simps) (auto intro: accepts_stop)
  next
    case False
    show ?thesis
    proof (cases "decode_frame (drop off bytes)")
      case (Inl e)
      then show ?thesis using False by (subst walk_loop.simps) (auto intro!: accepts_stop)
    next
      case frame: (Inr f)
      show ?thesis
      proof (cases "decode_record_at (fr_body f) (fr_version f)")
        case (Inl e)
        then show ?thesis using False frame by (subst walk_loop.simps) (auto intro!: accepts_stop)
      next
        case rec: (Inr r)
        have parses: "parsable_frame (drop off bytes)"
          using frame rec frame_magic [OF frame] by (simp add: parsable_frame_def)
        let ?owner = "rec_shard r = hd_shard h \<and> segment_id r = hd_segment h"
        let ?link = "rec_seq r = ch_length c + 1 \<and> prev_hash r = ch_head c \<and>
          verify_step (ch_head c) (rec_seq r) (fr_body f) (chain_link f)"
        show ?thesis
        proof (cases "?owner \<and> ?link")
          case True
          obtain rst where "drop off bytes = encode_frame_at (fr_body f) (chain_link f) (fr_version f) @ rst"
            using decode_frame_canonical(1) [OF frame] by blast
          then have "total_len f \<le> length (drop off bytes)"
            using decode_frame_canonical(2) [OF frame] by simp
          then have "off + total_len f \<le> length bytes" using False by simp
          then have "accepts bytes h (off + total_len f) (fst (ChainState_append c (fr_body f)))
              (acc @ [(r, chain_link f)])
              (walk_loop bytes h (off + total_len f) (fst (ChainState_append c (fr_body f)))
                (acc @ [(r, chain_link f)]))"
            using False frame rec True by (intro "1.IH" [OF refl False frame rec refl refl]) auto
          then have "accepts bytes h off c acc
              (walk_loop bytes h (off + total_len f) (fst (ChainState_append c (fr_body f)))
                (acc @ [(r, chain_link f)]))"
            by (rule accepts_step [rotated -1])
               (use frame rec True in \<open>auto simp: verify_step_def digests_equal_iff\<close>)
          then show ?thesis
            using False frame rec True by (subst walk_loop.simps) (auto simp: Let_def)
        next
          case no: False
          then show ?thesis
            using False frame rec parses
            by (subst walk_loop.simps) (auto simp: Let_def intro!: accepts_stop)
        qed
      qed
    qed
  qed
qed

lemma next_parsable_frame_iff:
  "next_parsable_frame bytes pos = Some p \<longleftrightarrow>
     pos \<le> p \<and> p < length bytes \<and> parsable_frame (drop p bytes) \<and>
     (\<forall>q. pos \<le> q \<and> q < p \<longrightarrow> \<not> parsable_frame (drop q bytes))"
proof (induction bytes pos rule: next_parsable_frame.induct)
  case (1 bytes pos)
  show ?case
  proof (cases "pos < length bytes \<and> \<not> parsable_frame (drop pos bytes)")
    case True
    then have "next_parsable_frame bytes pos = next_parsable_frame bytes (pos + 1)"
      by (subst next_parsable_frame.simps) simp
    moreover have "pos \<le> q \<longleftrightarrow> q = pos \<or> pos + 1 \<le> q" for q by auto
    ultimately show ?thesis using "1.IH" True by auto
  next
    case False
    then show ?thesis by (subst next_parsable_frame.simps) (auto simp: le_less)
  qed
qed

lemma next_parsable_frame_None:
  "next_parsable_frame bytes pos = None \<longleftrightarrow>
     (\<forall>p. pos \<le> p \<and> p < length bytes \<longrightarrow> \<not> parsable_frame (drop p bytes))"
proof (induction bytes pos rule: next_parsable_frame.induct)
  case (1 bytes pos)
  show ?case
  proof (cases "pos < length bytes \<and> \<not> parsable_frame (drop pos bytes)")
    case True
    then have "next_parsable_frame bytes pos = next_parsable_frame bytes (pos + 1)"
      by (subst next_parsable_frame.simps) simp
    moreover have "pos \<le> q \<longleftrightarrow> q = pos \<or> pos + 1 \<le> q" for q by auto
    ultimately show ?thesis using "1.IH" True by auto
  next
    case False
    then show ?thesis by (subst next_parsable_frame.simps) auto
  qed
qed

text \<open>Bytes after a log that are less than a frame, and stay so when cut.\<close>

definition torn :: "bytes \<Rightarrow> bool" where
  "torn x \<longleftrightarrow> (\<forall>y. prefix y x \<longrightarrow> y = [] \<or> (\<exists>e. decode_frame y = Inl e))"

lemma torn_Nil [simp]: "torn []" by (simp add: torn_def)

lemma torn_take: "length b \<le> MAX_BODY_BYTES \<Longrightarrow> n < length (encode_frame b l) \<Longrightarrow> torn (take n (encode_frame b l))"
proof -
  assume b: "length b \<le> MAX_BODY_BYTES" and n: "n < length (encode_frame b l)"
  have "strict_prefix y (encode_frame b l)" if "prefix y (take n (encode_frame b l))" for y
    using prefix_length_le [OF that] prefix_order.trans [OF that take_is_prefix] n
    by (auto simp: strict_prefix_def)
  then show ?thesis using torn_frame b by (auto simp: torn_def)
qed

lemma log_torn_prefix:
  assumes "prefix q (log_bytes c rs @ x)" "log_ok s g c rs" "torn x"
  obtains n t where "n \<le> length rs" "q = log_bytes c (take n rs) @ t"
    "t = [] \<or> (\<exists>e. decode_frame t = Inl e)"
    "\<And>m. m \<le> length rs \<Longrightarrow> length (log_bytes c (take m rs)) \<le> length q \<Longrightarrow> m \<le> n"
proof (cases "prefix q (log_bytes c rs)")
  case True
  from log_prefix [OF this assms(2)] show ?thesis using that by blast
next
  case False
  with assms(1) obtain y where y: "q = log_bytes c rs @ y" "prefix y x"
    by (auto simp: prefix_append)
  show ?thesis
    by (rule that [of "length rs" y]) (use y assms(3) in \<open>auto simp: torn_def\<close>)
qed

subsection \<open>The memory of record ids\<close>

definition dedup_ok :: "DedupWindow \<Rightarrow> bool" where
  "dedup_ok w \<longleftrightarrow> distinct (dd_order w) \<and> set (dd_order w) = dom (dd_seen w) \<and>
     length (dd_order w) \<le> dd_capacity w \<and> 0 < dd_capacity w"

lemma dedup_ok_new: "dedup_ok (DedupWindow_new c)"
  by (simp add: dedup_ok_def DedupWindow_new_def)

lemma dedup_remember_ok:
  assumes "dedup_ok w"
  shows "dedup_ok (dedup_remember w i s)" "dd_capacity (dedup_remember w i s) = dd_capacity w"
    "dedup_position (dedup_remember w i s) i = Some s"
    "\<And>k. dedup_position (dedup_remember w i s) k \<noteq> None \<Longrightarrow> k = i \<or> dedup_position w k \<noteq> None"
proof -
  let ?w = "dedup_remember w i s"
  have "dedup_ok ?w \<and> dd_capacity ?w = dd_capacity w \<and> dedup_position ?w i = Some s \<and>
    (\<forall>k. dedup_position ?w k \<noteq> None \<longrightarrow> k = i \<or> dedup_position w k \<noteq> None)"
  proof (cases "dd_seen w i")
    case (Some a)
    then show ?thesis
      using assms by (auto simp: dedup_remember_def dedup_ok_def dedup_position_def Let_def insert_absorb)
  next
    case None
    then have i: "i \<notin> set (dd_order w)" using assms by (auto simp: dedup_ok_def)
    show ?thesis
    proof (cases "length (dd_order w) < dd_capacity w")
      case True
      then show ?thesis using None i assms
        by (auto simp: dedup_remember_def dedup_ok_def dedup_position_def Let_def)
    next
      case False
      then obtain x xs where x: "dd_order w = x # xs" using assms by (cases "dd_order w") (auto simp: dedup_ok_def)
      have dom: "dom (dd_seen w) = insert x (set xs)" using assms x by (auto simp: dedup_ok_def)
      have "dom ((dd_seen w)(i \<mapsto> s, x := None)) = set xs \<union> {i}"
        using dom i x assms by (auto simp: dedup_ok_def)
      then show ?thesis using None False i x assms
        by (auto simp: dedup_remember_def dedup_ok_def dedup_position_def Let_def)
    qed
  qed
  then show "dedup_ok ?w" "dd_capacity ?w = dd_capacity w" "dedup_position ?w i = Some s"
    "\<And>k. dedup_position ?w k \<noteq> None \<Longrightarrow> k = i \<or> dedup_position w k \<noteq> None" by blast+
qed

lemma dedup_len_ok: "dedup_ok w \<Longrightarrow> dedup_len w = length (dd_order w)"
  unfolding dedup_ok_def dedup_len_def by (metis distinct_card)

subsection \<open>Properties\<close>

text \<open>
  The memory of record ids is bounded and is right about what it remembers: whatever is
  remembered, in whatever order, the window never holds more ids than its capacity (at least one),
  the id remembered last is there with the position it was given, and an id that was never
  remembered is not there.
\<close>

theorem dedup_window_bounded:
  "let w = foldl (\<lambda>w (i, s). dedup_remember w i s) (DedupWindow_new c) (xs @ [(i, s)]) in
     dedup_len w \<le> max c 1 \<and> dedup_position w i = Some s \<and>
     {k. dedup_contains w k} \<subseteq> insert i (fst ` set xs)"
proof -
  let ?w = "\<lambda>xs. foldl (\<lambda>w (i, s). dedup_remember w i s) (DedupWindow_new c) xs"
  have ok: "dedup_ok (?w ys) \<and> dd_capacity (?w ys) = max c 1 \<and>
    (\<forall>k. dedup_position (?w ys) k \<noteq> None \<longrightarrow> k \<in> fst ` set ys)" for ys
  proof (induction ys rule: rev_induct)
    case Nil
    show ?case using dedup_ok_new [of c] by (simp add: dedup_position_def DedupWindow_new_def)
  next
    case (snoc x ys)
    obtain i s where x: "x = (i, s)" by fastforce
    show ?case using snoc dedup_remember_ok [of "?w ys" i s] by (fastforce simp: x)
  qed
  have "dedup_len (?w (xs @ [(i, s)])) \<le> max c 1"
    using ok [of "xs @ [(i, s)]"] dedup_len_ok by (metis dedup_ok_def)
  moreover have "dedup_position (?w (xs @ [(i, s)])) i = Some s"
    using dedup_remember_ok(3) ok [of xs] by simp
  ultimately show ?thesis
    using ok [of "xs @ [(i, s)]"] by (auto simp: Let_def dedup_contains_def dedup_position_def)
qed

text \<open>
  The walk of what a power cut leaves. Cut a journal file, a header and the frames of a log,
  anywhere after the header: the walk returns exactly the records whose frames are whole, as many as
  fit in what is left, each with the link the log gives it, says where the last of them ends, and
  reports the end of the file or a torn tail, never a broken chain.
\<close>

theorem walk_of_cut_file:
  assumes "log_ok s g c rs" "c = ChainState_resume (start_head start (encode_segment_header s g ts)) 0"
    and "prefix q (encode_segment_header s g ts @ log_bytes c rs)"
    and "length (encode_segment_header s g ts) \<le> length q"
  shows "\<exists>n w. walk_bytes q start = Inr w \<and> wk_records w = log_items c (take n rs) \<and>
    wk_chain w = log_chain c (take n rs) \<and>
    wk_good_bytes w = of_nat (length (encode_segment_header s g ts) + length (log_bytes c (take n rs))) \<and>
    (\<forall>m \<le> length rs. m \<le> n \<longleftrightarrow>
       length (encode_segment_header s g ts) + length (log_bytes c (take m rs)) \<le> length q) \<and>
    (wk_stopped w = EndOfFile \<or> (\<exists>e. wk_stopped w = TornTail e))"
proof -
  define hdr where "hdr = encode_segment_header s g ts"
  from prefix_append_long [OF assms(3,4)] obtain b where
    q: "q = hdr @ b" and b: "prefix b (log_bytes c rs)" unfolding hdr_def by blast
  from log_prefix [OF b assms(1)] obtain n t where
    n: "n \<le> length rs" and t: "b = log_bytes c (take n rs) @ t"
    and tt: "t = [] \<or> (\<exists>e. decode_frame t = Inl e)"
    and max: "\<And>m. m \<le> length rs \<Longrightarrow> length (log_bytes c (take m rs)) \<le> length b \<Longrightarrow> m \<le> n"
    by blast
  define h where "h = \<lparr>hd_format_version = FORMAT_VERSION, hd_shard = s, hd_segment = g,
    hd_created_at = ts, hd_len = length hdr\<rparr>"
  define w where "w = walk q h (start_head start hdr)"
  have "walk_bytes q start = Inr w"
    unfolding walk_bytes_def q by (simp add: hdr_def decode_encode_header h_def w_def q)
  moreover have "q = hdr @ log_bytes c (take n rs) @ t" using q t by simp
  moreover have "log_ok (hd_shard h) (hd_segment h) c (take n rs)"
    using assms(1) by (simp add: h_def) (metis append_take_drop_id log_appends(3))
  moreover have "hd_len h = length hdr" "c = ChainState_resume (start_head start hdr) 0"
    using assms(2) by (simp_all add: h_def hdr_def)
  ultimately have W: "walk_bytes q start = Inr w" "wk_records w = log_items c (take n rs)"
    "wk_chain w = log_chain c (take n rs)"
    "wk_good_bytes w = of_nat (length hdr + length (log_bytes c (take n rs)))"
    "wk_stopped w = EndOfFile \<or> (\<exists>e. wk_stopped w = TornTail e)"
    using walk_finds [of q hdr c "take n rs" t h "start_head start hdr"] tt
    by (auto simp: w_def split: if_splits)
  have len: "m \<le> n \<longleftrightarrow> length hdr + length (log_bytes c (take m rs)) \<le> length q" if "m \<le> length rs" for m
    using max [OF that] log_bytes_take_mono [of m n c rs] t q by auto
  show ?thesis using W len by (intro exI [of _ n] exI [of _ w]) (simp add: hdr_def)
qed

theorem walk_of_cut_file_witness:
  "\<exists>n w. walk_bytes (encode_segment_header 3 1 5) First = Inr w \<and>
     wk_records w = log_items (ChainState_resume (start_head First (encode_segment_header 3 1 5)) 0) (take n [])"
proof -
  let ?c = "ChainState_resume (start_head First (encode_segment_header 3 1 5)) 0"
  have "log_ok 3 1 ?c []" by simp
  from walk_of_cut_file [OF this refl, of "encode_segment_header 3 1 5"] show ?thesis by auto
qed

text \<open>
  C19. What a reader accepts, of any file whatever. Up to the offset the walk reports, the file is a
  header and the frames of a chain that starts where it was told: every record returned decodes from
  its frame, belongs to the shard and segment of the header, has the next sequence number and names
  the link before it, and every link is recomputed. The walk says end of file exactly when nothing
  follows, and where it says the chain is broken, or the owner wrong, a whole frame still stands.
\<close>

theorem walk_accepts_only_chained:
  assumes "decode_segment_header bytes = Inr h" "length bytes < 2 ^ 64" "w = walk bytes h g"
  shows "\<exists>es. framed_ok (hd_shard h) (hd_segment h) (ChainState_resume g 0) es \<and>
    map fst (wk_records w) = map fst es \<and>
    wk_chain w = chain_run (ChainState_resume g 0) (map (fst \<circ> snd) es) \<and>
    take (unat (wk_good_bytes w)) bytes =
      encode_segment_header (hd_shard h) (hd_segment h) (hd_created_at h) @ framed (ChainState_resume g 0) es \<and>
    (wk_stopped w = EndOfFile \<longleftrightarrow> unat (wk_good_bytes w) = length bytes) \<and>
    (\<forall>s. wk_stopped w = ChainBroken s \<or> wk_stopped w = StoppedWrongOwner s \<longrightarrow>
       parsable_frame (drop (unat (wk_good_bytes w)) bytes))"
proof -
  let ?c = "ChainState_resume g 0"
  let ?hdr = "encode_segment_header (hd_shard h) (hd_segment h) (hd_created_at h)"
  from decode_header_canonical [OF assms(1)] obtain q where
    b: "bytes = ?hdr @ q" and len: "hd_len h = length ?hdr" by blast
  have "hd_len h \<le> length bytes" by (simp add: b len)
  from walk_loop_accepts [OF this, of h ?c "[]"] obtain es n where
    es: "framed_ok (hd_shard h) (hd_segment h) ?c es" "map fst (wk_records w) = map fst es"
      "wk_chain w = chain_run ?c (map (fst \<circ> snd) es)"
    and n: "wk_good_bytes w = of_nat n" "hd_len h \<le> n" "n \<le> length bytes"
      "take (n - hd_len h) (drop (hd_len h) bytes) = framed ?c es"
    and st: "wk_stopped w = EndOfFile \<longleftrightarrow> n = length bytes"
      "\<forall>s. wk_stopped w = ChainBroken s \<or> wk_stopped w = StoppedWrongOwner s \<longrightarrow>
         parsable_frame (drop n bytes)"
    unfolding accepts_def walk_def [symmetric] assms(3) [symmetric] by auto
  have u: "unat (wk_good_bytes w) = n" using n(1,3) assms(2) by (simp add: unat_of_nat_u64)
  have "take n bytes = take (hd_len h + (n - hd_len h)) bytes" using n(2) by simp
  also have "\<dots> = ?hdr @ framed ?c es" by (subst take_add) (simp add: n(4), simp add: b len)
  finally show ?thesis using es st u by auto
qed

theorem walk_accepts_only_chained_witness:
  "\<exists>h es. decode_segment_header (encode_segment_header 3 1 5 @ [7]) = Inr h \<and>
     framed_ok 3 1 (ChainState_resume 9 0) es \<and>
     map fst (wk_records (walk (encode_segment_header 3 1 5 @ [7]) h 9)) = map fst es"
proof -
  let ?b = "encode_segment_header 3 1 5 @ [7]"
  define h where "h = \<lparr>hd_format_version = FORMAT_VERSION, hd_shard = 3, hd_segment = 1,
    hd_created_at = 5, hd_len = length (encode_segment_header 3 1 5)\<rparr>"
  have h: "decode_segment_header ?b = Inr h" by (simp add: decode_encode_header h_def)
  have "length ?b < 2 ^ 64"
    using length_header [of 3 1 5] by (simp add: MAX_SEGMENT_HEADER_LEN_def)
  from walk_accepts_only_chained [OF h this refl, of 9] h show ?thesis by (auto simp: h_def)
qed



end
