(* ===== verification/Durability.thy ===== *)
theory Durability
  imports Recovery
begin

text \<open>
  The durability contract of \<open>docs/durability.md\<close>, proved of the journal: every sequence number
  reported as acked survives any crash. The journal and its disk are a transition system: appends,
  syncs, power cuts, recoveries and restarts in any order, each free to fail. It refines a ledger, a
  list of records with a number of them promised, of which a crash may take the unpromised ones and
  nothing else. The client side is proved once, from the storage contract, and read off for the
  simulated disk.
\<close>

subsection \<open>The specification\<close>

record Ledger =
  lg_records :: "Record list"
  lg_acked :: nat

inductive ledger_step :: "Ledger \<Rightarrow> Ledger \<Rightarrow> bool" where
  ledger_skip: "ledger_step L L"
| ledger_write: "ledger_step L (L\<lparr>lg_records := lg_records L @ [r]\<rparr>)"
| ledger_sync: "ledger_step L (L\<lparr>lg_acked := length (lg_records L)\<rparr>)"
| ledger_crash: "lg_acked L \<le> n \<Longrightarrow> ledger_step L (L\<lparr>lg_records := take n (lg_records L)\<rparr>)"

definition ledger_ok :: "Ledger \<Rightarrow> bool" where
  "ledger_ok L \<longleftrightarrow> lg_acked L \<le> length (lg_records L)"

lemma ledger_step_ok: "ledger_step L M \<Longrightarrow> ledger_ok L \<Longrightarrow> ledger_ok M"
  by (induction rule: ledger_step.induct) (auto simp: ledger_ok_def)

lemma ledger_step_promise:
  "ledger_step L M \<Longrightarrow> ledger_ok L \<Longrightarrow>
   lg_acked L \<le> lg_acked M \<and> take (lg_acked L) (lg_records M) = take (lg_acked L) (lg_records L)"
  by (induction rule: ledger_step.induct) (auto simp: ledger_ok_def min_def)

text \<open>What a ledger has promised it keeps, whatever happens next.\<close>

lemma ledger_keeps_promises:
  assumes "ledger_step\<^sup>*\<^sup>* L M" "ledger_ok L"
  shows "ledger_ok M \<and> lg_acked L \<le> lg_acked M \<and>
     take (lg_acked L) (lg_records M) = take (lg_acked L) (lg_records L)"
  using assms
proof (induction rule: rtranclp_induct)
  case (step M N)
  then have M: "ledger_ok M" "lg_acked L \<le> lg_acked M"
    "take (lg_acked L) (lg_records M) = take (lg_acked L) (lg_records L)" by simp_all
  have N: "lg_acked M \<le> lg_acked N"
    "take (lg_acked M) (lg_records N) = take (lg_acked M) (lg_records M)"
    using ledger_step_promise [OF step.hyps(2) M(1)] by simp_all
  have "take (lg_acked L) (lg_records N) = take (lg_acked L) (take (lg_acked M) (lg_records N))"
    using M(2) by (simp add: min_absorb1)
  also have "\<dots> = take (lg_acked L) (lg_records M)" using N(2) M(2) by (simp add: min_absorb1)
  finally show ?case using M N ledger_step_ok [OF step.hyps(2)] by simp
qed simp

subsection \<open>The journal on its disk\<close>

datatype 'io sys = Up Journal 'io | Down Journal 'io

text \<open>
  A record the journal can take: its tokens are valid, its body is within what a reader accepts, and
  the file stays below the \<open>2^64\<close> bytes an offset can name.
\<close>

definition takes_record :: "Journal \<Rightarrow> Record \<Rightarrow> bool" where
  "takes_record j r \<longleftrightarrow>
     record_fits r \<and> length (encode_record (stamp j r)) \<le> MAX_BODY_BYTES \<and>
     unat (jn_good_bytes j) + length (pd_bytes (stamped_frame j r)) < 2 ^ 64"

inductive sys_step :: "'io Io \<Rightarrow> ('io \<Rightarrow> 'io \<Rightarrow> bool) \<Rightarrow> str \<Rightarrow> 'io sys \<Rightarrow> 'io sys \<Rightarrow> bool"
  for I crash name where
  sys_append: "journal_append I j r io = (res, j', io') \<Longrightarrow> takes_record j r \<Longrightarrow>
     sys_step I crash name (Up j io) (Up j' io')"
| sys_sync: "journal_sync I j io = (res, j', io') \<Longrightarrow> sys_step I crash name (Up j io) (Up j' io')"
| sys_gap: "sys_step I crash name (Up j io) (Up (note_gap j) io)"
| sys_stop: "sys_step I crash name (Up j io) (Down j io)"
| sys_crash: "crash io io' \<Longrightarrow> sys_step I crash name (Up j io) (Down j io')"
| sys_crash_down: "crash io io' \<Longrightarrow> sys_step I crash name (Down j io) (Down j io')"
| sys_recover: "recover I j io = (Inr rep, j', io') \<Longrightarrow>
     sys_step I crash name (Down j io) (Up j' io')"
| sys_recover_fails: "recover I j io = (Inl e, j', io') \<Longrightarrow>
     sys_step I crash name (Down j io) (Down j' io')"
| sys_reopen: "journal_open I (jn_shard j) (jn_segment j) name n (jn_start j) w io = (Inr (j', rep), io') \<Longrightarrow>
     sys_step I crash name (Down j io) (Up j' io')"
| sys_reopen_fails: "journal_open I (jn_shard j) (jn_segment j) name n (jn_start j) w io = (Inl e, io') \<Longrightarrow>
     sys_step I crash name (Down j io) (Down j io')"

subsection \<open>The relation to the ledger\<close>

text \<open>A watermark file holds a promise no greater than what was promised, or the start of one.\<close>

definition mark_ok :: "bytes \<times> bytes \<Rightarrow> nat \<Rightarrow> bool" where
  "mark_ok x a \<longleftrightarrow> (\<exists>n \<le> a. prefix (fst x @ snd x) (watermark_bytes (of_nat n)))"

definition log_start :: "ChainStart \<Rightarrow> bytes \<Rightarrow> ChainState" where
  "log_start st hdr = ChainState_resume (start_head st hdr) 0"

text \<open>
  A journal file between processes: some prefix of a header, the frames of the records, and less
  than a frame more; the promised records are in the durable part.
\<close>

definition header_of :: "Journal \<Rightarrow> bytes \<Rightarrow> bool" where
  "header_of j hdr \<longleftrightarrow> (\<exists>ts. hdr = encode_segment_header (jn_shard j) (jn_segment j) ts)"

definition disk_at :: "Journal \<Rightarrow> bytes \<Rightarrow> bytes \<times> bytes \<Rightarrow> Ledger \<Rightarrow> bool" where
  "disk_at j hdr x L \<longleftrightarrow>
     (let c = log_start (jn_start j) hdr in
        log_ok (jn_shard j) (jn_segment j) c (lg_records L) \<and>
        (\<exists>z. torn z \<and> prefix (fst x @ snd x) (hdr @ log_bytes c (lg_records L) @ z) \<and>
             length hdr + length (log_bytes c (lg_records L)) + length z < 2 ^ 64) \<and>
        (0 < lg_acked L \<longrightarrow>
           length hdr + length (log_bytes c (take (lg_acked L) (lg_records L))) \<le> length (fst x)))"

definition disk_ok :: "Journal \<Rightarrow> bytes \<times> bytes \<Rightarrow> Ledger \<Rightarrow> bool" where
  "disk_ok j x L \<longleftrightarrow> (\<exists>hdr. header_of j hdr \<and> disk_at j hdr x L)"

definition pending_ok :: "Journal \<Rightarrow> bool" where
  "pending_ok j \<longleftrightarrow>
     (case jn_pending j of
        None \<Rightarrow> True
      | Some p \<Rightarrow> \<exists>r. takes_record j r \<and> p = (stamped_frame j r)\<lparr>pd_done := pd_done p\<rparr> \<and>
                     pd_done p < length (pd_bytes p))"

definition inflight :: "Journal \<Rightarrow> bytes" where
  "inflight j = (case jn_pending j of None \<Rightarrow> [] | Some p \<Rightarrow> take (pd_done p) (pd_bytes p))"

text \<open>A journal that is up: the file is exactly the header, the frames, and the record in flight.\<close>

definition file_at :: "Journal \<Rightarrow> bytes \<Rightarrow> bytes \<times> bytes \<Rightarrow> Ledger \<Rightarrow> bool" where
  "file_at j hdr x L \<longleftrightarrow>
     (let c = log_start (jn_start j) hdr in
        log_ok (jn_shard j) (jn_segment j) c (lg_records L) \<and>
        fst x @ snd x = hdr @ log_bytes c (lg_records L) @ inflight j \<and>
        length hdr + length (log_bytes c (lg_records L)) < 2 ^ 64 \<and>
        jn_good_bytes j = of_nat (length hdr + length (log_bytes c (lg_records L))) \<and>
        jn_genesis j = start_head (jn_start j) hdr \<and>
        jn_chain j = log_chain c (lg_records L) \<and>
        jn_written j = of_nat (length (lg_records L)) \<and>
        (0 < lg_acked L \<longrightarrow>
           length hdr + length (log_bytes c (take (lg_acked L) (lg_records L))) \<le> length (fst x)))"

definition file_ok :: "Journal \<Rightarrow> bytes \<times> bytes \<Rightarrow> Ledger \<Rightarrow> bool" where
  "file_ok j x L \<longleftrightarrow> (\<exists>hdr. header_of j hdr \<and> file_at j hdr x L)"

fun sys_rel :: "('io \<Rightarrow> FileId \<rightharpoonup> bytes \<times> bytes) \<Rightarrow> ('io \<Rightarrow> str \<rightharpoonup> FileId) \<Rightarrow> ('io \<Rightarrow> bool) \<Rightarrow>
   ('io \<Rightarrow> bool) \<Rightarrow> str \<Rightarrow> 'io sys \<Rightarrow> Ledger \<Rightarrow> bool" where
  "sys_rel sto names ok honest name (Up j io) L \<longleftrightarrow>
     ok io \<and> honest io \<and> ledger_ok L \<and> unat (jn_acked j) \<le> lg_acked L \<and>
     names io name = Some (jn_file j) \<and> names io (name @ ascii ''.ack'') = Some (jn_watermark j) \<and>
     (\<exists>x y. sto io (jn_file j) = Some x \<and> file_ok j x L \<and> pending_ok j \<and>
            sto io (jn_watermark j) = Some y \<and> mark_ok y (lg_acked L))"
| "sys_rel sto names ok honest name (Down j io) L \<longleftrightarrow>
     ok io \<and> honest io \<and> ledger_ok L \<and> unat (jn_acked j) \<le> lg_acked L \<and>
     names io name = Some (jn_file j) \<and> names io (name @ ascii ''.ack'') = Some (jn_watermark j) \<and>
     (\<exists>x y. sto io (jn_file j) = Some x \<and> disk_ok j x L \<and>
            sto io (jn_watermark j) = Some y \<and> mark_ok y (lg_acked L))"

subsection \<open>Recovery\<close>

text \<open>What the walk finds on a disk between processes: some of the records, all the promised ones.\<close>

lemma disk_walk:
  assumes "header_of j hdr" "disk_at j hdr x L" "prefix hdr (fst x @ snd x)" "ledger_ok L"
  defines "c \<equiv> log_start (jn_start j) hdr"
  obtains n t h where "n \<le> length (lg_records L)" "lg_acked L \<le> n"
    "fst x @ snd x = hdr @ log_bytes c (take n (lg_records L)) @ t" "length (fst x @ snd x) < 2 ^ 64"
    "decode_segment_header (fst x @ snd x) = Inr h"
    "wk_records (walk (fst x @ snd x) h (start_head (jn_start j) hdr)) = log_items c (take n (lg_records L))"
    "wk_chain (walk (fst x @ snd x) h (start_head (jn_start j) hdr)) = log_chain c (take n (lg_records L))"
    "wk_good_bytes (walk (fst x @ snd x) h (start_head (jn_start j) hdr)) =
       of_nat (length hdr + length (log_bytes c (take n (lg_records L))))"
    "if t = [] then wk_stopped (walk (fst x @ snd x) h (start_head (jn_start j) hdr)) = EndOfFile
     else \<exists>e. wk_stopped (walk (fst x @ snd x) h (start_head (jn_start j) hdr)) = TornTail e"
proof -
  let ?rs = "lg_records L" and ?q = "fst x @ snd x"
  from assms(1) obtain ts where hdr: "hdr = encode_segment_header (jn_shard j) (jn_segment j) ts"
    by (auto simp: header_of_def)
  from assms(2) obtain z where ok: "log_ok (jn_shard j) (jn_segment j) c ?rs" and z: "torn z"
    and pre: "prefix ?q (hdr @ log_bytes c ?rs @ z)"
    and small: "length hdr + length (log_bytes c ?rs) + length z < 2 ^ 64"
    and ack: "0 < lg_acked L \<longrightarrow> length hdr + length (log_bytes c (take (lg_acked L) ?rs)) \<le> length (fst x)"
    by (auto simp: disk_at_def Let_def c_def)
  from assms(3) obtain q where q: "?q = hdr @ q" by (auto elim: prefixE)
  with pre have "prefix q (log_bytes c ?rs @ z)" by simp
  from log_torn_prefix [OF this ok z] obtain n t where
    n: "n \<le> length ?rs" and t: "q = log_bytes c (take n ?rs) @ t"
    and tt: "t = [] \<or> (\<exists>e. decode_frame t = Inl e)"
    and max: "\<And>m. m \<le> length ?rs \<Longrightarrow> length (log_bytes c (take m ?rs)) \<le> length q \<Longrightarrow> m \<le> n"
    by blast
  have "lg_acked L \<le> n"
  proof (cases "lg_acked L = 0")
    case False
    have "length ?q = length hdr + length q" using q by (metis length_append)
    then have "length (log_bytes c (take (lg_acked L) ?rs)) \<le> length q" using ack False by simp
    then show ?thesis using max assms(4) by (simp add: ledger_ok_def)
  qed simp
  moreover have "length ?q < 2 ^ 64" using prefix_length_le [OF pre] small by simp
  moreover define h where "h = \<lparr>hd_format_version = FORMAT_VERSION, hd_shard = jn_shard j,
    hd_segment = jn_segment j, hd_created_at = ts, hd_len = length hdr\<rparr>"
  have "decode_segment_header ?q = Inr h" unfolding q by (simp add: h_def hdr decode_encode_header)
  moreover have "log_ok (jn_shard j) (jn_segment j) c (take n ?rs)"
    using ok by (metis append_take_drop_id log_appends(3))
  moreover have "?q = hdr @ log_bytes c (take n ?rs) @ t" using q t by simp
  ultimately show thesis
    using that [of n t h] n walk_finds [of ?q hdr c "take n ?rs" t h "start_head (jn_start j) hdr"] tt
    by (simp add: h_def c_def log_start_def)
qed

lemma recover_identity:
  assumes "recover I j io = (res, j', io')"
  shows "jn_file j' = jn_file j" "jn_watermark j' = jn_watermark j" "jn_shard j' = jn_shard j"
    "jn_segment j' = jn_segment j" "jn_start j' = jn_start j"
  using assms
  by (auto simp: recover_def adopt_def Let_def split: prod.splits sum.splits if_splits option.splits)

lemma recover_fields:
  assumes "recover I j io = (Inr rep, j', io')"
  shows "jn_pending j' = None \<and> jn_written j' = rv_max_seq rep"
  using assms
  by (auto simp: recover_def adopt_def Let_def split: prod.splits sum.splits if_splits option.splits)

subsection \<open>Writing a record\<close>

lemma record_fits_stamp [simp]: "record_fits (stamp j r) = record_fits r"
  by (simp add: record_fits_def record_ok_def stamp_def)

lemma stamp_fields [simp]:
  "rec_seq (stamp j r) = jn_written j + 1" "prev_hash (stamp j r) = ch_head (jn_chain j)"
  "segment_id (stamp j r) = jn_segment j" "rec_shard (stamp j r) = jn_shard j"
  "rec_id (stamp j r) = rec_id r"
  by (simp_all add: stamp_def)

lemma entry_ok_stamp:
  assumes "takes_record j r" "jn_chain j = ch" "ch_length ch = jn_written j"
  shows "entry_ok (jn_shard j) (jn_segment j) ch (stamp j r)"
  using assms by (auto simp: entry_ok_def takes_record_def)

lemma stamped_frame_entry:
  assumes "jn_chain j = ch" "ch_length ch = jn_written j"
  shows "pd_bytes (stamped_frame j r) = log_bytes ch [stamp j r]"
    and "ChainState_resume (pd_link (stamped_frame j r)) (pd_seq (stamped_frame j r)) =
         log_chain ch [stamp j r]"
    and "pd_seq (stamped_frame j r) = jn_written j + 1" "pd_done (stamped_frame j r) = 0"
  using assms
  by (auto simp: stamped_frame_def Let_def ChainState_resume_def ChainState_append_def)

lemma stamped_frame_cong:
  "jn_written j' = jn_written j \<Longrightarrow> jn_chain j' = jn_chain j \<Longrightarrow> jn_segment j' = jn_segment j \<Longrightarrow>
   jn_shard j' = jn_shard j \<Longrightarrow> stamped_frame j' r = stamped_frame j r \<and> stamp j' r = stamp j r"
  by (simp add: stamped_frame_def stamp_def)

text \<open>More of the record on the file, and the record still in flight.\<close>

lemma file_at_inflight:
  assumes "file_at j hdr (d, t) L" "header_of j hdr" "takes_record j r" "jn_pending j = Some p"
    and p: "p = (stamped_frame j r)\<lparr>pd_done := pd_done p\<rparr>" "pd_done p \<le> pos" "pos < length (pd_bytes p)"
    and j': "j' = j\<lparr>jn_pending := Some (p\<lparr>pd_done := pos\<rparr>), jn_degraded := deg\<rparr>"
  shows "file_at j' hdr (d, t @ take (pos - pd_done p) (drop (pd_done p) (pd_bytes p))) L"
    and "header_of j' hdr" "pending_ok j'"
proof -
  have "take pos (pd_bytes p) = take (pd_done p + (pos - pd_done p)) (pd_bytes p)" using p(2) by simp
  also have "\<dots> = take (pd_done p) (pd_bytes p) @ take (pos - pd_done p) (drop (pd_done p) (pd_bytes p))"
    by (rule take_add)
  finally show "file_at j' hdr (d, t @ take (pos - pd_done p) (drop (pd_done p) (pd_bytes p))) L"
    using assms(1,4) by (simp add: file_at_def inflight_def j' Let_def)
  show "header_of j' hdr" using assms(2) by (simp add: header_of_def j')
  have "stamped_frame j' r = stamped_frame j r" "takes_record j' r = takes_record j r"
    using stamped_frame_cong [of j' j r] by (simp_all add: j' takes_record_def)
  moreover have "p\<lparr>pd_done := pos\<rparr> = (stamped_frame j r)\<lparr>pd_done := pos\<rparr>" by (subst p(1)) simp
  moreover have "pd_bytes p = pd_bytes (stamped_frame j r)" by (subst p(1)) simp
  ultimately show "pending_ok j'"
    using assms(3) p(3) by (auto simp: pending_ok_def j' intro!: exI [of _ r])
qed

text \<open>The whole of it on the file: the log is longer by the stamped record.\<close>

lemma file_at_written:
  assumes at: "file_at j hdr (d, t) L" "header_of j hdr" "ledger_ok L"
    and r: "takes_record j r" "jn_pending j = Some p"
    and p: "p = (stamped_frame j r)\<lparr>pd_done := pd_done p\<rparr>" "pd_done p \<le> length (pd_bytes p)"
    and j': "j' = j\<lparr>jn_pending := None, jn_chain := ChainState_resume (pd_link p) (pd_seq p),
        jn_written := pd_seq p, jn_good_bytes := jn_good_bytes j + of_nat (length (pd_bytes p)),
        jn_since_sync := s, jn_degraded := deg, jn_dedup := dd\<rparr>"
  shows "file_at j' hdr (d, t @ drop (pd_done p) (pd_bytes p)) (L\<lparr>lg_records := lg_records L @ [stamp j r]\<rparr>)"
    and "header_of j' hdr" "pending_ok j'"
proof -
  define c where "c = log_start (jn_start j) hdr"
  define ch where "ch = log_chain c (lg_records L)"
  have f: "log_ok (jn_shard j) (jn_segment j) c (lg_records L)"
    "d @ t = hdr @ log_bytes c (lg_records L) @ take (pd_done p) (pd_bytes p)"
    "length hdr + length (log_bytes c (lg_records L)) < 2 ^ 64"
    "jn_good_bytes j = of_nat (length hdr + length (log_bytes c (lg_records L)))"
    "jn_genesis j = start_head (jn_start j) hdr" "jn_chain j = ch"
    "jn_written j = of_nat (length (lg_records L))"
    "0 < lg_acked L \<longrightarrow> length hdr + length (log_bytes c (take (lg_acked L) (lg_records L))) \<le> length d"
    using at(1) r(2) by (auto simp: file_at_def c_def ch_def inflight_def Let_def)
  have len: "ch_length ch = jn_written j"
    by (simp add: ch_def log_chain_length c_def log_start_def ChainState_resume_def f(7))
  note fr = stamped_frame_entry [OF f(6) len, of r]
  have pb: "pd_bytes p = log_bytes ch [stamp j r]" "pd_link p = pd_link (stamped_frame j r)"
    "pd_seq p = pd_seq (stamped_frame j r)"
    using fr(1) by (subst p(1), simp)+
  have "unat (jn_good_bytes j) = length hdr + length (log_bytes c (lg_records L))"
    unfolding f(4) by (rule unat_of_nat_u64 [OF f(3)])
  then have small: "length hdr + length (log_bytes c (lg_records L)) + length (pd_bytes p) < 2 ^ 64"
    using r(1) pb(1) fr(1) by (simp add: takes_record_def)
  have "(d @ t) @ drop (pd_done p) (pd_bytes p) = hdr @ log_bytes c (lg_records L) @ pd_bytes p"
    unfolding f(2) by simp
  moreover have "entry_ok (jn_shard j) (jn_segment j) ch (stamp j r)"
    by (rule entry_ok_stamp [OF r(1) f(6) len])
  ultimately show "file_at j' hdr (d, t @ drop (pd_done p) (pd_bytes p)) (L\<lparr>lg_records := lg_records L @ [stamp j r]\<rparr>)"
    using f(1,3-8) small pb fr at(3)
    by (simp add: file_at_def j' Let_def inflight_def c_def [symmetric] ch_def [symmetric] ledger_ok_def)
  show "header_of j' hdr" "pending_ok j'" using at(2) by (simp_all add: header_of_def j' pending_ok_def)
qed

text \<open>What a journal that is up leaves behind, and what a power cut leaves of that.\<close>

lemma inflight_torn:
  assumes "pending_ok j"
  shows "torn (inflight j)"
proof (cases "jn_pending j")
  case (Some p)
  with assms obtain r where r: "takes_record j r"
    and p: "p = (stamped_frame j r)\<lparr>pd_done := pd_done p\<rparr>" "pd_done p < length (pd_bytes p)"
    by (auto simp: pending_ok_def)
  have "pd_bytes p = pd_bytes (stamped_frame j r)" by (subst p(1)) simp
  then have "torn (take (pd_done p) (pd_bytes p))"
    using torn_take r p(2) by (auto simp: takes_record_def stamped_frame_def Let_def)
  then show ?thesis by (simp add: inflight_def Some)
qed (simp add: inflight_def)

lemma file_disk:
  assumes "file_at j hdr x L" "header_of j hdr" "pending_ok j"
  shows "disk_ok j x L"
proof -
  define c where "c = log_start (jn_start j) hdr"
  have f: "log_ok (jn_shard j) (jn_segment j) c (lg_records L)"
    "fst x @ snd x = hdr @ log_bytes c (lg_records L) @ inflight j"
    "length hdr + length (log_bytes c (lg_records L)) < 2 ^ 64"
    "jn_good_bytes j = of_nat (length hdr + length (log_bytes c (lg_records L)))"
    "0 < lg_acked L \<longrightarrow> length hdr + length (log_bytes c (take (lg_acked L) (lg_records L))) \<le> length (fst x)"
    using assms(1) by (auto simp: file_at_def c_def Let_def)
  have "torn (inflight j) \<and> length hdr + length (log_bytes c (lg_records L)) + length (inflight j) < 2 ^ 64"
  proof (cases "jn_pending j")
    case None
    then show ?thesis using f(3) by (simp add: inflight_def)
  next
    case (Some p)
    with assms(3) obtain r where r: "takes_record j r"
      and p: "p = (stamped_frame j r)\<lparr>pd_done := pd_done p\<rparr>" "pd_done p < length (pd_bytes p)"
      by (auto simp: pending_ok_def)
    have pb: "pd_bytes p = pd_bytes (stamped_frame j r)" by (subst p(1)) simp
    have "unat (jn_good_bytes j) = length hdr + length (log_bytes c (lg_records L))"
      unfolding f(4) by (rule unat_of_nat_u64 [OF f(3)])
    then show ?thesis
      using r p(2) Some inflight_torn [OF assms(3)] unfolding pb
      by (simp add: inflight_def takes_record_def pb)
  qed
  then show ?thesis
    unfolding disk_ok_def disk_at_def Let_def c_def [symmetric]
    using f assms(2) by (intro exI [of _ hdr]) (auto simp: c_def)
qed

lemma disk_small: "disk_ok j x L \<Longrightarrow> length (lg_records L) < 2 ^ 64"
proof -
  assume "disk_ok j x L"
  then obtain hdr z where
    "length hdr + length (log_bytes (log_start (jn_start j) hdr) (lg_records L)) + length (z :: bytes) < 2 ^ 64"
    unfolding disk_ok_def disk_at_def Let_def by blast
  then show ?thesis
    using length_log_bytes [of "lg_records L" "log_start (jn_start j) hdr"] by linarith
qed

lemma disk_cut:
  assumes "disk_ok j (d, t) L"
  shows "disk_ok j (d @ take k t, []) L"
proof -
  have "prefix (d @ take k t) q" if "prefix (d @ t) q" for q
    using that take_is_prefix [of k t] by (metis prefix_order.trans same_prefix_prefix)
  then show ?thesis using assms by (fastforce simp: disk_ok_def disk_at_def Let_def)
qed

lemma mark_cut: "mark_ok (d, t) a \<Longrightarrow> mark_ok (d @ take k t, []) a"
  by (auto simp: mark_ok_def) (metis prefix_order.trans same_prefix_prefix take_is_prefix)

lemma mark_mono: "mark_ok y a \<Longrightarrow> a \<le> b \<Longrightarrow> mark_ok y b"
  by (auto simp: mark_ok_def intro: order_trans)

subsection \<open>The write loops\<close>

context io_contract
begin

text \<open>What may change: one file, the rest of the storage stays as it was.\<close>

definition same_io :: "'io \<Rightarrow> 'io \<Rightarrow> bool" where
  "same_io io io' \<longleftrightarrow> wf io' \<and> names io' = names io \<and> honest io' = honest io"

lemma same_io_trans: "same_io io io1 \<Longrightarrow> same_io io1 io2 \<Longrightarrow> same_io io io2"
  by (simp add: same_io_def)

lemma append_all_sto:
  assumes "append_all I f buf pos k io = (res, io')" "wf io" "sto io f = Some (d, t)" "pos \<le> length buf"
  shows "same_io io io' \<and> (\<exists>m. sto io' = (sto io)(f \<mapsto> (d, t @ take m (drop pos buf))) \<and>
     (res = Inr () \<longrightarrow> m = length buf - pos)) \<and> (\<forall>e. res = Inl e \<longrightarrow> (\<exists>i. e = JournalIo i))"
  using assms
proof (induction "10001 - k" arbitrary: pos k io t rule: less_induct)
  case less
  show ?case
  proof (cases "length buf \<le> pos \<or> 10000 < k + 1")
    case True
    then have "io' = io" "length buf \<le> pos \<or> res = Inl (JournalIo NoSpace)"
      "res = Inr () \<or> res = Inl (JournalIo NoSpace)"
      using less.prems(1) by (auto simp: append_all.simps [of _ _ _ _ k] Let_def split: if_splits)
    then show ?thesis
      using less.prems(2-4)
      by (auto simp: same_io_def fun_upd_idem intro!: exI [of _ 0])
  next
    case False
    then have k: "10001 - (k + 1) < 10001 - k" by (auto simp: diff_less_mono2)
    obtain r io1 where a: "io_append I f (drop pos buf) io = (r, io1)" by fastforce
    note keep = append_keeps [OF less.prems(2) a]
    have res: "append_all I f buf pos k io = (case r of
        Inr n \<Rightarrow> append_all I f buf (pos + n) (k + 1) io1
      | Inl e \<Rightarrow> if e = NoSpace then append_all I f buf pos (k + 1) io1 else (Inl (JournalIo e), io1))"
      using False a by (subst append_all.simps) (simp add: Let_def split: sum.split)
    show ?thesis
    proof (cases r)
      case (Inl e)
      with a have sto1: "sto io1 = sto io" using append_err less.prems(2) by blast
      show ?thesis
      proof (cases "e = NoSpace")
        case True
        with res Inl less.prems(1) have "append_all I f buf pos (k + 1) io1 = (res, io')" by simp
        with less.hyps [OF k, of pos io1 t] False keep sto1 less.prems(3,4)
        show ?thesis by (simp add: same_io_def)
      next
        case no: False
        with res Inl less.prems(1) show ?thesis
          using keep sto1 less.prems(3) by (auto simp: same_io_def fun_upd_idem intro!: exI [of _ 0])
      qed
    next
      case (Inr n)
      from append_ok [OF less.prems(2)] a Inr less.prems(3) have n: "n \<le> length buf - pos"
        and sto1: "sto io1 = (sto io)(f \<mapsto> (d, t @ take n (drop pos buf)))" by fastforce+
      from res Inr less.prems(1) have ap: "append_all I f buf (pos + n) (k + 1) io1 = (res, io')" by simp
      have "wf io1" "sto io1 f = Some (d, t @ take n (drop pos buf))" "pos + n \<le> length buf"
        using keep sto1 n less.prems(4) by simp_all
      from less.hyps [OF k ap this] obtain m where io1: "same_io io1 io'" and
        m: "sto io' = (sto io1)(f \<mapsto> (d, (t @ take n (drop pos buf)) @ take m (drop (pos + n) buf)))"
        "res = Inr () \<longrightarrow> m = length buf - (pos + n)" and e: "\<forall>e. res = Inl e \<longrightarrow> (\<exists>i. e = JournalIo i)"
        by blast
      have "take n (drop pos buf) @ take m (drop (pos + n) buf) = take (n + m) (drop pos buf)"
        by (subst take_add) (simp add: add.commute)
      then have "sto io' = (sto io)(f \<mapsto> (d, t @ take (n + m) (drop pos buf)))"
        using m(1) sto1 by simp
      moreover have "res = Inr () \<longrightarrow> n + m = length buf - pos" using m(2) n by linarith
      ultimately show ?thesis using same_io_trans io1 keep e by (auto simp: same_io_def)
    qed
  qed
qed

lemma push_loop_sto:
  assumes "push_loop I f buf pos deg io = (err, pos', deg', io')" "wf io" "sto io f = Some (d, t)"
    "pos \<le> length buf"
  shows "same_io io io' \<and> pos \<le> pos' \<and> pos' \<le> length buf \<and>
     sto io' = (sto io)(f \<mapsto> (d, t @ take (pos' - pos) (drop pos buf))) \<and>
     (\<forall>e. err = Some e \<longrightarrow> pos' < length buf)"
  using assms
proof (induction "length buf - pos" arbitrary: pos io t rule: less_induct)
  case less
  show ?case
  proof (cases "length buf \<le> pos")
    case True
    then show ?thesis
      using less.prems by (simp add: push_loop.simps [of _ _ _ pos] same_io_def fun_upd_idem)
  next
    case False
    obtain r io1 where a: "io_append I f (drop pos buf) io = (r, io1)" by fastforce
    note keep = append_keeps [OF less.prems(2) a]
    show ?thesis
    proof (cases "\<exists>n. r = Inr n \<and> n \<noteq> 0")
      case True
      then obtain n where r: "r = Inr n" "n \<noteq> 0" by blast
      from append_ok [OF less.prems(2)] a r less.prems(3) have n: "n \<le> length buf - pos"
        and sto1: "sto io1 = (sto io)(f \<mapsto> (d, t @ take n (drop pos buf)))" by fastforce+
      have "push_loop I f buf (pos + n) deg io1 = (err, pos', deg', io')"
        using False a r less.prems(1) by (simp add: push_loop.simps [of _ _ _ pos])
      with less.hyps [of "pos + n" io1 "t @ take n (drop pos buf)"] False r keep sto1 n
      have IH: "same_io io1 io'" "pos + n \<le> pos'" "pos' \<le> length buf"
        "sto io' = (sto io1)(f \<mapsto>
           (d, (t @ take n (drop pos buf)) @ take (pos' - (pos + n)) (drop (pos + n) buf)))"
        "\<forall>e. err = Some e \<longrightarrow> pos' < length buf"
        by auto
      have "take n (drop pos buf) @ take (pos' - (pos + n)) (drop (pos + n) buf) =
          take (n + (pos' - (pos + n))) (drop pos buf)"
        by (subst take_add) (simp add: add.commute)
      moreover have "n + (pos' - (pos + n)) = pos' - pos" using IH(2) by simp
      ultimately have "sto io' = (sto io)(f \<mapsto> (d, t @ take (pos' - pos) (drop pos buf)))"
        using IH(4) sto1 by simp
      then show ?thesis using IH keep by (auto simp: same_io_def)
    next
      case stuck: False
      have "sto io1 = sto io"
      proof (cases r)
        case (Inr n)
        with stuck a append_ok [OF less.prems(2)] less.prems(3) show ?thesis
          by (fastforce simp: fun_upd_idem)
      qed (use a append_err less.prems(2) in blast)
      moreover have "io' = io1" "pos' = pos"
        using False a stuck less.prems(1)
        by (auto simp: push_loop.simps [of _ _ _ pos] split: sum.splits if_splits)
      ultimately show ?thesis
        using keep less.prems(3) False by (simp add: same_io_def fun_upd_idem)
    qed
  qed
qed

subsubsection \<open>The watermark\<close>

lemma read_watermark_sto:
  assumes "read_watermark I j io = (m, io')" "wf io" "sto io (jn_watermark j) = Some y" "mark_ok y a"
    "a < 2 ^ 64"
  shows "unat m \<le> a" "same_io io io'" "sto io' = sto io"
proof -
  obtain r io1 where rd: "io_read_all I (jn_watermark j) io = (r, io1)" by fastforce
  have io': "io' = io1" using assms(1) rd
    by (auto simp: read_watermark_def split: sum.splits if_splits)
  show "same_io io io'" "sto io' = sto io"
    using read_keeps [OF assms(2) rd] by (simp_all add: io' same_io_def)
  show "unat m \<le> a"
  proof (cases r)
    case (Inr b)
    with rd read_ok [OF assms(2)] assms(3) have b: "b = fst y @ snd y" by fastforce
    from assms(4) b obtain n where n: "n \<le> a" "prefix b (watermark_bytes (of_nat n))"
      by (auto simp: mark_ok_def)
    have "m = 0 \<or> m = of_nat n"
    proof (cases "length b = 12")
      case True
      have "length (watermark_bytes (of_nat n)) = 12" by (simp add: watermark_bytes_def Let_def)
      with n(2) True have "b = watermark_bytes (of_nat n)"
        by (metis append_eq_conv_conj prefix_def take_all_iff order_refl)
      then have "take 8 b = to_be_bytes (of_nat n :: u64)" by (simp add: watermark_bytes_def Let_def)
      then show ?thesis
        using assms(1) rd Inr by (auto simp: read_watermark_def split: if_splits)
    qed (use assms(1) rd Inr in \<open>simp add: read_watermark_def\<close>)
    moreover have "unat (of_nat n :: u64) = n" using n(1) assms(5) by (intro unat_of_nat_u64) simp
    ultimately show ?thesis using n(1) by auto
  qed (use assms(1) rd in \<open>simp add: read_watermark_def\<close>)
qed

lemma write_watermark_bytes:
  assumes "write_watermark I j io = (r, io')" "wf io" "sto io (jn_watermark j) = Some y"
  shows "same_io io io' \<and>
    ((\<exists>e io1. io_truncate I (jn_watermark j) 0 io = (Inl e, io1)) \<and> sto io' = sto io \<or>
     (\<exists>x z m. sto io' = (sto io)(jn_watermark j \<mapsto> (x, z)) \<and> x @ z = take m (watermark_bytes (jn_acked j)) \<and>
        (r = Inr () \<longrightarrow> m = length (watermark_bytes (jn_acked j)))))"
proof -
  let ?f = "jn_watermark j" and ?b = "watermark_bytes (jn_acked j)"
  obtain d t where y: "y = (d, t)" by fastforce
  obtain r1 io1 where tr: "io_truncate I ?f 0 io = (r1, io1)" by fastforce
  note k1 = truncate_keeps [OF assms(2) tr]
  show ?thesis
  proof (cases r1)
    case (Inl e)
    then have "io' = io1" "sto io1 = sto io"
      using tr assms(1) truncate_err [OF assms(2)] by (auto simp: write_watermark_def)
    then show ?thesis using k1 tr Inl by (auto simp: same_io_def)
  next
    case (Inr u)
    from truncate_ok [OF assms(2)] tr Inr assms(3) y have
      s1: "sto io1 = (sto io)(?f \<mapsto> ([], []))" by fastforce
    obtain r2 io2 where ap: "append_all I ?f ?b 0 0 io1 = (r2, io2)" by fastforce
    from append_all_sto [OF ap, of "[]" "[]"] k1 s1 obtain m where
      k2: "same_io io1 io2" and s2: "sto io2 = (sto io)(?f \<mapsto> ([], take m ?b))"
      and m: "r2 = Inr () \<longrightarrow> m = length ?b" by auto
    show ?thesis
    proof (cases r2)
      case (Inl e)
      with ap tr \<open>r1 = Inr u\<close> assms(1) have "io' = io2" "r = Inl e" by (simp_all add: write_watermark_def)
      moreover have "same_io io io2" using k1 k2 by (simp add: same_io_def)
      moreover have "[] @ take m ?b = take m ?b" by simp
      ultimately show ?thesis using s2 by blast
    next
      case (Inr v)
      obtain r3 io3 where fs: "io_fsync I ?f io2 = (r3, io3)" by fastforce
      have wf2: "wf io2" using k2 by (simp add: same_io_def)
      note k3 = fsync_keeps [OF wf2 fs]
      have "io' = io3"
        using Inr ap tr \<open>r1 = Inr u\<close> fs assms(1) by (auto simp: write_watermark_def split: sum.splits)
      moreover have "\<exists>x z. sto io3 = (sto io)(?f \<mapsto> (x, z)) \<and> x @ z = take m ?b"
      proof (cases r3)
        case (Inl e)
        with fs fsync_err wf2 have "sto io3 = sto io2" by blast
        with s2 show ?thesis by auto
      next
        case (Inr w)
        with fsync_ok [OF wf2] fs s2 show ?thesis by fastforce
      qed
      moreover have "same_io io io3" using k1 k2 k3 by (simp add: same_io_def)
      moreover have "m = length ?b" using m Inr by simp
      ultimately show ?thesis by blast
    qed
  qed
qed

lemma write_watermark_sto:
  assumes "write_watermark I j io = (r, io')" "wf io" "sto io (jn_watermark j) = Some y" "mark_ok y a"
    "unat (jn_acked j) \<le> a"
  shows "same_io io io' \<and> (\<exists>y'. sto io' = (sto io)(jn_watermark j \<mapsto> y') \<and> mark_ok y' a)"
proof -
  have ok: "mark_ok (x, z) a" if "x @ z = take m (watermark_bytes (jn_acked j))" for x z m
    unfolding mark_ok_def using that assms(5) take_is_prefix
    by (intro exI [of _ "unat (jn_acked j)"]) simp
  from write_watermark_bytes [OF assms(1-3)] consider
    "same_io io io'" "sto io' = sto io" |
    x z m where "same_io io io'" "sto io' = (sto io)(jn_watermark j \<mapsto> (x, z))"
      "x @ z = take m (watermark_bytes (jn_acked j))" by blast
  then show ?thesis
  proof cases
    case 1
    then have "sto io' = (sto io)(jn_watermark j \<mapsto> y)" using assms(3) by (simp add: fun_upd_idem)
    then show ?thesis using 1(1) assms(4) by blast
  next
    case 2
    then show ?thesis using ok by blast
  qed
qed

subsubsection \<open>The header\<close>

lemma read_sto:
  assumes "wf io" "io_read_all I f io = (r, io')" "sto io f = Some x"
  shows "same_io io io'" "sto io' = sto io" "r = Inr b \<Longrightarrow> b = fst x @ snd x"
  using read_keeps [OF assms(1,2)] read_ok [OF assms(1), of f b io'] assms(2,3)
  by (auto simp: same_io_def)

lemma ensure_header_full:
  assumes "ensure_header I j io = (res, io')" "wf io" "sto io (jn_file j) = Some x"
    and "header_of j hdr" "prefix hdr (fst x @ snd x)"
  shows "same_io io io'" "sto io' = sto io" "res = Inr (length hdr) \<or> (\<exists>i. res = Inl (JournalIo i))"
proof -
  obtain r io1 where rd: "io_read_all I (jn_file j) io = (r, io1)" by fastforce
  note k = read_sto [OF assms(2) rd assms(3)]
  from assms(4,5) obtain ts q where q: "fst x @ snd x = hdr @ q"
    and hdr: "hdr = encode_segment_header (jn_shard j) (jn_segment j) ts"
    by (auto simp: header_of_def elim: prefixE)
  have "io' = io1 \<and> (res = Inr (length hdr) \<or> (\<exists>i. res = Inl (JournalIo i)))"
  proof (cases r)
    case (Inl e)
    then show ?thesis using assms(1) rd by (auto simp: ensure_header_def)
  next
    case (Inr b)
    with k(3) q have "b = hdr @ q" by simp
    then show ?thesis
      using assms(1) rd Inr by (simp add: ensure_header_def hdr decode_encode_header)
  qed
  then show "same_io io io'" "sto io' = sto io" "res = Inr (length hdr) \<or> (\<exists>i. res = Inl (JournalIo i))"
    using k by auto
qed

lemma write_header_sto:
  assumes "write_header I j io = (res, io')" "wf io" "sto io (jn_file j) = Some x"
  defines "hdr \<equiv> encode_segment_header (jn_shard j) (jn_segment j) (jn_created_at j)"
  shows "same_io io io' \<and> (\<exists>x'. sto io' = (sto io)(jn_file j \<mapsto> x') \<and>
     (x' = x \<and> (\<exists>i. res = Inl (JournalIo i)) \<or>
      prefix (fst x' @ snd x') hdr \<and> (\<exists>i. res = Inl (JournalIo i)) \<or>
      fst x' @ snd x' = hdr \<and> res = Inr (length hdr)))"
proof -
  let ?f = "jn_file j"
  obtain d t where x: "x = (d, t)" by fastforce
  obtain r1 io1 where tr: "io_truncate I ?f 0 io = (r1, io1)" by fastforce
  note k1 = truncate_keeps [OF assms(2) tr]
  show ?thesis
  proof (cases r1)
    case (Inl e)
    with tr truncate_err assms(2) have "sto io1 = sto io" by blast
    moreover have "io' = io1" "res = Inl (JournalIo e)"
      using Inl tr assms(1) by (simp_all add: write_header_def)
    moreover have "sto io = (sto io)(?f \<mapsto> x)" using assms(3) by (simp add: fun_upd_idem)
    ultimately show ?thesis using k1 by (metis same_io_def)
  next
    case (Inr u)
    from truncate_ok [OF assms(2)] tr Inr assms(3) x have
      s1: "sto io1 = (sto io)(?f \<mapsto> ([], []))" by fastforce
    obtain r2 io2 where ap: "append_all I ?f hdr 0 0 io1 = (r2, io2)" by fastforce
    from append_all_sto [OF ap, of "[]" "[]"] k1 s1 obtain m where
      k2: "same_io io1 io2" and s2: "sto io2 = (sto io)(?f \<mapsto> ([], take m hdr))"
      and m: "r2 = Inr () \<longrightarrow> m = length hdr" and e: "\<forall>e. r2 = Inl e \<longrightarrow> (\<exists>i. e = JournalIo i)"
      by auto
    have same: "same_io io io2" using k1 k2 by (simp add: same_io_def)
    show ?thesis
    proof (cases r2)
      case (Inl e2)
      with ap tr \<open>r1 = Inr u\<close> assms(1) have "io' = io2" "res = Inl e2"
        by (simp_all add: write_header_def Let_def hdr_def)
      with s2 same e Inl show ?thesis
        by (auto simp: take_is_prefix intro!: exI [of _ "([], take m hdr)"] simp del: split_paired_Ex)
    next
      case (Inr v)
      with ap tr \<open>r1 = Inr u\<close> assms(1) have "io' = io2" "res = Inr (length hdr)"
        by (simp_all add: write_header_def Let_def hdr_def)
      with s2 same m Inr show ?thesis
        by (intro conjI exI [of _ "([], take m hdr)"]) auto
    qed
  qed
qed

lemma ensure_header_torn:
  assumes "ensure_header I j io = (res, io')" "wf io" "sto io (jn_file j) = Some x"
    and "header_of j hdr" "strict_prefix (fst x @ snd x) hdr"
  shows "same_io io io' \<and> (\<exists>x' hdr'. sto io' = (sto io)(jn_file j \<mapsto> x') \<and> header_of j hdr' \<and>
     (prefix (fst x' @ snd x') hdr' \<and> (\<exists>i. res = Inl (JournalIo i)) \<or>
      fst x' @ snd x' = hdr' \<and> res = Inr (length hdr')))"
proof -
  obtain r io1 where rd: "io_read_all I (jn_file j) io = (r, io1)" by fastforce
  note k = read_sto [OF assms(2) rd assms(3)]
  from assms(4) obtain ts where hdr: "hdr = encode_segment_header (jn_shard j) (jn_segment j) ts"
    by (auto simp: header_of_def)
  have old: "prefix (fst x @ snd x) hdr" "sto io = (sto io)(jn_file j \<mapsto> x)"
    using assms(3,5) by (simp_all add: strict_prefix_def fun_upd_idem)
  show ?thesis
  proof (cases r)
    case (Inl e)
    then have "io' = io1" "res = Inl (JournalIo e)" using assms(1) rd by (auto simp: ensure_header_def)
    then show ?thesis using k(1,2) old assms(4) by metis
  next
    case (Inr b)
    with k(3) have b: "b = fst x @ snd x" by simp
    have "decode_segment_header b = Inl Truncated"
      using torn_header assms(5) unfolding hdr b by blast
    moreover have "length b \<le> MAX_SEGMENT_HEADER_LEN"
      using length_header prefix_length_le [OF old(1)] unfolding hdr b by (meson order_trans)
    ultimately have w: "write_header I j io1 = (res, io')"
      using assms(1) rd Inr by (simp add: ensure_header_def split: if_splits)
    define hdr' where "hdr' = encode_segment_header (jn_shard j) (jn_segment j) (jn_created_at j)"
    have "wf io1" "sto io1 (jn_file j) = Some x" using k assms(3) by (simp_all add: same_io_def)
    from write_header_sto [OF w this] obtain x' where "same_io io1 io'"
      and s: "sto io' = (sto io)(jn_file j \<mapsto> x')"
      and c: "x' = x \<and> (\<exists>i. res = Inl (JournalIo i)) \<or>
      prefix (fst x' @ snd x') hdr' \<and> (\<exists>i. res = Inl (JournalIo i)) \<or>
      fst x' @ snd x' = hdr' \<and> res = Inr (length hdr')"
      using k(2) unfolding hdr'_def by auto
    have "header_of j hdr'" by (auto simp: header_of_def hdr'_def)
    have same: "same_io io io'" using k(1) \<open>same_io io1 io'\<close> by (rule same_io_trans)
    from c show ?thesis
    proof
      assume "x' = x \<and> (\<exists>i. res = Inl (JournalIo i))"
      then show ?thesis
        using same s old(1) assms(4) by (intro conjI exI [of _ x] exI [of _ hdr]) simp_all
    next
      assume "prefix (fst x' @ snd x') hdr' \<and> (\<exists>i. res = Inl (JournalIo i)) \<or>
        fst x' @ snd x' = hdr' \<and> res = Inr (length hdr')"
      then show ?thesis
        using same s \<open>header_of j hdr'\<close> by (intro conjI exI [of _ x'] exI [of _ hdr']) simp_all
    qed
  qed
qed

lemma header_of_length: "header_of j hdr \<Longrightarrow> length hdr < 2 ^ 64"
proof -
  assume "header_of j hdr"
  then have "length hdr \<le> 34"
    using length_header by (auto simp: header_of_def MAX_SEGMENT_HEADER_LEN_def)
  then show ?thesis by simp
qed

lemma ensure_header_disk:
  assumes "ensure_header I j io = (res, io')" "wf io" "sto io (jn_file j) = Some x"
    and "disk_ok j x L" "ledger_ok L"
  obtains x' L' where "same_io io io'" "sto io' = (sto io)(jn_file j \<mapsto> x')"
    "ledger_step L L'" "lg_acked L' = lg_acked L" "disk_ok j x' L'"
    "\<exists>n. L' = L\<lparr>lg_records := take n (lg_records L)\<rparr> \<and> lg_acked L \<le> n"
    "\<And>e. res = Inl e \<Longrightarrow> \<exists>i. e = JournalIo i"
    "\<And>n. res = Inr n \<Longrightarrow>
       \<exists>hdr. header_of j hdr \<and> n = length hdr \<and> disk_at j hdr x' L' \<and> prefix hdr (fst x' @ snd x')"
proof -
  from assms(4) obtain hdr where hdr: "header_of j hdr" and at: "disk_at j hdr x L"
    by (auto simp: disk_ok_def)
  show thesis
  proof (cases "prefix hdr (fst x @ snd x)")
    case True
    note e = ensure_header_full [OF assms(1-3) hdr True]
    have keep: "L = L\<lparr>lg_records := take (length (lg_records L)) (lg_records L)\<rparr>" by simp
    have rec: "\<exists>n. L = L\<lparr>lg_records := take n (lg_records L)\<rparr> \<and> lg_acked L \<le> n"
      using keep assms(5) unfolding ledger_ok_def by blast
    show thesis
      by (rule that [of x L])
         (use e hdr at True assms(3,4) rec in \<open>auto simp: fun_upd_idem intro: ledger_skip\<close>)
  next
    case False
    obtain w where "prefix (fst x @ snd x) (hdr @ w)"
      using at by (auto simp: disk_at_def Let_def)
    with False have torn: "strict_prefix (fst x @ snd x) hdr"
      by (intro prefix_short)
    have z: "lg_acked L = 0"
      using at prefix_length_less [OF torn] by (auto simp: disk_at_def Let_def)
    define L' where "L' = L\<lparr>lg_records := take 0 (lg_records L)\<rparr>"
    from ensure_header_torn [OF assms(1-3) hdr torn] obtain x' hdr' where
      e: "same_io io io'" "sto io' = (sto io)(jn_file j \<mapsto> x')" and hdr': "header_of j hdr'"
      and res: "prefix (fst x' @ snd x') hdr' \<and> (\<exists>i. res = Inl (JournalIo i)) \<or>
        fst x' @ snd x' = hdr' \<and> res = Inr (length hdr')"
      by blast
    have "prefix (fst x' @ snd x') hdr'" using res by auto
    then have at': "disk_at j hdr' x' L'"
      using header_of_length [OF hdr'] z by (auto simp: disk_at_def L'_def intro!: exI [of _ "[]"])
    show thesis
    proof (rule that [of x' L'])
      show "ledger_step L L'" unfolding L'_def by (rule ledger_crash) (simp add: z)
      show "disk_ok j x' L'" using at' hdr' by (auto simp: disk_ok_def)
      show "\<exists>n. L' = L\<lparr>lg_records := take n (lg_records L)\<rparr> \<and> lg_acked L \<le> n"
        using z unfolding L'_def by (intro exI [of _ 0]) simp
      show "\<exists>hdr. header_of j hdr \<and> n = length hdr \<and> disk_at j hdr x' L' \<and> prefix hdr (fst x' @ snd x')"
        if "res = Inr n" for n
        using that res hdr' at' by (intro exI [of _ hdr']) auto
    qed (use e res in \<open>auto simp: L'_def\<close>)
  qed
qed

subsubsection \<open>The rest of recovery\<close>

lemma adopt_up:
  assumes res: "adopt I j w dis io = (rep, j', io')"
    and hdr: "header_of j hdr" "jn_genesis j = start_head (jn_start j) hdr"
    and x: "fst x @ snd x = hdr @ log_bytes c rs" "length (fst x @ snd x) < 2 ^ 64"
      "c = log_start (jn_start j) hdr" "log_ok (jn_shard j) (jn_segment j) c rs"
    and w: "wk_chain w = log_chain c rs" "wk_good_bytes w = of_nat (length hdr + length (log_bytes c rs))"
    and dur: "0 < a \<longrightarrow> length hdr + length (log_bytes c (take a rs)) \<le> length (fst x)"
    and a: "a \<le> length rs" "unat (jn_acked j) \<le> a"
    and sto: "wf io" "honest io" "sto io (jn_file j) = Some x" "sto io (jn_watermark j) = Some y"
      "mark_ok y a"
      "names io name = Some (jn_file j)" "names io (name @ ascii ''.ack'') = Some (jn_watermark j)"
  shows "sys_rel sto names wf honest name (Up j' io') \<lparr>lg_records = rs, lg_acked = a\<rparr>"
    and "rv_max_seq rep = of_nat (length rs)" "rv_violation rep = None" "rv_stopped rep = wk_stopped w"
    and "rv_head rep = ch_head (log_chain c rs)" "rv_good_bytes rep = wk_good_bytes w"
    and "jn_dedup j' = dedup_remember_all (jn_dedup j) (wk_records w)"
proof -
  obtain m io1 where rd: "read_watermark I j io = (m, io1)" by fastforce
  have "length (log_bytes c rs) < 2 ^ 64" using x(1,2) by simp
  then have rs: "length rs < 2 ^ 64" using length_log_bytes [of rs c] by linarith
  with a(1) have "a < 2 ^ 64" by simp
  note mk = read_watermark_sto [OF rd sto(1,4,5) this]
  have len: "ch_length (log_chain c rs) = of_nat (length rs)"
    by (simp add: log_chain_length x(3) log_start_def ChainState_resume_def)
  have le: "k \<le> of_nat (length rs)" if "unat k \<le> a" for k :: u64
    using that a(1) rs by (simp add: word_le_nat_alt unat_of_nat_u64)
  have j': "j' = j\<lparr>jn_dedup := dedup_remember_all (jn_dedup j) (wk_records w), jn_chain := wk_chain w,
      jn_written := of_nat (length rs), jn_acked := jn_acked j, jn_since_sync := 0, jn_pending := None,
      jn_degraded := False, jn_good_bytes := wk_good_bytes w\<rparr>" and io': "io' = io1"
    using res rd le [OF a(2)] by (simp_all add: adopt_def w(1) len Let_def min_absorb1)
  show "rv_max_seq rep = of_nat (length rs)" "rv_violation rep = None" "rv_stopped rep = wk_stopped w"
    "rv_head rep = ch_head (log_chain c rs)" "rv_good_bytes rep = wk_good_bytes w"
    using res rd le [OF a(2)] le [OF mk(1)] by (auto simp: adopt_def len w Let_def not_less)
  show "jn_dedup j' = dedup_remember_all (jn_dedup j) (wk_records w)" by (simp add: j')
  have "file_at j' hdr x \<lparr>lg_records = rs, lg_acked = a\<rparr>"
    using x w dur hdr(2) by (simp add: file_at_def j' inflight_def Let_def)
  moreover have "header_of j' hdr" "pending_ok j'"
    using hdr(1) by (simp_all add: j' header_of_def pending_ok_def)
  ultimately show "sys_rel sto names wf honest name (Up j' io') \<lparr>lg_records = rs, lg_acked = a\<rparr>"
    using mk(2,3) sto a by (auto simp: file_ok_def j' io' same_io_def ledger_ok_def)
qed

lemma genesis_irrelevant [simp]:
  "header_of (j\<lparr>jn_genesis := g\<rparr>) hdr = header_of j hdr"
  "disk_at (j\<lparr>jn_genesis := g\<rparr>) hdr x L = disk_at j hdr x L"
  "disk_ok (j\<lparr>jn_genesis := g\<rparr>) x L = disk_ok j x L"
  by (simp_all add: header_of_def disk_at_def disk_ok_def)

text \<open>After the header is in place: the file is read, walked, cut where the walk stopped, adopted.\<close>

lemma recover_tail:
  assumes res: "recover I j io0 = (res, j', io')" and eh: "ensure_header I j io0 = (Inr (length hdr), io)"
    and hdr: "header_of j hdr" and at: "disk_at j hdr x L" and pre: "prefix hdr (fst x @ snd x)"
    and L: "ledger_ok L" "unat (jn_acked j) \<le> lg_acked L"
    and sto: "wf io" "honest io" "sto io (jn_file j) = Some x" "sto io (jn_watermark j) = Some y"
      "mark_ok y (lg_acked L)"
      "names io name = Some (jn_file j)" "names io (name @ ascii ''.ack'') = Some (jn_watermark j)"
  shows "(\<exists>rep n. res = Inr rep \<and> lg_acked L \<le> n \<and> n \<le> length (lg_records L) \<and>
        sys_rel sto names wf honest name (Up j' io') (L\<lparr>lg_records := take n (lg_records L)\<rparr>) \<and>
        rv_max_seq rep = of_nat n \<and> rv_violation rep = None \<and>
        (rv_max_seq rep = 0 \<longrightarrow> jn_dedup j' = jn_dedup j) \<and>
        (rv_stopped rep = EndOfFile \<or> (\<exists>e. rv_stopped rep = TornTail e))) \<or>
     (\<exists>e. res = Inl e \<and> sys_rel sto names wf honest name (Down j' io') L \<and>
        ((\<exists>i. e = JournalIo i) \<or> (\<exists>p q why. e = CorruptMidFile p why q)))"
proof -
  let ?b = "fst x @ snd x" and ?rs = "lg_records L" and ?g = "start_head (jn_start j) hdr"
  define c where "c = log_start (jn_start j) hdr"
  from disk_walk [OF hdr at pre L(1)] obtain n t h where
    n: "n \<le> length ?rs" "lg_acked L \<le> n" and b: "?b = hdr @ log_bytes c (take n ?rs) @ t"
    and small: "length ?b < 2 ^ 64" and h: "decode_segment_header ?b = Inr h"
    and w: "wk_chain (walk ?b h ?g) = log_chain c (take n ?rs)"
      "wk_good_bytes (walk ?b h ?g) = of_nat (length hdr + length (log_bytes c (take n ?rs)))"
      "if t = [] then wk_stopped (walk ?b h ?g) = EndOfFile
       else \<exists>e. wk_stopped (walk ?b h ?g) = TornTail e"
      "wk_records (walk ?b h ?g) = log_items c (take n ?rs)"
    unfolding c_def by metis
  define j1 where "j1 = j\<lparr>jn_genesis := ?g\<rparr>"
  define good where "good = length hdr + length (log_bytes c (take n ?rs))"
  have lb: "length ?b = good + length t" by (metis add.assoc b good_def length_append)
  have good: "unat (wk_good_bytes (walk ?b h ?g)) = good"
    using small lb by (simp only: w(2) good_def [symmetric]) (simp add: unat_of_nat_u64)
  define dis :: u64 where "dis = of_nat (length ?b) - wk_good_bytes (walk ?b h ?g)"
  have "dis = of_nat (length t)" by (simp only: dis_def lb w(2) good_def [symmetric]) simp
  then have dis: "0 < dis \<longleftrightarrow> t \<noteq> []"
    using small lb by (simp add: word_less_nat_alt unat_of_nat_u64)
  have ok: "log_ok (jn_shard j) (jn_segment j) c (take n ?rs)"
    using at unfolding disk_at_def c_def Let_def by (metis append_take_drop_id log_appends(3))
  have dur: "0 < lg_acked L \<Longrightarrow> length hdr + length (log_bytes c (take (lg_acked L) ?rs)) \<le> min good (length (fst x))"
    using at n(2) log_bytes_take_mono [OF n(2), of c ?rs]
    by (simp add: disk_at_def c_def Let_def good_def)
  have L_eq: "L\<lparr>lg_records := take n ?rs\<rparr> = \<lparr>lg_records = take n ?rs, lg_acked = lg_acked L\<rparr>" by simp
  have down: "sys_rel sto names wf honest name (Down j1 io2) L"
    if "same_io io io2" "sto io2 = sto io" for io2
    using that sto L hdr at by (auto simp: same_io_def j1_def disk_ok_def)
  have up: "sys_rel sto names wf honest name (Up j2 io3) (L\<lparr>lg_records := take n ?rs\<rparr>) \<and>
      rv_max_seq rep = of_nat n \<and> rv_violation rep = None \<and>
      (rv_max_seq rep = 0 \<longrightarrow> jn_dedup j2 = jn_dedup j) \<and>
      (rv_stopped rep = EndOfFile \<or> (\<exists>e. rv_stopped rep = TornTail e))"
    if ad: "adopt I j1 (walk ?b h ?g) dis io2 = (rep, j2, io3)" and io2: "same_io io io2"
      "sto io2 = (sto io)(jn_file j \<mapsto> x')" and x': "fst x' @ snd x' = hdr @ log_bytes c (take n ?rs)"
      "min good (length (fst x)) \<le> length (fst x')" for rep j2 io2 io3 x'
  proof -
    have fw: "jn_file j \<noteq> jn_watermark j"
      using names_inj [OF sto(1,6), of "name @ ascii ''.ack''"] sto(7) by (auto simp: ascii_def)
    have g: "header_of j1 hdr" "jn_genesis j1 = start_head (jn_start j1) hdr"
      using hdr by (simp_all add: j1_def)
    have sm: "length (fst x' @ snd x') < 2 ^ 64" using x'(1) small lb by (simp add: good_def)
    have c1: "c = log_start (jn_start j1) hdr" "log_ok (jn_shard j1) (jn_segment j1) c (take n ?rs)"
      using ok by (simp_all add: j1_def c_def)
    have dur1: "0 < lg_acked L \<longrightarrow>
        length hdr + length (log_bytes c (take (lg_acked L) (take n ?rs))) \<le> length (fst x')"
      using dur x'(2) n(2) by (auto simp: min_absorb1)
    have a: "lg_acked L \<le> length (take n ?rs)" "unat (jn_acked j1) \<le> lg_acked L"
      using n L by (simp_all add: j1_def)
    have st: "wf io2" "honest io2" "sto io2 (jn_file j1) = Some x'"
      "sto io2 (jn_watermark j1) = Some y" "names io2 name = Some (jn_file j1)"
      "names io2 (name @ ascii ''.ack'') = Some (jn_watermark j1)"
      using io2 sto fw by (auto simp: j1_def same_io_def)
    note A = adopt_up [OF ad g x'(1) sm c1 w(1,2) dur1 a st(1-4) sto(5) st(5,6)]
    have "jn_dedup j2 = jn_dedup j" if "rv_max_seq rep = 0"
    proof -
      have "length (take n ?rs) < 2 ^ 64"
        using length_log_bytes [of "take n ?rs" c] small lb good_def by linarith
      moreover have "(of_nat (length (take n ?rs)) :: u64) = 0" using that A(2) by simp
      ultimately have "take n ?rs = []" by (metis length_0_conv unat_0 unat_of_nat_u64)
      then have "wk_records (walk ?b h ?g) = []" by (simp only: w(4) log_items.simps)
      then show ?thesis using A(7) by (simp add: dedup_remember_all_def j1_def)
    qed
    then show ?thesis
      using A w(3) n(1) unfolding L_eq by (simp del: sys_rel.simps add: min_absorb2 split: if_splits)
  qed
  obtain r io1 where rd: "io_read_all I (jn_file j) io = (r, io1)" by fastforce
  note k = read_sto [OF sto(1) rd sto(3)]
  show ?thesis
  proof (cases r)
    case (Inl e)
    then have "res = Inl (JournalIo e)" "j' = j" "io' = io1"
      using res eh rd by (simp_all add: recover_def)
    then show ?thesis using k(1,2) sto L hdr at by (auto simp: same_io_def disk_ok_def)
  next
    case (Inr bs)
    with k(3) have bs: "bs = ?b" by simp
    have tk: "take (length hdr) ?b = hdr" using b by simp
    note rec = res [unfolded recover_def eh rd Inr bs prod.case sum.case h tk Let_def,
      folded j1_def, folded dis_def]
    have wf1: "wf io1" using k(1) by (simp add: same_io_def)
    show ?thesis
    proof (cases "t = []")
      case True
      obtain rep j2 io2 where ad: "adopt I j1 (walk ?b h ?g) dis io1 = (rep, j2, io2)"
        by (metis prod_cases3)
      with rec dis True have eq: "res = Inr rep" "j' = j2" "io' = io2" by auto
      have s1: "sto io1 = (sto io)(jn_file j \<mapsto> x)" using k(2) sto(3) by (simp add: fun_upd_idem)
      have "?b = hdr @ log_bytes c (take n ?rs)" using b True by simp
      from up [OF ad k(1) s1 this] show ?thesis unfolding eq using n by (metis min.cobounded2)
    next
      case False
      show ?thesis
      proof (cases "next_parsable_frame ?b good")
        case (Some p)
        with rec dis False good have "io' = io1" "j' = j1" "\<exists>p q why. res = Inl (CorruptMidFile p why q)"
          by auto
        then show ?thesis using down [OF k(1,2)] by blast
      next
        case None
        obtain r2 io2 where tr: "io_truncate I (jn_file j) (wk_good_bytes (walk ?b h ?g)) io1 = (r2, io2)"
          by fastforce
        have same2: "same_io io io2"
          using truncate_keeps [OF wf1 tr] k(1) by (simp add: same_io_def)
        show ?thesis
        proof (cases r2)
          case (Inl e)
          have "sto io2 = sto io" using truncate_err [OF wf1] tr Inl k(2) by simp
          moreover have "io' = io2" "j' = j1" "res = Inl (JournalIo e)"
            using rec dis False good None tr Inl by (auto simp: j1_def)
          ultimately show ?thesis using down [OF same2] by blast
        next
          case (Inr u)
          obtain rep j2 io3 where ad: "adopt I j1 (walk ?b h ?g) dis io2 = (rep, j2, io3)"
            by (metis prod_cases3)
          have eq: "res = Inr rep" "j' = j2" "io' = io3"
            using rec dis False good None tr Inr ad by (auto simp: j1_def)
          define x' where "x' = (take good (fst x), take (good - length (fst x)) (snd x))"
          have s2: "sto io2 = (sto io)(jn_file j \<mapsto> x')"
            using truncate_ok [OF wf1] tr Inr k(2) sto(3) good by (fastforce simp: x'_def)
          have "fst x' @ snd x' = take good ?b" by (simp add: x'_def)
          then have b': "fst x' @ snd x' = hdr @ log_bytes c (take n ?rs)"
            unfolding b by (simp add: good_def)
          have "min good (length (fst x)) \<le> length (fst x')" by (simp add: x'_def)
          from up [OF ad same2 s2 b' this] show ?thesis unfolding eq using n by blast
        qed
      qed
    qed
  qed
qed

lemma recover_rel:
  assumes res: "recover I j io = (res, j', io')" and rel: "sys_rel sto names wf honest name (Down j io) L"
  shows "\<exists>n. lg_acked L \<le> n \<and>
     ((\<exists>rep. res = Inr rep \<and> n \<le> length (lg_records L) \<and>
         sys_rel sto names wf honest name (Up j' io') (L\<lparr>lg_records := take n (lg_records L)\<rparr>) \<and>
         rv_max_seq rep = of_nat n \<and> rv_violation rep = None \<and>
         (rv_max_seq rep = 0 \<longrightarrow> jn_dedup j' = jn_dedup j) \<and>
         (rv_stopped rep = EndOfFile \<or> (\<exists>e. rv_stopped rep = TornTail e))) \<or>
      (\<exists>e. res = Inl e \<and>
         sys_rel sto names wf honest name (Down j' io') (L\<lparr>lg_records := take n (lg_records L)\<rparr>) \<and>
         ((\<exists>i. e = JournalIo i) \<or> (\<exists>p q why. e = CorruptMidFile p why q))))"
proof -
  from rel obtain x y where sto: "wf io" "honest io" "sto io (jn_file j) = Some x"
    "sto io (jn_watermark j) = Some y" "mark_ok y (lg_acked L)" "names io name = Some (jn_file j)"
    "names io (name @ ascii ''.ack'') = Some (jn_watermark j)"
    and L: "ledger_ok L" "unat (jn_acked j) \<le> lg_acked L" and disk: "disk_ok j x L"
    by auto
  have fw: "jn_file j \<noteq> jn_watermark j"
    using names_inj [OF sto(1,6), of "name @ ascii ''.ack''"] sto(7) by (auto simp: ascii_def)
  obtain r io1 where eh: "ensure_header I j io = (r, io1)" by fastforce
  from ensure_header_disk [OF eh sto(1,3) disk L(1)] obtain x' L' m where
    k: "same_io io io1" "sto io1 = (sto io)(jn_file j \<mapsto> x')" "ledger_step L L'" "lg_acked L' = lg_acked L"
      "disk_ok j x' L'"
    and L': "L' = L\<lparr>lg_records := take m (lg_records L)\<rparr>" "lg_acked L \<le> m"
    and err: "\<And>e. r = Inl e \<Longrightarrow> \<exists>i. e = JournalIo i"
    and full: "\<And>n. r = Inr n \<Longrightarrow>
       \<exists>hdr. header_of j hdr \<and> n = length hdr \<and> disk_at j hdr x' L' \<and> prefix hdr (fst x' @ snd x')"
    by metis
  have sto1: "wf io1" "honest io1" "sto io1 (jn_file j) = Some x'" "sto io1 (jn_watermark j) = Some y"
    "mark_ok y (lg_acked L')" "names io1 name = Some (jn_file j)"
    "names io1 (name @ ascii ''.ack'') = Some (jn_watermark j)"
    using k(1,2,4) sto fw by (auto simp: same_io_def)
  have Lk: "ledger_ok L'" "unat (jn_acked j) \<le> lg_acked L'"
    using ledger_step_ok [OF k(3) L(1)] L(2) k(4) by simp_all
  have take2: "L'\<lparr>lg_records := take n (lg_records L')\<rparr> = L\<lparr>lg_records := take (min n m) (lg_records L)\<rparr>" for n
    by (simp add: L'(1))
  show ?thesis
  proof (cases r)
    case (Inl e)
    then have "res = Inl e" "j' = j" "io' = io1" using res eh by (simp_all add: recover_def)
    moreover have "sys_rel sto names wf honest name (Down j io1) L'"
      using sto1 Lk k(5) by auto
    ultimately show ?thesis
      using err [OF Inl] L' by (intro exI [of _ m]) (auto simp del: sys_rel.simps)
  next
    case (Inr n)
    from full [OF Inr] obtain hdr where hdr: "header_of j hdr" "n = length hdr" "disk_at j hdr x' L'"
      "prefix hdr (fst x' @ snd x')" by blast
    have eh': "ensure_header I j io = (Inr (length hdr), io1)" using eh Inr hdr(2) by simp
    from recover_tail [OF res eh' hdr(1,3,4) Lk sto1] show ?thesis
    proof
      assume "\<exists>rep n. res = Inr rep \<and> lg_acked L' \<le> n \<and> n \<le> length (lg_records L') \<and>
        sys_rel sto names wf honest name (Up j' io') (L'\<lparr>lg_records := take n (lg_records L')\<rparr>) \<and>
        rv_max_seq rep = of_nat n \<and> rv_violation rep = None \<and>
        (rv_max_seq rep = 0 \<longrightarrow> jn_dedup j' = jn_dedup j) \<and>
        (rv_stopped rep = EndOfFile \<or> (\<exists>e. rv_stopped rep = TornTail e))"
      then obtain rep n where *: "res = Inr rep" "lg_acked L' \<le> n" "n \<le> length (lg_records L')"
        "sys_rel sto names wf honest name (Up j' io') (L'\<lparr>lg_records := take n (lg_records L')\<rparr>)"
        "rv_max_seq rep = of_nat n" "rv_violation rep = None"
        "rv_max_seq rep = 0 \<longrightarrow> jn_dedup j' = jn_dedup j"
        "rv_stopped rep = EndOfFile \<or> (\<exists>e. rv_stopped rep = TornTail e)" by blast
      have "min n m = n" "n \<le> length (lg_records L)" using *(3) by (auto simp: L'(1))
      then show ?thesis
        using * k(4) unfolding take2 by (intro exI [of _ n]) (auto simp del: sys_rel.simps)
    next
      assume "\<exists>e. res = Inl e \<and> sys_rel sto names wf honest name (Down j' io') L' \<and>
        ((\<exists>i. e = JournalIo i) \<or> (\<exists>p q why. e = CorruptMidFile p why q))"
      then show ?thesis using L' by (intro exI [of _ m]) (auto simp del: sys_rel.simps)
    qed
  qed
qed

lemma create_existing:
  assumes "wf io" "names io a = Some f" "io_create I a io = (r, io')"
  shows "wf io' \<and> honest io' = honest io \<and> names io' = names io \<and> sto io' = sto io \<and>
    (\<forall>g. r = Inr g \<longrightarrow> g = f)"
proof (cases r)
  case (Inl e)
  then show ?thesis using create_err [OF assms(1)] assms(3) by auto
next
  case (Inr g)
  then show ?thesis
    using create_ok [OF assms(1), of a g io'] assms(2,3) by (auto simp: dom_def fun_upd_idem)
qed

lemma reopen_rel:
  assumes res: "journal_open I (jn_shard j) (jn_segment j) name k (jn_start j) w io = (res, io')"
    and rel: "sys_rel sto names wf honest name (Down j io) L"
  shows "\<exists>n. lg_acked L \<le> n \<and>
     ((\<exists>rep j'. res = Inr (j', rep) \<and> n \<le> length (lg_records L) \<and>
         sys_rel sto names wf honest name (Up j' io') (L\<lparr>lg_records := take n (lg_records L)\<rparr>) \<and>
         rv_max_seq rep = of_nat n \<and> rv_violation rep = None \<and>
         (rv_stopped rep = EndOfFile \<or> (\<exists>e. rv_stopped rep = TornTail e))) \<or>
      (\<exists>e. res = Inl e \<and>
         sys_rel sto names wf honest name (Down j io') (L\<lparr>lg_records := take n (lg_records L)\<rparr>) \<and>
         ((\<exists>i. e = JournalIo i) \<or> (\<exists>p q why. e = CorruptMidFile p why q))))"
proof -
  from rel obtain x y where sto: "wf io" "honest io" "sto io (jn_file j) = Some x"
    "sto io (jn_watermark j) = Some y" "mark_ok y (lg_acked L)" "names io name = Some (jn_file j)"
    "names io (name @ ascii ''.ack'') = Some (jn_watermark j)"
    and L: "ledger_ok L" "unat (jn_acked j) \<le> lg_acked L" and disk: "disk_ok j x L"
    by auto
  have stay: "L\<lparr>lg_records := take (length (lg_records L)) (lg_records L)\<rparr> = L" by simp
  have down: "sys_rel sto names wf honest name (Down j io2) L"
    if "wf io2" "honest io2 = honest io" "names io2 = names io" "sto io2 = sto io" for io2
    using that rel by simp
  obtain r1 io1 where c1: "io_create I name io = (r1, io1)" by fastforce
  have k1: "wf io1" "honest io1 = honest io" "names io1 = names io" "sto io1 = sto io"
    "\<And>f. r1 = Inr f \<Longrightarrow> f = jn_file j"
    using create_existing [OF sto(1,6) c1] by auto
  have wm: "names io1 (name @ ascii ''.ack'') = Some (jn_watermark j)" using sto(7) k1(3) by simp
  obtain r2 io2 where c2: "io_create I (name @ ascii ''.ack'') io1 = (r2, io2)" by fastforce
  have k2: "wf io2" "honest io2 = honest io" "names io2 = names io" "sto io2 = sto io"
    "\<And>f. r2 = Inr f \<Longrightarrow> f = jn_watermark j"
    using create_existing [OF k1(1) wm c2] k1 by auto
  show ?thesis
  proof (cases "\<exists>e. r1 = Inl e \<or> r2 = Inl e")
    case True
    then obtain e io3 where "res = Inl (JournalIo e)" "io' = io1 \<or> io' = io2"
      using res c1 c2 by (auto simp: journal_open_def split: sum.splits)
    then show ?thesis
      using down [OF k1(1-4)] down [OF k2(1-4)] L(1) stay
      by (intro exI [of _ "length (lg_records L)"]) (auto simp: ledger_ok_def simp del: sys_rel.simps)
  next
    case False
    then obtain f g where fg: "r1 = Inr f" "r2 = Inr g" by (metis sum.exhaust)
    define j0 where "j0 = \<lparr>jn_file = jn_file j, jn_shard = jn_shard j, jn_segment = jn_segment j,
      jn_created_at = w, jn_start = jn_start j, jn_genesis = Hash_ZERO, jn_chain = ChainState_genesis,
      jn_written = 0, jn_acked = 0, jn_watermark = jn_watermark j, jn_good_bytes = 0,
      jn_since_sync = 0, jn_sync_every = max k 1, jn_pending = None,
      jn_dedup = DedupWindow_new 65536, jn_gaps = 0, jn_degraded = False\<rparr>"
    obtain r3 j3 io3 where rc: "recover I j0 io2 = (r3, j3, io3)" by (metis prod_cases3)
    have out: "io' = io3" "res = (case r3 of Inl e \<Rightarrow> Inl e | Inr rep \<Rightarrow> Inr (j3, rep))"
      using res c1 c2 fg k1(5) k2(5) rc
      by (auto simp: journal_open_def j0_def Let_def split: sum.splits)
    have "sys_rel sto names wf honest name (Down j0 io2) L"
      using down [OF k2(1-4)] by (simp add: j0_def disk_ok_def disk_at_def header_of_def)
    from recover_rel [OF rc this] obtain n where n: "lg_acked L \<le> n"
      and c: "(\<exists>rep. r3 = Inr rep \<and> n \<le> length (lg_records L) \<and>
         sys_rel sto names wf honest name (Up j3 io3) (L\<lparr>lg_records := take n (lg_records L)\<rparr>) \<and>
         rv_max_seq rep = of_nat n \<and> rv_violation rep = None \<and>
         (rv_max_seq rep = 0 \<longrightarrow> jn_dedup j3 = jn_dedup j0) \<and>
         (rv_stopped rep = EndOfFile \<or> (\<exists>e. rv_stopped rep = TornTail e))) \<or>
      (\<exists>e. r3 = Inl e \<and>
         sys_rel sto names wf honest name (Down j3 io3) (L\<lparr>lg_records := take n (lg_records L)\<rparr>) \<and>
         ((\<exists>i. e = JournalIo i) \<or> (\<exists>p q why. e = CorruptMidFile p why q)))" by blast
    have "sys_rel sto names wf honest name (Down j io3) (L\<lparr>lg_records := take n (lg_records L)\<rparr>)"
      if "sys_rel sto names wf honest name (Down j3 io3) (L\<lparr>lg_records := take n (lg_records L)\<rparr>)"
      using that recover_identity [OF rc] L(2)
      by (simp add: j0_def disk_ok_def disk_at_def header_of_def)
    with c n out show ?thesis
      by (intro exI [of _ n]) (auto simp del: sys_rel.simps)
  qed
qed

subsubsection \<open>Every operation, on the ledger\<close>

lemma up_cases:
  assumes "sys_rel sto names wf honest name (Up j io) L"
  obtains d t y hdr where "wf io" "honest io" "sto io (jn_file j) = Some (d, t)"
    "sto io (jn_watermark j) = Some y" "mark_ok y (lg_acked L)" "names io name = Some (jn_file j)"
    "names io (name @ ascii ''.ack'') = Some (jn_watermark j)" "jn_file j \<noteq> jn_watermark j"
    "ledger_ok L" "unat (jn_acked j) \<le> lg_acked L" "file_at j hdr (d, t) L" "header_of j hdr" "pending_ok j"
proof -
  have "name \<noteq> name @ ascii ''.ack''" by (simp add: ascii_def)
  then have "jn_file j \<noteq> jn_watermark j"
    using assms names_inj [of io name "jn_file j" "name @ ascii ''.ack''"] by auto
  then show thesis using assms that by (auto simp: file_ok_def)
qed

lemma up_intro:
  assumes "same_io io io'" "sto io' = (sto io)(jn_file j \<mapsto> x)"
    and "wf io" "honest io" "sto io (jn_watermark j) = Some y" "mark_ok y (lg_acked L')"
    and "names io name = Some (jn_file j)" "names io (name @ ascii ''.ack'') = Some (jn_watermark j)"
    and "jn_file j \<noteq> jn_watermark j" "ledger_ok L'" "unat (jn_acked j') \<le> lg_acked L'"
    and "file_at j' hdr x L'" "header_of j' hdr" "pending_ok j'"
    and "jn_file j' = jn_file j" "jn_watermark j' = jn_watermark j"
  shows "sys_rel sto names wf honest name (Up j' io') L'"
  using assms by (auto simp: same_io_def file_ok_def)

lemma push_pending_rel:
  assumes rel: "sys_rel sto names wf honest name (Up j io) L" and res: "push_pending I j io = (res, j', io')"
  shows "\<exists>L'. ledger_step L L' \<and> sys_rel sto names wf honest name (Up j' io') L' \<and> lg_acked L' = lg_acked L"
proof (cases "jn_pending j")
  case None
  then have "j' = j" "io' = io" using res by (simp_all add: push_pending_def)
  then show ?thesis using rel ledger_skip by blast
next
  case (Some p)
  from up_cases [OF rel] obtain d t y hdr where
    u: "wf io" "honest io" "sto io (jn_file j) = Some (d, t)"
      "sto io (jn_watermark j) = Some y" "mark_ok y (lg_acked L)" "names io name = Some (jn_file j)"
      "names io (name @ ascii ''.ack'') = Some (jn_watermark j)" "jn_file j \<noteq> jn_watermark j"
      "ledger_ok L" "unat (jn_acked j) \<le> lg_acked L"
    and f: "file_at j hdr (d, t) L" "header_of j hdr" and pok: "pending_ok j" .
  from pok Some obtain r where r: "takes_record j r"
    and p: "p = (stamped_frame j r)\<lparr>pd_done := pd_done p\<rparr>" "pd_done p < length (pd_bytes p)"
    by (auto simp: pending_ok_def)
  obtain err pos deg io1 where pl:
    "push_loop I (jn_file j) (pd_bytes p) (pd_done p) (jn_degraded j) io = (err, pos, deg, io1)"
    by (metis prod_cases4)
  from push_loop_sto [OF pl u(1,3)] p(2) have
    k: "same_io io io1" "pd_done p \<le> pos" "pos \<le> length (pd_bytes p)"
      "sto io1 = (sto io)(jn_file j \<mapsto> (d, t @ take (pos - pd_done p) (drop (pd_done p) (pd_bytes p))))"
      "err \<noteq> None \<Longrightarrow> pos < length (pd_bytes p)" by auto
  show ?thesis
  proof (cases "pos < length (pd_bytes p)")
    case True
    define j1 where "j1 = j\<lparr>jn_pending := Some (p\<lparr>pd_done := pos\<rparr>), jn_degraded := deg\<rparr>"
    have "j' = j1" "io' = io1"
      using res Some pl True by (auto simp: push_pending_def j1_def Let_def split: option.splits)
    moreover have "sys_rel sto names wf honest name (Up j1 io1) L"
      by (rule up_intro [OF k(1,4) u(1,2,4-9) _ file_at_inflight [OF f r Some p(1) k(2) True j1_def]])
         (use u(10) in \<open>simp_all add: j1_def\<close>)
    ultimately show ?thesis using ledger_skip by blast
  next
    case False
    then have pos: "pos = length (pd_bytes p)" "err = None" using k(3,5) by (auto intro: ccontr)
    define j1 where "j1 = j\<lparr>jn_pending := None, jn_chain := ChainState_resume (pd_link p) (pd_seq p),
        jn_written := pd_seq p, jn_good_bytes := jn_good_bytes j + of_nat (length (pd_bytes p)),
        jn_since_sync := jn_since_sync j + 1, jn_degraded := False,
        jn_dedup := dedup_remember (jn_dedup j) (pd_id p) (pd_seq p)\<rparr>"
    have j': "j' = j1" "io' = io1"
      using res Some pl pos by (auto simp: push_pending_def j1_def Let_def)
    define L' where "L' = L\<lparr>lg_records := lg_records L @ [stamp j r]\<rparr>"
    have s: "sto io1 = (sto io)(jn_file j \<mapsto> (d, t @ drop (pd_done p) (pd_bytes p)))"
      using k(4) pos by simp
    have step: "ledger_step L L'" unfolding L'_def by (rule ledger_write)
    have le: "pd_done p \<le> length (pd_bytes p)" using p(2) by simp
    have "sys_rel sto names wf honest name (Up j1 io1) L'"
      by (rule up_intro [OF k(1) s u(1,2,4) _ u(6-8) _ _
            file_at_written [OF f u(9) r Some p(1) le j1_def, folded L'_def]])
         (use u ledger_step_ok [OF step] in \<open>simp_all add: j1_def L'_def\<close>)
    moreover have "lg_acked L' = lg_acked L" by (simp add: L'_def)
    ultimately show ?thesis using step j' by blast
  qed
qed

lemma start_pending:
  assumes rel: "sys_rel sto names wf honest name (Up j io) L" and r: "takes_record j r"
    and none: "jn_pending j = None"
  shows "sys_rel sto names wf honest name (Up (j\<lparr>jn_pending := Some (stamped_frame j r)\<rparr>) io) L"
proof -
  define j1 where "j1 = j\<lparr>jn_pending := Some (stamped_frame j r)\<rparr>"
  have "encode_frame b l \<noteq> []" for b l using length_encode_frame_ge [of b l] by auto
  then have z: "pd_bytes (stamped_frame j r) \<noteq> []" "pd_done (stamped_frame j r) = 0"
    by (simp_all add: stamped_frame_def Let_def)
  moreover have "stamped_frame j1 r = stamped_frame j r" "takes_record j1 r"
    using stamped_frame_cong [of j1 j r] r by (simp_all add: j1_def takes_record_def)
  ultimately have "pending_ok j1" by (auto simp: pending_ok_def j1_def intro!: exI [of _ r])
  moreover have "file_ok j1 x L" if "file_ok j x L" for x
    using that none z(2) by (auto simp: file_ok_def file_at_def header_of_def j1_def inflight_def Let_def)
  ultimately show ?thesis using rel by (auto simp: j1_def)
qed

lemma append_rel:
  assumes rel: "sys_rel sto names wf honest name (Up j io) L"
    and res: "journal_append I j r io = (res, j', io')" and r: "takes_record j r"
  shows "\<exists>L'. ledger_step L L' \<and> sys_rel sto names wf honest name (Up j' io') L' \<and> lg_acked L' = lg_acked L"
proof (cases "jn_pending j = None \<and> dedup_position (jn_dedup j) (rec_id r) = None")
  case True
  have push: "push_pending I (j\<lparr>jn_pending := Some (stamped_frame j r)\<rparr>) io = (res, j', io')"
    using res True by (simp add: journal_append_def)
  have "sys_rel sto names wf honest name (Up (j\<lparr>jn_pending := Some (stamped_frame j r)\<rparr>) io) L"
    by (rule start_pending [OF rel r]) (use True in simp)
  from push_pending_rel [OF this push] show ?thesis .
next
  case False
  then have "j' = j \<and> io' = io \<or> push_pending I j io = (res, j', io')"
    using res by (auto simp: journal_append_def split: option.splits if_splits)
  then show ?thesis using rel push_pending_rel [OF rel] ledger_skip by blast
qed

lemma sync_rel:
  assumes rel: "sys_rel sto names wf honest name (Up j io) L"
    and res: "journal_sync I j io = (res, j', io')"
  shows "\<exists>L'. ledger_step L L' \<and> sys_rel sto names wf honest name (Up j' io') L' \<and>
     (res = Inr (jn_acked j') \<and> jn_acked j' = jn_written j' \<and> lg_acked L' = length (lg_records L) \<or>
      (\<exists>i. res = Inl (JournalIo i)) \<and> jn_acked j' = jn_acked j)"
proof -
  from up_cases [OF rel] obtain d t y hdr where
    u: "wf io" "honest io" "sto io (jn_file j) = Some (d, t)"
      "sto io (jn_watermark j) = Some y" "mark_ok y (lg_acked L)" "names io name = Some (jn_file j)"
      "names io (name @ ascii ''.ack'') = Some (jn_watermark j)" "jn_file j \<noteq> jn_watermark j"
      "ledger_ok L" "unat (jn_acked j) \<le> lg_acked L"
    and f: "file_at j hdr (d, t) L" "header_of j hdr" and pok: "pending_ok j" .
  obtain r io1 where fs: "io_fsync I (jn_file j) io = (r, io1)" by fastforce
  have same: "same_io io io1" using fsync_keeps [OF u(1) fs] by (simp add: same_io_def)
  show ?thesis
  proof (cases r)
    case (Inl e)
    have s: "sto io1 = (sto io)(jn_file j \<mapsto> (d, t))"
      using fsync_err [OF u(1)] fs Inl u(3) by (simp add: fun_upd_idem)
    define j1 where "j1 = j\<lparr>jn_degraded := True\<rparr>"
    have "file_at j1 hdr (d, t) L" "header_of j1 hdr" "pending_ok j1"
      using f pok stamped_frame_cong [of j1 j]
      by (auto simp: j1_def file_at_def header_of_def inflight_def Let_def pending_ok_def
          takes_record_def split: option.splits)
    from up_intro [OF same s u(1,2,4-9) _ this]
    have "sys_rel sto names wf honest name (Up j1 io1) L" using u(10) by (simp add: j1_def)
    moreover have "j' = j1" "io' = io1" "res = Inl (JournalIo e)"
      using res fs Inl by (simp_all add: journal_sync_def j1_def)
    ultimately show ?thesis using ledger_skip by (auto simp: j1_def simp del: sys_rel.simps)
  next
    case (Inr v)
    have s: "sto io1 = (sto io)(jn_file j \<mapsto> (d @ t, []))"
      using fsync_ok [OF u(1)] fs Inr u(2,3) by fastforce
    define j1 where "j1 = j\<lparr>jn_acked := jn_written j, jn_since_sync := 0, jn_degraded := False\<rparr>"
    define L' where "L' = L\<lparr>lg_acked := length (lg_records L)\<rparr>"
    obtain w io2 where wr: "write_watermark I j1 io1 = (w, io2)" by fastforce
    have eq: "j' = j1" "io' = io2" "res = Inr (jn_acked j1)"
      using res fs Inr wr by (auto simp: journal_sync_def j1_def Let_def)
    have at: "file_at j1 hdr (d @ t, []) L'" "header_of j1 hdr" "pending_ok j1"
      using f pok stamped_frame_cong [of j1 j]
      by (auto simp: j1_def L'_def file_at_def header_of_def inflight_def Let_def pending_ok_def
          takes_record_def split: option.splits)
    have "length (log_bytes (log_start (jn_start j) hdr) (lg_records L)) < 2 ^ 64"
      using f(1) by (simp add: file_at_def Let_def)
    then have "length (lg_records L) < 2 ^ 64"
      using length_log_bytes [of "lg_records L"] by (metis le_less_trans mult_le_mono1 nat_mult_1 numeral_One one_le_numeral order_trans)
    then have ack: "unat (jn_acked j1) \<le> lg_acked L'"
      using f(1) by (simp add: j1_def L'_def file_at_def Let_def unat_of_nat_u64)
    have "mark_ok y (lg_acked L')" using mark_mono [OF u(5)] u(9) by (simp add: L'_def ledger_ok_def)
    moreover have "wf io1" "sto io1 (jn_watermark j1) = Some y" using same s u(4,8) by (auto simp: same_io_def j1_def)
    ultimately obtain y' where k: "same_io io1 io2" "sto io2 = (sto io1)(jn_watermark j1 \<mapsto> y')"
      "mark_ok y' (lg_acked L')"
      using write_watermark_sto [OF wr _ _ _ ack] by blast
    have "sys_rel sto names wf honest name (Up j1 io2) L'"
      using k same s u at ack by (auto simp: same_io_def j1_def L'_def file_ok_def ledger_ok_def)
    moreover have "ledger_step L L'" unfolding L'_def by (rule ledger_sync)
    ultimately show ?thesis using eq by (auto simp: j1_def L'_def simp del: sys_rel.simps)
  qed
qed

lemma crash_rel:
  assumes "sys_rel sto names wf honest name (Down j io) L" "crash io io'"
  shows "sys_rel sto names wf honest name (Down j io') L"
proof -
  from assms(1) obtain d t dw tw where u: "wf io" "sto io (jn_file j) = Some (d, t)" "disk_ok j (d, t) L"
    "sto io (jn_watermark j) = Some (dw, tw)" "mark_ok (dw, tw) (lg_acked L)" by auto
  from crash_cuts [OF u(1) assms(2)] u(2,4) obtain k m where
    "sto io' (jn_file j) = Some (d @ take k t, [])" "sto io' (jn_watermark j) = Some (dw @ take m tw, [])"
    by meson
  then show ?thesis
    using assms(1) crash_keeps [OF u(1) assms(2)] disk_cut [OF u(3)] mark_cut [OF u(5)] by auto
qed

lemma stop_rel:
  assumes "sys_rel sto names wf honest name (Up j io) L"
  shows "sys_rel sto names wf honest name (Down j io) L"
  by (rule up_cases [OF assms]) (use file_disk in auto)

lemma sys_step_refines:
  assumes "sys_step I crash name s s'" "sys_rel sto names wf honest name s L"
  shows "\<exists>L'. ledger_step L L' \<and> sys_rel sto names wf honest name s' L'"
  using assms
proof (cases rule: sys_step.cases)
  case (sys_append j r io res j' io')
  then show ?thesis using append_rel assms(2) by blast
next
  case (sys_sync j io res j' io')
  then show ?thesis using sync_rel assms(2) by blast
next
  case (sys_gap j io)
  have "pending_ok (note_gap j) = pending_ok j" "file_ok (note_gap j) = file_ok j"
    using stamped_frame_cong [of "note_gap j" j]
    by (auto simp: note_gap_def pending_ok_def takes_record_def file_ok_def file_at_def header_of_def
        inflight_def fun_eq_iff split: option.splits)
  then have "sys_rel sto names wf honest name (Up (note_gap j) io) L"
    using sys_gap(1) assms(2) by (simp add: note_gap_def)
  then show ?thesis using sys_gap ledger_skip by blast
next
  case (sys_stop j io)
  then show ?thesis using stop_rel assms(2) ledger_skip by blast
next
  case (sys_crash io io' j)
  then show ?thesis using stop_rel crash_rel assms(2) ledger_skip by blast
next
  case (sys_crash_down io io' j)
  then show ?thesis using crash_rel assms(2) ledger_skip by blast
next
  case (sys_recover j io rep j' io')
  from recover_rel [OF sys_recover(3) assms(2) [unfolded sys_recover(1)]] obtain n where
    "lg_acked L \<le> n" "sys_rel sto names wf honest name (Up j' io') (L\<lparr>lg_records := take n (lg_records L)\<rparr>)"
    by (auto simp del: sys_rel.simps)
  then show ?thesis using sys_recover(2) ledger_crash by blast
next
  case (sys_recover_fails j io e j' io')
  from recover_rel [OF sys_recover_fails(3) assms(2) [unfolded sys_recover_fails(1)]] obtain n where
    "lg_acked L \<le> n" "sys_rel sto names wf honest name (Down j' io') (L\<lparr>lg_records := take n (lg_records L)\<rparr>)"
    by (auto simp del: sys_rel.simps)
  then show ?thesis using sys_recover_fails(2) ledger_crash by blast
next
  case (sys_reopen j n w io j' rep io')
  from reopen_rel [OF sys_reopen(3) assms(2) [unfolded sys_reopen(1)]] obtain m where
    "lg_acked L \<le> m" "sys_rel sto names wf honest name (Up j' io') (L\<lparr>lg_records := take m (lg_records L)\<rparr>)"
    by (auto simp del: sys_rel.simps)
  then show ?thesis using sys_reopen(2) ledger_crash by blast
next
  case (sys_reopen_fails j n w io e io')
  from reopen_rel [OF sys_reopen_fails(3) assms(2) [unfolded sys_reopen_fails(1)]] obtain m where
    "lg_acked L \<le> m" "sys_rel sto names wf honest name (Down j io') (L\<lparr>lg_records := take m (lg_records L)\<rparr>)"
    by (auto simp del: sys_rel.simps)
  then show ?thesis using sys_reopen_fails(2) ledger_crash by blast
qed

lemma sys_steps_refine:
  assumes "(sys_step I crash name)\<^sup>*\<^sup>* s s'" "sys_rel sto names wf honest name s L"
  shows "\<exists>L'. ledger_step\<^sup>*\<^sup>* L L' \<and> sys_rel sto names wf honest name s' L'"
  using assms
proof (induction rule: rtranclp_induct)
  case (step s1 s2)
  then show ?case using sys_step_refines by (meson rtranclp.rtrancl_into_rtrancl)
qed blast

text \<open>Where every history begins: a journal opened under a name the disk does not know yet.\<close>

lemma open_fresh:
  assumes res: "journal_open I shard segment name k start w io = (Inr (j, rep), io')"
    and io: "wf io" "honest io" "names io name = None" "names io (name @ ascii ''.ack'') = None"
  shows "sys_rel sto names wf honest name (Up j io') \<lparr>lg_records = [], lg_acked = 0\<rparr>"
proof -
  let ?L = "\<lparr>lg_records = [], lg_acked = 0\<rparr>" and ?ack = "name @ ascii ''.ack''"
  have ne: "?ack \<noteq> name" by (simp add: ascii_def)
  obtain f io1 where c1: "io_create I name io = (Inr f, io1)"
    using res by (auto simp: journal_open_def split: prod.splits sum.splits)
  have k1: "wf io1" "honest io1" "names io1 = (names io)(name \<mapsto> f)" "sto io1 = (sto io)(f \<mapsto> ([], []))"
    using create_ok [OF io(1) c1] io(2,3) by (auto simp: dom_def)
  obtain g io2 where c2: "io_create I ?ack io1 = (Inr g, io2)"
    using res c1 by (auto simp: journal_open_def split: prod.splits sum.splits)
  have k2: "wf io2" "honest io2" "names io2 = (names io1)(?ack \<mapsto> g)" "sto io1 g = None"
    "sto io2 = (sto io1)(g \<mapsto> ([], []))"
    using create_ok [OF k1(1) c2] io(4) ne k1(2,3) by (auto simp: dom_def)
  have fg: "f \<noteq> g" using k1(4) k2(4) by auto
  define j0 where "j0 = \<lparr>jn_file = f, jn_shard = shard, jn_segment = segment,
      jn_created_at = w, jn_start = start, jn_genesis = Hash_ZERO, jn_chain = ChainState_genesis,
      jn_written = 0, jn_acked = 0, jn_watermark = g, jn_good_bytes = 0,
      jn_since_sync = 0, jn_sync_every = max k 1, jn_pending = None,
      jn_dedup = DedupWindow_new 65536, jn_gaps = 0, jn_degraded = False\<rparr>"
  have rc: "recover I j0 io2 = (Inr rep, j, io')"
    using res c1 c2 by (auto simp: journal_open_def j0_def Let_def split: prod.splits sum.splits)
  define hdr where "hdr = encode_segment_header shard segment w"
  have "header_of j0 hdr" by (auto simp: header_of_def j0_def hdr_def)
  then have "disk_ok j0 ([], []) ?L"
    using header_of_length [of j0 hdr]
    unfolding disk_ok_def disk_at_def Let_def
    by (intro exI [of _ hdr] conjI exI [of _ "[]"]) simp_all
  then have "sys_rel sto names wf honest name (Down j0 io2) ?L"
    using k1 k2 fg ne by (auto simp: j0_def mark_ok_def ledger_ok_def)
  from recover_rel [OF rc this] show ?thesis by (auto simp del: sys_rel.simps)
qed

text \<open>Reading a journal that is up returns exactly the records of the ledger.\<close>

lemma read_all_rel:
  assumes rel: "sys_rel sto names wf honest name (Up j io) L"
    and res: "journal_read_all I j io = (Inr v, io')"
  shows "map fst (wk_records v) = lg_records L"
    and "wk_chain v = jn_chain j" "wk_good_bytes v = jn_good_bytes j"
    and "wk_stopped v = EndOfFile \<or> (\<exists>e. wk_stopped v = TornTail e)"
    and "wk_records v = log_items (ChainState_resume (jn_genesis j) 0) (lg_records L)"
    and "log_ok (jn_shard j) (jn_segment j) (ChainState_resume (jn_genesis j) 0) (lg_records L)"
    and "length (lg_records L) < 2 ^ 64"
proof -
  from up_cases [OF rel] obtain d t y hdr where
    u: "wf io" "sto io (jn_file j) = Some (d, t)" and f: "file_at j hdr (d, t) L" "header_of j hdr"
    and pok: "pending_ok j" .
  obtain b io1 where rd: "io_read_all I (jn_file j) io = (Inr b, io1)"
    using res by (auto simp: journal_read_all_def split: prod.splits sum.splits)
  define c where "c = log_start (jn_start j) hdr"
  have F: "log_ok (jn_shard j) (jn_segment j) c (lg_records L)"
    "d @ t = hdr @ log_bytes c (lg_records L) @ inflight j" "jn_chain j = log_chain c (lg_records L)"
    "jn_good_bytes j = of_nat (length hdr + length (log_bytes c (lg_records L)))"
    "jn_genesis j = start_head (jn_start j) hdr"
    using f(1) by (auto simp: file_at_def c_def Let_def)
  have b: "b = hdr @ log_bytes c (lg_records L) @ inflight j"
    using read_sto(3) [OF u(1) rd u(2)] F(2) by simp
  from f(2) obtain ts where hdr: "hdr = encode_segment_header (jn_shard j) (jn_segment j) ts"
    by (auto simp: header_of_def)
  define h where "h = \<lparr>hd_format_version = FORMAT_VERSION, hd_shard = jn_shard j,
    hd_segment = jn_segment j, hd_created_at = ts, hd_len = length hdr\<rparr>"
  have "decode_segment_header b = Inr h" unfolding b by (simp add: h_def hdr decode_encode_header)
  then have v: "v = walk b h (jn_genesis j)" using res rd by (simp add: journal_read_all_def)
  have c': "c = ChainState_resume (jn_genesis j) 0" by (simp add: c_def log_start_def F(5))
  have tn: "inflight j = [] \<or> (\<exists>e. decode_frame (inflight j) = Inl e)"
    using inflight_torn [OF pok] by (auto simp: torn_def)
  have ok: "log_ok (hd_shard h) (hd_segment h) c (lg_records L)" using F(1) by (simp add: h_def)
  have "hd_len h = length hdr" by (simp add: h_def)
  note W = walk_finds [OF b this c' ok tn]
  show "map fst (wk_records v) = lg_records L" "wk_chain v = jn_chain j" "wk_good_bytes v = jn_good_bytes j"
    "wk_stopped v = EndOfFile \<or> (\<exists>e. wk_stopped v = TornTail e)"
    using W F(3,4) by (auto simp: v split: if_splits)
  show "wk_records v = log_items (ChainState_resume (jn_genesis j) 0) (lg_records L)"
    "log_ok (jn_shard j) (jn_segment j) (ChainState_resume (jn_genesis j) 0) (lg_records L)"
    using W F(1) by (simp_all add: v c')
  show "length (lg_records L) < 2 ^ 64"
    using f(1) length_log_bytes [of "lg_records L" "log_start (jn_start j) hdr"]
    by (simp add: file_at_def Let_def)
qed

end

text \<open>An append makes nothing durable.\<close>

context io_contract
begin

lemma push_pending_durable:
  assumes "push_pending I j io = (res, j', io')" "wf io" "sto io (jn_file j) = Some (d, t)"
    and "pending_ok j"
  shows "\<exists>t'. sto io' (jn_file j) = Some (d, t')"
proof (cases "jn_pending j")
  case (Some p)
  obtain err pos deg io1 where pl:
    "push_loop I (jn_file j) (pd_bytes p) (pd_done p) (jn_degraded j) io = (err, pos, deg, io1)"
    by (metis prod_cases4)
  have "io' = io1" using assms(1) Some pl by (auto simp: push_pending_def Let_def split: option.splits if_splits)
  moreover have "pd_done p \<le> length (pd_bytes p)" using assms(4) Some by (auto simp: pending_ok_def)
  ultimately show ?thesis using push_loop_sto [OF pl assms(2,3)] by simp
qed (use assms in \<open>simp add: push_pending_def\<close>)

lemma append_durable:
  assumes rel: "sys_rel sto names wf honest name (Up j io) L" and r: "takes_record j r"
    and res: "journal_append I j r io = (res, j', io')" and d: "sto io (jn_file j) = Some (d, t)"
  shows "\<exists>t'. sto io' (jn_file j) = Some (d, t')"
proof (cases "jn_pending j = None \<and> dedup_position (jn_dedup j) (rec_id r) = None")
  case True
  define j1 where "j1 = j\<lparr>jn_pending := Some (stamped_frame j r)\<rparr>"
  have "push_pending I j1 io = (res, j', io')" using res True by (simp add: journal_append_def j1_def)
  moreover have "sys_rel sto names wf honest name (Up j1 io) L"
    unfolding j1_def by (rule start_pending [OF rel r]) (use True in simp)
  ultimately show ?thesis
    using push_pending_durable [of j1 io res j' io' d t] d by (simp add: j1_def)
next
  case False
  then have "io' = io \<or> push_pending I j io = (res, j', io')"
    using res by (auto simp: journal_append_def split: option.splits if_splits)
  then show ?thesis using push_pending_durable [of j io res j' io' d t] d rel by auto
qed

end

subsection \<open>Progress on a calm disk\<close>

context calm_io
begin

lemma push_loop_calm:
  assumes "wf io" "calm io" "sto io f = Some (d, t)" "pos \<le> length buf"
  shows "\<exists>io'. push_loop I f buf pos deg io = (None, length buf, deg, io') \<and> calm io'"
  using assms
proof (induction "length buf - pos" arbitrary: pos io t rule: less_induct)
  case less
  show ?case
  proof (cases "pos < length buf")
    case True
    with calm_append [OF less.prems(1,2), of f "drop pos buf"] less.prems(3) obtain n io1 where
      n: "0 < n" "io_append I f (drop pos buf) io = (Inr n, io1)" "calm io1" by auto
    from append_ok [OF less.prems(1) n(2)] less.prems(3) have
      k: "n \<le> length buf - pos" "sto io1 f = Some (d, t @ take n (drop pos buf))" by auto
    have "wf io1" using append_keeps [OF less.prems(1) n(2)] by simp
    moreover have "length buf - (pos + n) < length buf - pos" "pos + n \<le> length buf" using n(1) True k(1) by auto
    ultimately obtain io' where "push_loop I f buf (pos + n) deg io1 = (None, length buf, deg, io')" "calm io'"
      using less.hyps [of "pos + n" io1] n(3) k(2) by blast
    then show ?thesis using n True by (subst push_loop.simps) simp
  next
    case False
    then show ?thesis using less.prems by (subst push_loop.simps) simp
  qed
qed

lemma push_pending_calm:
  assumes rel: "sys_rel sto names wf honest name (Up j io) L" and calm: "calm io"
    and p: "jn_pending j = Some p"
  shows "\<exists>j' io'. push_pending I j io = (Inr (Written (jn_written j + 1) (pd_link p)), j', io') \<and>
    calm io' \<and> jn_written j' = jn_written j + 1 \<and> jn_pending j' = None \<and>
    jn_dedup j' = dedup_remember (jn_dedup j) (pd_id p) (jn_written j + 1)"
proof -
  from up_cases [OF rel] obtain d t y hdr where u: "wf io" "sto io (jn_file j) = Some (d, t)"
    and pok: "pending_ok j" .
  from pok p obtain r where q: "p = (stamped_frame j r)\<lparr>pd_done := pd_done p\<rparr>"
    and le: "pd_done p < length (pd_bytes p)" by (auto simp: pending_ok_def)
  have seq: "pd_seq p = jn_written j + 1" by (subst q) (simp add: stamped_frame_def Let_def)
  from push_loop_calm [OF u(1) calm u(2), of "pd_done p" "pd_bytes p" "jn_degraded j"] le obtain io' where
    "push_loop I (jn_file j) (pd_bytes p) (pd_done p) (jn_degraded j) io =
       (None, length (pd_bytes p), jn_degraded j, io')" "calm io'" by auto
  then show ?thesis using p seq by (simp add: push_pending_def Let_def)
qed

lemma append_calm:
  assumes rel: "sys_rel sto names wf honest name (Up j io) L" and calm: "calm io"
    and r: "takes_record j r"
    and new: "case jn_pending j of None \<Rightarrow> dedup_position (jn_dedup j) (rec_id r) = None
              | Some p \<Rightarrow> pd_id p = rec_id r"
  shows "\<exists>link j' io'. journal_append I j r io = (Inr (Written (jn_written j + 1) link), j', io') \<and>
    calm io' \<and> jn_written j' = jn_written j + 1 \<and> jn_pending j' = None \<and>
    jn_dedup j' = dedup_remember (jn_dedup j) (rec_id r) (jn_written j + 1)"
proof (cases "jn_pending j")
  case None
  define j1 where "j1 = j\<lparr>jn_pending := Some (stamped_frame j r)\<rparr>"
  have "sys_rel sto names wf honest name (Up j1 io) L"
    unfolding j1_def by (rule start_pending [OF rel r None])
  moreover have "pd_id (stamped_frame j r) = rec_id r" by (simp add: stamped_frame_def Let_def)
  ultimately show ?thesis
    using push_pending_calm [OF _ calm, of name j1 L "stamped_frame j r"] None new
    by (auto simp: journal_append_def j1_def)
next
  case (Some p)
  from push_pending_calm [OF rel calm Some] show ?thesis
    using Some new by (auto simp: journal_append_def)
qed

lemma sync_calm:
  assumes rel: "sys_rel sto names wf honest name (Up j io) L" and calm: "calm io"
  shows "\<exists>j' io'. journal_sync I j io = (Inr (jn_written j), j', io') \<and> jn_acked j' = jn_written j"
proof -
  from up_cases [OF rel] obtain d t y hdr where u: "wf io" "sto io (jn_file j) = Some (d, t)" .
  from calm_fsync [OF u(1) calm, of "jn_file j"] u(2) obtain io1 where
    "io_fsync I (jn_file j) io = (Inr (), io1)" by auto
  then show ?thesis by (simp add: journal_sync_def Let_def split: prod.split)
qed

text \<open>A journal on an empty file opens.\<close>

lemma append_all_calm:
  assumes "wf io" "calm io" "sto io f = Some (d, t)" "k + (length buf - pos) \<le> 10000"
  shows "\<exists>io'. append_all I f buf pos k io = (Inr (), io') \<and> calm io'"
  using assms
proof (induction "length buf - pos" arbitrary: pos k io t rule: less_induct)
  case less
  show ?case
  proof (cases "pos < length buf")
    case True
    with calm_append [OF less.prems(1,2), of f "drop pos buf"] less.prems(3) obtain n io1 where
      n: "0 < n" "io_append I f (drop pos buf) io = (Inr n, io1)" "calm io1" by auto
    from append_ok [OF less.prems(1) n(2)] less.prems(3) have
      k: "sto io1 f = Some (d, t @ take n (drop pos buf))" by auto
    have "wf io1" using append_keeps [OF less.prems(1) n(2)] by simp
    moreover have "length buf - (pos + n) < length buf - pos" "k + 1 + (length buf - (pos + n)) \<le> 10000"
      using n(1) True less.prems(4) by auto
    ultimately obtain io' where "append_all I f buf (pos + n) (k + 1) io1 = (Inr (), io')" "calm io'"
      using less.hyps [of "pos + n" io1 _ "k + 1"] n(3) k by blast
    then show ?thesis using n True less.prems(4) by (subst append_all.simps) (simp add: Let_def)
  next
    case False
    then show ?thesis using less.prems by (subst append_all.simps) simp
  qed
qed

lemma write_watermark_calm:
  assumes "wf io" "calm io" "sto io (jn_watermark j) = Some (d, t)"
  shows "\<exists>io'. write_watermark I j io = (Inr (), io')"
proof -
  let ?b = "watermark_bytes (jn_acked j)"
  from calm_truncate [OF assms(1,2), of "jn_watermark j" 0] assms(3) obtain io1 where
    t: "io_truncate I (jn_watermark j) 0 io = (Inr (), io1)" "calm io1" by auto
  have k1: "wf io1" "sto io1 (jn_watermark j) = Some ([], [])"
    using truncate_keeps [OF assms(1) t(1)] truncate_ok [OF assms(1) t(1)] assms(3) by auto
  have "length ?b = 12" by (simp add: watermark_bytes_def Let_def)
  then obtain io2 where a: "append_all I (jn_watermark j) ?b 0 0 io1 = (Inr (), io2)" "calm io2"
    using append_all_calm [OF k1(1) t(2) k1(2), of 0 ?b 0] by auto
  have "wf io2" "sto io2 (jn_watermark j) \<noteq> None"
    using append_all_sto [OF a(1) k1] by (auto simp: same_io_def)
  from calm_fsync [OF this(1) a(2) this(2)] t a show ?thesis by (auto simp: write_watermark_def)
qed

lemma recover_empty_calm:
  assumes io: "wf io" "calm io" "sto io (jn_file j) = Some ([], [])" "sto io (jn_watermark j) = Some y"
  shows "\<exists>rep j' io'. recover I j io = (Inr rep, j', io') \<and> calm io' \<and>
    jn_pending j' = None \<and> jn_dedup j' = jn_dedup j \<and> rv_max_seq rep = 0 \<and>
    sto io' (jn_file j) = Some ([], encode_segment_header (jn_shard j) (jn_segment j) (jn_created_at j))"
proof -
  define hdr where "hdr = encode_segment_header (jn_shard j) (jn_segment j) (jn_created_at j)"
  from calm_read [OF io(1,2), of "jn_file j"] io(3) obtain b io1 where
    r1: "io_read_all I (jn_file j) io = (Inr b, io1)" "calm io1" by auto
  note k1 = read_sto [OF io(1) r1(1) io(3)]
  from calm_truncate [of io1 "jn_file j" 0] r1(2) k1 io(3) obtain io2 where
    r2: "io_truncate I (jn_file j) 0 io1 = (Inr (), io2)" "calm io2" by (auto simp: same_io_def)
  have w1: "wf io1" using k1(1) by (simp add: same_io_def)
  have k2: "wf io2" "sto io2 = (sto io)(jn_file j \<mapsto> ([], []))"
    using truncate_keeps [OF w1 r2(1)] truncate_ok [OF w1 r2(1)] k1(2) io(3) by auto
  have "length hdr \<le> 34" using length_header by (simp add: hdr_def MAX_SEGMENT_HEADER_LEN_def)
  then obtain io3 where r3: "append_all I (jn_file j) hdr 0 0 io2 = (Inr (), io3)" "calm io3"
    using append_all_calm [of io2 "jn_file j" "[]" "[]" 0 hdr 0] k2 r2(2) by auto
  have k3: "wf io3" "sto io3 = (sto io)(jn_file j \<mapsto> ([], hdr))"
    using append_all_sto [OF r3(1) k2(1), of "[]" "[]"] k2(2) by (auto simp: same_io_def)
  from calm_read [OF k3(1) r3(2), of "jn_file j"] k3(2) obtain io4 where
    r4: "io_read_all I (jn_file j) io3 = (Inr hdr, io4)" "calm io4"
    using read_ok [OF k3(1), of "jn_file j"] by fastforce
  have k4: "wf io4" "sto io4 (jn_watermark j) \<noteq> None"
    using read_keeps [OF k3(1) r4(1)] k3(2) io(4) by auto
  from calm_read [OF k4(1) r4(2) k4(2)] obtain bw io5 where
    r5: "io_read_all I (jn_watermark j) io4 = (Inr bw, io5)" "calm io5" by blast
  have hdr_ok: "decode_segment_header hdr = Inr \<lparr>hd_format_version = FORMAT_VERSION, hd_shard = jn_shard j,
      hd_segment = jn_segment j, hd_created_at = jn_created_at j, hd_len = length hdr\<rparr>"
    using decode_encode_header [where rest = "[]"] by (simp add: hdr_def)
  have e: "ensure_header I j io = (Inr (length hdr), io3)"
    using r1 k1(3) r2 r3
    by (simp add: ensure_header_def write_header_def decode_segment_header_def hdr_def [symmetric] Let_def)
  have "recover I j io = (map_prod Inr id (adopt I (j\<lparr>jn_genesis := start_head (jn_start j) hdr\<rparr>)
      (walk hdr \<lparr>hd_format_version = FORMAT_VERSION, hd_shard = jn_shard j, hd_segment = jn_segment j,
        hd_created_at = jn_created_at j, hd_len = length hdr\<rparr> (start_head (jn_start j) hdr)) 0 io4))"
    using e r4 hdr_ok
    by (simp add: recover_def Let_def) (simp add: walk_def walk_loop.simps)
  moreover have "sto io5 (jn_file j) = Some ([], hdr)"
    using read_keeps [OF k3(1) r4(1)] read_keeps [OF k4(1) r5(1)] k3(2) by simp
  ultimately show ?thesis using r5
    by (auto simp: adopt_def read_watermark_def Let_def walk_def walk_loop.simps hdr_def
        dedup_remember_all_def ChainState_resume_def split: prod.splits if_splits)
qed

end

end
