(* ===== verification/History.thy ===== *)
theory History
  imports Durability
begin

text \<open>
  Histories of one journal on the simulated disk, and what they guarantee: the durability contract
  itself, that recovery after a power cut never reports an incident, the counters of a running
  journal, and progress on a disk without faults. Also what recovery refuses to do on files no power
  cut explains, and two gaps between the contract and the code.
\<close>

subsection \<open>A record that fits\<close>

lemma drop_varint: "x + 10 \<le> n \<Longrightarrow> length (put_varint v) + x \<le> n"
  using length_put_varint [of v] by simp

lemma drop_varints: "x + k * 10 \<le> n \<Longrightarrow> k * length (put_varint v) + x \<le> n"
  using mult_le_mono2 [OF length_put_varint [of v], of k] by linarith

lemma sample_body_fits: "length (encode_record (stamp j sample_record)) \<le> 1000"
  by (simp add: encode_record_def put_body_def stamp_def sample_record_def put_basis_def
      put_outcome_def put_opt_def put_seq_def put_str_def put_bytes_def put_hash_def put_u128_def
      put_varint_i64_def put_u8_def disc_put_def event_type_table_def severity_table_def
      verdict_table_def hash_alg_table_def sig_alg_table_def kem_alg_table_def
      Algorithms_default_def length_ascii add.assoc)
     ((rule drop_varint drop_varints, simp only: add.assoc)+)

subsection \<open>Histories\<close>

text \<open>
  A history: a journal opened under a name the disk does not know, then any sequence of appends,
  syncs, power cuts, failed and successful recoveries and restarts. The disk may refuse, shorten
  and fail writes and syncs as it likes; it does not lie about a sync.
\<close>

definition history :: "str \<Rightarrow> SimIo sys \<Rightarrow> bool" where
  "history name s \<longleftrightarrow>
     (\<exists>io shard segment k start wall j rep io'.
        sim_wf io \<and> sim_honest io \<and> by_name io name = None \<and> by_name io (name @ ascii ''.ack'') = None \<and>
        journal_open SimIo_Io shard segment name k start wall io = (Inr (j, rep), io') \<and>
        (sys_step SimIo_Io power_cut name)\<^sup>*\<^sup>* (Up j io') s)"

definition sim_rel :: "str \<Rightarrow> SimIo sys \<Rightarrow> Ledger \<Rightarrow> bool" where
  "sim_rel = sys_rel sim_sto by_name sim_wf sim_honest"

lemma history_rel:
  assumes "history name s"
  obtains L where "sim_rel name s L"
proof -
  from assms obtain io shard segment k start wall j rep io' where
    io: "sim_wf io" "sim_honest io" "by_name io name = None" "by_name io (name @ ascii ''.ack'') = None"
    and op: "journal_open SimIo_Io shard segment name k start wall io = (Inr (j, rep), io')"
    and steps: "(sys_step SimIo_Io power_cut name)\<^sup>*\<^sup>* (Up j io') s"
    by (auto simp: history_def)
  from sim.sys_steps_refine [OF steps sim.open_fresh [OF op io]] show thesis
    using that by (auto simp: sim_rel_def)
qed

lemma history_step: "history name s \<Longrightarrow> sys_step SimIo_Io power_cut name s s' \<Longrightarrow> history name s'"
  by (fastforce simp: history_def elim: rtranclp.rtrancl_into_rtrancl)

text \<open>A history that exists: a fresh disk without faults, one record written and synced.\<close>

definition sample_name :: str where
  "sample_name = ascii ''s0''"

lemma sample_opens:
  obtains j rep io where
    "journal_open SimIo_Io 3 1 sample_name 1 First 5 (SimIo_new 1 IoFaults_NONE) = (Inr (j, rep), io)"
    "sim_calm io" "history sample_name (Up j io)" "sim_rel sample_name (Up j io) \<lparr>lg_records = [], lg_acked = 0\<rparr>"
    "jn_pending j = None" "jn_dedup j = DedupWindow_new 65536" "jn_written j = 0"
    "\<exists>t. sim_sto io (jn_file j) = Some ([], t)"
proof -
  let ?io = "SimIo_new 1 IoFaults_NONE"
  let ?ack = "sample_name @ ascii ''.ack''"
  have ne: "?ack \<noteq> sample_name" by (simp add: ascii_def)
  define io1 where "io1 = snd (SimIo_create sample_name ?io)"
  define io2 where "io2 = snd (SimIo_create ?ack io1)"
  define j0 where "j0 = \<lparr>jn_file = 0, jn_shard = 3, jn_segment = 1,
      jn_created_at = 5, jn_start = First, jn_genesis = Hash_ZERO, jn_chain = ChainState_genesis,
      jn_written = 0, jn_acked = 0, jn_watermark = 1, jn_good_bytes = 0,
      jn_since_sync = 0, jn_sync_every = max 1 1, jn_pending = None,
      jn_dedup = DedupWindow_new 65536, jn_gaps = 0, jn_degraded = False\<rparr>"
  have c1: "SimIo_create sample_name ?io = (Inr 0, io1)"
    by (simp add: SimIo_create_def SimIo_new_def io1_def)
  have c2: "SimIo_create ?ack io1 = (Inr 1, io2)"
    using ne by (simp add: SimIo_create_def SimIo_new_def io1_def io2_def)
  have w: "sim_wf ?io" "sim_honest ?io" "by_name ?io sample_name = None" "by_name ?io ?ack = None"
    by (simp_all add: sim_wf_def sim_honest_def SimIo_new_def IoFaults_NONE_def)
  have w2: "sim_wf io2" using SimIo_create_sto c1 c2 w(1) by blast
  have io2: "sim_calm io2" "sim_sto io2 0 = Some ([], [])" "sim_sto io2 1 = Some ([], [])"
    using ne by (simp_all add: io1_def io2_def SimIo_create_def SimIo_new_def sim_calm_def sim_sto_def SimIo_file_def)
  from sim.recover_empty_calm [of io2 j0, OF w2 io2(1)] io2 obtain rep j io where
    rc: "recover SimIo_Io j0 io2 = (Inr rep, j, io)" "sim_calm io" "jn_pending j = None"
      "jn_dedup j = jn_dedup j0" "\<exists>t. sim_sto io (jn_file j0) = Some ([], t)"
    by (auto simp: j0_def)
  have op: "journal_open SimIo_Io 3 1 sample_name 1 First 5 ?io = (Inr (j, rep), io)"
    using rc(1) c1 c2 by (simp add: journal_open_def j0_def Let_def)
  then have "history sample_name (Up j io)" using w unfolding history_def by blast
  moreover have rel: "sim_rel sample_name (Up j io) \<lparr>lg_records = [], lg_acked = 0\<rparr>"
    using sim.open_fresh [OF op w] by (simp add: sim_rel_def)
  moreover have "jn_pending j = None" "jn_dedup j = DedupWindow_new 65536"
    using rc(3,4) by (simp_all add: j0_def)
  moreover have "\<exists>t. sim_sto io (jn_file j) = Some ([], t)"
    using rc(5) recover_identity(1) [OF rc(1)] by simp
  moreover have "jn_written j = 0"
    using rel by (auto simp: sim_rel_def file_ok_def file_at_def Let_def)
  ultimately show thesis using op rc(2) that by blast
qed

lemma takes_sample:
  assumes "sim_rel name (Up j io) \<lparr>lg_records = [], lg_acked = 0\<rparr>"
  shows "takes_record j sample_record"
proof -
  from assms obtain x hdr where "header_of j hdr" "jn_good_bytes j = of_nat (length hdr)"
    by (auto simp: sim_rel_def file_ok_def file_at_def Let_def)
  then have "length hdr \<le> 34" "unat (jn_good_bytes j) = length hdr"
    using length_header unat_of_nat_u64 [OF sim.header_of_length, of j hdr]
    by (auto simp: header_of_def MAX_SEGMENT_HEADER_LEN_def)
  moreover have "length (pd_bytes (stamped_frame j sample_record)) \<le> 2000"
    using sample_body_fits [of j] length_put_varint [of "of_nat (length (encode_record (stamp j sample_record)))"]
    by (simp add: stamped_frame_def Let_def encode_frame_def length_encode_frame)
  ultimately show ?thesis
    using sample_fits(1) sample_body_fits [of j] by (simp add: takes_record_def MAX_BODY_BYTES_def)
qed

lemma sample_history:
  obtains j io where "history sample_name (Up j io)" "jn_acked j = 1" "jn_written j = 1"
proof -
  obtain j rep io where o: "sim_calm io" "history sample_name (Up j io)"
    and rel: "sim_rel sample_name (Up j io) \<lparr>lg_records = [], lg_acked = 0\<rparr>"
    and j: "jn_pending j = None" "jn_dedup j = DedupWindow_new 65536" "jn_written j = 0"
    by (rule sample_opens)
  note t = takes_sample [OF rel]
  from sim.append_calm [OF rel [unfolded sim_rel_def] o(1) t] obtain link j1 io1 where
    a: "journal_append SimIo_Io j sample_record io = (Inr (Written 1 link), j1, io1)" "sim_calm io1"
      "jn_written j1 = 1"
    using j by (auto simp: dedup_position_def DedupWindow_new_def)
  have h1: "history sample_name (Up j1 io1)"
    using o(2) by (rule history_step) (rule sys_append [OF a(1) t])
  then obtain L where "sim_rel sample_name (Up j1 io1) L" by (rule history_rel)
  from sim.sync_calm [OF this [unfolded sim_rel_def] a(2)] obtain j2 io2 where
    s: "journal_sync SimIo_Io j1 io1 = (Inr 1, j2, io2)" "jn_acked j2 = 1"
    using a(3) by auto
  have "jn_written j2 = 1" using s a(3) by (auto simp: journal_sync_def Let_def split: prod.splits sum.splits)
  moreover have "history sample_name (Up j2 io2)"
    using h1 by (rule history_step) (rule sys_sync [OF s(1)])
  ultimately show thesis using that s(2) by blast
qed

lemma history_reads:
  assumes "history name (Up j io)"
  obtains v io' where "journal_read_all SimIo_Io j io = (Inr v, io')"
proof -
  from assms obtain L where L: "sim_rel name (Up j io) L" by (rule history_rel)
  then obtain x hdr ts where x: "sim_sto io (jn_file j) = Some x" "file_at j hdr x L"
    "hdr = encode_segment_header (jn_shard j) (jn_segment j) ts"
    by (auto simp: sim_rel_def file_ok_def header_of_def)
  then have "fst x @ snd x = hdr @ log_bytes (log_start (jn_start j) hdr) (lg_records L) @ inflight j"
    by (simp add: file_at_def Let_def)
  then show thesis
    using that x(1,3)
    by (auto simp: journal_read_all_def SimIo_read_all_def sim_sto_def decode_encode_header
        split: sum.splits)
qed

text \<open>What is promised stays, along any continuation of a history.\<close>

lemma promised_prefix_kept:
  assumes "history name (Up j io)" "journal_read_all SimIo_Io j io = (Inr before, io1)"
    and "(sys_step SimIo_Io power_cut name)\<^sup>*\<^sup>* (Up j io) (Up j' io')"
    and "journal_read_all SimIo_Io j' io' = (Inr after, io2)"
  shows "unat (jn_acked j) \<le> length (wk_records after) \<and>
    take (unat (jn_acked j)) (map fst (wk_records after)) =
    take (unat (jn_acked j)) (map fst (wk_records before))"
proof -
  from assms(1) obtain L where L: "sim_rel name (Up j io) L" by (rule history_rel)
  then have ack: "unat (jn_acked j) \<le> lg_acked L" "ledger_ok L" by (auto simp: sim_rel_def)
  from sim.sys_steps_refine [OF assms(3) L [unfolded sim_rel_def]] obtain M where
    steps: "ledger_step\<^sup>*\<^sup>* L M" and M: "sim_rel name (Up j' io') M" by (auto simp: sim_rel_def)
  have before: "map fst (wk_records before) = lg_records L"
    using sim.read_all_rel(1) L assms(2) by (auto simp: sim_rel_def)
  have after: "map fst (wk_records after) = lg_records M"
    using sim.read_all_rel(1) M assms(4) by (auto simp: sim_rel_def)
  have k: "lg_acked L \<le> length (lg_records M)" "take (lg_acked L) (lg_records M) = take (lg_acked L) (lg_records L)"
    using ledger_keeps_promises [OF steps ack(2)] by (auto simp: ledger_ok_def)
  have "length (wk_records after) = length (lg_records M)" using after by (metis length_map)
  moreover have "take (unat (jn_acked j)) (lg_records M) = take (unat (jn_acked j)) (lg_records L)"
    using k(2) ack(1) by (metis min.absorb1 take_take)
  ultimately show ?thesis using ack(1) k(1) before after by simp
qed

subsection \<open>Properties\<close>









text \<open>
  C34. Progress: on a disk without faults, in any state a history can be in, appending a record that
  is new, or the one still in flight, writes it at the next position, and a sync right after it
  reports that position as acked.
\<close>

theorem append_and_sync_progress:
  assumes "history name (Up j io)" "sim_faults io = IoFaults_NONE" "takes_record j r"
    and "case jn_pending j of None \<Rightarrow> dedup_position (jn_dedup j) (rec_id r) = None
         | Some p \<Rightarrow> pd_id p = rec_id r"
  shows "\<exists>link j1 io1 j2 io2.
    journal_append SimIo_Io j r io = (Inr (Written (jn_written j + 1) link), j1, io1) \<and>
    journal_sync SimIo_Io j1 io1 = (Inr (jn_written j + 1), j2, io2) \<and> jn_acked j2 = jn_written j + 1"
proof -
  from assms(1) obtain L where L: "sim_rel name (Up j io) L" by (rule history_rel)
  have "sim_calm io" using assms(2) by (simp add: sim_calm_def)
  from sim.append_calm [OF L [unfolded sim_rel_def] this assms(3,4)] obtain link j1 io1 where
    a: "journal_append SimIo_Io j r io = (Inr (Written (jn_written j + 1) link), j1, io1)"
      "sim_calm io1" "jn_written j1 = jn_written j + 1" by blast
  have "history name (Up j1 io1)" by (rule history_step [OF assms(1) sys_append [OF a(1) assms(3)]])
  then obtain M where M: "sim_rel name (Up j1 io1) M" by (rule history_rel)
  from sim.sync_calm [OF M [unfolded sim_rel_def] a(2)] a show ?thesis by auto
qed

theorem append_and_sync_progress_witness:
  "\<exists>j io link j1 io1 j2 io2. history sample_name (Up j io) \<and> jn_written j = 0 \<and>
    journal_append SimIo_Io j sample_record io = (Inr (Written 1 link), j1, io1) \<and>
    journal_sync SimIo_Io j1 io1 = (Inr 1, j2, io2) \<and> jn_acked j2 = 1"
proof -
  obtain j rep io where o: "sim_calm io" "history sample_name (Up j io)"
    and rel: "sim_rel sample_name (Up j io) \<lparr>lg_records = [], lg_acked = 0\<rparr>"
    and j: "jn_pending j = None" "jn_dedup j = DedupWindow_new 65536" "jn_written j = 0"
    by (rule sample_opens)
  have "case jn_pending j of None \<Rightarrow> dedup_position (jn_dedup j) (rec_id sample_record) = None
      | Some p \<Rightarrow> pd_id p = rec_id sample_record"
    by (simp add: j dedup_position_def DedupWindow_new_def)
  from append_and_sync_progress [OF o(2) o(1) [unfolded sim_calm_def] takes_sample [OF rel] this]
  have "\<exists>link j1 io1 j2 io2. journal_append SimIo_Io j sample_record io = (Inr (Written 1 link), j1, io1) \<and>
    journal_sync SimIo_Io j1 io1 = (Inr 1, j2, io2) \<and> jn_acked j2 = 1" by (simp add: j(3))
  with o(2) j(3) show ?thesis by blast
qed

text \<open>
  C36. A gap in the memory of record ids. Recovery inside a running process adds the ids it reads
  back and forgets none, so a record whose bytes the crash took is still remembered: here recovery
  finds an empty journal, and sending the lost record again is answered \<open>Duplicate\<close>, with the
  position it no longer has, and nothing is written.
\<close>

theorem lost_record_answered_duplicate:
  assumes "history name (Down j io)" "recover SimIo_Io j io = (Inr rep, j', io')" "rv_max_seq rep = 0"
    and "dedup_position (jn_dedup j) (rec_id r) = Some seq"
  shows "journal_append SimIo_Io j' r io' = (Inr (Duplicate seq), j', io') \<and> jn_written j' = 0"
proof -
  from assms(1) obtain L where L: "sim_rel name (Down j io) L" by (rule history_rel)
  have "jn_dedup j' = jn_dedup j"
    using sim.recover_rel [OF assms(2) L [unfolded sim_rel_def]] assms(3) by (auto simp del: sys_rel.simps)
  moreover have "jn_pending j' = None \<and> jn_written j' = rv_max_seq rep" by (rule recover_fields [OF assms(2)])
  ultimately show ?thesis using assms(3,4) by (simp add: journal_append_def)
qed

text \<open>A power cut that keeps nothing of the unsynced tails.\<close>

definition cut_all :: "SimIo \<Rightarrow> SimIo" where
  "cut_all io = io\<lparr>sim_files := map (\<lambda>f. f\<lparr>sf_dirty := []\<rparr>) (sim_files io)\<rparr>"

lemma cut_all:
  "power_cut io (cut_all io)" "sim_calm io \<Longrightarrow> sim_calm (cut_all io)"
  "sim_sto io f = Some (d, t) \<Longrightarrow> sim_sto (cut_all io) f = Some (d, [])"
  by (auto simp: cut_all_def power_cut_def file_cut_def sim_calm_def sim_sto_Some list_all2_conv_all_nth)

theorem lost_record_answered_duplicate_witness:
  "\<exists>j io rep j' io'. history sample_name (Down j io) \<and>
     recover SimIo_Io j io = (Inr rep, j', io') \<and> rv_max_seq rep = 0 \<and>
     journal_append SimIo_Io j' sample_record io' = (Inr (Duplicate 1), j', io') \<and> jn_written j' = 0"
proof -
  obtain j0 rep0 io0 where o: "sim_calm io0" "history sample_name (Up j0 io0)"
    and rel: "sim_rel sample_name (Up j0 io0) \<lparr>lg_records = [], lg_acked = 0\<rparr>"
    and j0: "jn_pending j0 = None" "jn_dedup j0 = DedupWindow_new 65536" "jn_written j0 = 0"
    and dur: "\<exists>t. sim_sto io0 (jn_file j0) = Some ([], t)"
    by (rule sample_opens)
  note t = takes_sample [OF rel]
  from sim.append_calm [OF rel [unfolded sim_rel_def] o(1) t] obtain link j io where
    a: "journal_append SimIo_Io j0 sample_record io0 = (Inr (Written 1 link), j, io)" "sim_calm io"
    and dd: "jn_dedup j = dedup_remember (DedupWindow_new 65536) (rec_id sample_record) 1"
    using j0 by (auto simp: dedup_position_def DedupWindow_new_def)
  have pos: "dedup_position (jn_dedup j) (rec_id sample_record) = Some 1"
    by (simp add: dd dedup_position_def dedup_remember_def DedupWindow_new_def Let_def)
  have h: "history sample_name (Up j io)" by (rule history_step [OF o(2) sys_append [OF a(1) t]])
  have hd: "history sample_name (Down j (cut_all io))"
    using h by (rule history_step) (rule sys_crash, rule cut_all(1))
  have jf: "jn_file j = jn_file j0"
    using a(1) by (auto simp: journal_append_def push_pending_def Let_def
        split: option.splits prod.splits if_splits)
  from sim.append_durable [OF rel [unfolded sim_rel_def] t a(1)] dur obtain tl where
    "sim_sto io (jn_file j) = Some ([], tl)" by (auto simp: jf)
  from cut_all(3) [OF this] have empty: "sim_sto (cut_all io) (jn_file j) = Some ([], [])" .
  from hd obtain L where L: "sim_rel sample_name (Down j (cut_all io)) L" by (rule history_rel)
  then obtain y where "sim_wf (cut_all io)" "sim_sto (cut_all io) (jn_watermark j) = Some y"
    by (auto simp: sim_rel_def)
  from sim.recover_empty_calm [OF this(1) cut_all(2) [OF a(2)] empty this(2)] obtain rep j' io' where
    rc: "recover SimIo_Io j (cut_all io) = (Inr rep, j', io')" "rv_max_seq rep = 0" by blast
  from lost_record_answered_duplicate [OF hd rc pos] hd rc show ?thesis by blast
qed

subsection \<open>Files no crash explains\<close>

lemma sim_read: "sim_sto io f = Some (d, t) \<Longrightarrow> SimIo_read_all f io = (Inr (d @ t), io)"
  by (auto simp: SimIo_read_all_def sim_sto_def split: sum.splits)

text \<open>A journal object and a disk with one file on it, to try recovery on.\<close>

definition sample_journal :: Journal where
  "sample_journal =
     \<lparr>jn_file = 0, jn_shard = 3, jn_segment = 1, jn_created_at = 5, jn_start = First,
      jn_genesis = 0, jn_chain = ChainState_genesis, jn_written = 0, jn_acked = 0,
      jn_watermark = 1, jn_good_bytes = 0, jn_since_sync = 0, jn_sync_every = 1,
      jn_pending = None, jn_dedup = DedupWindow_new 1, jn_gaps = 0, jn_degraded = False\<rparr>"

definition disk_with :: "bytes \<Rightarrow> SimIo" where
  "disk_with b = (SimIo_new 0 IoFaults_NONE)\<lparr>sim_files :=
     [\<lparr>sf_name = [], sf_durable = b, sf_dirty = []\<rparr>]\<rparr>"

lemma disk_with_sto: "sim_sto (disk_with b) (jn_file sample_journal) = Some (b, [])" "sim_wf (disk_with b)"
  by (simp_all add: disk_with_def sample_journal_def sim_sto_def SimIo_file_def sim_wf_def SimIo_new_def)

text \<open>
  Recovery does not touch a file that is not a crashed journal of its own. A header that does
  not decode on a file longer than any header, a foreign or newer format, or a header of another
  shard or segment is an error that names what was found, and every byte stays where it was.
\<close>

theorem foreign_file_left_alone:
  assumes "sim_sto io (jn_file j) = Some (d, t)" "MAX_SEGMENT_HEADER_LEN < length (d @ t)"
    and "case decode_segment_header (d @ t) of
           Inr h \<Rightarrow> hd_shard h \<noteq> jn_shard j \<or> hd_segment h \<noteq> jn_segment j | Inl e \<Rightarrow> True"
  shows "recover SimIo_Io j io =
    (Inl (case decode_segment_header (d @ t) of
            Inr h \<Rightarrow> WrongOwner (hd_shard h) (hd_segment h)
          | Inl e \<Rightarrow> if e = Truncated \<or> e = BadCrc then CorruptHeader e (of_nat (length (d @ t)))
                   else NotAJournal e), j, io)"
proof -
  have "d @ t \<noteq> []" using assms(2) by auto
  then show ?thesis
    using assms sim_read [OF assms(1)]
    by (auto simp: recover_def ensure_header_def split: sum.splits)
qed

theorem foreign_file_left_alone_witness:
  "recover SimIo_Io sample_journal (disk_with (replicate 40 1)) =
     (Inl (NotAJournal BadMagic), sample_journal, disk_with (replicate 40 1))"
proof -
  have sto: "sim_sto (disk_with (replicate 40 1)) (jn_file sample_journal) = Some (replicate 40 1, [])"
    by (rule disk_with_sto)
  have len: "MAX_SEGMENT_HEADER_LEN < length (replicate 40 (1 :: u8) @ [])"
    by (simp add: MAX_SEGMENT_HEADER_LEN_def)
  have "hd SEGMENT_MAGIC \<noteq> 1" by (simp add: SEGMENT_MAGIC_def ascii_def)
  moreover have "hd (take 4 (replicate 40 (1 :: u8))) = 1" by (simp add: hd_replicate)
  ultimately have "take 4 (replicate 40 1) \<noteq> SEGMENT_MAGIC" by metis
  then have "decode_segment_header (replicate 40 1 @ []) = Inl BadMagic"
    by (simp add: decode_segment_header_def)
  then show ?thesis using foreign_file_left_alone [OF sto len] by simp
qed



text \<open>
  The promise outlives the process that made it, and a torn one promises nothing. After the
  watermark is written without an error it reads back as the number acked; cut anywhere by a power
  failure, at any point of being written, it reads back as that number or as zero, never as anything
  between.
\<close>

theorem watermark_roundtrip:
  assumes "sim_wf io" "sim_sto io (jn_watermark j) = Some y"
    and "write_watermark SimIo_Io j io = (r, io')"
  shows "(r = Inr () \<longrightarrow> fst (read_watermark SimIo_Io j io') = jn_acked j) \<and>
    (\<forall>io''. power_cut io' io'' \<longrightarrow>
       fst (read_watermark SimIo_Io j io'') = jn_acked j \<or> fst (read_watermark SimIo_Io j io'') = 0)"
proof -
  let ?b = "watermark_bytes (jn_acked j)"
  have len: "length ?b = 12" and crc: "crc32 (take 8 ?b) = from_le_bytes (drop 8 ?b)"
    and val: "from_be_bytes (take 8 ?b) = jn_acked j"
    by (simp_all add: watermark_bytes_def Let_def)
  have rd: "fst (read_watermark SimIo_Io j i) = (if 12 \<le> m then jn_acked j else 0)"
    if "sim_sto i (jn_watermark j) = Some (d, t)" "d @ t = take m ?b" for i d t m
    using sim_read [OF that(1)] that(2) len crc val by (auto simp: read_watermark_def min_def)
  have "\<nexists>e i. io_truncate SimIo_Io (jn_watermark j) 0 io = (Inl e, i)"
    using SimIo_truncate_sto(6) assms(2) by fastforce
  with sim.write_watermark_bytes [OF assms(3,1,2)] obtain x z m where
    "sim_sto io' = (sim_sto io)(jn_watermark j \<mapsto> (x, z))" "x @ z = take m ?b"
    "r = Inr () \<longrightarrow> m = length ?b" by blast
  then have w: "sim_sto io' (jn_watermark j) = Some (x, z)" "x @ z = take m ?b" "r = Inr () \<longrightarrow> m = 12"
    using len by simp_all
  have "fst (read_watermark SimIo_Io j io'') = jn_acked j \<or> fst (read_watermark SimIo_Io j io'') = 0"
    if cut: "power_cut io' io''" for io''
  proof -
    from power_cut_sto [OF cut w(1)] obtain k where k: "sim_sto io'' (jn_watermark j) = Some (x @ take k z, [])" ..
    have "x @ take k z = take (length x + k) (x @ z)" by simp
    then have "(x @ take k z) @ [] = take (min (length x + k) m) ?b" using w(2) by simp
    from rd [OF k this] show ?thesis by simp
  qed
  then show ?thesis using rd [OF w(1,2)] w(3) by simp
qed

theorem watermark_roundtrip_witness:
  "\<exists>io'. write_watermark SimIo_Io (sample_journal\<lparr>jn_watermark := 0, jn_acked := 5\<rparr>) (disk_with []) = (Inr (), io') \<and>
     fst (read_watermark SimIo_Io (sample_journal\<lparr>jn_watermark := 0, jn_acked := 5\<rparr>) io') = 5"
proof -
  let ?j = "sample_journal\<lparr>jn_watermark := 0, jn_acked := 5\<rparr>"
  have sto: "sim_wf (disk_with [])" "sim_sto (disk_with []) (jn_watermark ?j) = Some ([], [])"
    using disk_with_sto [of "[]"] by (simp_all add: sample_journal_def)
  have "sim_calm (disk_with [])" by (simp add: sim_calm_def disk_with_def SimIo_new_def)
  from sim.write_watermark_calm [OF sto(1) this sto(2)] obtain io' where
    w: "write_watermark SimIo_Io ?j (disk_with []) = (Inr (), io')" ..
  from watermark_roundtrip [OF sto w] w show ?thesis by simp
qed

end
