(* ===== verification/Query.thy ===== *)
theory Query
  imports Segment
begin

text \<open>
  The read surface over one sealed segment: \<open>crates/trailryx-store/src/query.rs\<close>. A query is a
  range of one sorted dimension, an instant to read the store at, and filters; the answer carries
  the records, the completeness proof of the range and a status that says how much of the answer
  the proof covers.

  The reference is the predicate \<open>asked\<close>, which reads the query literally, with no regard for which
  index answers it. The results: every query of a sealed segment is answered (the index does not
  panic), with exactly the records asked for, in index order; and the status is \<open>Full\<close> exactly when
  no part of the question lies outside the proof, and otherwise names each part once.
\<close>

subsection \<open>Filters\<close>

datatype Filter =
    Filter_Tenant TenantId
  | Filter_Severity Severity
  | Filter_MinSeverity Severity
  | Filter_Verdict Verdict
  | Filter_Error ErrorCode
  | Filter_HasPayload bool

primrec severity_rank :: "Severity \<Rightarrow> u8" where
  "severity_rank Debug = 0"
| "severity_rank Info = 1"
| "severity_rank Notice = 2"
| "severity_rank Warning = 3"
| "severity_rank Error = 4"
| "severity_rank Critical = 5"

primrec Filter_matches :: "Filter \<Rightarrow> Record \<Rightarrow> bool" where
  "Filter_matches (Filter_Tenant t) r = (tenant r = t)"
| "Filter_matches (Filter_Severity s) r = (severity r = s)"
| "Filter_matches (Filter_MinSeverity s) r = (severity_rank s \<le> severity_rank (severity r))"
| "Filter_matches (Filter_Verdict v) r = (out_verdict (outcome r) = Some v)"
| "Filter_matches (Filter_Error e) r = (out_error (outcome r) = Some e)"
| "Filter_matches (Filter_HasPayload want) r = ((payload r \<noteq> None) = want)"

primrec Filter_name :: "Filter \<Rightarrow> string" where
  "Filter_name (Filter_Tenant t) = ''tenant''"
| "Filter_name (Filter_Severity s) = ''severity''"
| "Filter_name (Filter_MinSeverity s) = ''severity''"
| "Filter_name (Filter_Verdict v) = ''outcome.verdict''"
| "Filter_name (Filter_Error e) = ''outcome.error''"
| "Filter_name (Filter_HasPayload b) = ''payload''"

subsection \<open>Queries\<close>

record Query =
  q_dimension :: Dimension
  q_lo :: bytes
  q_hi :: bytes
  q_filters :: "Filter list"
  q_as_of :: "Timestamp option"

definition Query_range :: "Dimension \<Rightarrow> bytes \<Rightarrow> bytes \<Rightarrow> Query" where
  "Query_range dimension lo hi =
     \<lparr>q_dimension = dimension, q_lo = lo, q_hi = hi, q_filters = [], q_as_of = None\<rparr>"

definition Query_point :: "Dimension \<Rightarrow> bytes \<Rightarrow> Query" where
  "Query_point dimension key = Query_range dimension key key"

definition time_between :: "Timestamp \<Rightarrow> Timestamp \<Rightarrow> Query" where
  "time_between from until = Query_range Dim_RecordedAt (time_key from) (time_key until)"

definition Query_with :: "Query \<Rightarrow> Filter \<Rightarrow> Query" where
  "Query_with q f = q\<lparr>q_filters := q_filters q @ [f]\<rparr>"

definition Query_as_of :: "Query \<Rightarrow> Timestamp \<Rightarrow> Query" where
  "Query_as_of q at = q\<lparr>q_as_of := Some at\<rparr>"

definition effective_hi :: "Query \<Rightarrow> bytes" where
  "effective_hi q =
     (case (q_as_of q, q_dimension q) of
        (Some at, Dim_RecordedAt) \<Rightarrow>
          let bound = time_key at in if bound < q_hi q then bound else q_hi q
      | _ \<Rightarrow> q_hi q)"

subsection \<open>How much of an answer is proved\<close>

datatype ProofStatus = Full | Partial "string list" | Unproved string

definition is_full :: "ProofStatus \<Rightarrow> bool" where
  "is_full s = (case s of Full \<Rightarrow> True | _ \<Rightarrow> False)"

primrec downgrade :: "ProofStatus \<Rightarrow> string \<Rightarrow> ProofStatus" where
  "downgrade Full reason = Partial [reason]"
| "downgrade (Partial unproved) reason =
     (if reason \<in> set unproved then Partial unproved else Partial (unproved @ [reason]))"
| "downgrade (Unproved why) reason = Unproved why"

record Answer =
  an_records :: "Record list"
  an_proof :: ProofStatus
  segment_proofs :: "CompletenessProof list"
  matched_before_filters :: nat

text \<open>
  \<open>query_segment\<close>; \<open>None\<close> stands for the panic of the index, as in \<^const>\<open>range_proof\<close>. Each filter
  removes what it does not match and downgrades the status, in one pass over the filters.
\<close>

definition apply_filter :: "Record list \<times> ProofStatus \<Rightarrow> Filter \<Rightarrow> Record list \<times> ProofStatus" where
  "apply_filter rs f =
     (case rs of (records, status) \<Rightarrow> (filter (Filter_matches f) records, downgrade status (Filter_name f)))"

definition query_segment :: "Segment \<Rightarrow> Query \<Rightarrow> Answer option" where
  "query_segment segment q =
     (let hi = effective_hi q;
          status = (if q_as_of q \<noteq> None \<and> q_dimension q \<noteq> Dim_RecordedAt
                    then downgrade Full ''as_of'' else Full)
      in case sg_index segment (q_dimension q) of
           None \<Rightarrow> Some \<lparr>an_records = [],
                        an_proof = Unproved ''the segment has no index for this dimension'',
                        segment_proofs = [], matched_before_filters = 0\<rparr>
         | Some idx \<Rightarrow>
             (case range_proof idx (q_lo q) hi of
                None \<Rightarrow> None
              | Some pf \<Rightarrow>
                  let matched = length (pf_entries pf);
                      records = List.map_filter (\<lambda>e. record_by_link segment (record_link e)) (pf_entries pf);
                      records = (case q_as_of q of
                                   Some at \<Rightarrow> if q_dimension q \<noteq> Dim_RecordedAt
                                              then filter (\<lambda>r. recorded_at r \<le> at) records
                                              else records
                                 | None \<Rightarrow> records);
                      (records, status) = foldl apply_filter (records, status) (q_filters q)
                  in Some \<lparr>an_records = records, an_proof = status, segment_proofs = [pf],
                           matched_before_filters = matched\<rparr>))"

subsection \<open>What a query asks for\<close>

definition asked :: "Query \<Rightarrow> Record \<Rightarrow> bool" where
  "asked q r \<longleftrightarrow>
     q_lo q \<le> key_of (q_dimension q) r \<and> key_of (q_dimension q) r \<le> q_hi q \<and>
     pred_option (\<lambda>at. recorded_at r \<le> at) (q_as_of q) \<and>
     list_all (\<lambda>f. Filter_matches f r) (q_filters q)"

text \<open>The parts of a query that its index does not cover, in the order they are applied.\<close>

definition uncovered :: "Query \<Rightarrow> string list" where
  "uncovered q =
     (if q_as_of q \<noteq> None \<and> q_dimension q \<noteq> Dim_RecordedAt then [''as_of''] else []) @
     map Filter_name (q_filters q)"

definition index_order :: "Dimension \<Rightarrow> (Record \<times> hash) list \<Rightarrow> (Record \<times> hash) list" where
  "index_order dim records = sort_key (\<lambda>rl. position (entry_of dim rl)) records"

lemma insort_key_map: "insort_key f (g x) (map g xs) = map g (insort_key (\<lambda>x. f (g x)) x xs)"
  by (induction xs) simp_all

lemma sort_key_map: "sort_key f (map g xs) = map g (sort_key (\<lambda>x. f (g x)) xs)"
  by (induction xs) (simp_all add: insort_key_map)

lemma build_entries: "ix_entries (SortedIndex_build dim records) = map (entry_of dim) (index_order dim records)"
  by (simp add: SortedIndex_build_def Let_def index_order_def sort_key_map)

lemma set_index_order [simp]: "set (index_order dim records) = set records"
  by (simp add: index_order_def)

lemma map_filter_all:
  assumes "\<And>x. x \<in> set xs \<Longrightarrow> f (g x) = Some (h x)"
  shows "List.map_filter f (map g xs) = map h xs"
  using assms by (induction xs) (simp_all add: map_filter_simps)

lemma le_tighter: "(k :: 'a::linorder) \<le> (if b < h then b else h) \<longleftrightarrow> k \<le> h \<and> k \<le> b"
  by auto

lemma effective_hi_covers:
  "key_of (q_dimension q) r \<le> effective_hi q \<longleftrightarrow>
   key_of (q_dimension q) r \<le> q_hi q \<and>
   (q_dimension q = Dim_RecordedAt \<longrightarrow> pred_option (\<lambda>at. recorded_at r \<le> at) (q_as_of q))"
proof (cases "q_dimension q = Dim_RecordedAt \<and> q_as_of q \<noteq> None")
  case True
  then obtain at where at: "q_dimension q = Dim_RecordedAt" "q_as_of q = Some at" by auto
  have "to_be_bytes (recorded_at r) \<le> to_be_bytes at \<longleftrightarrow> recorded_at r \<le> at"
    by (rule to_be_bytes_le_iff) simp
  then show ?thesis by (simp only: at effective_hi_def time_key_def Let_def le_tighter key_of.simps
      option.case Dimension.case prod.case option.pred_inject simp_thms)
qed (auto simp: effective_hi_def split: option.splits Dimension.splits)

lemma asked_unfold:
  "asked q r \<longleftrightarrow> (q_lo q \<le> key_of (q_dimension q) r \<and> key_of (q_dimension q) r \<le> effective_hi q) \<and>
     (q_dimension q \<noteq> Dim_RecordedAt \<longrightarrow> pred_option (\<lambda>at. recorded_at r \<le> at) (q_as_of q)) \<and>
     list_all (\<lambda>f. Filter_matches f r) (q_filters q)"
  unfolding asked_def effective_hi_covers by blast

definition status_for :: "string list \<Rightarrow> ProofStatus" where
  "status_for names = (if names = [] then Full else Partial (rev (remdups (rev names))))"

lemma downgrade_status: "downgrade (status_for names) n = status_for (names @ [n])"
  by (simp add: status_for_def)

lemma foldl_apply_filter:
  "foldl apply_filter (rs, status_for ns) fs =
     (filter (\<lambda>r. list_all (\<lambda>f. Filter_matches f r) fs) rs, status_for (ns @ map Filter_name fs))"
  by (induction fs arbitrary: rs ns)
     (simp_all add: apply_filter_def downgrade_status filter_filter conj_commute)

lemma query_sealed:
  assumes "seal g sh b records = Inr s" "distinct (map snd records)"
  obtains pf where
    "range_proof (SortedIndex_build (q_dimension q) records) (q_lo q) (effective_hi q) = Some pf"
    "query_segment s q = Some \<lparr>an_records = filter (asked q) (map fst (index_order (q_dimension q) records)),
       an_proof = status_for (uncovered q), segment_proofs = [pf],
       matched_before_filters = length (pf_entries pf)\<rparr>"
    "completeness_verify pf (q_dimension q) (q_lo q) (effective_hi q)
       (ix_root (SortedIndex_build (q_dimension q) records)) (length records) = Inr ()"
proof -
  let ?d = "q_dimension q" and ?hi = "effective_hi q"
  let ?ix = "SortedIndex_build ?d records" and ?rs = "index_order ?d records"
  from range_proof_complete [OF build_wf seal_facts(6) [OF assms(1)], of ?d "q_lo q" ?hi]
  obtain pf where pf: "range_proof ?ix (q_lo q) ?hi = Some pf"
    "completeness_verify pf ?d (q_lo q) ?hi (ix_root ?ix) (length records) = Inr ()"
    "pf_entries pf = filter (in_range (q_lo q) ?hi) (ix_entries ?ix)"
    by (auto simp: build_fields ix_len_def)
  have link: "record_by_link s (record_link (entry_of ?d rl)) = Some (fst rl)" if rl: "rl \<in> set records" for rl
  proof -
    from rl obtain i where "i < length records" "rl = records ! i" by (auto simp: in_set_conv_nth)
    with links_roundtrip(2) [OF assms] show ?thesis by (cases "records ! i") (fastforce simp: entry_of_def)
  qed
  have found: "List.map_filter (\<lambda>e. record_by_link s (record_link e)) (pf_entries pf) =
      filter (\<lambda>r. q_lo q \<le> key_of ?d r \<and> key_of ?d r \<le> ?hi) (map fst ?rs)"
    unfolding pf(3) build_entries filter_map
    by (subst map_filter_all [where h = fst]) (auto simp: link comp_def in_range_def)
  have st: "(if q_as_of q \<noteq> None \<and> ?d \<noteq> Dim_RecordedAt then downgrade Full ''as_of'' else Full) =
      status_for (if q_as_of q \<noteq> None \<and> ?d \<noteq> Dim_RecordedAt then [''as_of''] else [])"
    by (simp add: status_for_def)
  have "query_segment s q = Some \<lparr>an_records = filter (asked q) (map fst ?rs),
       an_proof = status_for (uncovered q), segment_proofs = [pf],
       matched_before_filters = length (pf_entries pf)\<rparr>"
    unfolding query_segment_def Let_def st seal_facts(1) [OF assms(1)] option.case pf(1) found
      uncovered_def asked_unfold
    by (cases "q_as_of q") (simp_all add: foldl_apply_filter conj_assoc)
  with pf(1,2) show thesis using that by blast
qed

lemma status_for_full: "is_full (status_for names) \<longleftrightarrow> names = []"
  by (simp add: status_for_def is_full_def)

lemma status_for_names: "status_for names = Partial ns \<Longrightarrow> distinct ns \<and> set ns = set names"
  by (auto simp: status_for_def split: if_splits)

subsection \<open>Properties\<close>

text \<open>
  Every query of a sealed segment whose links are distinct is answered, and the answer holds
  exactly the records the query asks for, range, instant and filters read literally, in the order of
  the index: on the time dimension the instant tightens the range, on any other it is applied to
  the records, and both come to the same. The one proof attached verifies against the root the
  manifest commits to for that dimension, for the range the proof is about.
\<close>

theorem query_answers_exactly:
  assumes "seal segment shard before records = Inr s" "distinct (map snd records)"
  shows "\<exists>a pf rt. query_segment s q = Some a \<and>
     an_records a = filter (asked q) (map fst (index_order (q_dimension q) records)) \<and>
     segment_proofs a = [pf] \<and> matched_before_filters a = length (pf_entries pf) \<and>
     index_root (sg_manifest s) (q_dimension q) = Some rt \<and>
     completeness_verify pf (q_dimension q) (q_lo q) (effective_hi q) rt (length records) = Inr ()"
  by (rule query_sealed [OF assms, of q]) (auto simp: seal_facts(2) [OF assms(1)])

theorem query_answers_exactly_witness:
  "\<exists>s a. seal 1 3 0 [(sample_record, 5)] = Inr s \<and>
     query_segment s (Query_with (Query_point Dim_RunId (run_id sample_record)) (Filter_HasPayload True)) = Some a \<and>
     an_records a = filter (\<lambda>r. payload r \<noteq> None) [sample_record]"
proof -
  from seal_sample obtain s where s: "seal 1 3 0 [(sample_record, 5)] = Inr s" by blast
  from query_answers_exactly [OF s, of "Query_with (Query_point Dim_RunId (run_id sample_record)) (Filter_HasPayload True)"]
  show ?thesis
    using s by (auto simp: asked_def Query_with_def Query_point_def Query_range_def index_order_def)
qed

text \<open>
  Every answer says how much of itself is proved. The status of an answer from a sealed segment
  is full exactly when the query has no filter and its instant, if any, is on the time dimension;
  otherwise it names every part of the question the proof does not cover, each once, and nothing
  else. A segment without the index says so and returns nothing.
\<close>

theorem status_names_what_is_unproved:
  "(sg_index s (q_dimension q) = None \<longrightarrow>
      (\<exists>a. query_segment s q = Some a \<and> an_records a = [] \<and> segment_proofs a = [] \<and>
           an_proof a = Unproved ''the segment has no index for this dimension'')) \<and>
   (sg_index s (q_dimension q) \<noteq> None \<and> query_segment s q = Some a \<longrightarrow>
      (is_full (an_proof a) \<longleftrightarrow> q_filters q = [] \<and> (q_as_of q = None \<or> q_dimension q = Dim_RecordedAt)) \<and>
      (\<forall>ns. an_proof a = Partial ns \<longrightarrow> distinct ns \<and>
         set ns = {n. n = ''as_of'' \<and> q_as_of q \<noteq> None \<and> q_dimension q \<noteq> Dim_RecordedAt} \<union>
           Filter_name ` set (q_filters q)))"
proof -
  have "an_proof a = status_for (uncovered q)"
    if "sg_index s (q_dimension q) \<noteq> None" "query_segment s q = Some a"
  proof -
    have st: "(if q_as_of q \<noteq> None \<and> q_dimension q \<noteq> Dim_RecordedAt then downgrade Full ''as_of'' else Full) =
        status_for (if q_as_of q \<noteq> None \<and> q_dimension q \<noteq> Dim_RecordedAt then [''as_of''] else [])"
      by (simp add: status_for_def)
    show ?thesis
      using that unfolding query_segment_def Let_def st uncovered_def
      by (auto simp only: foldl_apply_filter prod.case option.case option.inject Answer.simps
          split: option.split_asm)
  qed
  moreover have "set (uncovered q) = {n. n = ''as_of'' \<and> q_as_of q \<noteq> None \<and> q_dimension q \<noteq> Dim_RecordedAt} \<union>
      Filter_name ` set (q_filters q)"
    by (auto simp: uncovered_def)
  moreover have "uncovered q = [] \<longleftrightarrow> q_filters q = [] \<and> (q_as_of q = None \<or> q_dimension q = Dim_RecordedAt)"
    by (simp add: uncovered_def)
  ultimately show ?thesis
    using status_for_names [of "uncovered q"] by (auto simp: status_for_full query_segment_def Let_def)
qed

theorem status_names_what_is_unproved_witness:
  "\<exists>s a. seal 1 3 0 [(sample_record, 5)] = Inr s \<and>
     query_segment s (Query_as_of (time_between 0 9) 4) = Some a \<and> is_full (an_proof a)"
proof -
  let ?q = "Query_as_of (time_between 0 9) 4"
  from seal_sample obtain s where s: "seal 1 3 0 [(sample_record, 5)] = Inr s" by blast
  obtain a where a: "query_segment s ?q = Some a" by (rule query_sealed [OF s, of ?q]) simp_all
  have "q_filters ?q = []" "q_dimension ?q = Dim_RecordedAt" "sg_index s (q_dimension ?q) \<noteq> None"
    by (simp_all add: Query_as_of_def time_between_def Query_range_def seal_facts(1) [OF s])
  with status_names_what_is_unproved [of s ?q a] a have "is_full (an_proof a)" by simp
  with a s show ?thesis by blast
qed

end
