(* ===== verification/Sealing.thy ===== *)
theory Sealing
  imports Query History "HOL-Library.Multiset"
begin

text \<open>
  The joint between the journal and the index: \<open>crates/trailryx-store/src/seal.rs\<close>. Sealing takes
  the acked prefix of a journal, not everything the walk returned, so that a published root never
  describes records a crash can still take.

  The results span the components: on any history of a journal, sealing meets nothing suspicious
  and seals exactly the promised records; those survive whatever happens to the journal afterwards;
  and a query of the sealed segment answers with exactly the promised records it asks for, because
  the chain gives every record a link of its own.
\<close>

subsection \<open>The model\<close>

datatype StoreError =
    ChainDoesNotStartThere hash hash
  | StoreJournal JournalError
  | StoreSeal SealError
  | JournalSuspect StoppedBecause
  | StoreViolation u64 u64

record SealedSegment =
  ss_segment :: Segment
  ss_records :: u64
  ss_chain_after :: hash

definition ss_manifest :: "SealedSegment \<Rightarrow> SegmentManifest" where
  "ss_manifest s = sg_manifest (ss_segment s)"

datatype SealOutcome = Sealed SealedSegment | NothingDurable

definition seal_segment ::
  "'io Io \<Rightarrow> Journal \<Rightarrow> SegmentId \<Rightarrow> ShardIx \<Rightarrow> 'io \<Rightarrow> (StoreError + SealOutcome) \<times> 'io" where
  "seal_segment I journal segment shard io =
     (let before = jn_genesis journal in
      case journal_read_all I journal io of
        (Inl e, io) \<Rightarrow> (Inl (StoreJournal e), io)
      | (Inr walked, io) \<Rightarrow>
          (if \<not> (case wk_stopped walked of EndOfFile \<Rightarrow> True | TornTail _ \<Rightarrow> True | _ \<Rightarrow> False)
           then Inl (JournalSuspect (wk_stopped walked))
           else
             let acked = jn_acked journal;
                 available = of_nat (length (wk_records walked))
             in if available < acked then Inl (StoreViolation acked available)
                else if acked = 0 then Inr NothingDurable
                else
                  let durable = take (unat acked) (wk_records walked)
                  in if durable \<noteq> [] \<and> prev_hash (fst (hd durable)) \<noteq> before
                     then Inl (ChainDoesNotStartThere before (prev_hash (fst (hd durable))))
                     else
                       let after = (if durable = [] then before else snd (last durable))
                       in bind_res (map_err StoreSeal (seal segment shard before durable)) (\<lambda>sealed_segment.
                            Inr (Sealed \<lparr>ss_segment = sealed_segment, ss_records = acked,
                                         ss_chain_after = after\<rparr>)),
           io))"

definition provable_dimensions :: "Dimension list" where
  "provable_dimensions = Dimension_ALL"

subsection \<open>Links of a log\<close>

lemma log_items_nth:
  "i < length rs \<Longrightarrow> log_items c rs ! i = (rs ! i, ch_head (log_chain c (take (Suc i) rs)))"
proof (induction rs arbitrary: c i)
  case (Cons r rs)
  then show ?case by (cases i) (simp_all add: Let_def)
qed simp

lemma log_items_take: "log_items c (take n rs) = take n (log_items c rs)"
  by (rule nth_equalityI) (simp_all add: log_items_nth min_absorb1)

lemma mset_index_order: "mset (map f (index_order d rs)) = mset (map f rs)"
  by (simp add: index_order_def)

text \<open>The message behind the link of the record at position \<open>i\<close>.\<close>

definition link_msg :: "ChainState \<Rightarrow> Record list \<Rightarrow> nat \<Rightarrow> bytes" where
  "link_msg c rs i =
     chain_msg (ch_head (log_chain c (take i rs))) (ch_length c + of_nat i + 1) (encode_record (rs ! i))"

definition log_msgs :: "ChainState \<Rightarrow> Record list \<Rightarrow> bytes list" where
  "log_msgs c rs = map (link_msg c rs) [0 ..< length rs]"

lemma link_digest:
  assumes "i < length rs"
  shows "snd (log_items c rs ! i) = Sha384_digest (link_msg c rs i)"
proof -
  have "log_chain c (take (Suc i) rs) = fst (ChainState_append (log_chain c (take i rs)) (encode_record (rs ! i)))"
    using assms by (simp add: take_Suc_conv_app_nth)
  moreover have "ch_length (log_chain c (take i rs)) = ch_length c + of_nat i"
    using assms by (simp add: log_chain_length min_absorb1)
  ultimately show ?thesis
    using assms by (simp add: log_items_nth link_msg_def chain_step_digest)
qed

text \<open>The position inside each link keeps the links of one log apart.\<close>

lemma log_links_distinct:
  assumes "length rs < 2 ^ 64" "\<not> collides (log_msgs c rs) (log_msgs c rs)"
  shows "distinct (map snd (log_items c rs))"
proof (subst distinct_conv_nth, intro allI impI)
  fix i k
  assume ik: "i < length (map snd (log_items c rs))" "k < length (map snd (log_items c rs))" "i \<noteq> k"
  then have lt: "i < length rs" "k < length rs" by simp_all
  then have mem: "link_msg c rs i \<in> set (log_msgs c rs)" "link_msg c rs k \<in> set (log_msgs c rs)"
    by (simp_all add: log_msgs_def)
  have "link_msg c rs i \<noteq> link_msg c rs k"
  proof
    assume "link_msg c rs i = link_msg c rs k"
    then have "(of_nat i :: u64) = of_nat k" by (simp add: link_msg_def)
    then show False using of_nat_word_inj [of i k, where ?'a = 64] lt assms(1) ik(3) by simp
  qed
  with assms(2) mem have "Sha384_digest (link_msg c rs i) \<noteq> Sha384_digest (link_msg c rs k)"
    unfolding collides_def by blast
  with lt show "map snd (log_items c rs) ! i \<noteq> map snd (log_items c rs) ! k" by (simp add: link_digest)
qed

subsection \<open>Sealing a running journal\<close>

lemma seal_history:
  assumes "history name (Up j io)" "seal_segment SimIo_Io j g sh io = (res, io')"
  obtains v where "journal_read_all SimIo_Io j io = (Inr v, io)" "io' = io"
    "wk_records v = log_items (ChainState_resume (jn_genesis j) 0) (map fst (wk_records v))"
    "log_ok (jn_shard j) (jn_segment j) (ChainState_resume (jn_genesis j) 0) (map fst (wk_records v))"
    "length (wk_records v) < 2 ^ 64" "unat (jn_acked j) \<le> length (wk_records v)"
    "res = (if jn_acked j = 0 then Inr NothingDurable
            else bind_res (map_err StoreSeal (seal g sh (jn_genesis j) (take (unat (jn_acked j)) (wk_records v))))
                   (\<lambda>s. Inr (Sealed \<lparr>ss_segment = s, ss_records = jn_acked j,
                     ss_chain_after = snd (last (take (unat (jn_acked j)) (wk_records v)))\<rparr>)))"
proof -
  obtain v io1 where rd: "journal_read_all SimIo_Io j io = (Inr v, io1)" by (rule history_reads [OF assms(1)])
  then have io1: "io1 = io"
    by (auto simp: journal_read_all_def SimIo_read_all_def split: prod.splits sum.splits)
  from assms(1) obtain L where L: "sim_rel name (Up j io) L" by (rule history_rel)
  note R = sim.read_all_rel [OF L [unfolded sim_rel_def] rd]
  have rs: "map fst (wk_records v) = lg_records L" "length (wk_records v) = length (lg_records L)"
    using R(1) by (auto dest: arg_cong [where f = length])
  have ack: "unat (jn_acked j) \<le> length (wk_records v)"
    using L rs(2) by (simp add: sim_rel_def ledger_ok_def)
  have small: "length (wk_records v) < 2 ^ 64" using R(7) rs(2) by simp
  have "\<not> (of_nat (length (wk_records v)) :: u64) < jn_acked j"
    using ack small by (simp add: word_less_nat_alt unat_of_nat_u64)
  moreover have "take (unat (jn_acked j)) (wk_records v) \<noteq> [] \<and>
      prev_hash (fst (hd (take (unat (jn_acked j)) (wk_records v)))) = jn_genesis j" if "jn_acked j \<noteq> 0"
  proof -
    have "0 < unat (jn_acked j)" using that by (simp add: unat_gt_0)
    moreover from this obtain r rest where "lg_records L = r # rest" using ack rs(2) by (cases "lg_records L") auto
    ultimately show ?thesis
      using R(5,6) by (cases "unat (jn_acked j)") (simp_all add: Let_def entry_ok_def ChainState_resume_def)
  qed
  ultimately have "res = (if jn_acked j = 0 then Inr NothingDurable
            else bind_res (map_err StoreSeal (seal g sh (jn_genesis j) (take (unat (jn_acked j)) (wk_records v))))
                   (\<lambda>s. Inr (Sealed \<lparr>ss_segment = s, ss_records = jn_acked j,
                     ss_chain_after = snd (last (take (unat (jn_acked j)) (wk_records v)))\<rparr>)))" "io' = io1"
    using assms(2) R(4) rd by (auto simp: seal_segment_def Let_def)
  then show thesis using that rd io1 R(5,6) rs ack small by simp
qed

lemma seal_outcome:
  assumes "history name (Up j io)" "journal_read_all SimIo_Io j io = (Inr v, io1)"
    and "seal_segment SimIo_Io j segment shard io = (res, io2)"
  shows "case res of
      Inr NothingDurable \<Rightarrow> jn_acked j = 0
    | Inr (Sealed s) \<Rightarrow> jn_acked j \<noteq> 0 \<and> ss_records s = jn_acked j \<and>
        unat (jn_acked j) \<le> length (wk_records v) \<and>
        seal segment shard (jn_genesis j) (take (unat (jn_acked j)) (wk_records v)) = Inr (ss_segment s) \<and>
        ss_chain_after s = chain_after (ss_manifest s)
    | Inl e \<Rightarrow> \<exists>x. e = StoreSeal x \<and>
        seal segment shard (jn_genesis j) (take (unat (jn_acked j)) (wk_records v)) = Inl x"
proof (rule seal_history [OF assms(1,3)])
  fix w
  let ?d = "take (unat (jn_acked j)) (wk_records v)"
  assume w: "journal_read_all SimIo_Io j io = (Inr w, io)" "unat (jn_acked j) \<le> length (wk_records w)"
    "res = (if jn_acked j = 0 then Inr NothingDurable
        else bind_res (map_err StoreSeal (seal segment shard (jn_genesis j) (take (unat (jn_acked j)) (wk_records w))))
               (\<lambda>s. Inr (Sealed \<lparr>ss_segment = s, ss_records = jn_acked j,
                 ss_chain_after = snd (last (take (unat (jn_acked j)) (wk_records w)))\<rparr>)))"
  then have eq: "w = v" using assms(2) by simp
  show ?thesis
  proof (cases "jn_acked j = 0")
    case False
    have "?d \<noteq> []" using False w(2) eq by (auto simp: unat_eq_zero)
    then have "chain_after (sg_manifest s) = snd (last ?d)"
      if "seal segment shard (jn_genesis j) ?d = Inr s" for s
      using that by (auto simp: seal_def Let_def split: if_splits option.splits)
    then show ?thesis
      using False w eq by (cases "seal segment shard (jn_genesis j) ?d") (simp_all add: ss_manifest_def)
  qed (use w in simp)
qed

text \<open>A single record always seals; so the journal with one promised record does.\<close>

lemma seal_one: "\<exists>s. seal g sh b [rl] = Inr s"
  by (simp add: seal_def Let_def first_duplicate_index_iff first_duplicate_position_def
      SortedIndex_build_def set_Dimension_ALL split: option.splits prod.splits)

lemma sample_sealed:
  obtains j io v s where "history sample_name (Up j io)" "jn_acked j = 1"
    "journal_read_all SimIo_Io j io = (Inr v, io)" "seal_segment SimIo_Io j 1 3 io = (Inr (Sealed s), io)"
proof -
  obtain j io where h: "history sample_name (Up j io)" "jn_acked j = 1" by (rule sample_history)
  obtain res io' where sg: "seal_segment SimIo_Io j 1 3 io = (res, io')" by fastforce
  show thesis
  proof (rule seal_history [OF h(1) sg])
    fix v
    assume v: "journal_read_all SimIo_Io j io = (Inr v, io)" "io' = io"
      "unat (jn_acked j) \<le> length (wk_records v)"
      "res = (if jn_acked j = 0 then Inr NothingDurable
        else bind_res (map_err StoreSeal (seal 1 3 (jn_genesis j) (take (unat (jn_acked j)) (wk_records v))))
               (\<lambda>s. Inr (Sealed \<lparr>ss_segment = s, ss_records = jn_acked j,
                 ss_chain_after = snd (last (take (unat (jn_acked j)) (wk_records v)))\<rparr>)))"
    from v(3) h(2) obtain rl rest where "wk_records v = rl # rest" by (cases "wk_records v") auto
    then have "take (unat (jn_acked j)) (wk_records v) = [rl]" using h(2) by simp
    with seal_one [of 1 3 "jn_genesis j" rl] v(4) h(2) obtain s where "res = Inr (Sealed s)" by auto
    then show thesis using that [OF h v(1)] sg v(2) by simp
  qed
qed

subsection \<open>Properties\<close>

text \<open>
  Sealing a running journal, at any moment of any history, meets nothing it refuses: the file
  reads back, nothing about it is suspect, nothing promised is missing and the chain starts where
  the journal says. With nothing promised it says so; otherwise it seals exactly the promised
  prefix, from the journal's own first head, and fails only where sealing those records does.
\<close>

theorem seal_takes_the_promised:
  assumes "history name (Up j io)" "journal_read_all SimIo_Io j io = (Inr v, io1)"
    and "seal_segment SimIo_Io j segment shard io = (res, io2)"
  shows "case res of
      Inr NothingDurable \<Rightarrow> jn_acked j = 0
    | Inr (Sealed s) \<Rightarrow> jn_acked j \<noteq> 0 \<and> ss_records s = jn_acked j \<and>
        unat (jn_acked j) \<le> length (wk_records v) \<and>
        seal segment shard (jn_genesis j) (take (unat (jn_acked j)) (wk_records v)) = Inr (ss_segment s) \<and>
        ss_chain_after s = chain_after (ss_manifest s)
    | Inl e \<Rightarrow> \<exists>x. e = StoreSeal x \<and>
        seal segment shard (jn_genesis j) (take (unat (jn_acked j)) (wk_records v)) = Inl x"
  by (rule seal_outcome [OF assms])

theorem seal_takes_the_promised_witness:
  "\<exists>j io v s. history sample_name (Up j io) \<and> jn_acked j = 1 \<and>
     journal_read_all SimIo_Io j io = (Inr v, io) \<and>
     seal_segment SimIo_Io j 1 3 io = (Inr (Sealed s), io) \<and>
     seal 1 3 (jn_genesis j) (take 1 (wk_records v)) = Inr (ss_segment s)"
proof -
  obtain j io v s where h: "history sample_name (Up j io)" "jn_acked j = 1"
    "journal_read_all SimIo_Io j io = (Inr v, io)" "seal_segment SimIo_Io j 1 3 io = (Inr (Sealed s), io)"
    by (rule sample_sealed)
  from seal_takes_the_promised [OF h(1,3,4)] h show ?thesis by auto
qed

text \<open>
  C6. A sealed segment describes records that stay. Whatever happens to the journal after sealing,
  power cuts, failed recoveries and restarts included, the records in the segment are still the
  first ones the journal reads back.
\<close>

theorem sealed_records_survive:
  assumes "history name (Up j io)" "seal_segment SimIo_Io j segment shard io = (Inr (Sealed s), io1)"
    and "(sys_step SimIo_Io power_cut name)\<^sup>*\<^sup>* (Up j io1) (Up j' io')"
    and "journal_read_all SimIo_Io j' io' = (Inr after, io2)"
  shows "take (unat (ss_records s)) (map fst (wk_records after)) = sg_records (ss_segment s) \<and>
    length (sg_records (ss_segment s)) = unat (ss_records s)"
proof (rule seal_history [OF assms(1,2)])
  fix v
  assume v: "journal_read_all SimIo_Io j io = (Inr v, io)" "io1 = io"
    "unat (jn_acked j) \<le> length (wk_records v)"
  from seal_outcome [OF assms(1) v(1) assms(2)] have
    s: "ss_records s = jn_acked j"
    "seal segment shard (jn_genesis j) (take (unat (jn_acked j)) (wk_records v)) = Inr (ss_segment s)" by simp_all
  have "sg_records (ss_segment s) = take (unat (jn_acked j)) (map fst (wk_records v))"
    using seal_facts(7) [OF s(2)] by (simp add: take_map)
  moreover have "take (unat (jn_acked j)) (map fst (wk_records after)) =
      take (unat (jn_acked j)) (map fst (wk_records v))"
    using promised_prefix_kept [OF assms(1) v(1)] assms(3,4) v(2) by blast
  ultimately show ?thesis using s(1) v(3) by simp
qed

theorem sealed_records_survive_witness:
  "\<exists>j io v s. seal_segment SimIo_Io j 1 3 io = (Inr (Sealed s), io) \<and>
     journal_read_all SimIo_Io j io = (Inr v, io) \<and> ss_records s = 1 \<and>
     take 1 (map fst (wk_records v)) = sg_records (ss_segment s)"
proof -
  obtain j io v s where h: "history sample_name (Up j io)" "jn_acked j = 1"
    "journal_read_all SimIo_Io j io = (Inr v, io)" "seal_segment SimIo_Io j 1 3 io = (Inr (Sealed s), io)"
    by (rule sample_sealed)
  have "ss_records s = 1" using seal_outcome [OF h(1,3,4)] h(2) by simp
  with sealed_records_survive [OF h(1,4) rtranclp.rtrancl_refl h(3)] h show ?thesis by auto
qed

text \<open>
  C5. From the journal to an answer. A query of a segment sealed from a running journal answers with
  exactly the promised records it asks for, none lost and none twice, and a status that is full when
  the query has nothing its index does not cover; or two of the records' links hash different
  messages to one digest.
\<close>

theorem sealed_query_answers_promised:
  assumes "history name (Up j io)" "journal_read_all SimIo_Io j io = (Inr v, io1)"
    and "seal_segment SimIo_Io j segment shard io = (Inr (Sealed s), io2)"
  defines "promised_records \<equiv> take (unat (jn_acked j)) (map fst (wk_records v))"
  shows "(\<exists>a. query_segment (ss_segment s) q = Some a \<and>
      mset (an_records a) = filter_mset (asked q) (mset promised_records) \<and>
      (is_full (an_proof a) \<longleftrightarrow> uncovered q = [])) \<or>
    collides (log_msgs (ChainState_resume (jn_genesis j) 0) promised_records)
      (log_msgs (ChainState_resume (jn_genesis j) 0) promised_records)"
proof (rule seal_history [OF assms(1,3)])
  fix w
  let ?c = "ChainState_resume (jn_genesis j) 0" and ?n = "unat (jn_acked j)"
  assume w: "journal_read_all SimIo_Io j io = (Inr w, io)"
    "wk_records w = log_items ?c (map fst (wk_records w))" "length (wk_records w) < 2 ^ 64"
  then have eq: "w = v" using assms(2) by simp
  have items: "take ?n (wk_records v) = log_items ?c promised_records"
    using w(2) eq unfolding promised_records_def log_items_take by simp
  from seal_outcome [OF assms(1,2,3)] have
    sl: "seal segment shard (jn_genesis j) (log_items ?c promised_records) = Inr (ss_segment s)"
    by (simp add: items)
  show ?thesis
  proof (cases "collides (log_msgs ?c promised_records) (log_msgs ?c promised_records)")
    case False
    have "length promised_records < 2 ^ 64" using w(3) eq by (simp add: promised_records_def min_def)
    from log_links_distinct [OF this False] obtain a where
      "query_segment (ss_segment s) q = Some a" "an_proof a = status_for (uncovered q)"
      "an_records a = filter (asked q) (map fst (index_order (q_dimension q) (log_items ?c promised_records)))"
      by (rule query_sealed [OF sl, where q = q]) simp
    moreover have "mset (map fst (index_order (q_dimension q) (log_items ?c promised_records))) = mset promised_records"
      unfolding mset_index_order by simp
    then have "mset (filter (asked q) (map fst (index_order (q_dimension q) (log_items ?c promised_records)))) =
        filter_mset (asked q) (mset promised_records)"
      by (simp only: mset_filter)
    ultimately show ?thesis by (simp add: status_for_full)
  qed simp
qed

theorem sealed_query_answers_promised_witness:
  "\<exists>j io v s. history sample_name (Up j io) \<and> jn_acked j = 1 \<and>
     journal_read_all SimIo_Io j io = (Inr v, io) \<and>
     seal_segment SimIo_Io j 1 3 io = (Inr (Sealed s), io) \<and>
     ((\<exists>a. query_segment (ss_segment s) (time_between 0 9) = Some a \<and>
         mset (an_records a) = filter_mset (asked (time_between 0 9)) (mset (take 1 (map fst (wk_records v)))) \<and>
         is_full (an_proof a)) \<or>
      collides (log_msgs (ChainState_resume (jn_genesis j) 0) (take 1 (map fst (wk_records v))))
        (log_msgs (ChainState_resume (jn_genesis j) 0) (take 1 (map fst (wk_records v)))))"
proof -
  obtain j io v s where h: "history sample_name (Up j io)" "jn_acked j = 1"
    "journal_read_all SimIo_Io j io = (Inr v, io)" "seal_segment SimIo_Io j 1 3 io = (Inr (Sealed s), io)"
    by (rule sample_sealed)
  have "uncovered (time_between 0 9) = []" by (simp add: uncovered_def time_between_def Query_range_def)
  with sealed_query_answers_promised [OF h(1,3,4), of "time_between 0 9"] h(2) have
    "(\<exists>a. query_segment (ss_segment s) (time_between 0 9) = Some a \<and>
         mset (an_records a) = filter_mset (asked (time_between 0 9)) (mset (take 1 (map fst (wk_records v)))) \<and>
         is_full (an_proof a)) \<or>
      collides (log_msgs (ChainState_resume (jn_genesis j) 0) (take 1 (map fst (wk_records v))))
        (log_msgs (ChainState_resume (jn_genesis j) 0) (take 1 (map fst (wk_records v))))"
    by simp
  with h show ?thesis by blast
qed

end
