(* ===== verification/Causal.thy ===== *)
theory Causal
  imports Query
begin

text \<open>
  Reconstructing what led to a run: \<open>crates/trailryx-store/src/causal.rs\<close>. A worklist of runs and
  records to fetch, each fetched with a point query of every segment, and the edges of the records
  found (\<open>parent_run_id\<close> and \<open>caused_by\<close>) put on the worklist in turn, within bounds on hops and
  records.

  The specification is the least set of records closed under the edges, an inductive predicate. The
  results: the traversal always ends, within its bounds; whatever it returns is in the closure; and
  when it says it is complete it has returned the whole closure, no edge of it leads outside the
  segments, and no record of it reports a loss.
\<close>

subsection \<open>The model\<close>

record Bounds =
  max_hops :: nat
  max_records :: nat

definition Bounds_default :: Bounds where
  "Bounds_default = \<lparr>max_hops = 64, max_records = 10000\<rparr>"

datatype Stopped = Exhausted | HopLimit | RecordLimit

datatype Hop =
    Root RunId
  | ParentRun RunId RecordId
  | Cause RecordId RecordId

record Reconstruction =
  rc_records :: "Record list"
  rc_proof :: ProofStatus
  rc_hops :: "Hop list"
  rc_segment_proofs :: "CompletenessProof list"
  rc_stopped :: Stopped

definition is_complete :: "Reconstruction \<Rightarrow> bool" where
  "is_complete r \<longleftrightarrow> is_full (rc_proof r) \<and> rc_stopped r = Exhausted"

datatype Step = Step_Run RunId | Step_Record RecordId

definition merge_status :: "ProofStatus \<Rightarrow> ProofStatus \<Rightarrow> ProofStatus" where
  "merge_status into other =
     (case other of
        Full \<Rightarrow> into
      | Partial unproved \<Rightarrow> foldl downgrade into unproved
      | Unproved why \<Rightarrow> downgrade into why)"

text \<open>The local variables of \<open>reconstruct\<close>.\<close>

record Traversal =
  tv_records :: "Record list"
  seen_records :: "RecordId set"
  seen_runs :: "RunId set"
  tv_hops :: "Hop list"
  tv_proofs :: "CompletenessProof list"
  tv_status :: ProofStatus
  tv_queue :: "(Step \<times> RecordId option) list"
  tv_taken :: nat
  tv_stopped :: Stopped

definition Traversal_start :: "RunId \<Rightarrow> Traversal" where
  "Traversal_start run =
     \<lparr>tv_records = [], seen_records = {}, seen_runs = {run}, tv_hops = [Root run], tv_proofs = [],
      tv_status = Full, tv_queue = [(Step_Run run, None)], tv_taken = 0, tv_stopped = Exhausted\<rparr>"

primrec step_query :: "Step \<Rightarrow> Query" where
  "step_query (Step_Run r) = Query_point Dim_RunId r"
| "step_query (Step_Record i) = Query_point Dim_RecordId (id_key i)"

text \<open>Every segment is asked; \<open>None\<close> is the panic of an index.\<close>

fun ask_segments ::
  "Segment list \<Rightarrow> Query \<Rightarrow> ProofStatus \<Rightarrow> CompletenessProof list \<Rightarrow> Record list \<Rightarrow>
   (ProofStatus \<times> CompletenessProof list \<times> Record list) option" where
  "ask_segments [] query status proofs found = Some (status, proofs, found)"
| "ask_segments (seg # segs) query status proofs found =
     (case query_segment seg query of
        None \<Rightarrow> None
      | Some a \<Rightarrow> ask_segments segs query (merge_status status (an_proof a))
                    (proofs @ segment_proofs a) (found @ an_records a))"

text \<open>The edges of one record: its parent run, then each of its causes.\<close>

definition follow_parent :: "Record \<Rightarrow> Traversal \<Rightarrow> Traversal" where
  "follow_parent r t =
     (case parent_run_id r of
        None \<Rightarrow> t
      | Some parent \<Rightarrow>
          if parent \<in> seen_runs t then t
          else t\<lparr>seen_runs := insert parent (seen_runs t),
                 tv_hops := tv_hops t @ [ParentRun parent (rec_id r)],
                 tv_queue := tv_queue t @ [(Step_Run parent, Some (rec_id r))]\<rparr>)"

definition follow_cause :: "Record \<Rightarrow> Traversal \<Rightarrow> RecordId \<Rightarrow> Traversal" where
  "follow_cause r t cause =
     (if cause \<in> seen_records t then t
      else t\<lparr>tv_hops := tv_hops t @ [Cause cause (rec_id r)],
             tv_queue := tv_queue t @ [(Step_Record cause, Some (rec_id r))]\<rparr>)"

definition store_loss :: "Record \<Rightarrow> bool" where
  "store_loss r \<longleftrightarrow> event_type r = StoreEvent \<and> out_verdict (outcome r) = Some Failed"

definition note_loss :: "Record \<Rightarrow> Traversal \<Rightarrow> Traversal" where
  "note_loss r t =
     (if store_loss r
      then t\<lparr>tv_status := downgrade (tv_status t)
               ''the store recorded a loss against this run, so the closure may be short''\<rparr>
      else t)"

definition take_in :: "Record \<Rightarrow> Traversal \<Rightarrow> Traversal" where
  "take_in r t =
     (let t = note_loss r t;
          t = follow_parent r t;
          t = foldl (follow_cause r) t (caused_by r)
      in t\<lparr>tv_records := tv_records t @ [r]\<rparr>)"

fun absorb :: "nat \<Rightarrow> Record list \<Rightarrow> Traversal \<Rightarrow> Traversal" where
  "absorb limit [] t = t"
| "absorb limit (r # found) t =
     (if rec_id r \<in> seen_records t then absorb limit found t
      else
        let t = t\<lparr>seen_records := insert (rec_id r) (seen_records t)\<rparr>
        in if limit \<le> length (tv_records t) then t\<lparr>tv_stopped := RecordLimit\<rparr>
           else absorb limit found (take_in r t))"

lemma taken_kept [simp]:
  "tv_taken (note_loss r t) = tv_taken t" "tv_taken (follow_parent r t) = tv_taken t"
  "tv_taken (foldl (follow_cause r) t cs) = tv_taken t"
proof -
  show "tv_taken (foldl (follow_cause r) t cs) = tv_taken t"
    by (induction cs arbitrary: t) (simp_all add: follow_cause_def)
qed (simp_all add: note_loss_def follow_parent_def split: option.splits)

lemma absorb_taken [simp]: "tv_taken (absorb limit found t) = tv_taken t"
  by (induction limit found t rule: absorb.induct) (simp_all add: Let_def take_in_def)

text \<open>One round of the loop: the answers of all segments, and what they lead to.\<close>

definition note_dangling :: "Step \<Rightarrow> RecordId option \<Rightarrow> Record list \<Rightarrow> Traversal \<Rightarrow> Traversal" where
  "note_dangling step from found t =
     (case (step, from) of
        (Step_Record i, Some _) \<Rightarrow>
          if list_ex (\<lambda>r. rec_id r = i) found then t
          else t\<lparr>tv_status := downgrade (tv_status t) ''a caused_by edge points outside these segments''\<rparr>
      | _ \<Rightarrow> t)"

definition round ::
  "Segment list \<Rightarrow> nat \<Rightarrow> Step \<Rightarrow> RecordId option \<Rightarrow> Traversal \<Rightarrow> Traversal option" where
  "round segments limit step from t =
     (case ask_segments segments (step_query step) (tv_status t) (tv_proofs t) [] of
        None \<Rightarrow> None
      | Some (status, proofs, found) \<Rightarrow>
          let t = t\<lparr>tv_status := status, tv_proofs := proofs\<rparr>;
              t = note_dangling step from found t
          in Some (absorb limit found t))"

lemma round_taken [simp]: "round segments limit step from t = Some t' \<Longrightarrow> tv_taken t' = tv_taken t"
  by (auto simp: round_def note_dangling_def Let_def split: option.splits Step.splits if_splits)

function reconstruct_loop :: "Segment list \<Rightarrow> Bounds \<Rightarrow> Traversal \<Rightarrow> Traversal option" where
  "reconstruct_loop segments bounds t =
     (case tv_queue t of
        [] \<Rightarrow> Some t
      | (step, from) # queue \<Rightarrow>
          if max_hops bounds \<le> tv_taken t
          then Some (t\<lparr>tv_queue := queue, tv_stopped := HopLimit\<rparr>)
          else
            (case round segments (max_records bounds) step from
                    (t\<lparr>tv_queue := queue, tv_taken := tv_taken t + 1\<rparr>) of
               None \<Rightarrow> None
             | Some t' \<Rightarrow>
                 if tv_stopped t' = RecordLimit then Some t'
                 else reconstruct_loop segments bounds t'))"
  by pat_completeness auto
termination
  by (relation "measure (\<lambda>(segments, bounds, t). max_hops bounds - tv_taken t)") auto

declare reconstruct_loop.simps [simp del]

definition reconstruct :: "Segment list \<Rightarrow> RunId \<Rightarrow> Bounds \<Rightarrow> Reconstruction option" where
  "reconstruct segments run bounds =
     map_option (\<lambda>t. \<lparr>rc_records = sort_key (\<lambda>r. (recorded_at r, rec_id r)) (tv_records t),
                      rc_proof = tv_status t, rc_hops = tv_hops t,
                      rc_segment_proofs = tv_proofs t, rc_stopped = tv_stopped t\<rparr>)
       (reconstruct_loop segments bounds (Traversal_start run))"

subsection \<open>The specification\<close>

text \<open>What led to a run, among the records \<open>held\<close>.\<close>

inductive led_to :: "Record set \<Rightarrow> RunId \<Rightarrow> Record \<Rightarrow> bool" for held run where
  led_root: "r \<in> held \<Longrightarrow> run_id r = run \<Longrightarrow> led_to held run r"
| led_parent: "led_to held run r \<Longrightarrow> parent_run_id r = Some (run_id r') \<Longrightarrow> r' \<in> held \<Longrightarrow> led_to held run r'"
| led_cause: "led_to held run r \<Longrightarrow> rec_id r' \<in> set (caused_by r) \<Longrightarrow> r' \<in> held \<Longrightarrow> led_to held run r'"

text \<open>A segment that holds the records: sealed from them, under links that are distinct.\<close>

definition holds :: "Segment \<Rightarrow> Record set \<Rightarrow> bool" where
  "holds s rs \<longleftrightarrow> (\<exists>g sh b records. seal g sh b records = Inr s \<and> distinct (map snd records) \<and>
     rs = fst ` set records)"

subsection \<open>What a point query of every segment finds\<close>

lemma is_full_simps [simp]: "is_full Full" "\<not> is_full (Partial ns)" "\<not> is_full (Unproved w)"
  by (simp_all add: is_full_def)

lemma downgrade_not_full [simp]: "\<not> is_full (downgrade s n)"
  by (cases s) simp_all

lemma step_query_plain: "uncovered (step_query st) = []"
  by (cases st) (simp_all add: uncovered_def Query_point_def Query_range_def)

declare step_query.simps [simp del]

lemma asked_step:
  "asked (step_query (Step_Run p)) r \<longleftrightarrow> run_id r = p"
  "asked (step_query (Step_Record i)) r \<longleftrightarrow> rec_id r = i"
  using to_be_bytes_inj [of "rec_id r" i]
  by (auto simp: asked_def Query_point_def Query_range_def id_key_def step_query.simps)

lemma holds_answers:
  assumes "holds s rs"
  obtains a pf where "query_segment s (step_query st) = Some a" "an_proof a = Full" "segment_proofs a = [pf]"
    "set (an_records a) = {r \<in> rs. asked (step_query st) r}"
proof -
  from assms obtain g sh b records where h: "seal g sh b records = Inr s" "distinct (map snd records)"
    "rs = fst ` set records" by (auto simp: holds_def)
  show thesis
    by (rule query_sealed [OF h(1,2), where q = "step_query st"], rule that)
       (auto simp: status_for_def step_query_plain h(3), force)
qed

lemma ask_segments_holds:
  assumes "list_all2 holds segments rss"
  shows "\<exists>found pfs. ask_segments segments (step_query st) status proofs acc = Some (status, proofs @ pfs, acc @ found) \<and>
    length pfs = length segments \<and> set found = {r \<in> \<Union> (set rss). asked (step_query st) r}"
  using assms
proof (induction segments rss arbitrary: proofs acc rule: list_all2_induct)
  case (Cons s segments rs rss)
  obtain a pf where a: "query_segment s (step_query st) = Some a" "an_proof a = Full" "segment_proofs a = [pf]"
    "set (an_records a) = {r \<in> rs. asked (step_query st) r}" by (rule holds_answers [OF Cons.hyps(1)])
  from Cons.IH [of "proofs @ [pf]" "acc @ an_records a"] obtain found pfs where
    "ask_segments segments (step_query st) status (proofs @ [pf]) (acc @ an_records a) =
       Some (status, (proofs @ [pf]) @ pfs, (acc @ an_records a) @ found)"
    "length pfs = length segments" "set found = {r \<in> \<Union> (set rss). asked (step_query st) r}" by blast
  then show ?case
    using a by (intro exI [of _ "an_records a @ found"] exI [of _ "pf # pfs"]) (auto simp: merge_status_def)
qed simp

subsection \<open>The invariant of the traversal\<close>

definition step_led :: "Record set \<Rightarrow> RunId \<Rightarrow> Step \<Rightarrow> bool" where
  "step_led held run st \<longleftrightarrow> (\<forall>r \<in> held. asked (step_query st) r \<longrightarrow> led_to held run r)"

definition waiting :: "Traversal \<Rightarrow> Step set" where
  "waiting t = fst ` set (tv_queue t)"

text \<open>The reason a hop was taken: an edge of a record that was returned.\<close>

primrec hop_justified :: "RunId \<Rightarrow> Record set \<Rightarrow> Hop \<Rightarrow> bool" where
  "hop_justified run rs (Root p) \<longleftrightarrow> p = run"
| "hop_justified run rs (ParentRun p i) \<longleftrightarrow> (\<exists>r \<in> rs. rec_id r = i \<and> parent_run_id r = Some p)"
| "hop_justified run rs (Cause c i) \<longleftrightarrow> (\<exists>r \<in> rs. rec_id r = i \<and> c \<in> set (caused_by r))"

lemma hop_justified_mono: "hop_justified run rs h \<Longrightarrow> rs \<subseteq> rs' \<Longrightarrow> hop_justified run rs' h"
  by (cases h) auto

text \<open>\<open>todo\<close> holds the records found that are still to be absorbed.\<close>

definition sound :: "Record set \<Rightarrow> RunId \<Rightarrow> nat \<Rightarrow> Traversal \<Rightarrow> bool" where
  "sound held run limit t \<longleftrightarrow>
     (\<forall>r \<in> set (tv_records t). r \<in> held \<and> led_to held run r) \<and> distinct (map rec_id (tv_records t)) \<and>
     length (tv_records t) \<le> limit \<and> (\<forall>h \<in> set (tv_hops t). hop_justified run (set (tv_records t)) h)"

definition traversal_inv :: "Record set \<Rightarrow> RunId \<Rightarrow> Record set \<Rightarrow> Traversal \<Rightarrow> bool" where
  "traversal_inv held run todo t \<longleftrightarrow>
     tv_stopped t = Exhausted \<and>
     seen_records t = rec_id ` set (tv_records t) \<and>
     (\<forall>r \<in> todo. r \<in> held \<and> led_to held run r) \<and>
     (\<forall>st \<in> waiting t. step_led held run st) \<and>
     (\<forall>(st, from) \<in> set (tv_queue t). \<forall>i. st = Step_Record i \<longrightarrow> from \<noteq> None) \<and>
     run \<in> seen_runs t \<and>
     (\<forall>p \<in> seen_runs t. Step_Run p \<in> waiting t \<or>
        (\<forall>r \<in> held. run_id r = p \<longrightarrow> r \<in> set (tv_records t) \<union> todo)) \<and>
     (\<forall>r \<in> set (tv_records t). pred_option (\<lambda>p. p \<in> seen_runs t) (parent_run_id r)) \<and>
     (is_full (tv_status t) \<longrightarrow>
        (\<forall>r \<in> set (tv_records t). \<not> store_loss r \<and>
           (\<forall>c \<in> set (caused_by r). Step_Record c \<in> waiting t \<or> c \<in> rec_id ` (set (tv_records t) \<union> todo))))"

text \<open>The edges of a record, all at once.\<close>

lemma follow_causes:
  "foldl (follow_cause r) t cs =
     t\<lparr>tv_hops := tv_hops t @ map (\<lambda>c. Cause c (rec_id r)) (filter (\<lambda>c. c \<notin> seen_records t) cs),
       tv_queue := tv_queue t @ map (\<lambda>c. (Step_Record c, Some (rec_id r))) (filter (\<lambda>c. c \<notin> seen_records t) cs)\<rparr>"
  by (induction cs arbitrary: t) (simp_all add: follow_cause_def)

text \<open>Taking a record in: what each field becomes.\<close>

lemma take_in_fields:
  defines "new_run \<equiv> (\<lambda>r t. case parent_run_id r of None \<Rightarrow> {} | Some p \<Rightarrow> {p} - seen_runs t)"
  shows "tv_records (take_in r t) = tv_records t @ [r]"
    "seen_records (take_in r t) = seen_records t" "tv_stopped (take_in r t) = tv_stopped t"
    "tv_proofs (take_in r t) = tv_proofs t"
    "seen_runs (take_in r t) = seen_runs t \<union> new_run r t"
    "tv_status (take_in r t) = (if store_loss r then tv_status (note_loss r t) else tv_status t)"
    "set (tv_queue (take_in r t)) = set (tv_queue t) \<union> (\<lambda>p. (Step_Run p, Some (rec_id r))) ` new_run r t \<union>
       (\<lambda>c. (Step_Record c, Some (rec_id r))) ` (set (caused_by r) - seen_records t)"
    "set (tv_hops (take_in r t)) = set (tv_hops t) \<union> (\<lambda>p. ParentRun p (rec_id r)) ` new_run r t \<union>
       (\<lambda>c. Cause c (rec_id r)) ` (set (caused_by r) - seen_records t)"
  by (auto simp: take_in_def Let_def follow_causes follow_parent_def note_loss_def assms split: option.splits)

lemma step_led_edges:
  assumes "led_to held run r"
  shows "parent_run_id r = Some p \<Longrightarrow> step_led held run (Step_Run p)"
    and "c \<in> set (caused_by r) \<Longrightarrow> step_led held run (Step_Record c)"
  using assms led_parent [OF assms] led_cause [OF assms] by (auto simp: step_led_def asked_step)

lemma take_in_inv:
  assumes inv: "traversal_inv held run (insert r todo) t" and new: "rec_id r \<notin> seen_records t"
  shows "traversal_inv held run todo (take_in r (t\<lparr>seen_records := insert (rec_id r) (seen_records t)\<rparr>))"
proof -
  define u where "u = take_in r (t\<lparr>seen_records := insert (rec_id r) (seen_records t)\<rparr>)"
  note F = take_in_fields [of r "t\<lparr>seen_records := insert (rec_id r) (seen_records t)\<rparr>", folded u_def, simplified]
  have r: "r \<in> held" "led_to held run r" using inv by (auto simp: traversal_inv_def)
  have w: "waiting u = waiting t \<union>
      Step_Run ` (case parent_run_id r of None \<Rightarrow> {} | Some p \<Rightarrow> {p} - seen_runs t) \<union>
      Step_Record ` (set (caused_by r) - insert (rec_id r) (seen_records t))"
    unfolding waiting_def F by (cases "parent_run_id r") (simp_all add: image_Un image_image)
  have "\<forall>st \<in> waiting u. step_led held run st"
    using inv step_led_edges [OF r(2)] unfolding w by (auto simp: traversal_inv_def split: option.splits)
  moreover have "\<forall>p \<in> seen_runs u. Step_Run p \<in> waiting u \<or>
      (\<forall>r' \<in> held. run_id r' = p \<longrightarrow> r' \<in> set (tv_records u) \<union> todo)"
    using inv unfolding w F by (auto simp: traversal_inv_def split: option.splits)
  moreover have "\<forall>x \<in> set (tv_records u). pred_option (\<lambda>p. p \<in> seen_runs u) (parent_run_id x)"
    using inv unfolding F by (auto simp: traversal_inv_def pred_option_def split: option.splits)
  moreover have "\<forall>(st, from) \<in> set (tv_queue u). \<forall>i. st = Step_Record i \<longrightarrow> from \<noteq> None"
    using inv unfolding F by (auto simp: traversal_inv_def)
  moreover have "\<not> store_loss x \<and> (\<forall>c \<in> set (caused_by x). Step_Record c \<in> waiting u \<or> c \<in> rec_id ` (set (tv_records u) \<union> todo))"
    if full: "is_full (tv_status u)" and x: "x \<in> set (tv_records u)" for x
  proof -
    have f: "\<not> store_loss r" "is_full (tv_status t)"
      using full by (auto simp: F note_loss_def split: if_splits)
    have seen: "seen_records t = rec_id ` set (tv_records t)" using inv by (simp add: traversal_inv_def)
    show ?thesis
    proof (cases "x = r")
      case True
      with f seen show ?thesis by (auto simp: w F)
    next
      case False
      then have "x \<in> set (tv_records t)" using x by (simp add: F)
      with inv f(2) show ?thesis by (fastforce simp: traversal_inv_def w F)
    qed
  qed
  moreover have "tv_stopped u = Exhausted" "seen_records u = rec_id ` set (tv_records u)"
    "run \<in> seen_runs u" "\<forall>x \<in> todo. x \<in> held \<and> led_to held run x"
    using inv by (simp_all add: F traversal_inv_def)
  ultimately show ?thesis unfolding u_def [symmetric] traversal_inv_def by blast
qed

text \<open>Absorbing what was found ends with nothing left to absorb, or at the limit.\<close>

lemma absorb_inv:
  assumes inj: "inj_on rec_id held"
  shows "traversal_inv held run (set found) t \<Longrightarrow> sound held run limit t \<Longrightarrow>
    sound held run limit (absorb limit found t) \<and>
    (tv_stopped (absorb limit found t) = RecordLimit \<or> traversal_inv held run {} (absorb limit found t))"
proof (induction limit found t rule: absorb.induct)
  case (2 limit r found t)
  let ?t = "t\<lparr>seen_records := insert (rec_id r) (seen_records t)\<rparr>"
  have r: "r \<in> held" "led_to held run r" and seen: "seen_records t = rec_id ` set (tv_records t)"
    and held: "set (tv_records t) \<subseteq> held"
    using "2.prems" by (auto simp: traversal_inv_def sound_def)
  show ?case
  proof (cases "rec_id r \<in> seen_records t")
    case True
    then obtain x where "x \<in> set (tv_records t)" "rec_id r = rec_id x" using seen by auto
    then have "r \<in> set (tv_records t)" using inj_onD [OF inj _ r(1), of x] held by auto
    then have "set (tv_records t) \<union> set (r # found) = set (tv_records t) \<union> set found" by auto
    then have "traversal_inv held run (set found) t"
      using "2.prems"(1) unfolding traversal_inv_def by auto
    then show ?thesis using 2 True by simp
  next
    case False
    show ?thesis
    proof (cases "limit \<le> length (tv_records t)")
      case True
      then show ?thesis using False "2.prems"(2) by (simp add: sound_def Let_def)
    next
      case small: False
      have "traversal_inv held run (set found) (take_in r ?t)"
        using take_in_inv [OF _ False] "2.prems"(1) by simp
      moreover have "sound held run limit (take_in r ?t)"
        using "2.prems"(2) r False small seen
        by (auto simp: sound_def take_in_fields intro: hop_justified_mono split: option.splits)
      ultimately show ?thesis using 2 False small by (simp add: Let_def)
    qed
  qed
qed simp

subsection \<open>A round and the whole loop\<close>

lemma note_dangling_fields [simp]:
  "tv_records (note_dangling st from found t) = tv_records t"
  "tv_hops (note_dangling st from found t) = tv_hops t"
  "seen_records (note_dangling st from found t) = seen_records t"
  "seen_runs (note_dangling st from found t) = seen_runs t"
  "tv_queue (note_dangling st from found t) = tv_queue t"
  "tv_proofs (note_dangling st from found t) = tv_proofs t"
  "tv_stopped (note_dangling st from found t) = tv_stopped t"
  "waiting (note_dangling st from found t) = waiting t"
  by (simp_all add: note_dangling_def waiting_def split: Step.splits option.splits)

lemma absorb_proofs [simp]: "tv_proofs (absorb limit found t) = tv_proofs t"
  by (induction limit found t rule: absorb.induct) (simp_all add: Let_def take_in_fields)

lemma round_inv:
  assumes segs: "list_all2 holds segments rss" and held: "held = \<Union> (set rss)" and inj: "inj_on rec_id held"
    and inv: "traversal_inv held run {} t" and sd: "sound held run limit t"
    and q: "tv_queue t = (st, from) # queue"
  obtains t' where "round segments limit st from (t\<lparr>tv_queue := queue, tv_taken := n\<rparr>) = Some t'"
    "sound held run limit t'" "tv_stopped t' = RecordLimit \<or> traversal_inv held run {} t'"
    "length (tv_proofs t') = length (tv_proofs t) + length segments"
proof -
  define t1 where "t1 = t\<lparr>tv_queue := queue, tv_taken := n\<rparr>"
  from ask_segments_holds [OF segs, of st "tv_status t1" "tv_proofs t1" "[]"] obtain found pfs where
    ask: "ask_segments segments (step_query st) (tv_status t1) (tv_proofs t1) [] =
       Some (tv_status t1, tv_proofs t1 @ pfs, found)"
    and f: "length pfs = length segments" "set found = {r \<in> held. asked (step_query st) r}"
    unfolding held by auto
  define t2 where "t2 = note_dangling st from found (t1\<lparr>tv_proofs := tv_proofs t1 @ pfs\<rparr>)"
  have rd: "round segments limit st from t1 = Some (absorb limit found t2)"
    using ask by (simp add: round_def t2_def)
  have w: "waiting t = insert st (waiting t2)" "waiting t2 = fst ` set queue"
    using q by (simp_all add: t2_def t1_def waiting_def)
  have led: "\<forall>r \<in> set found. r \<in> held \<and> led_to held run r"
    using inv f(2) q by (auto simp: traversal_inv_def step_led_def waiting_def)
  have runs: "Step_Run p \<in> waiting t2 \<or> (\<forall>r \<in> held. run_id r = p \<longrightarrow> r \<in> set (tv_records t2) \<union> set found)"
    if "p \<in> seen_runs t2" for p
  proof (cases "st = Step_Run p")
    case True
    then show ?thesis using f(2) by (simp add: asked_step)
  next
    case False
    then show ?thesis using inv that w(1) by (auto simp: traversal_inv_def t2_def t1_def)
  qed
  have cau: "\<not> store_loss r \<and> (\<forall>c \<in> set (caused_by r). Step_Record c \<in> waiting t2 \<or> c \<in> rec_id ` (set (tv_records t2) \<union> set found))"
    if full: "is_full (tv_status t2)" and r: "r \<in> set (tv_records t2)" for r
  proof -
    have ft: "is_full (tv_status t)"
      using full by (auto simp: t2_def t1_def note_dangling_def split: Step.splits option.splits if_splits)
    have here: "c \<in> rec_id ` set found" if "st = Step_Record c" for c
    proof -
      have "from \<noteq> None" using inv q that by (auto simp: traversal_inv_def)
      then show ?thesis
        using full that by (auto simp: t2_def note_dangling_def list_ex_iff split: if_splits)
    qed
    from inv ft r have "\<not> store_loss r"
      "\<forall>c \<in> set (caused_by r). Step_Record c \<in> waiting t \<or> c \<in> rec_id ` set (tv_records t)"
      by (simp_all add: traversal_inv_def t2_def t1_def)
    then show ?thesis using here w(1) unfolding image_Un by (auto simp: t2_def t1_def)
  qed
  have "traversal_inv held run (set found) t2"
    unfolding traversal_inv_def
    using inv led runs cau w q by (auto simp: traversal_inv_def t2_def t1_def)
  moreover have "sound held run limit t2" using sd by (simp add: sound_def t2_def t1_def)
  ultimately have "sound held run limit (absorb limit found t2) \<and>
      (tv_stopped (absorb limit found t2) = RecordLimit \<or> traversal_inv held run {} (absorb limit found t2))"
    by (rule absorb_inv [OF inj])
  then show thesis
    using that [of "absorb limit found t2"] rd f(1) by (simp add: t1_def t2_def)
qed

lemma loop_inv:
  assumes held: "held = \<Union> (set rss)" and inj: "inj_on rec_id held"
  shows "list_all2 holds segments rss \<Longrightarrow> traversal_inv held run {} t \<Longrightarrow> sound held run (max_records bounds) t \<Longrightarrow>
    length (tv_proofs t) = tv_taken t * length segments \<Longrightarrow> tv_taken t \<le> max_hops bounds \<Longrightarrow>
    \<exists>t'. reconstruct_loop segments bounds t = Some t' \<and> sound held run (max_records bounds) t' \<and>
      (\<exists>n \<le> max_hops bounds. length (tv_proofs t') = n * length segments) \<and>
      (tv_stopped t' = Exhausted \<longrightarrow> traversal_inv held run {} t' \<and> tv_queue t' = [])"
proof (induction segments bounds t rule: reconstruct_loop.induct)
  case (1 segments bounds t)
  show ?case
  proof (cases "tv_queue t")
    case Nil
    then show ?thesis using "1.prems" by (subst reconstruct_loop.simps) auto
  next
    case (Cons sf queue)
    obtain st src where q: "tv_queue t = (st, src) # queue" using Cons by (cases sf) auto
    show ?thesis
    proof (cases "max_hops bounds \<le> tv_taken t")
      case True
      then show ?thesis
        using q "1.prems" by (subst reconstruct_loop.simps) (auto simp: sound_def)
    next
      case False
      let ?t = "t\<lparr>tv_queue := queue, tv_taken := tv_taken t + 1\<rparr>"
      obtain t' where r: "round segments (max_records bounds) st src ?t = Some t'"
        "sound held run (max_records bounds) t'" "tv_stopped t' = RecordLimit \<or> traversal_inv held run {} t'"
        "length (tv_proofs t') = length (tv_proofs t) + length segments"
        by (rule round_inv [OF "1.prems"(1) held inj "1.prems"(2,3) q])
      have tk: "tv_taken t' = tv_taken t + 1" using round_taken [OF r(1)] by simp
      have step: "reconstruct_loop segments bounds t =
          (if tv_stopped t' = RecordLimit then Some t' else reconstruct_loop segments bounds t')"
        using q False r(1) by (subst reconstruct_loop.simps) simp
      have pr: "length (tv_proofs t') = tv_taken t' * length segments" using r(4) tk "1.prems"(4) by simp
      show ?thesis
      proof (cases "tv_stopped t' = RecordLimit")
        case True
        have "tv_taken t' \<le> max_hops bounds" using tk False by simp
        with True step r(2) pr show ?thesis by auto
      next
        case go: False
        show ?thesis
          unfolding step using "1.IH" [OF q refl False r(1) go] go r pr tk False "1.prems"(1) by (simp only: if_False) auto
      qed
    qed
  qed
qed

lemma start_inv:
  "traversal_inv held run {} (Traversal_start run)" "sound held run n (Traversal_start run)"
  by (auto simp: traversal_inv_def sound_def Traversal_start_def waiting_def step_led_def asked_step
      intro: led_root)

text \<open>At the end, with nothing waiting and the status still full, the records are the closure.\<close>

lemma exhausted_closed:
  assumes inv: "traversal_inv held run {} t" and sd: "sound held run n t" and q: "tv_queue t = []"
    and full: "is_full (tv_status t)" and inj: "inj_on rec_id held"
  shows "set (tv_records t) = Collect (led_to held run)"
    and "r \<in> set (tv_records t) \<Longrightarrow> c \<in> set (caused_by r) \<Longrightarrow> \<exists>r' \<in> set (tv_records t). rec_id r' = c"
    and "r \<in> set (tv_records t) \<Longrightarrow> \<not> store_loss r"
proof -
  have w: "waiting t = {}" using q by (simp add: waiting_def)
  have runs: "r \<in> set (tv_records t)" if "r \<in> held" "run_id r \<in> seen_runs t" for r
    using inv w that by (auto simp: traversal_inv_def)
  have cau: "\<exists>r' \<in> set (tv_records t). rec_id r' = c" if "r \<in> set (tv_records t)" "c \<in> set (caused_by r)" for r c
    using inv w full that by (fastforce simp: traversal_inv_def)
  have "r \<in> set (tv_records t)" if "led_to held run r" for r
    using that
  proof induction
    case (led_root r)
    then show ?case using runs inv by (simp add: traversal_inv_def)
  next
    case (led_parent r r')
    then have "pred_option (\<lambda>p. p \<in> seen_runs t) (parent_run_id r)" using inv unfolding traversal_inv_def by blast
    with led_parent show ?case using runs by simp
  next
    case (led_cause r r')
    from cau [OF led_cause.IH led_cause.hyps(2)] obtain x where
      x: "x \<in> set (tv_records t)" "rec_id x = rec_id r'" ..
    then have "x \<in> held" using sd by (simp add: sound_def)
    with x led_cause.hyps(3) inj_onD [OF inj x(2)] show ?case by simp
  qed
  then show "set (tv_records t) = Collect (led_to held run)" using sd by (auto simp: sound_def)
  show "r \<in> set (tv_records t) \<Longrightarrow> c \<in> set (caused_by r) \<Longrightarrow> \<exists>r' \<in> set (tv_records t). rec_id r' = c" by (rule cau)
  show "r \<in> set (tv_records t) \<Longrightarrow> \<not> store_loss r" using inv full by (simp add: traversal_inv_def)
qed

lemma reconstruct_facts:
  assumes "list_all2 holds segments rss" "inj_on rec_id (\<Union> (set rss))"
  obtains t where "sound (\<Union> (set rss)) run (max_records bounds) t"
    "reconstruct segments run bounds = Some \<lparr>rc_records = sort_key (\<lambda>r. (recorded_at r, rec_id r)) (tv_records t),
       rc_proof = tv_status t, rc_hops = tv_hops t, rc_segment_proofs = tv_proofs t, rc_stopped = tv_stopped t\<rparr>"
    "\<exists>n \<le> max_hops bounds. length (tv_proofs t) = n * length segments"
    "tv_stopped t = Exhausted \<Longrightarrow> traversal_inv (\<Union> (set rss)) run {} t \<and> tv_queue t = []"
proof -
  from loop_inv [OF refl assms(2,1), of run "Traversal_start run" bounds] obtain t where
    "reconstruct_loop segments bounds (Traversal_start run) = Some t" "sound (\<Union> (set rss)) run (max_records bounds) t"
    "\<exists>n \<le> max_hops bounds. length (tv_proofs t) = n * length segments"
    "tv_stopped t = Exhausted \<longrightarrow> traversal_inv (\<Union> (set rss)) run {} t \<and> tv_queue t = []"
    using start_inv by (auto simp: Traversal_start_def)
  then show thesis using that [of t] by (simp add: reconstruct_def)
qed

subsection \<open>The traversal ends\<close>

lemma absorb_bound:
  "length (tv_records t) \<le> limit \<Longrightarrow> length (tv_records (absorb limit found t)) \<le> limit"
  by (induction limit found t rule: absorb.induct) (simp_all add: Let_def take_in_fields)

lemma round_returns:
  assumes "list_all2 holds segments rss" "length (tv_records t) \<le> limit"
  obtains t' where "round segments limit st src t = Some t'" "length (tv_records t') \<le> limit"
    "length (tv_proofs t') = length (tv_proofs t) + length segments" "tv_taken t' = tv_taken t"
proof -
  from ask_segments_holds [OF assms(1), of st "tv_status t" "tv_proofs t" "[]"] obtain found pfs where
    "ask_segments segments (step_query st) (tv_status t) (tv_proofs t) [] =
       Some (tv_status t, tv_proofs t @ pfs, found)" "length pfs = length segments" by auto
  then have r: "round segments limit st src t =
      Some (absorb limit found (note_dangling st src found (t\<lparr>tv_proofs := tv_proofs t @ pfs\<rparr>)))"
    by (simp add: round_def)
  show thesis
    by (rule that [OF r]) (use assms(2) absorb_bound round_taken [OF r] \<open>length pfs = length segments\<close> in simp_all)
qed

lemma loop_returns:
  "list_all2 holds segments rss \<Longrightarrow> length (tv_records t) \<le> max_records bounds \<Longrightarrow>
   length (tv_proofs t) = tv_taken t * length segments \<Longrightarrow> tv_taken t \<le> max_hops bounds \<Longrightarrow>
   \<exists>t'. reconstruct_loop segments bounds t = Some t' \<and> length (tv_records t') \<le> max_records bounds \<and>
     length (tv_proofs t') = tv_taken t' * length segments \<and> tv_taken t' \<le> max_hops bounds"
proof (induction segments bounds t rule: reconstruct_loop.induct)
  case (1 segments bounds t)
  show ?case
  proof (cases "tv_queue t = [] \<or> max_hops bounds \<le> tv_taken t")
    case True
    then show ?thesis using "1.prems" by (subst reconstruct_loop.simps) (auto split: list.splits)
  next
    case False
    then obtain st src queue where q: "tv_queue t = (st, src) # queue" and go: "\<not> max_hops bounds \<le> tv_taken t"
      by (cases "tv_queue t") auto
    let ?t = "t\<lparr>tv_queue := queue, tv_taken := tv_taken t + 1\<rparr>"
    have "length (tv_records ?t) \<le> max_records bounds" using "1.prems"(2) by simp
    then obtain t' where r: "round segments (max_records bounds) st src ?t = Some t'"
      "length (tv_records t') \<le> max_records bounds"
      "length (tv_proofs t') = length (tv_proofs ?t) + length segments" "tv_taken t' = tv_taken ?t"
      by (rule round_returns [OF "1.prems"(1)])
    have step: "reconstruct_loop segments bounds t =
        (if tv_stopped t' = RecordLimit then Some t' else reconstruct_loop segments bounds t')"
      using q go r(1) by (subst reconstruct_loop.simps) simp
    have t': "length (tv_proofs t') = tv_taken t' * length segments" "tv_taken t' \<le> max_hops bounds"
      using r(3,4) "1.prems"(3) go by simp_all
    show ?thesis
      unfolding step using "1.IH" [OF q refl go r(1) _ "1.prems"(1) r(2) t'] r(2) t' by simp
  qed
qed

text \<open>A segment with one record that has no edges.\<close>

definition quiet_record :: Record where
  "quiet_record = sample_record\<lparr>caused_by := []\<rparr>"

lemma seal_quiet: "\<exists>s. seal 1 3 0 [(quiet_record, 5)] = Inr s"
  by (simp add: seal_def Let_def first_duplicate_index_iff first_duplicate_position_def
      SortedIndex_build_def set_Dimension_ALL split: option.splits prod.splits)

lemma quiet_complete:
  assumes "seal 1 3 0 [(quiet_record, 5)] = Inr s"
  obtains R where "reconstruct [s] (run_id quiet_record) Bounds_default = Some R" "is_complete R"
proof -
  obtain pf where q: "query_segment s (step_query (Step_Run (run_id quiet_record))) =
      Some \<lparr>an_records = [quiet_record], an_proof = Full, segment_proofs = [pf],
            matched_before_filters = length (pf_entries pf)\<rparr>"
    by (rule query_sealed [OF assms, where q = "step_query (Step_Run (run_id quiet_record))"])
       (simp_all add: index_order_def step_query_plain status_for_def asked_step)
  have e: "parent_run_id quiet_record = None" "caused_by quiet_record = []" "\<not> store_loss quiet_record"
    by (simp_all add: quiet_record_def sample_record_def store_loss_def)
  have "round [s] 10000 (Step_Run (run_id quiet_record)) None
      ((Traversal_start (run_id quiet_record))\<lparr>tv_queue := [], tv_taken := Suc 0\<rparr>) =
    Some ((Traversal_start (run_id quiet_record))\<lparr>tv_queue := [], tv_taken := Suc 0, tv_proofs := [pf],
      seen_records := {rec_id quiet_record}, tv_records := [quiet_record]\<rparr>)"
    by (simp add: round_def q Traversal_start_def merge_status_def note_dangling_def Let_def take_in_def
        note_loss_def follow_parent_def e)
  then have "\<exists>t. reconstruct_loop [s] Bounds_default (Traversal_start (run_id quiet_record)) = Some t \<and>
      tv_status t = Full \<and> tv_stopped t = Exhausted"
    by (subst reconstruct_loop.simps, subst reconstruct_loop.simps)
       (simp add: Traversal_start_def Bounds_default_def)
  then show thesis using that by (auto simp: reconstruct_def is_complete_def)
qed

subsection \<open>Properties\<close>





end
