(* ===== verification/ObjectStores.thy ===== *)
theory ObjectStores
  imports Storage "HOL-Library.Mapping"
begin

text \<open>
  Object stores: the contract of \<open>crates/trailryx-contracts/src/contracts.rs\<close>, the two correct
  in-memory stores and the deliberately broken one of \<open>fakes.rs\<close>, and the store that loses
  acknowledgements of \<open>crates/trailryx-publish/src/faults.rs\<close>.

  The contract is the locale \<open>object_store\<close>: a conditional write puts the object where nothing was,
  or changes nothing; a failed call may have done either; a read that succeeds returns what is
  there. The in-memory stores are instances, and a faulty store over any instance is one again. The
  overwriting store is not.
\<close>

subsection \<open>The trait\<close>

type_synonym VersionId = str

datatype AdapterError = Unavailable string | Rejected string | Unsupported string

datatype PutOutcome = PutWritten | AlreadyExists

record 'o ObjectStore =
  put_if_absent :: "str \<Rightarrow> bytes \<Rightarrow> 'o \<Rightarrow> (AdapterError + PutOutcome \<times> VersionId option) \<times> 'o"
  os_get :: "str \<Rightarrow> 'o \<Rightarrow> (AdapterError + bytes option) \<times> 'o"
  os_get_version :: "str \<Rightarrow> VersionId \<Rightarrow> 'o \<Rightarrow> (AdapterError + bytes option) \<times> 'o"
  os_list :: "str \<Rightarrow> 'o \<Rightarrow> (AdapterError + str list) \<times> 'o"

definition starts_with :: "str \<Rightarrow> str \<Rightarrow> bool" where
  "starts_with k pre \<longleftrightarrow> take (length pre) k = pre"

subsection \<open>The store in memory\<close>

record MemoryObjectStore =
  mem_objects :: "(str, bytes) mapping"

definition Memory_default :: MemoryObjectStore where
  "Memory_default = \<lparr>mem_objects = Mapping.empty\<rparr>"

definition Memory_put ::
  "str \<Rightarrow> bytes \<Rightarrow> MemoryObjectStore \<Rightarrow> (AdapterError + PutOutcome \<times> VersionId option) \<times> MemoryObjectStore" where
  "Memory_put key bytes s =
     (if Mapping.lookup (mem_objects s) key \<noteq> None then (Inr (AlreadyExists, None), s)
      else (Inr (PutWritten, None), s\<lparr>mem_objects := Mapping.update key bytes (mem_objects s)\<rparr>))"

definition Memory_get :: "str \<Rightarrow> MemoryObjectStore \<Rightarrow> (AdapterError + bytes option) \<times> MemoryObjectStore" where
  "Memory_get key s = (Inr (Mapping.lookup (mem_objects s) key), s)"

definition Memory_get_version ::
  "str \<Rightarrow> VersionId \<Rightarrow> MemoryObjectStore \<Rightarrow> (AdapterError + bytes option) \<times> MemoryObjectStore" where
  "Memory_get_version key version s =
     (Inl (Unsupported ''this store does not version objects, so a version cannot be read back''), s)"

definition Memory_list :: "str \<Rightarrow> MemoryObjectStore \<Rightarrow> (AdapterError + str list) \<times> MemoryObjectStore" where
  "Memory_list pre s = (Inr (filter (\<lambda>k. starts_with k pre) (Mapping.ordered_keys (mem_objects s))), s)"

definition Memory_Store :: "MemoryObjectStore ObjectStore" where
  "Memory_Store = \<lparr>put_if_absent = Memory_put, os_get = Memory_get,
     os_get_version = Memory_get_version, os_list = Memory_list\<rparr>"

text \<open>The same with a plain write, which is what most storage interfaces offer.\<close>

definition Overwriting_put ::
  "str \<Rightarrow> bytes \<Rightarrow> MemoryObjectStore \<Rightarrow> (AdapterError + PutOutcome \<times> VersionId option) \<times> MemoryObjectStore" where
  "Overwriting_put key bytes s =
     (Inr (PutWritten, None), s\<lparr>mem_objects := Mapping.update key bytes (mem_objects s)\<rparr>)"

definition Overwriting_get_version ::
  "str \<Rightarrow> VersionId \<Rightarrow> MemoryObjectStore \<Rightarrow> (AdapterError + bytes option) \<times> MemoryObjectStore" where
  "Overwriting_get_version key version s = (Inl (Unsupported ''no versioning here either''), s)"

definition Overwriting_Store :: "MemoryObjectStore ObjectStore" where
  "Overwriting_Store = \<lparr>put_if_absent = Overwriting_put, os_get = Memory_get,
     os_get_version = Overwriting_get_version, os_list = Memory_list\<rparr>"

subsection \<open>The store with versions\<close>

text \<open>\<open>Display\<close> of an unsigned integer.\<close>

fun decimal :: "nat \<Rightarrow> str" where
  "decimal n = (if n < 10 then [0x30 + of_nat n] else decimal (n div 10) @ [0x30 + of_nat (n mod 10)])"

declare decimal.simps [simp del]

record VersioningObjectStore =
  vos_versions :: "(str, (VersionId \<times> bytes) list) mapping"
  vos_deleted :: "str set"
  vos_next :: u64

definition Versioning_default :: VersioningObjectStore where
  "Versioning_default = \<lparr>vos_versions = Mapping.empty, vos_deleted = {}, vos_next = 0\<rparr>"

definition vos_overwrite :: "str \<Rightarrow> bytes \<Rightarrow> VersioningObjectStore \<Rightarrow> VersionId \<times> VersioningObjectStore" where
  "vos_overwrite key bytes s =
     (let s = s\<lparr>vos_next := vos_next s + 1\<rparr>;
          version = ascii ''v'' @ decimal (unat (vos_next s));
          old = (case Mapping.lookup (vos_versions s) key of None \<Rightarrow> [] | Some vs \<Rightarrow> vs)
      in (version, s\<lparr>vos_versions := Mapping.update key (old @ [(version, bytes)]) (vos_versions s),
                     vos_deleted := vos_deleted s - {key}\<rparr>))"

definition delete_marker :: "str \<Rightarrow> VersioningObjectStore \<Rightarrow> VersioningObjectStore" where
  "delete_marker key s = s\<lparr>vos_deleted := insert key (vos_deleted s)\<rparr>"

definition version_count :: "VersioningObjectStore \<Rightarrow> str \<Rightarrow> nat" where
  "version_count s key = (case Mapping.lookup (vos_versions s) key of None \<Rightarrow> 0 | Some vs \<Rightarrow> length vs)"

definition Versioning_put ::
  "str \<Rightarrow> bytes \<Rightarrow> VersioningObjectStore \<Rightarrow>
   (AdapterError + PutOutcome \<times> VersionId option) \<times> VersioningObjectStore" where
  "Versioning_put key bytes s =
     (if Mapping.lookup (vos_versions s) key \<noteq> None then (Inr (AlreadyExists, None), s)
      else let (version, s) = vos_overwrite key bytes s in (Inr (PutWritten, Some version), s))"

definition last_of :: "'a list \<Rightarrow> 'a option" where
  "last_of xs = (if xs = [] then None else Some (last xs))"

definition Versioning_get ::
  "str \<Rightarrow> VersioningObjectStore \<Rightarrow> (AdapterError + bytes option) \<times> VersioningObjectStore" where
  "Versioning_get key s =
     (if key \<in> vos_deleted s then (Inr None, s)
      else (Inr (map_option snd (Option.bind (Mapping.lookup (vos_versions s) key) last_of)), s))"

definition Versioning_get_version ::
  "str \<Rightarrow> VersionId \<Rightarrow> VersioningObjectStore \<Rightarrow> (AdapterError + bytes option) \<times> VersioningObjectStore" where
  "Versioning_get_version key version s =
     (Inr (Option.bind (Mapping.lookup (vos_versions s) key)
             (\<lambda>vs. map_option snd (find (\<lambda>(i, _). i = version) vs))), s)"

definition Versioning_list ::
  "str \<Rightarrow> VersioningObjectStore \<Rightarrow> (AdapterError + str list) \<times> VersioningObjectStore" where
  "Versioning_list pre s =
     (Inr (filter (\<lambda>k. starts_with k pre \<and> k \<notin> vos_deleted s) (Mapping.ordered_keys (vos_versions s))), s)"

definition Versioning_Store :: "VersioningObjectStore ObjectStore" where
  "Versioning_Store = \<lparr>put_if_absent = Versioning_put, os_get = Versioning_get,
     os_get_version = Versioning_get_version, os_list = Versioning_list\<rparr>"

subsection \<open>The store that loses acknowledgements\<close>

record StoreFaults =
  unavailable_ppm :: u32
  lost_ack_ppm :: u32
  read_error_ppm :: u32

definition StoreFaults_NONE :: StoreFaults where
  "StoreFaults_NONE = \<lparr>unavailable_ppm = 0, lost_ack_ppm = 0, read_error_ppm = 0\<rparr>"

definition StoreFaults_HOSTILE :: StoreFaults where
  "StoreFaults_HOSTILE = \<lparr>unavailable_ppm = 150000, lost_ack_ppm = 120000, read_error_ppm = 80000\<rparr>"

record 's FaultyStore =
  fs_inner :: 's
  fs_rng :: SimRng
  fs_faults :: StoreFaults
  fs_committed :: "str list"

definition FaultyStore_new :: "'s \<Rightarrow> u64 \<Rightarrow> StoreFaults \<Rightarrow> 's FaultyStore" where
  "FaultyStore_new inner seed faults =
     \<lparr>fs_inner = inner, fs_rng = SimRng_new seed, fs_faults = faults, fs_committed = []\<rparr>"

definition Faulty_put ::
  "'s ObjectStore \<Rightarrow> str \<Rightarrow> bytes \<Rightarrow> 's FaultyStore \<Rightarrow>
   (AdapterError + PutOutcome \<times> VersionId option) \<times> 's FaultyStore" where
  "Faulty_put S key bytes s =
     (let (down, rng) = chance_ppm (unavailable_ppm (fs_faults s)) (fs_rng s);
          s = s\<lparr>fs_rng := rng\<rparr>
      in if down then (Inl (Unavailable ''the store was unreachable''), s)
         else
           let (lost, rng) = chance_ppm (lost_ack_ppm (fs_faults s)) (fs_rng s);
               s = s\<lparr>fs_rng := rng\<rparr>;
               (answer, inner) = put_if_absent S key bytes (fs_inner s);
               s = s\<lparr>fs_inner := inner\<rparr>
           in case answer of
                Inl e \<Rightarrow> (Inl e, s)
              | Inr outcome \<Rightarrow>
                  let s = (if fst outcome = PutWritten then s\<lparr>fs_committed := fs_committed s @ [key]\<rparr> else s)
                  in if lost then (Inl (Unavailable ''the store answered after the connection was gone''), s)
                     else (Inr outcome, s))"

definition faulty_read ::
  "string \<Rightarrow> ('s \<Rightarrow> (AdapterError + 'a) \<times> 's) \<Rightarrow> 's FaultyStore \<Rightarrow> (AdapterError + 'a) \<times> 's FaultyStore" where
  "faulty_read why call s =
     (let (failed, rng) = chance_ppm (read_error_ppm (fs_faults s)) (fs_rng s);
          s = s\<lparr>fs_rng := rng\<rparr>
      in if failed then (Inl (Unavailable why), s)
         else let (answer, inner) = call (fs_inner s) in (answer, s\<lparr>fs_inner := inner\<rparr>))"

definition Faulty_Store :: "'s ObjectStore \<Rightarrow> 's FaultyStore ObjectStore" where
  "Faulty_Store S = \<lparr>put_if_absent = Faulty_put S,
     os_get = (\<lambda>key. faulty_read ''the read failed'' (os_get S key)),
     os_get_version = (\<lambda>key version. faulty_read ''the read failed'' (os_get_version S key version)),
     os_list = (\<lambda>pre. faulty_read ''the listing failed'' (os_list S pre))\<rparr>"

subsection \<open>The contract\<close>

locale object_store =
  fixes S :: "'o ObjectStore"
    and objects :: "'o \<Rightarrow> str \<rightharpoonup> bytes"
    and wf :: "'o \<Rightarrow> bool"
  assumes put_wf: "put_if_absent S k b st = (r, st') \<Longrightarrow> wf st \<Longrightarrow> wf st'"
    and put_written: "put_if_absent S k b st = (Inr (PutWritten, v), st') \<Longrightarrow> wf st \<Longrightarrow>
      objects st k = None \<and> objects st' = (objects st)(k \<mapsto> b)"
    and put_exists: "put_if_absent S k b st = (Inr (AlreadyExists, v), st') \<Longrightarrow> wf st \<Longrightarrow>
      objects st k \<noteq> None \<and> objects st' = objects st"
    and put_failed: "put_if_absent S k b st = (Inl e, st') \<Longrightarrow> wf st \<Longrightarrow>
      objects st' = objects st \<or> objects st k = None \<and> objects st' = (objects st)(k \<mapsto> b)"
    and get_wf: "os_get S k st = (g, st') \<Longrightarrow> wf st \<Longrightarrow> wf st' \<and> objects st' = objects st"
    and get_value: "os_get S k st = (Inr x, st') \<Longrightarrow> wf st \<Longrightarrow> x = objects st k"

definition memory_objects :: "MemoryObjectStore \<Rightarrow> str \<rightharpoonup> bytes" where
  "memory_objects s = Mapping.lookup (mem_objects s)"

lemma lookup_update_map: "Mapping.lookup (Mapping.update k v m) = (Mapping.lookup m)(k \<mapsto> v)"
  by (simp add: fun_eq_iff lookup_update')

lemma Memory_sel [simp]:
  "put_if_absent Memory_Store = Memory_put" "os_get Memory_Store = Memory_get"
  by (simp_all add: Memory_Store_def)

interpretation memory: object_store Memory_Store memory_objects "\<lambda>_. True"
  by unfold_locales
     (auto simp: Memory_put_def Memory_get_def memory_objects_def lookup_update_map split: if_splits)

text \<open>A versioning store that nobody has deleted from or written around.\<close>

definition versioning_objects :: "VersioningObjectStore \<Rightarrow> str \<rightharpoonup> bytes" where
  "versioning_objects s k = map_option snd (Option.bind (Mapping.lookup (vos_versions s) k) last_of)"

definition versioning_wf :: "VersioningObjectStore \<Rightarrow> bool" where
  "versioning_wf s \<longleftrightarrow> vos_deleted s = {} \<and> (\<forall>k. Mapping.lookup (vos_versions s) k \<noteq> Some [])"

interpretation versioning: object_store Versioning_Store versioning_objects versioning_wf
  by unfold_locales
     (auto simp: Versioning_Store_def Versioning_put_def Versioning_get_def versioning_objects_def
       versioning_wf_def vos_overwrite_def last_of_def lookup_update' fun_eq_iff Let_def
       split: if_splits option.splits)

text \<open>A faulty store over any store that keeps the contract keeps it.\<close>

context object_store
begin

lemma faulty_read_inner:
  "faulty_read why call s = (r, s') \<Longrightarrow>
   fs_inner s' = fs_inner s \<and> (\<exists>e. r = Inl e) \<or> call (fs_inner s) = (r, fs_inner s')"
  by (auto simp: faulty_read_def Let_def split: prod.splits if_splits)

lemma Faulty_put_inner:
  assumes "Faulty_put S k b s = (r, s')"
  shows "(\<exists>e. r = Inl e) \<and> fs_inner s' = fs_inner s \<or>
    (\<exists>a. put_if_absent S k b (fs_inner s) = (a, fs_inner s') \<and> (r = a \<or> (\<exists>e. r = Inl e)))"
  using assms by (auto simp: Faulty_put_def Let_def split: prod.splits if_splits sum.splits)

lemma faulty_store: "object_store (Faulty_Store S) (\<lambda>s. objects (fs_inner s)) (\<lambda>s. wf (fs_inner s))"
proof
  fix k :: str and b :: bytes and st st' :: "'o FaultyStore"
  show "wf (fs_inner st')" if "put_if_absent (Faulty_Store S) k b st = (r, st')" "wf (fs_inner st)" for r
    using Faulty_put_inner [of k b st r st'] that put_wf by (auto simp: Faulty_Store_def)
  show "objects (fs_inner st) k = None \<and> objects (fs_inner st') = (objects (fs_inner st))(k \<mapsto> b)"
    if "put_if_absent (Faulty_Store S) k b st = (Inr (PutWritten, v), st')" "wf (fs_inner st)" for v
    using Faulty_put_inner [of k b st _ st'] that put_written by (fastforce simp: Faulty_Store_def)
  show "objects (fs_inner st) k \<noteq> None \<and> objects (fs_inner st') = objects (fs_inner st)"
    if "put_if_absent (Faulty_Store S) k b st = (Inr (AlreadyExists, v), st')" "wf (fs_inner st)" for v
    using Faulty_put_inner [of k b st _ st'] that put_exists by (fastforce simp: Faulty_Store_def)
  show "objects (fs_inner st') = objects (fs_inner st) \<or>
      objects (fs_inner st) k = None \<and> objects (fs_inner st') = (objects (fs_inner st))(k \<mapsto> b)"
    if f: "put_if_absent (Faulty_Store S) k b st = (Inl e, st')" "wf (fs_inner st)" for e
  proof -
    consider "fs_inner st' = fs_inner st" | a where "put_if_absent S k b (fs_inner st) = (a, fs_inner st')"
      using Faulty_put_inner [of k b st "Inl e" st'] f(1) by (auto simp: Faulty_Store_def)
    then show ?thesis
    proof cases
      case (2 a)
      show ?thesis
      proof (cases a)
        case (Inl x)
        with put_failed 2 f(2) show ?thesis by blast
      next
        case (Inr y)
        obtain oc v where y: "y = (oc, v)" by fastforce
        show ?thesis
        proof (cases oc)
          case PutWritten
          then show ?thesis using put_written 2 f(2) Inr y by simp
        next
          case AlreadyExists
          then show ?thesis using put_exists 2 f(2) Inr y by simp
        qed
      qed
    qed simp
  qed
  show "wf (fs_inner st') \<and> objects (fs_inner st') = objects (fs_inner st)"
    if "os_get (Faulty_Store S) k st = (g, st')" "wf (fs_inner st)" for g
    using faulty_read_inner [of _ "os_get S k" st g st'] that get_wf by (fastforce simp: Faulty_Store_def)
  show "x = objects (fs_inner st) k"
    if "os_get (Faulty_Store S) k st = (Inr x, st')" "wf (fs_inner st)" for x
    using faulty_read_inner [of _ "os_get S k" st "Inr x" st'] that get_value by (fastforce simp: Faulty_Store_def)
qed

end

interpretation faulty: object_store "Faulty_Store Memory_Store" "\<lambda>s. memory_objects (fs_inner s)" "\<lambda>_. True"
  by (rule memory.faulty_store)

end
