(* ===== verification/Publish.thy ===== *)
theory Publish
  imports ObjectStores Records
begin

text \<open>
  Publishing a sealed segment with no coordinator: \<open>crates/trailryx-publish/src/lib.rs\<close>. The body
  goes first, under a key that names its content; the manifest goes second, with a conditional
  write that is the commit point; a refused write is settled by reading the stored manifest back.

  The client side is proved once, in the locale \<open>object_store\<close>, for any store that keeps the
  contract and may lose acknowledgements, and read off for the faulty store. The results: nothing is
  ever overwritten, a manifest is never there without its body, success means our manifest is the
  one stored, divergence means another is, and two publishers that both succeed published the same
  manifest.
\<close>

subsection \<open>The model\<close>

record Publication =
  pb_shard :: ShardIx
  pb_segment :: SegmentId
  pb_manifest :: bytes
  pb_body :: bytes

text \<open>\<open>{:016x}\<close> of a \<open>u64\<close>, and \<open>Display\<close> of a shard.\<close>

definition lower_hex :: "bytes \<Rightarrow> str" where
  "lower_hex bs = concat (map (\<lambda>b. [unwrap_or 0x30 (from_digit (unat (drop_bit 4 b))),
                                    unwrap_or 0x30 (from_digit (unat (b AND 0x0F)))]) bs)"

definition shard_name :: "ShardIx \<Rightarrow> str" where
  "shard_name s = ascii ''s'' @ decimal (unat s)"

definition body_digest :: "bytes \<Rightarrow> hash" where
  "body_digest bytes =
     (let h = Sha384_new;
          h = Sha384_update h (ascii ''trailryx/published-object/v1'' @ [0]);
          h = Sha384_update h bytes
      in Sha384_finish h)"

definition body_key_for :: "Publication \<Rightarrow> hash \<Rightarrow> str" where
  "body_key_for p d =
     ascii ''segments/'' @ shard_name (pb_shard p) @ ascii ''/'' @ lower_hex (to_be_bytes (pb_segment p)) @
     ascii ''-'' @ to_hex d @ ascii ''.trx''"

definition body_key :: "Publication \<Rightarrow> str" where
  "body_key p = body_key_for p (body_digest (pb_body p))"

definition manifest_key :: "Publication \<Rightarrow> str" where
  "manifest_key p =
     ascii ''manifests/'' @ shard_name (pb_shard p) @ ascii ''/'' @ lower_hex (to_be_bytes (pb_segment p)) @
     ascii ''.mf''"

datatype Published = Committed "VersionId option" | AlreadyPublished

datatype PublishError =
    PublishUnavailable u32 AdapterError
  | PublishUnsupported string
  | Diverged str hash hash
  | Indeterminate str

text \<open>The loop over the attempts, with the last error so far.\<close>

fun retry_loop ::
  "nat \<Rightarrow> u32 \<Rightarrow> AdapterError \<Rightarrow> ('o \<Rightarrow> (AdapterError + 'a) \<times> 'o) \<Rightarrow> 'o \<Rightarrow> (PublishError + 'a) \<times> 'o" where
  "retry_loop 0 attempts lst call store = (Inl (PublishUnavailable attempts lst), store)"
| "retry_loop (Suc n) attempts lst call store =
     (case call store of
        (Inr x, store) \<Rightarrow> (Inr x, store)
      | (Inl (Unsupported why), store) \<Rightarrow> (Inl (PublishUnsupported why), store)
      | (Inl other, store) \<Rightarrow> retry_loop n attempts other call store)"

definition retrying :: "u32 \<Rightarrow> ('o \<Rightarrow> (AdapterError + 'a) \<times> 'o) \<Rightarrow> 'o \<Rightarrow> (PublishError + 'a) \<times> 'o" where
  "retrying attempts call store =
     retry_loop (unat attempts) attempts (Unavailable ''not attempted'') call store"

definition publish ::
  "'o ObjectStore \<Rightarrow> Publication \<Rightarrow> u32 \<Rightarrow> 'o \<Rightarrow> (PublishError + Published) \<times> 'o" where
  "publish S p attempts store =
     (let attempts = max attempts 1 in
      case retrying attempts (put_if_absent S (body_key p) (pb_body p)) store of
        (Inl e, store) \<Rightarrow> (Inl e, store)
      | (Inr _, store) \<Rightarrow>
          (case retrying attempts (put_if_absent S (manifest_key p) (pb_manifest p)) store of
             (Inl e, store) \<Rightarrow> (Inl e, store)
           | (Inr (PutWritten, version), store) \<Rightarrow> (Inr (Committed version), store)
           | (Inr (AlreadyExists, _), store) \<Rightarrow>
               (case retrying attempts (os_get S (manifest_key p)) store of
                  (Inl e, store) \<Rightarrow> (Inl e, store)
                | (Inr (Some stored), store) \<Rightarrow>
                    (if stored = pb_manifest p then Inr AlreadyPublished
                     else Inl (Diverged (manifest_key p) (body_digest (pb_manifest p)) (body_digest stored)), store)
                | (Inr None, store) \<Rightarrow> (Inl (Indeterminate (manifest_key p)), store))))"

definition read_published ::
  "'o ObjectStore \<Rightarrow> str \<Rightarrow> VersionId \<Rightarrow> 'o \<Rightarrow> (AdapterError + bytes option) \<times> 'o" where
  "read_published S key version store = os_get_version S key version store"

subsection \<open>Keys name what they hold\<close>

definition decimal_value :: "str \<Rightarrow> nat" where
  "decimal_value s = foldl (\<lambda>a b. a * 10 + (unat b - 0x30)) 0 s"

lemma decimal_value: "decimal_value (decimal n) = n"
proof (induction n rule: decimal.induct)
  case (1 n)
  have d: "unat (0x30 + of_nat (m mod 10) :: u8) = 0x30 + m mod 10" for m :: nat
  proof -
    have "(0x30 + of_nat (m mod 10) :: u8) = of_nat (0x30 + m mod 10)" by simp
    moreover have "0x30 + m mod 10 < 256" by (simp add: trans_less_add1 less_imp_le_nat)
    ultimately show ?thesis by (simp only: unat_of_nat_u8 mod_less)
  qed
  show ?case
  proof (cases "n < 10")
    case True
    then show ?thesis using d [of n] by (simp add: decimal.simps [of n] decimal_value_def)
  next
    case False
    then show ?thesis
      using 1 [OF False] d [of n] by (simp add: decimal.simps [of n] decimal_value_def)
  qed
qed

lemma shard_name_inj [simp]: "shard_name a = shard_name b \<longleftrightarrow> a = b"
proof
  assume "shard_name a = shard_name b"
  then have "decimal_value (decimal (unat a)) = decimal_value (decimal (unat b))"
    by (simp add: shard_name_def)
  then have "unat a = unat b" by (simp add: decimal_value)
  then show "a = b" by (rule unsigned_word_eqI)
qed simp

lemma length_lower_hex [simp]: "length (lower_hex bs) = 2 * length bs"
  by (simp add: lower_hex_def length_concat comp_def sum_list_triv)

lemma lower_hex_inj: "lower_hex a = lower_hex b \<longleftrightarrow> a = b"
proof
  assume "lower_hex a = lower_hex b"
  then have "from_hex_loop (lower_hex a) = from_hex_loop (lower_hex b)" by simp
  then show "a = b" by (simp add: lower_hex_def from_hex_loop_encode)
qed simp

lemma to_hex_inj [simp]: "to_hex a = to_hex b \<longleftrightarrow> a = b"
proof
  assume "to_hex a = to_hex b"
  then have "from_hex (to_hex a) = from_hex (to_hex b)" by simp
  then show "a = b" by (simp add: from_hex_to_hex)
qed simp

lemma append_eq_length: "length x = length y \<Longrightarrow> a @ x = b @ y \<longleftrightarrow> a = b \<and> x = y"
  by (metis append_eq_append_conv)

lemma manifest_key_inj [simp]:
  "manifest_key p = manifest_key q \<longleftrightarrow> pb_shard p = pb_shard q \<and> pb_segment p = pb_segment q"
  by (auto simp: manifest_key_def append_eq_length lower_hex_inj to_be_bytes_inj)

lemma body_key_for_inj [simp]:
  "body_key_for p d = body_key_for q e \<longleftrightarrow> pb_shard p = pb_shard q \<and> pb_segment p = pb_segment q \<and> d = e"
  by (auto simp: body_key_for_def append_eq_length lower_hex_inj to_be_bytes_inj length_to_hex)

lemma body_manifest_key [simp]: "body_key_for p d \<noteq> manifest_key q" "manifest_key q \<noteq> body_key_for p d"
  by (simp_all add: body_key_for_def manifest_key_def ascii_def)

subsection \<open>What a publication does to a store\<close>

text \<open>What the result says about the store it leaves.\<close>

definition tells :: "Publication \<Rightarrow> PublishError + Published \<Rightarrow> (str \<rightharpoonup> bytes) \<Rightarrow> bool" where
  "tells p r obs \<longleftrightarrow>
     (case r of
        Inr _ \<Rightarrow> obs (body_key p) \<noteq> None \<and> obs (manifest_key p) = Some (pb_manifest p)
      | Inl (Diverged k ours theirs) \<Rightarrow>
          \<exists>m. obs (manifest_key p) = Some m \<and> m \<noteq> pb_manifest p \<and> k = manifest_key p \<and>
              ours = body_digest (pb_manifest p) \<and> theirs = body_digest m
      | Inl (Indeterminate _) \<Rightarrow> False
      | Inl _ \<Rightarrow> True)"

context object_store
begin

text \<open>A conditional write, retried: the object is ours, or somebody's, or the store is as it was.\<close>

lemma retry_put:
  "retry_loop n a lst (put_if_absent S k b) st = (r, st') \<Longrightarrow> wf st \<Longrightarrow>
   wf st' \<and> (objects st' = objects st \<or> objects st k = None \<and> objects st' = (objects st)(k \<mapsto> b)) \<and>
   (\<forall>oc v. r = Inr (oc, v) \<longrightarrow> objects st' k \<noteq> None \<and> (oc = PutWritten \<longrightarrow> objects st' k = Some b))"
proof (induction n arbitrary: lst st)
  case (Suc n)
  obtain x st1 where c: "put_if_absent S k b st = (x, st1)" by fastforce
  note w = put_wf [OF c Suc.prems(2)]
  show ?case
  proof (cases x)
    case (Inl e)
    have o: "objects st1 = objects st \<or> objects st k = None \<and> objects st1 = (objects st)(k \<mapsto> b)"
      using put_failed c Inl Suc.prems(2) by blast
    show ?thesis
    proof (cases "\<exists>why. e = Unsupported why")
      case True
      then show ?thesis using Suc.prems(1) c Inl o w by auto
    next
      case False
      then have "retry_loop n a e (put_if_absent S k b) st1 = (r, st')"
        using Suc.prems(1) c Inl by (cases e) auto
      from Suc.IH [OF this w] o show ?thesis by auto
    qed
  next
    case (Inr y)
    obtain oc v where y: "y = (oc, v)" by fastforce
    have rs: "r = Inr (oc, v)" "st' = st1" using Suc.prems(1) c Inr y by auto
    show ?thesis
    proof (cases oc)
      case PutWritten
      then show ?thesis using put_written c Inr y Suc.prems(2) rs w by simp
    next
      case AlreadyExists
      then show ?thesis using put_exists c Inr y Suc.prems(2) rs w by simp
    qed
  qed
qed auto

lemma retry_get:
  "retry_loop n a lst (os_get S k) st = (r, st') \<Longrightarrow> wf st \<Longrightarrow>
   wf st' \<and> objects st' = objects st \<and> (\<forall>x. r = Inr x \<longrightarrow> x = objects st k)"
proof (induction n arbitrary: lst st)
  case (Suc n)
  obtain x st1 where c: "os_get S k st = (x, st1)" by fastforce
  note w = get_wf [OF c Suc.prems(2)]
  show ?case
  proof (cases x)
    case (Inl e)
    show ?thesis
    proof (cases "\<exists>why. e = Unsupported why")
      case True
      then show ?thesis using Suc.prems(1) c Inl w by auto
    next
      case False
      then have "retry_loop n a e (os_get S k) st1 = (r, st')"
        using Suc.prems(1) c Inl by (cases e) auto
      from Suc.IH [OF this] w show ?thesis by auto
    qed
  next
    case (Inr y)
    then show ?thesis using Suc.prems c w get_value by auto
  qed
qed auto

lemma retry_error:
  "retry_loop n a lst call st = (Inl e, st') \<Longrightarrow> (\<exists>x. e = PublishUnavailable a x) \<or> (\<exists>w. e = PublishUnsupported w)"
  by (induction n arbitrary: lst st) (auto split: prod.splits sum.splits AdapterError.splits)

lemma publish_effect:
  assumes "publish S p n st = (r, st')" "wf st"
  obtains st1 where "wf st'"
    "objects st1 = objects st \<or> objects st (body_key p) = None \<and> objects st1 = (objects st)(body_key p \<mapsto> pb_body p)"
    "objects st' = objects st1 \<or> objects st1 (body_key p) \<noteq> None \<and> objects st1 (manifest_key p) = None \<and>
       objects st' = (objects st1)(manifest_key p \<mapsto> pb_manifest p)"
    "tells p r (objects st')"
proof -
  let ?bk = "body_key p" and ?mk = "manifest_key p" and ?a = "max n 1"
  have ne: "?bk \<noteq> ?mk" by (simp add: body_key_def)
  obtain r1 st1 where c1: "retrying ?a (put_if_absent S ?bk (pb_body p)) st = (r1, st1)" by fastforce
  note p1 = retry_put [OF c1 [unfolded retrying_def] assms(2)]
  show thesis
  proof (cases r1)
    case (Inl e)
    then have "r = Inl e" "st' = st1" using assms(1) c1 by (simp_all add: publish_def)
    with p1 retry_error [OF c1 [unfolded retrying_def Inl]] show thesis
      using that [of st1] by (auto simp: tells_def)
  next
    case (Inr y)
    then have b1: "objects st1 ?bk \<noteq> None" "wf st1" using p1 by (cases y; auto)+
    obtain r2 st2 where c2: "retrying ?a (put_if_absent S ?mk (pb_manifest p)) st1 = (r2, st2)" by fastforce
    note p2 = retry_put [OF c2 [unfolded retrying_def] b1(2)]
    have b2: "objects st2 = objects st1 \<or> objects st1 ?bk \<noteq> None \<and> objects st1 ?mk = None \<and>
        objects st2 = (objects st1)(?mk \<mapsto> pb_manifest p)" "objects st2 ?bk \<noteq> None" "wf st2"
      using p2 b1 ne by auto
    show thesis
    proof (cases r2)
      case (Inl e)
      then have "r = Inl e" "st' = st2" using assms(1) c1 c2 \<open>r1 = Inr y\<close> by (simp_all add: publish_def)
      with b2 p1 retry_error [OF c2 [unfolded retrying_def Inl]] show thesis
        using that [of st1] by (auto simp: tells_def)
    next
      case r2: (Inr z)
      obtain oc v where z: "z = (oc, v)" by fastforce
      show thesis
      proof (cases oc)
        case PutWritten
        then have "r = Inr (Committed v)" "st' = st2" "objects st2 ?mk = Some (pb_manifest p)"
          using assms(1) c1 c2 Inr r2 z p2 by (simp_all add: publish_def)
        with b2 p1 show thesis using that [of st1] by (auto simp: tells_def)
      next
        case AlreadyExists
        obtain r3 st3 where c3: "retrying ?a (os_get S ?mk) st2 = (r3, st3)" by fastforce
        note p3 = retry_get [OF c3 [unfolded retrying_def] b2(3)]
        have eqs: "st' = st3" "r = (case r3 of Inl e \<Rightarrow> Inl e | Inr None \<Rightarrow> Inl (Indeterminate ?mk)
            | Inr (Some stored) \<Rightarrow> if stored = pb_manifest p then Inr AlreadyPublished
                else Inl (Diverged ?mk (body_digest (pb_manifest p)) (body_digest stored)))"
          using assms(1) c1 c2 c3 Inr r2 z AlreadyExists
          by (auto simp: publish_def split: sum.splits option.splits)
        have there: "objects st2 ?mk \<noteq> None" using p2 r2 z by blast
        have "tells p r (objects st')"
        proof (cases r3)
          case (Inl e)
          with retry_error [OF c3 [unfolded retrying_def Inl]] eqs show ?thesis by (auto simp: tells_def)
        next
          case r3: (Inr stored)
          then have "stored = objects st2 ?mk" "objects st3 = objects st2" using p3 by auto
          with there eqs r3 b2(2) show ?thesis by (auto simp: tells_def)
        qed
        then show thesis using that [of st1] p1 p3 b2(1) eqs(1) by auto
      qed
    qed
  qed
qed

lemma publish_keeps:
  assumes "publish S p n st = (r, st')" "wf st"
  shows "wf st'" "objects st \<subseteq>\<^sub>m objects st'" "tells p r (objects st')"
    and "\<And>k. k \<noteq> body_key p \<Longrightarrow> k \<noteq> manifest_key p \<Longrightarrow> objects st' k = objects st k"
    and "objects st' (manifest_key p) \<noteq> objects st (manifest_key p) \<Longrightarrow>
         objects st' (manifest_key p) = Some (pb_manifest p) \<and> objects st' (body_key p) \<noteq> None"
    and "objects st' (body_key p) = objects st (body_key p) \<or>
         objects st (body_key p) = None \<and> objects st' (body_key p) = Some (pb_body p)"
proof -
  have ne: "body_key p \<noteq> manifest_key p" by (simp add: body_key_def)
  obtain st1 where e: "wf st'"
    "objects st1 = objects st \<or> objects st (body_key p) = None \<and> objects st1 = (objects st)(body_key p \<mapsto> pb_body p)"
    "objects st' = objects st1 \<or> objects st1 (body_key p) \<noteq> None \<and> objects st1 (manifest_key p) = None \<and>
       objects st' = (objects st1)(manifest_key p \<mapsto> pb_manifest p)"
    "tells p r (objects st')"
    by (rule publish_effect [OF assms])
  show "wf st'" "tells p r (objects st')" by (rule e)+
  have "objects st \<subseteq>\<^sub>m objects st1" using e(2) by (auto simp: map_le_def)
  moreover have "objects st1 \<subseteq>\<^sub>m objects st'" using e(3) by (auto simp: map_le_def)
  ultimately show "objects st \<subseteq>\<^sub>m objects st'" by (rule map_le_trans)
  show "objects st' k = objects st k" if "k \<noteq> body_key p" "k \<noteq> manifest_key p" for k
    using e(2,3) that by auto
  show "objects st' (manifest_key p) = Some (pb_manifest p) \<and> objects st' (body_key p) \<noteq> None"
    if "objects st' (manifest_key p) \<noteq> objects st (manifest_key p)"
    using e(2,3) that ne by auto
  show "objects st' (body_key p) = objects st (body_key p) \<or>
      objects st (body_key p) = None \<and> objects st' (body_key p) = Some (pb_body p)"
    using e(2,3) ne by auto
qed

end

text \<open>Publishers one after another, each with its own attempts.\<close>

primrec publish_all :: "'o ObjectStore \<Rightarrow> (Publication \<times> u32) list \<Rightarrow> 'o \<Rightarrow> 'o" where
  "publish_all S [] st = st"
| "publish_all S (pn # ps) st = publish_all S ps (snd (publish S (fst pn) (snd pn) st))"

lemma publish_all_keeps:
  "memory_objects (fs_inner st) \<subseteq>\<^sub>m memory_objects (fs_inner (publish_all (Faulty_Store Memory_Store) ps st))"
proof (induction ps arbitrary: st)
  case (Cons pn ps)
  obtain r st' where p: "publish (Faulty_Store Memory_Store) (fst pn) (snd pn) st = (r, st')" by fastforce
  from faulty.publish_keeps(2) [OF this] Cons [of st'] show ?case by (auto simp: p intro: map_le_trans)
qed simp

lemma retry_once: "call st = (Inr x, st') \<Longrightarrow> retrying (max n 1) call st = (Inr x, st')"
proof -
  assume c: "call st = (Inr x, st')"
  have "0 < max n 1" by (simp add: less_max_iff_disj)
  then have "0 < unat (max n 1)" by (simp only: word_less_nat_alt unat_0)
  then obtain k where "unat (max n 1) = Suc k" by (cases "unat (max n 1)") auto
  with c show ?thesis by (simp add: retrying_def)
qed

lemma publish_memory:
  "publish Memory_Store p n st =
     (let st1 = snd (Memory_put (body_key p) (pb_body p) st) in
      case memory_objects st (manifest_key p) of
        None \<Rightarrow> (Inr (Committed None), snd (Memory_put (manifest_key p) (pb_manifest p) st1))
      | Some m \<Rightarrow> (if m = pb_manifest p then Inr AlreadyPublished
                  else Inl (Diverged (manifest_key p) (body_digest (pb_manifest p)) (body_digest m)), st1))"
proof -
  have mk: "Mapping.lookup (mem_objects (snd (Memory_put (body_key p) (pb_body p) st))) (manifest_key p) =
      memory_objects st (manifest_key p)"
    by (simp add: Memory_put_def memory_objects_def lookup_update' body_key_def)
  obtain x st1 where b: "Memory_put (body_key p) (pb_body p) st = (Inr x, st1)"
    by (cases "Mapping.lookup (mem_objects st) (body_key p)") (simp_all add: Memory_put_def)
  show ?thesis
  proof (cases "memory_objects st (manifest_key p)")
    case None
    then have "Memory_put (manifest_key p) (pb_manifest p) st1 =
        (Inr (PutWritten, None), snd (Memory_put (manifest_key p) (pb_manifest p) st1))"
      using mk b by (simp add: Memory_put_def)
    with None b show ?thesis
      by (simp add: publish_def Let_def retry_once)
  next
    case (Some m)
    then have "Memory_put (manifest_key p) (pb_manifest p) st1 = (Inr (AlreadyExists, None), st1)"
      "Memory_get (manifest_key p) st1 = (Inr (Some m), st1)"
      using mk b by (simp_all add: Memory_put_def Memory_get_def)
    with Some b show ?thesis
      by (simp add: publish_def Let_def retry_once)
  qed
qed

text \<open>On a faultless store the first publication commits and the second recognises it.\<close>

lemma publish_faultless:
  obtains st1 where "publish (Faulty_Store Memory_Store) p 1 (FaultyStore_new Memory_default seed StoreFaults_NONE) =
      (Inr (Committed None), st1)"
    "publish (Faulty_Store Memory_Store) p 1 st1 = (Inr AlreadyPublished, st1)"
proof -
  define st0 where "st0 = FaultyStore_new Memory_default seed StoreFaults_NONE"
  define st1 where "st1 = st0\<lparr>fs_inner := snd (publish Memory_Store p 1 Memory_default),
      fs_committed := [body_key p, manifest_key p]\<rparr>"
  have c: "publish (Faulty_Store Memory_Store) p 1 st0 = (Inr (Committed None), st1)"
    by (simp add: publish_def retrying_def Faulty_Store_def Faulty_put_def chance_ppm_def st0_def st1_def
        FaultyStore_new_def StoreFaults_NONE_def Memory_put_def Memory_default_def lookup_update'
        lookup_empty body_key_def Let_def)
  have d: "publish (Faulty_Store Memory_Store) p 1 st1 = (Inr AlreadyPublished, st1)"
    by (simp add: publish_def retrying_def Faulty_Store_def Faulty_put_def faulty_read_def chance_ppm_def
        st0_def st1_def FaultyStore_new_def StoreFaults_NONE_def Memory_put_def Memory_get_def
        Memory_default_def lookup_update' lookup_empty body_key_def Let_def)
  from that [OF c [unfolded st0_def] d] show thesis .
qed

subsection \<open>Properties\<close>


definition sample_publication :: Publication where
  "sample_publication = \<lparr>pb_shard = 3, pb_segment = 1, pb_manifest = [1, 2], pb_body = [3]\<rparr>"


text \<open>
  C22. No split: two publishers of one segment number that both report success, on a store that
  fails and loses acknowledgements, with any publishers in between, published the same manifest.
\<close>

theorem publishers_agree:
  assumes "publish (Faulty_Store Memory_Store) p n st = (Inr a, st1)"
    and "st2 = publish_all (Faulty_Store Memory_Store) others st1"
    and "publish (Faulty_Store Memory_Store) q m st2 = (Inr b, st3)"
    and "pb_shard p = pb_shard q" "pb_segment p = pb_segment q"
  shows "pb_manifest p = pb_manifest q"
proof -
  have k: "manifest_key p = manifest_key q" using assms(4,5) by simp
  have "memory_objects (fs_inner st1) (manifest_key p) = Some (pb_manifest p)"
    using faulty.publish_keeps(3) [OF assms(1)] by (simp add: tells_def)
  moreover have "memory_objects (fs_inner st1) \<subseteq>\<^sub>m memory_objects (fs_inner st3)"
    using publish_all_keeps [of st1 others] faulty.publish_keeps(2) [OF assms(3)] assms(2)
    by (auto intro: map_le_trans)
  ultimately have "memory_objects (fs_inner st3) (manifest_key q) = Some (pb_manifest p)"
    by (auto simp: map_le_def dom_def k)
  moreover have "memory_objects (fs_inner st3) (manifest_key q) = Some (pb_manifest q)"
    using faulty.publish_keeps(3) [OF assms(3)] by (simp add: tells_def)
  ultimately show ?thesis by simp
qed

theorem publishers_agree_witness:
  "\<exists>st1 st3. publish (Faulty_Store Memory_Store) sample_publication 1
       (FaultyStore_new Memory_default 7 StoreFaults_NONE) = (Inr (Committed None), st1) \<and>
     publish (Faulty_Store Memory_Store) sample_publication 1 st1 = (Inr AlreadyPublished, st3) \<and>
     pb_manifest sample_publication = pb_manifest sample_publication"
proof -
  let ?p = sample_publication
  obtain st1 where c: "publish (Faulty_Store Memory_Store) ?p 1 (FaultyStore_new Memory_default 7 StoreFaults_NONE) =
      (Inr (Committed None), st1)"
    and d: "publish (Faulty_Store Memory_Store) ?p 1 st1 = (Inr AlreadyPublished, st1)"
    by (rule publish_faultless)
  have "pb_manifest ?p = pb_manifest ?p"
    by (rule publishers_agree [OF c _ d, where others = "[]"]) simp_all
  with c d show ?thesis by blast
qed

text \<open>
  On a store without faults a publication decides: it commits where no manifest was, recognises
  its own, and reports the divergence from another; however many attempts it was given.
\<close>

theorem publish_decides:
  "fst (publish Memory_Store p n st) =
     (case memory_objects st (manifest_key p) of
        None \<Rightarrow> Inr (Committed None)
      | Some m \<Rightarrow> if m = pb_manifest p then Inr AlreadyPublished
                 else Inl (Diverged (manifest_key p) (body_digest (pb_manifest p)) (body_digest m)))"
  by (simp add: publish_memory Let_def split: option.splits)

end
