(* ===== verification/Cold.thy ===== *)
theory Cold
  imports Publish Segment
begin

text \<open>
  Segments in cold storage: the manifest encoding of \<open>crates/trailryx-store/src/evidence.rs\<close>, and the
  object bodies, the envelope, the publication and the fetch of \<open>cold.rs\<close>.

  A reader of a bucket's bytes maps the bytes that remain to a value and the bytes left, or to
  nothing. The results: the manifest, body and envelope readers accept exactly what their writers
  produce; a fetched segment has the records the manifest counts, in a body with the digest the
  envelope commits to; and what is fetched under the keys a publication wrote is what was published.
\<close>

subsection \<open>The manifest in bytes\<close>

text \<open>\<open>put_bytes\<close> and \<open>put_str\<close> of the pack format: a 32-bit length in front.\<close>

definition pk_put_bytes :: "bytes \<Rightarrow> bytes" where
  "pk_put_bytes b = to_be_bytes (of_nat (length b) :: u32) @ b"

definition pk_put_str :: "str \<Rightarrow> bytes" where
  "pk_put_str s = pk_put_bytes s"

definition encode_index_root :: "Dimension \<times> hash \<Rightarrow> bytes" where
  "encode_index_root dr = pk_put_str (Dimension_as_str (fst dr)) @ as_bytes (snd dr)"

definition encode_manifest :: "SegmentManifest \<Rightarrow> bytes" where
  "encode_manifest m =
     to_be_bytes (m_format_version m) @ to_be_bytes (m_segment m) @ to_be_bytes (m_shard m) @
     to_be_bytes (m_records m) @ as_bytes (history_root m) @ as_bytes (chain_before m) @
     as_bytes (chain_after m) @ to_be_bytes (of_nat (length (index_roots m)) :: u64) @
     concat (map encode_index_root (index_roots m)) @
     to_be_bytes (first_recorded_at m) @ to_be_bytes (last_recorded_at m) @
     algorithm_code (m_algorithms m)"

text \<open>The private \<open>Reader\<close>: \<open>None\<close> on anything it cannot read.\<close>

type_synonym 'a rd = "bytes \<Rightarrow> ('a \<times> bytes) option"

definition rd_take :: "nat \<Rightarrow> bytes rd" where
  "rd_take n bs = (if length bs < n then None else Some (take n bs, drop n bs))"

definition rd_then :: "'a rd \<Rightarrow> ('a \<Rightarrow> 'b rd) \<Rightarrow> 'b rd" where
  "rd_then g f bs = Option.bind (g bs) (\<lambda>(x, rest). f x rest)"

definition rd_return :: "'a \<Rightarrow> 'a rd" where
  "rd_return x bs = Some (x, bs)"

definition rd_fail :: "'a rd" where
  "rd_fail bs = None"

definition rd_u8 :: "u8 rd" where
  "rd_u8 = rd_then (rd_take 1) (\<lambda>b. rd_return (hd b))"

definition rd_u16 :: "u16 rd" where
  "rd_u16 = rd_then (rd_take 2) (\<lambda>b. rd_return (from_be_bytes b))"

definition rd_u64 :: "u64 rd" where
  "rd_u64 = rd_then (rd_take 8) (\<lambda>b. rd_return (from_be_bytes b))"

definition rd_hash :: "hash rd" where
  "rd_hash = rd_then (rd_take 48) (\<lambda>b. rd_return (Hash_of_bytes b))"

definition rd_str :: "str rd" where
  "rd_str = rd_then (rd_take 4) (\<lambda>b. let len = unat (from_be_bytes b :: u32) in
     rd_then (rd_take len) (\<lambda>s. if utf8_valid s then rd_return s else rd_fail))"

definition rd_dimension :: "Dimension rd" where
  "rd_dimension = rd_then rd_str (\<lambda>name.
     case find (\<lambda>d. Dimension_as_str d = name) Dimension_ALL of
       Some d \<Rightarrow> rd_return d | None \<Rightarrow> rd_fail)"

primrec rd_index_roots :: "nat \<Rightarrow> (Dimension \<times> hash) list rd" where
  "rd_index_roots 0 = rd_return []"
| "rd_index_roots (Suc n) =
     rd_then rd_dimension (\<lambda>d. rd_then rd_hash (\<lambda>h.
       rd_then (rd_index_roots n) (\<lambda>rest. rd_return ((d, h) # rest))))"

definition rd_algorithms :: "Algorithms rd" where
  "rd_algorithms =
     rd_then rd_u8 (\<lambda>h. if h \<noteq> 1 then rd_fail else
     rd_then rd_u8 (\<lambda>s. if s \<noteq> 1 \<and> s \<noteq> 2 \<and> s \<noteq> 3 \<and> s \<noteq> 4 then rd_fail else
     rd_then rd_u8 (\<lambda>k. if k \<noteq> 1 then rd_fail else
     rd_return \<lparr>alg_hash = Alg_Sha384,
       alg_signature = (if s = 1 then Es256 else if s = 2 then MlDsa65 else if s = 3 then SlhDsa else Es384),
       alg_kem = X25519MlKem768\<rparr>)))"

text \<open>The fields in order; \<open>whole\<close> is the length of the whole input, which bounds the declared count.\<close>

definition rd_manifest :: "nat \<Rightarrow> SegmentManifest rd" where
  "rd_manifest whole =
           rd_then rd_u16 (\<lambda>format_version.
           rd_then rd_u64 (\<lambda>segment.
           rd_then rd_u16 (\<lambda>shard.
           rd_then rd_u64 (\<lambda>records.
           rd_then rd_hash (\<lambda>history.
           rd_then rd_hash (\<lambda>before.
           rd_then rd_hash (\<lambda>after.
           rd_then rd_u64 (\<lambda>count.
             if of_nat whole div 52 < count then rd_fail else
           rd_then (rd_index_roots (unat count)) (\<lambda>roots.
           rd_then rd_u64 (\<lambda>first.
           rd_then rd_u64 (\<lambda>lst.
           rd_then rd_algorithms (\<lambda>algs.
           rd_return \<lparr>m_format_version = format_version, m_segment = segment, m_shard = shard,
             m_records = records, history_root = history, index_roots = roots, chain_before = before,
             chain_after = after, first_recorded_at = first, last_recorded_at = lst,
             m_algorithms = algs\<rparr>))))))))))))"

definition decode_manifest :: "bytes \<Rightarrow> SegmentManifest option" where
  "decode_manifest bytes =
     (case rd_manifest (length bytes) bytes of Some (m, []) \<Rightarrow> Some m | _ \<Rightarrow> None)"

subsection \<open>Readers accept what writers produce\<close>

lemma rd_then_Some: "rd_then g f bs = Some (y, r) \<longleftrightarrow> (\<exists>x q. g bs = Some (x, q) \<and> f x q = Some (y, r))"
  by (auto simp: rd_then_def Option.bind_eq_Some_conv)

lemma rd_return_Some [simp]: "rd_return x bs = Some (y, r) \<longleftrightarrow> y = x \<and> bs = r"
  by (auto simp: rd_return_def)

lemma rd_fail_Some [simp]: "rd_fail bs \<noteq> Some z"
  by (simp add: rd_fail_def)

lemma rd_guard_Some [simp]:
  "(if P then rd_fail else g) bs = Some z \<longleftrightarrow> \<not> P \<and> g bs = Some z"
  "(if P then g else rd_fail) bs = Some z \<longleftrightarrow> P \<and> g bs = Some z"
  by auto

lemma rd_take_Some: "rd_take n bs = Some (x, r) \<longleftrightarrow> length x = n \<and> bs = x @ r"
  by (auto simp: rd_take_def)

lemma rd_u8_Some: "rd_u8 bs = Some (x, r) \<longleftrightarrow> bs = x # r"
proof -
  have "rd_u8 bs = Some (x, r) \<longleftrightarrow> (\<exists>b. length b = 1 \<and> hd b = x \<and> bs = b @ r)"
    by (auto simp: rd_u8_def rd_then_Some rd_take_Some)
  then show ?thesis by (auto simp: length_Suc_conv)
qed

lemma be_reads:
  assumes "8 dvd LENGTH('a::len)"
  shows "(\<exists>b. length b = LENGTH('a) div 8 \<and> bs = b @ r \<and> x = (from_be_bytes b :: 'a word)) \<longleftrightarrow> bs = to_be_bytes x @ r"
proof
  assume "\<exists>b. length b = LENGTH('a) div 8 \<and> bs = b @ r \<and> x = (from_be_bytes b :: 'a word)"
  then obtain b where "length b = LENGTH('a) div 8" "bs = b @ r" "x = (from_be_bytes b :: 'a word)" by blast
  then show "bs = to_be_bytes x @ r" using to_from_be_bytes [OF assms, of b] by simp
next
  assume "bs = to_be_bytes x @ r"
  then show "\<exists>b. length b = LENGTH('a) div 8 \<and> bs = b @ r \<and> x = (from_be_bytes b :: 'a word)"
    using assms by (intro exI [of _ "to_be_bytes x"]) simp
qed

lemma rd_u16_Some: "rd_u16 bs = Some (x, r) \<longleftrightarrow> bs = to_be_bytes x @ r"
  using be_reads [of bs r x] by (auto simp: rd_u16_def rd_then_Some rd_take_Some)

lemma rd_u64_Some: "rd_u64 bs = Some (x, r) \<longleftrightarrow> bs = to_be_bytes x @ r"
  using be_reads [of bs r x] by (auto simp: rd_u64_def rd_then_Some rd_take_Some)

lemma rd_hash_Some: "rd_hash bs = Some (x, r) \<longleftrightarrow> bs = as_bytes x @ r"
proof -
  have "rd_hash bs = Some (x, r) \<longleftrightarrow> (\<exists>b. length b = 48 \<and> bs = b @ r \<and> x = Hash_of_bytes b)"
    by (auto simp: rd_hash_def rd_then_Some rd_take_Some)
  then show ?thesis by (auto simp: as_bytes_Hash_of_bytes intro: exI [of _ "as_bytes x"])
qed

lemma rd_str_Some:
  "rd_str bs = Some (x, r) \<longleftrightarrow> utf8_valid x \<and> length x < 2 ^ 32 \<and> bs = pk_put_str x @ r"
proof
  assume "rd_str bs = Some (x, r)"
  then obtain b q where b: "length b = 4" "bs = b @ q" "rd_take (unat (from_be_bytes b :: u32)) q = Some (x, r)"
    and v: "utf8_valid x"
    by (auto simp: rd_str_def rd_then_Some rd_take_Some Let_def)
  then have "length x = unat (from_be_bytes b :: u32)" "q = x @ r" by (auto simp: rd_take_Some)
  moreover from this(1) have "(of_nat (length x) :: u32) = from_be_bytes b" by simp
  moreover have "unat (from_be_bytes b :: u32) < 2 ^ 32" by (rule order.strict_trans2 [OF unsigned_less]) simp
  ultimately show "utf8_valid x \<and> length x < 2 ^ 32 \<and> bs = pk_put_str x @ r"
    using b v to_from_be_bytes [of b, where ?'a = 32] by (simp add: pk_put_str_def pk_put_bytes_def)
next
  assume x: "utf8_valid x \<and> length x < 2 ^ 32 \<and> bs = pk_put_str x @ r"
  then have "unat (of_nat (length x) :: u32) = length x" by (simp add: unat_of_nat)
  with x show "rd_str bs = Some (x, r)"
    by (auto simp: rd_str_def rd_then_def rd_take_def pk_put_str_def pk_put_bytes_def Let_def rd_return_def)
qed

lemma dimension_names: "utf8_valid (Dimension_as_str d)" "length (Dimension_as_str d) \<le> 11" "2 \<le> length (Dimension_as_str d)"
  by (rule utf8_valid_ascii; cases d; simp add: ascii_def) (cases d; simp)+

lemma find_dimension_name:
  "find (\<lambda>d. Dimension_as_str d = name) Dimension_ALL = Some d \<longleftrightarrow> name = Dimension_as_str d"
  by (cases d) (auto simp: Dimension_ALL_def split: if_splits)

lemma rd_dimension_Some: "rd_dimension bs = Some (d, r) \<longleftrightarrow> bs = pk_put_str (Dimension_as_str d) @ r"
proof -
  have "rd_dimension bs = Some (d, r) \<longleftrightarrow>
      (\<exists>name. rd_str bs = Some (name, r) \<and> find (\<lambda>d. Dimension_as_str d = name) Dimension_ALL = Some d)"
    by (fastforce simp: rd_dimension_def rd_then_Some split: option.splits)
  moreover have "length (Dimension_as_str d) < 2 ^ 32" using dimension_names(2) [of d] by simp
  ultimately show ?thesis by (auto simp: find_dimension_name rd_str_Some dimension_names)
qed

lemma rd_index_roots_Some:
  "rd_index_roots n bs = Some (rs, r) \<longleftrightarrow> length rs = n \<and> bs = concat (map encode_index_root rs) @ r"
proof (induction n arbitrary: bs rs)
  case (Suc n)
  show ?case
    by (cases rs) (auto simp: rd_then_Some Suc rd_dimension_Some rd_hash_Some encode_index_root_def)
qed auto

lemma rd_then_u8:
  "rd_then rd_u8 f [] = None" "rd_then rd_u8 f (b # bs) = f b bs"
  by (simp_all add: rd_then_def rd_u8_def rd_take_def rd_return_def)

lemma rd_algorithms_Some: "rd_algorithms bs = Some (a, r) \<longleftrightarrow> bs = algorithm_code a @ r"
proof -
  obtain s where a: "a = \<lparr>alg_hash = Alg_Sha384, alg_signature = s, alg_kem = X25519MlKem768\<rparr>"
    by (cases a, cases "alg_hash a", cases "alg_kem a") auto
  show ?thesis
  proof (cases "\<exists>x y z q. bs = x # y # z # q")
    case True
    then show ?thesis
      by (cases s) (auto simp: a rd_algorithms_def rd_then_u8 algorithm_code_def)
  next
    case False
    then consider "bs = []" | x where "bs = [x]" | x y where "bs = [x, y]"
      by (metis neq_Nil_conv)
    then show ?thesis
      by cases (auto simp: a rd_algorithms_def rd_then_u8 algorithm_code_def)
  qed
qed

lemma length_encode_roots: "52 * length rs \<le> length (concat (map encode_index_root rs))"
proof (induction rs)
  case (Cons dr rs)
  then show ?case using dimension_names(3) [of "fst dr"]
    by (simp add: encode_index_root_def pk_put_str_def pk_put_bytes_def)
qed simp

lemma le_div_52: "52 * k \<le> n \<Longrightarrow> n < 2 ^ 64 \<Longrightarrow> \<not> (of_nat n :: u64) div 52 < of_nat k"
proof -
  assume k: "52 * k \<le> n" and n: "n < 2 ^ 64"
  have "unat ((of_nat n :: u64) div 52) = n div 52" using n by (simp add: unat_div_distrib unat_of_nat_u64)
  moreover have "unat (of_nat k :: u64) = k" using k n by (intro unat_of_nat_u64) simp
  moreover have "k \<le> n div 52" using k by (simp add: less_eq_div_iff_mult_less_eq mult.commute)
  ultimately show ?thesis by (simp add: word_less_nat_alt)
qed

lemma count_of_length:
  "(\<exists>c. \<not> n < (c :: u64) \<and> length rs = unat c \<and> P c) \<longleftrightarrow>
   \<not> n < of_nat (length rs) \<and> length rs < 2 ^ 64 \<and> P (of_nat (length rs))"
proof (cases "length rs < 2 ^ 64")
  case True
  then have "length rs = unat c \<longleftrightarrow> c = of_nat (length rs)" for c :: u64
    using unat_of_nat_u64 [of "length rs"] by auto
  with True show ?thesis by auto
next
  case False
  then have "length rs \<noteq> unat c" for c :: u64 using unsigned_less [of c, where ?'a = nat] by auto
  with False show ?thesis by blast
qed

lemma rd_manifest_Some:
  "rd_manifest n bs = Some (m, r) \<longleftrightarrow>
   \<not> of_nat n div 52 < (of_nat (length (index_roots m)) :: u64) \<and> length (index_roots m) < 2 ^ 64 \<and>
   bs = encode_manifest m @ r"
proof -
  have "rd_manifest n bs = Some (m, r) \<longleftrightarrow>
      (\<exists>c. \<not> of_nat n div 52 < (c :: u64) \<and> length (index_roots m) = unat c \<and>
        bs = to_be_bytes (m_format_version m) @ to_be_bytes (m_segment m) @ to_be_bytes (m_shard m) @
     to_be_bytes (m_records m) @ as_bytes (history_root m) @ as_bytes (chain_before m) @
     as_bytes (chain_after m) @ to_be_bytes c @
     concat (map encode_index_root (index_roots m)) @
     to_be_bytes (first_recorded_at m) @ to_be_bytes (last_recorded_at m) @
     algorithm_code (m_algorithms m) @ r)"
    unfolding rd_manifest_def rd_then_Some rd_u16_Some rd_u64_Some rd_hash_Some rd_guard_Some
      rd_index_roots_Some rd_algorithms_Some rd_return_Some
    by (cases m) fastforce
  then show ?thesis by (simp only: count_of_length encode_manifest_def append_assoc)
qed

lemma decode_manifest_Some:
  assumes "length b < 2 ^ 64"
  shows "decode_manifest b = Some m \<longleftrightarrow> b = encode_manifest m"
proof -
  have "decode_manifest b = Some m \<longleftrightarrow> rd_manifest (length b) b = Some (m, [])"
    by (auto simp: decode_manifest_def split: option.splits list.splits)
  moreover have "52 * length (index_roots m) \<le> length b" if "b = encode_manifest m"
    using length_encode_roots [of "index_roots m"] that by (simp add: encode_manifest_def)
  moreover have "length (index_roots m) < 2 ^ 64" if "52 * length (index_roots m) \<le> length b"
    using that assms by linarith
  ultimately show ?thesis using le_div_52 [OF _ assms] rd_manifest_Some by auto
qed

subsection \<open>Bodies and envelopes\<close>

datatype ColdError =
    ColdPublish PublishError
  | ColdMalformed string
  | BodyMissing
  | BodyAltered
  | WrongSegment
  | ColdUnavailable

record Fetched =
  ft_manifest :: SegmentManifest
  ft_records :: "bytes list"

definition ENVELOPE_VERSION :: u16 where
  "ENVELOPE_VERSION = 1"

definition encode_body :: "bytes list \<Rightarrow> bytes" where
  "encode_body records =
     to_be_bytes (of_nat (length records) :: u64) @
     concat (map (\<lambda>r. to_be_bytes (of_nat (length r) :: u32) @ r) records)"

fun body_loop :: "nat \<Rightarrow> bytes \<Rightarrow> ColdError + bytes list \<times> bytes" where
  "body_loop 0 rest = Inr ([], rest)"
| "body_loop (Suc n) rest =
     (if length rest < 4 then Inl (ColdMalformed ''a record length past the end'')
      else
        let len = unat (from_be_bytes (take 4 rest) :: u32);
            rest = drop 4 rest
        in if length rest < len then Inl (ColdMalformed ''a record shorter than it declared'')
           else bind_res (body_loop n (drop len rest)) (\<lambda>(out, left). Inr (take len rest # out, left)))"

definition decode_body :: "bytes \<Rightarrow> ColdError + bytes list" where
  "decode_body bytes =
     (if length bytes < 8 then Inl (ColdMalformed ''a body shorter than its own count'')
      else
        let count = from_be_bytes (take 8 bytes) :: u64
        in bind_res (body_loop (unat count) (drop 8 bytes)) (\<lambda>(out, rest).
             if rest \<noteq> [] then Inl (ColdMalformed ''bytes after the last record'') else Inr out))"

definition encode_envelope :: "hash \<Rightarrow> SegmentManifest \<Rightarrow> bytes" where
  "encode_envelope d m = to_be_bytes ENVELOPE_VERSION @ as_bytes d @ encode_manifest m"

definition decode_envelope :: "bytes \<Rightarrow> ColdError + hash \<times> SegmentManifest" where
  "decode_envelope bytes =
     (if length bytes < 2 + 48 then Inl (ColdMalformed ''an envelope shorter than its header'')
      else if (from_be_bytes (take 2 bytes) :: u16) \<noteq> ENVELOPE_VERSION
      then Inl (ColdMalformed ''an envelope version this reader predates'')
      else
        let d = Hash_of_bytes (take 48 (drop 2 bytes))
        in case decode_manifest (drop 50 bytes) of
             None \<Rightarrow> Inl (ColdMalformed ''an unreadable manifest'')
           | Some m \<Rightarrow> Inr (d, m))"

text \<open>A publication that stands for a key only.\<close>

definition key_of_segment :: "ShardIx \<Rightarrow> SegmentId \<Rightarrow> Publication" where
  "key_of_segment shard segment =
     \<lparr>pb_shard = shard, pb_segment = segment, pb_manifest = [], pb_body = []\<rparr>"

definition segment_publication :: "SegmentManifest \<Rightarrow> bytes list \<Rightarrow> Publication" where
  "segment_publication m records =
     (let body = encode_body records
      in \<lparr>pb_shard = m_shard m, pb_segment = m_segment m,
          pb_manifest = encode_envelope (body_digest body) m, pb_body = body\<rparr>)"

definition publish_segment ::
  "'o ObjectStore \<Rightarrow> SegmentManifest \<Rightarrow> bytes list \<Rightarrow> u32 \<Rightarrow> 'o \<Rightarrow> (ColdError + Published) \<times> 'o" where
  "publish_segment S m records attempts store =
     (case publish S (segment_publication m records) attempts store of
        (r, store) \<Rightarrow> (map_err ColdPublish r, store))"

definition fetch_segment ::
  "'o ObjectStore \<Rightarrow> ShardIx \<Rightarrow> SegmentId \<Rightarrow> 'o \<Rightarrow> (ColdError + Fetched option) \<times> 'o" where
  "fetch_segment S shard segment store =
     (case os_get S (manifest_key (key_of_segment shard segment)) store of
        (Inl _, store) \<Rightarrow> (Inl ColdUnavailable, store)
      | (Inr None, store) \<Rightarrow> (Inr None, store)
      | (Inr (Some envelope), store) \<Rightarrow>
          (case decode_envelope envelope of
             Inl e \<Rightarrow> (Inl e, store)
           | Inr (committed, m) \<Rightarrow>
               if m_shard m \<noteq> shard \<or> m_segment m \<noteq> segment then (Inl WrongSegment, store)
               else
                 (case os_get S (body_key_for (key_of_segment shard segment) committed) store of
                    (Inl _, store) \<Rightarrow> (Inl ColdUnavailable, store)
                  | (Inr None, store) \<Rightarrow> (Inl BodyMissing, store)
                  | (Inr (Some body), store) \<Rightarrow>
                      (if body_digest body \<noteq> committed then Inl BodyAltered
                       else bind_res (decode_body body) (\<lambda>records.
                         if of_nat (length records) \<noteq> m_records m
                         then Inl (ColdMalformed
                           ''the body holds a different number of records than the manifest declares'')
                         else Inr (Some \<lparr>ft_manifest = m, ft_records = records\<rparr>)), store))))"

definition fetch_published_manifest ::
  "'o ObjectStore \<Rightarrow> ShardIx \<Rightarrow> SegmentId \<Rightarrow> VersionId \<Rightarrow> 'o \<Rightarrow> (ColdError + (hash \<times> SegmentManifest) option) \<times> 'o" where
  "fetch_published_manifest S shard segment version store =
     (case os_get_version S (manifest_key (key_of_segment shard segment)) version store of
        (Inl _, store) \<Rightarrow> (Inl ColdUnavailable, store)
      | (Inr (Some bytes), store) \<Rightarrow> (bind_res (decode_envelope bytes) (\<lambda>x. Inr (Some x)), store)
      | (Inr None, store) \<Rightarrow> (Inr None, store))"

subsection \<open>Bodies and envelopes read back\<close>

abbreviation body_items :: "bytes list \<Rightarrow> bytes" where
  "body_items rs \<equiv> concat (map (\<lambda>r. to_be_bytes (of_nat (length r) :: u32) @ r) rs)"

lemma u32_split:
  assumes "4 \<le> length b"
  shows "b = to_be_bytes (from_be_bytes (take 4 b) :: u32) @ drop 4 b"
  using to_from_be_bytes [of "take 4 b", where ?'a = 32] assms by simp

lemma body_loop_Inr:
  "body_loop n b = Inr (rs, r) \<longleftrightarrow> length rs = n \<and> list_all (\<lambda>x. length x < 2 ^ 32) rs \<and> b = body_items rs @ r"
proof (induction n arbitrary: b rs)
  case (Suc n)
  show ?case
  proof
    assume h: "body_loop (Suc n) b = Inr (rs, r)"
    define len where "len = unat (from_be_bytes (take 4 b) :: u32)"
    from h obtain out where o: "4 \<le> length b" "len \<le> length (drop 4 b)" "rs = take len (drop 4 b) # out"
      "body_loop n (drop len (drop 4 b)) = Inr (out, r)"
      by (auto simp: Let_def bind_res_Inr_iff len_def split: if_splits)
    have l: "length (take len (drop 4 b)) = len" using o(2) by simp
    have small: "len < 2 ^ 32" unfolding len_def by (rule order.strict_trans2 [OF unsigned_less]) simp
    have "b = to_be_bytes (of_nat len :: u32) @ take len (drop 4 b) @ drop len (drop 4 b)"
      using u32_split [OF o(1)] by (simp add: len_def del: drop_drop)
    then show "length rs = Suc n \<and> list_all (\<lambda>x. length x < 2 ^ 32) rs \<and> b = body_items rs @ r"
      using o(3,4) Suc l small by simp
  next
    assume h: "length rs = Suc n \<and> list_all (\<lambda>x. length x < 2 ^ 32) rs \<and> b = body_items rs @ r"
    then obtain x out where rs: "rs = x # out" "length out = n" by (auto simp: length_Suc_conv)
    have "unat (of_nat (length x) :: u32) = length x" using h rs by (simp add: unat_of_nat)
    then show "body_loop (Suc n) b = Inr (rs, r)"
      using h rs Suc [of "body_items out @ r" out] by (simp add: Let_def)
  qed
qed auto

definition body_fits :: "bytes list \<Rightarrow> bool" where
  "body_fits rs \<longleftrightarrow> length rs < 2 ^ 64 \<and> list_all (\<lambda>r. length r < 2 ^ 32) rs"

lemma decode_body_Inr: "decode_body b = Inr rs \<longleftrightarrow> body_fits rs \<and> b = encode_body rs"
proof
  assume h: "decode_body b = Inr rs"
  define c where "c = (from_be_bytes (take 8 b) :: u64)"
  from h have l: "8 \<le> length b" and b: "body_loop (unat c) (drop 8 b) = Inr (rs, [])"
    by (auto simp: decode_body_def Let_def bind_res_Inr_iff c_def split: if_splits)
  have "take 8 b = to_be_bytes c" using to_from_be_bytes [of "take 8 b", where ?'a = 64] l by (simp add: c_def)
  moreover have "length rs = unat c" "list_all (\<lambda>x. length x < 2 ^ 32) rs" "drop 8 b = body_items rs"
    using b by (simp_all add: body_loop_Inr)
  moreover have "unat c < 2 ^ 64" by (rule order.strict_trans2 [OF unsigned_less]) simp
  moreover have "b = take 8 b @ drop 8 b" by simp
  moreover from \<open>length rs = unat c\<close> have "of_nat (length rs) = c" by simp
  ultimately show "body_fits rs \<and> b = encode_body rs" by (simp add: body_fits_def encode_body_def)
next
  assume h: "body_fits rs \<and> b = encode_body rs"
  then have "unat (of_nat (length rs) :: u64) = length rs" by (simp add: body_fits_def unat_of_nat_u64)
  moreover have "body_loop (length rs) (body_items rs) = Inr (rs, [])" using h by (simp add: body_loop_Inr body_fits_def)
  ultimately show "decode_body b = Inr rs" using h by (simp add: decode_body_def encode_body_def Let_def)
qed

lemma decode_envelope_Inr:
  assumes "length b < 2 ^ 64"
  shows "decode_envelope b = Inr (d, m) \<longleftrightarrow> b = encode_envelope d m"
proof
  assume h: "decode_envelope b = Inr (d, m)"
  then have l: "50 \<le> length b" and v: "from_be_bytes (take 2 b) = ENVELOPE_VERSION"
    and d: "d = Hash_of_bytes (take 48 (drop 2 b))" and m: "decode_manifest (drop 50 b) = Some m"
    by (auto simp: decode_envelope_def Let_def split: if_splits option.splits)
  have "take 2 b = to_be_bytes ENVELOPE_VERSION"
    using to_from_be_bytes [of "take 2 b", where ?'a = 16] l v by simp
  moreover have "take 48 (drop 2 b) = as_bytes d" using as_bytes_Hash_of_bytes [of "take 48 (drop 2 b)"] l d by simp
  moreover have "drop 50 b = encode_manifest m" using m assms decode_manifest_Some [of "drop 50 b" m] by simp
  moreover have "b = take 2 b @ take 48 (drop 2 b) @ drop 48 (drop 2 b)" by (simp del: drop_drop)
  then have "b = take 2 b @ take 48 (drop 2 b) @ drop 50 b" by simp
  ultimately show "b = encode_envelope d m" by (simp add: encode_envelope_def)
next
  assume h: "b = encode_envelope d m"
  then have "drop 50 b = encode_manifest m" "length (encode_manifest m) < 2 ^ 64"
    using assms by (simp_all add: encode_envelope_def)
  then have "decode_manifest (drop 50 b) = Some m" using decode_manifest_Some by simp
  then show "decode_envelope b = Inr (d, m)"
    using h by (simp add: decode_envelope_def encode_envelope_def Let_def)
qed

subsection \<open>What a fetch returns\<close>

lemma fetch_Some:
  assumes "fetch_segment S sh g st = (Inr (Some f), st')"
  obtains envelope body st1 where
    "os_get S (manifest_key (key_of_segment sh g)) st = (Inr (Some envelope), st1)"
    "decode_envelope envelope = Inr (body_digest body, ft_manifest f)"
    "os_get S (body_key_for (key_of_segment sh g) (body_digest body)) st1 = (Inr (Some body), st')"
    "decode_body body = Inr (ft_records f)"
    "m_shard (ft_manifest f) = sh" "m_segment (ft_manifest f) = g"
    "of_nat (length (ft_records f)) = m_records (ft_manifest f)"
  using assms
  by (auto simp: fetch_segment_def bind_res_Inr_iff split: prod.splits sum.splits option.splits if_splits)

lemma segment_publication_keys:
  "manifest_key (segment_publication m rs) = manifest_key (key_of_segment (m_shard m) (m_segment m))"
  "body_key (segment_publication m rs) =
     body_key_for (key_of_segment (m_shard m) (m_segment m)) (body_digest (encode_body rs))"
  by (simp_all add: segment_publication_def key_of_segment_def body_key_def Let_def)

context object_store
begin

text \<open>The objects of a published segment, under its keys.\<close>

lemma fetch_stored:
  assumes "fetch_segment S (m_shard m) (m_segment m) st = (r, st')" "wf st"
    and "objects st (manifest_key (segment_publication m rs)) = Some (encode_envelope (body_digest (encode_body rs)) m)"
    and "objects st (body_key (segment_publication m rs)) = Some (encode_body rs)"
    and "body_fits rs" "m_records m = of_nat (length rs)" "length (encode_manifest m) < 2 ^ 63"
  shows "wf st' \<and> objects st' = objects st \<and>
    (r = Inl ColdUnavailable \<or> r = Inr (Some \<lparr>ft_manifest = m, ft_records = rs\<rparr>))"
proof -
  let ?k = "key_of_segment (m_shard m) (m_segment m)" and ?d = "body_digest (encode_body rs)"
  have env: "decode_envelope (encode_envelope ?d m) = Inr (?d, m)"
    using assms(7) by (subst decode_envelope_Inr) (simp_all add: encode_envelope_def)
  have body: "decode_body (encode_body rs) = Inr rs" using assms(5) by (simp add: decode_body_Inr)
  obtain x st1 where g1: "os_get S (manifest_key ?k) st = (x, st1)" by fastforce
  note w1 = get_wf [OF g1 assms(2)]
  show ?thesis
  proof (cases x)
    case (Inl e)
    then show ?thesis using assms(1) g1 w1 by (simp add: fetch_segment_def)
  next
    case (Inr v)
    then have v: "v = Some (encode_envelope ?d m)"
      using get_value g1 assms(2,3) by (simp add: segment_publication_keys)
    obtain y st2 where g2: "os_get S (body_key_for ?k ?d) st1 = (y, st2)" by fastforce
    note w2 = get_wf [OF g2 conjunct1 [OF w1]]
    show ?thesis
    proof (cases y)
      case y: (Inl e)
      then show ?thesis using assms(1) g1 g2 w1 w2 Inr v env by (simp add: fetch_segment_def)
    next
      case y: (Inr u)
      then have "u = Some (encode_body rs)"
        using get_value [OF g2 [unfolded y] conjunct1 [OF w1]] w1 assms(4)
        by (simp add: segment_publication_keys)
      then show ?thesis
        using assms(1,6) g1 g2 w1 w2 Inr v y env body by (simp add: fetch_segment_def)
    qed
  qed
qed

end

subsection \<open>Properties\<close>

text \<open>
  A manifest has one spelling. The reader of manifests in cold storage accepts exactly the bytes
  the writer produces, for every manifest, and gives the manifest back: no other length, dimension
  name, algorithm code or trailing byte.
\<close>

theorem manifest_encoding_canonical:
  assumes "length b < 2 ^ 64"
  shows "decode_manifest b = Some m \<longleftrightarrow> b = encode_manifest m"
  by (rule decode_manifest_Some [OF assms])

definition sample_manifest :: SegmentManifest where
  "sample_manifest = \<lparr>m_format_version = 1, m_segment = 1, m_shard = 3, m_records = 2,
     history_root = 7, index_roots = [(Dim_RunId, 9)], chain_before = 1, chain_after = 2,
     first_recorded_at = 100, last_recorded_at = 900, m_algorithms = Algorithms_default\<rparr>"

theorem manifest_encoding_canonical_witness:
  "length (encode_manifest sample_manifest) < 2 ^ 64 \<and>
   decode_manifest (encode_manifest sample_manifest) = Some sample_manifest"
proof -
  have l: "length (encode_manifest sample_manifest) < 2 ^ 64"
    by (simp add: encode_manifest_def sample_manifest_def encode_index_root_def pk_put_str_def
        pk_put_bytes_def algorithm_code_def)
  with manifest_encoding_canonical [OF this, of sample_manifest] show ?thesis by simp
qed

text \<open>
  The body of a cold object reads back as the records that were written, and as nothing else:
  decoding succeeds exactly on the encodings of lists of records, each shorter than the 32-bit
  length allows.
\<close>

theorem body_encoding_canonical:
  "decode_body b = Inr rs \<longleftrightarrow>
     length rs < 2 ^ 64 \<and> list_all (\<lambda>r. length r < 2 ^ 32) rs \<and> b = encode_body rs"
  by (simp add: decode_body_Inr body_fits_def)

end
