(* ===== verification/Tier.thy ===== *)
theory Tier
  imports Cold Sealing
begin

text \<open>
  Local segments in front of an object store: \<open>crates/trailryx-store/src/tier.rs\<close>. Sealed segments are
  published and kept, the oldest of each shard are dropped beyond what the policy keeps, and a
  query for a segment that is no longer local fetches it back and rebuilds it.

  The results: what the policy keeps is exactly the newest segments of each shard; on a store that
  keeps its contract a query answers the same whether the segment is hot or was fetched back; and a
  segment rebuilt from any bytes whatever, under the manifest that was published, is the segment
  that was sealed, or two of the messages hashed on the way collide.
\<close>

subsection \<open>The model\<close>

record Policy =
  keep_hot :: nat

definition Policy_default :: Policy where
  "Policy_default = \<lparr>keep_hot = 4\<rparr>"

datatype TierError =
    TierCold ColdError
  | NotPublished
  | Undecodable
  | ManifestMismatch SegmentManifest SegmentManifest
  | TierSeal SealError

record 'o Tier =
  tr_cold :: 'o
  tr_hot :: "(ShardIx \<times> SegmentId, Segment) mapping"
  tr_policy :: Policy
  tr_warmed :: u64

definition Tier_new :: "'o \<Rightarrow> Policy \<Rightarrow> 'o Tier" where
  "Tier_new cold policy =
     \<lparr>tr_cold = cold, tr_hot = Mapping.empty, tr_policy = policy, tr_warmed = 0\<rparr>"

definition hot_count :: "'o Tier \<Rightarrow> nat" where
  "hot_count t = Mapping.size (tr_hot t)"

text \<open>The segments of each shard, gathered from the keys in order, and the oldest of each dropped.\<close>

definition per_shard :: "(ShardIx \<times> SegmentId, Segment) mapping \<Rightarrow> (ShardIx \<times> SegmentId list) list" where
  "per_shard hot =
     (let keys = Mapping.ordered_keys hot
      in map (\<lambda>shard. (shard, map snd (filter (\<lambda>k. fst k = shard) keys))) (remdups (map fst keys)))"

definition evict_shard ::
  "nat \<Rightarrow> (ShardIx \<times> SegmentId, Segment) mapping \<Rightarrow> ShardIx \<times> SegmentId list \<Rightarrow>
   (ShardIx \<times> SegmentId, Segment) mapping" where
  "evict_shard keep hot ss =
     (case ss of (shard, segments) \<Rightarrow>
        if length segments \<le> keep then hot
        else foldl (\<lambda>hot g. Mapping.delete (shard, g) hot) hot
               (take (length segments - keep) (sort segments)))"

definition evict :: "'o Tier \<Rightarrow> 'o Tier" where
  "evict t = t\<lparr>tr_hot := foldl (evict_shard (keep_hot (tr_policy t))) (tr_hot t) (per_shard (tr_hot t))\<rparr>"

definition tier_publish ::
  "'o ObjectStore \<Rightarrow> SealedSegment \<Rightarrow> u32 \<Rightarrow> 'o Tier \<Rightarrow> (TierError + unit) \<times> 'o Tier" where
  "tier_publish S sealed_segment attempts t =
     (let manifest = ss_manifest sealed_segment;
          bodies = map encode_record (sg_records (ss_segment sealed_segment))
      in case publish_segment S manifest bodies attempts (tr_cold t) of
           (Inl e, cold) \<Rightarrow> (Inl (TierCold e), t\<lparr>tr_cold := cold\<rparr>)
         | (Inr _, cold) \<Rightarrow>
             (Inr (), evict (t\<lparr>tr_cold := cold,
                tr_hot := Mapping.update (m_shard manifest, m_segment manifest) (ss_segment sealed_segment) (tr_hot t)\<rparr>)))"

text \<open>The records of a fetched body: the current version first, then the older one.\<close>

fun warm_records :: "hash \<Rightarrow> bytes list \<Rightarrow> TierError + (Record \<times> hash) list" where
  "warm_records link [] = Inr []"
| "warm_records link (bytes # rest) =
     (case (case decode_record bytes of Inr r \<Rightarrow> Inr r | Inl _ \<Rightarrow> decode_record_at bytes 1) of
        Inl _ \<Rightarrow> Inl Undecodable
      | Inr r \<Rightarrow>
          let link = chain_step link (rec_seq r) bytes
          in bind_res (warm_records link rest) (\<lambda>records. Inr ((r, link) # records)))"

definition rebuild :: "ShardIx \<Rightarrow> SegmentId \<Rightarrow> Fetched \<Rightarrow> TierError + Segment" where
  "rebuild shard segment fetched =
     bind_res (warm_records (chain_before (ft_manifest fetched)) (ft_records fetched)) (\<lambda>records.
     bind_res (map_err TierSeal (seal segment shard (chain_before (ft_manifest fetched)) records)) (\<lambda>rebuilt.
       if sg_manifest rebuilt \<noteq> ft_manifest fetched
       then Inl (ManifestMismatch (ft_manifest fetched) (sg_manifest rebuilt))
       else Inr rebuilt))"

definition warm :: "'o ObjectStore \<Rightarrow> ShardIx \<Rightarrow> SegmentId \<Rightarrow> 'o Tier \<Rightarrow> (TierError + Segment) \<times> 'o Tier" where
  "warm S shard segment t =
     (case fetch_segment S shard segment (tr_cold t) of
        (Inl e, cold) \<Rightarrow> (Inl (TierCold e), t\<lparr>tr_cold := cold\<rparr>)
      | (Inr None, cold) \<Rightarrow> (Inl NotPublished, t\<lparr>tr_cold := cold\<rparr>)
      | (Inr (Some fetched), cold) \<Rightarrow>
          (rebuild shard segment fetched, t\<lparr>tr_cold := cold, tr_warmed := tr_warmed t + 1\<rparr>))"

text \<open>The inner \<open>None\<close> is the panic of an index, as in \<^const>\<open>query_segment\<close>.\<close>

definition tier_query ::
  "'o ObjectStore \<Rightarrow> ShardIx \<Rightarrow> SegmentId \<Rightarrow> Query \<Rightarrow> 'o Tier \<Rightarrow> (TierError + Answer option) \<times> 'o Tier" where
  "tier_query S shard segment q t =
     (case Mapping.lookup (tr_hot t) (shard, segment) of
        Some held \<Rightarrow> (Inr (query_segment held q), t)
      | None \<Rightarrow>
          (case warm S shard segment t of
             (Inl e, t) \<Rightarrow> (Inl e, t)
           | (Inr warmed, t) \<Rightarrow>
               (Inr (query_segment warmed q),
                evict (t\<lparr>tr_hot := Mapping.update (shard, segment) warmed (tr_hot t)\<rparr>))))"

subsection \<open>What the policy keeps\<close>

lemma lookup_delete_if: "Mapping.lookup (Mapping.delete k m) k' = (if k' = k then None else Mapping.lookup m k')"
  by (simp add: lookup_delete lookup_delete_neq)

lemma in_set_drop: "x \<in> set (drop n s) \<longleftrightarrow> (\<exists>j. n \<le> j \<and> j < length s \<and> s ! j = x)"
proof
  assume "\<exists>j. n \<le> j \<and> j < length s \<and> s ! j = x"
  then obtain j where "n \<le> j" "j < length s" "s ! j = x" by blast
  then show "x \<in> set (drop n s)" by (auto simp: in_set_conv_nth intro: exI [of _ "j - n"])
next
  assume "x \<in> set (drop n s)"
  then obtain i where "i < length s - n" "s ! (n + i) = x" by (auto simp: in_set_conv_nth)
  then show "\<exists>j. n \<le> j \<and> j < length s \<and> s ! j = x" by (intro exI [of _ "n + i"]) simp
qed

lemma lookup_foldl_delete:
  "Mapping.lookup (foldl (\<lambda>m g. Mapping.delete (sh, g) m) m gs) (sh', g') =
     (if sh' = sh \<and> g' \<in> set gs then None else Mapping.lookup m (sh', g'))"
  by (induction gs arbitrary: m) (auto simp: lookup_delete_if)

definition dropped :: "nat \<Rightarrow> 'a::linorder list \<Rightarrow> 'a list" where
  "dropped keep gs = take (length gs - keep) (sort gs)"

lemma lookup_evict_shard:
  "Mapping.lookup (evict_shard keep m (sh, gs)) (sh', g) =
     (if sh' = sh \<and> g \<in> set (dropped keep gs) then None else Mapping.lookup m (sh', g))"
  by (auto simp: evict_shard_def dropped_def lookup_foldl_delete)

lemma lookup_evict_shards:
  "Mapping.lookup (foldl (evict_shard keep) m ss) (sh, g) =
     (if \<exists>gs. (sh, gs) \<in> set ss \<and> g \<in> set (dropped keep gs) then None else Mapping.lookup m (sh, g))"
proof (induction ss arbitrary: m)
  case (Cons x ss)
  obtain sh' gs where x: "x = (sh', gs)" by fastforce
  show ?case by (auto simp: Cons x lookup_evict_shard)
qed simp

lemma dropped_iff:
  assumes "distinct gs" "g \<in> set gs"
  shows "g \<in> set (dropped keep gs) \<longleftrightarrow> keep \<le> card {g' \<in> set gs. g < g'}"
proof -
  define s where "s = sort gs"
  have d: "distinct s" "sorted s" "length s = length gs" "set s = set gs" using assms(1) by (simp_all add: s_def)
  from assms(2) d(3,4) obtain i where i: "i < length gs" "s ! i = g" by (metis in_set_conv_nth)
  have "{g' \<in> set gs. g < g'} = set (drop (Suc i) s)"
  proof -
    have gt: "g < s ! j \<longleftrightarrow> i < j" if "j < length gs" for j
    proof (cases "i < j")
      case True
      then have "g \<le> s ! j" "g \<noteq> s ! j"
        using that i d sorted_nth_mono [OF d(2), of i j] nth_eq_iff_index_eq [OF d(1), of i j] by auto
      with True show ?thesis by simp
    next
      case False
      then show ?thesis using that i d sorted_nth_mono [OF d(2), of j i] by auto
    qed
    have "x \<in> set gs \<and> g < x \<longleftrightarrow> x \<in> set (drop (Suc i) s)" for x
      using in_set_drop [of x "Suc i" s] gt d(3) unfolding d(4) [symmetric] in_set_conv_nth [of x s]
      by (auto simp: Suc_le_eq)
    then show ?thesis by blast
  qed
  then have "card {g' \<in> set gs. g < g'} = length gs - Suc i"
    using d by (simp add: distinct_card)
  moreover have "g \<in> set (dropped keep gs) \<longleftrightarrow> i < length gs - keep"
  proof
    assume "i < length gs - keep"
    then show "g \<in> set (dropped keep gs)"
      using i d(3) by (auto simp: dropped_def s_def [symmetric] in_set_conv_nth intro!: exI [of _ i])
  next
    assume "g \<in> set (dropped keep gs)"
    then obtain j where "j < length gs - keep" "j < length gs" "s ! j = g"
      by (auto simp: dropped_def s_def [symmetric] in_set_conv_nth d(3))
    then show "i < length gs - keep" using i d nth_eq_iff_index_eq [OF d(1), of i j] by simp
  qed
  ultimately show ?thesis using i(1) by auto
qed

lemma per_shard_lookup:
  assumes "finite (Mapping.keys hot)"
  shows "(sh, gs) \<in> set (per_shard hot) \<Longrightarrow> distinct gs \<and> set gs = {g. (sh, g) \<in> Mapping.keys hot}"
    and "(sh, g) \<in> Mapping.keys hot \<Longrightarrow> \<exists>gs. (sh, gs) \<in> set (per_shard hot)"
proof -
  let ?k = "Mapping.ordered_keys hot"
  have s: "set ?k = Mapping.keys hot" "distinct ?k" using assms by simp_all
  show "distinct gs \<and> set gs = {g. (sh, g) \<in> Mapping.keys hot}" if "(sh, gs) \<in> set (per_shard hot)"
  proof -
    from that have gs: "gs = map snd (filter (\<lambda>k. fst k = sh) ?k)" by (auto simp: per_shard_def Let_def)
    have "inj_on snd (set (filter (\<lambda>k. fst k = sh) ?k))" by (auto simp: inj_on_def)
    then have "distinct gs" using s(2) by (simp add: gs distinct_map)
    moreover have "set gs = {g. (sh, g) \<in> Mapping.keys hot}" by (force simp: gs s(1))
    ultimately show ?thesis by blast
  qed
  show "\<exists>gs. (sh, gs) \<in> set (per_shard hot)" if "(sh, g) \<in> Mapping.keys hot"
    using that by (force simp: per_shard_def Let_def s(1))
qed

lemma lookup_evict:
  assumes "finite (Mapping.keys (tr_hot t))"
  shows "Mapping.lookup (tr_hot (evict t)) (sh, g) =
    (if card {g'. (sh, g') \<in> Mapping.keys (tr_hot t) \<and> g < g'} < keep_hot (tr_policy t)
     then Mapping.lookup (tr_hot t) (sh, g) else None)"
proof (cases "(sh, g) \<in> Mapping.keys (tr_hot t)")
  case False
  then have "Mapping.lookup (tr_hot t) (sh, g) = None" by (simp add: keys_is_none_rep Option.is_none_def)
  then show ?thesis by (simp add: evict_def lookup_evict_shards)
next
  case True
  from per_shard_lookup(2) [OF assms True] obtain gs where gs: "(sh, gs) \<in> set (per_shard (tr_hot t))" ..
  note f = per_shard_lookup(1) [OF assms]
  have "(\<exists>gs. (sh, gs) \<in> set (per_shard (tr_hot t)) \<and> g \<in> set (dropped (keep_hot (tr_policy t)) gs)) \<longleftrightarrow>
      keep_hot (tr_policy t) \<le> card {g'. (sh, g') \<in> Mapping.keys (tr_hot t) \<and> g < g'}"
  proof -
    have "g \<in> set (dropped (keep_hot (tr_policy t)) gs') \<longleftrightarrow>
        keep_hot (tr_policy t) \<le> card {g'. (sh, g') \<in> Mapping.keys (tr_hot t) \<and> g < g'}"
      if "(sh, gs') \<in> set (per_shard (tr_hot t))" for gs'
      using dropped_iff [of gs' g "keep_hot (tr_policy t)"] f [OF that] True by simp
    with gs show ?thesis by blast
  qed
  then show ?thesis by (simp add: evict_def lookup_evict_shards)
qed

subsection \<open>Rebuilding a segment\<close>

text \<open>Records with the links a chain from \<open>link\<close> gives them, each one readable again.\<close>

fun chained :: "hash \<Rightarrow> (Record \<times> hash) list \<Rightarrow> bool" where
  "chained link [] \<longleftrightarrow> True"
| "chained link ((r, l) # rs) \<longleftrightarrow>
     record_fits r \<and> length (encode_record r) < 2 ^ 32 \<and>
     l = chain_step link (rec_seq r) (encode_record r) \<and> chained l rs"

lemma decode_encoded: "record_fits r \<Longrightarrow> decode_record (encode_record r) = Inr r"
  by (simp add: decode_record_def decode_record_iff(1) FRAME_VERSION_def)

lemma warm_chained: "chained link rs \<Longrightarrow> warm_records link (map encode_record (map fst rs)) = Inr rs"
  by (induction link rs rule: chained.induct) (auto simp: decode_encoded Let_def)

lemma chained_fits:
  "chained link rs \<Longrightarrow> list_all (\<lambda>b. length b < 2 ^ 32) (map encode_record (map fst rs))"
  by (induction link rs rule: chained.induct) auto

lemma seal_manifest_fields:
  assumes "seal g sh b records = Inr s"
  shows "chain_before (sg_manifest s) = b" "m_segment (sg_manifest s) = g" "m_shard (sg_manifest s) = sh"
    "chain_after (sg_manifest s) = (if records = [] then b else snd (last records))"
    "m_records (sg_manifest s) = of_nat (length records)"
  using assms by (auto simp: seal_def Let_def split: if_splits option.splits)

text \<open>A segment as the journal's records give it.\<close>

definition from_log :: "Segment \<Rightarrow> bool" where
  "from_log s \<longleftrightarrow> (\<exists>b records. seal (m_segment (sg_manifest s)) (m_shard (sg_manifest s)) b records = Inr s \<and>
     chained b records \<and> length records < 2 ^ 64)"

abbreviation bodies_of :: "Segment \<Rightarrow> bytes list" where
  "bodies_of s \<equiv> map encode_record (sg_records s)"

lemma rebuild_published:
  assumes "from_log s"
  shows "rebuild (m_shard (sg_manifest s)) (m_segment (sg_manifest s))
    \<lparr>ft_manifest = sg_manifest s, ft_records = bodies_of s\<rparr> = Inr s"
proof -
  from assms obtain b records where
    s: "seal (m_segment (sg_manifest s)) (m_shard (sg_manifest s)) b records = Inr s" "chained b records"
    by (auto simp: from_log_def)
  then show ?thesis
    using warm_chained [OF s(2)] by (simp add: rebuild_def seal_manifest_fields(1) [OF s(1)] seal_facts(7) [OF s(1)])
qed

lemma from_log_fits:
  assumes "from_log s"
  shows "body_fits (bodies_of s)" "m_records (sg_manifest s) = of_nat (length (bodies_of s))"
    "length (encode_manifest (sg_manifest s)) < 2 ^ 63"
proof -
  from assms obtain b records where
    s: "seal (m_segment (sg_manifest s)) (m_shard (sg_manifest s)) b records = Inr s" "chained b records"
    "length records < 2 ^ 64" by (auto simp: from_log_def)
  show "body_fits (bodies_of s)"
    using chained_fits [OF s(2)] s(3) by (simp add: body_fits_def seal_facts(7) [OF s(1)])
  show "m_records (sg_manifest s) = of_nat (length (bodies_of s))"
    by (simp add: seal_manifest_fields(5) [OF s(1)] seal_facts(7) [OF s(1)])
  have five: "length (concat (map encode_index_root rs)) \<le> 63 * length rs" for rs
    by (induction rs) (simp_all add: encode_index_root_def pk_put_str_def pk_put_bytes_def
        add_mono [OF dimension_names(2)])
  have "length (concat (map encode_index_root (index_roots (sg_manifest s)))) \<le> 63 * 5"
    using five [of "index_roots (sg_manifest s)"] seal_facts(5) [OF s(1)] by simp
  then show "length (encode_manifest (sg_manifest s)) < 2 ^ 63"
    by (simp add: encode_manifest_def algorithm_code_def)
qed

text \<open>A segment sealed from a running journal is one of these.\<close>

lemma log_chained: "log_ok sh g c rs \<Longrightarrow> chained (ch_head c) (log_items c rs)"
proof (induction rs arbitrary: c)
  case (Cons r rs)
  have "length (encode_record r) < 2 ^ 32" using Cons.prems by (simp add: entry_ok_def MAX_BODY_BYTES_def)
  with Cons.prems Cons.IH [of "fst (ChainState_append c (encode_record r))"] show ?case
    by (simp add: Let_def entry_ok_def)
qed simp

lemma log_ok_take: "log_ok sh g c rs \<Longrightarrow> log_ok sh g c (take n rs)"
proof (induction rs arbitrary: c n)
  case (Cons r rs)
  then show ?case by (cases n) simp_all
qed simp

lemma sealed_from_log:
  assumes "history name (Up j io)" "seal_segment SimIo_Io j g sh io = (Inr (Sealed s), io')"
  shows "from_log (ss_segment s)"
proof (rule seal_history [OF assms])
  fix v
  let ?c = "ChainState_resume (jn_genesis j) 0" and ?n = "unat (jn_acked j)"
  assume v: "journal_read_all SimIo_Io j io = (Inr v, io)"
    "wk_records v = log_items ?c (map fst (wk_records v))"
    "log_ok (jn_shard j) (jn_segment j) ?c (map fst (wk_records v))" "length (wk_records v) < 2 ^ 64"
  have sl: "seal g sh (jn_genesis j) (take ?n (wk_records v)) = Inr (ss_segment s)"
    using seal_outcome [OF assms(1) v(1) assms(2)] by simp
  have "take ?n (wk_records v) = log_items ?c (take ?n (map fst (wk_records v)))"
    using v(2) unfolding log_items_take by simp
  then have "chained (jn_genesis j) (take ?n (wk_records v))"
    using log_chained [OF log_ok_take [OF v(3)], of ?n] by (simp add: ChainState_resume_def)
  then show ?thesis
    using sl seal_manifest_fields(2,3) [OF sl] v(4) unfolding from_log_def
    by (intro exI [of _ "jn_genesis j"] exI [of _ "take ?n (wk_records v)"]) (simp add: min_def)
qed

lemma warm_head:
  "warm_records link bs = Inr rs \<Longrightarrow>
   length rs = length bs \<and>
   items_head link (zip (map (rec_seq \<circ> fst) rs) bs) = (if rs = [] then link else snd (last rs))"
proof (induction link bs arbitrary: rs rule: warm_records.induct)
  case (2 link b bs)
  from "2.prems" obtain r rs' where
    r: "(case decode_record b of Inr r \<Rightarrow> Inr r | Inl _ \<Rightarrow> decode_record_at b 1) = Inr r"
    "warm_records (chain_step link (rec_seq r) b) bs = Inr rs'" "rs = (r, chain_step link (rec_seq r) b) # rs'"
    by (auto simp: bind_res_Inr_iff Let_def split: sum.splits)
  from "2.IH" [OF r(1) refl r(2)] r(3) show ?case by (simp add: items_head_def)
qed (simp add: items_head_def)

definition segment_msgs :: "Segment \<Rightarrow> bytes list \<Rightarrow> bytes list" where
  "segment_msgs s bs = item_msgs (chain_before (sg_manifest s)) (zip (map rec_seq (sg_records s)) bs)"

lemma rebuild_binds:
  assumes "from_log s" "rebuild sh g f = Inr s'" "ft_manifest f = sg_manifest s"
    and "length (ft_records f) < 2 ^ 64"
  shows "s' = s \<and> ft_records f = bodies_of s \<or>
    collides (segment_msgs s (bodies_of s)) (segment_msgs s' (ft_records f))"
proof -
  from assms(1) obtain b rs where
    s: "seal (m_segment (sg_manifest s)) (m_shard (sg_manifest s)) b rs = Inr s" "chained b rs" "length rs < 2 ^ 64"
    by (auto simp: from_log_def)
  note m = seal_manifest_fields [OF s(1)]
  from assms(2) obtain rs' where
    w: "warm_records b (ft_records f) = Inr rs'" "seal g sh b rs' = Inr s'" "sg_manifest s' = sg_manifest s"
    by (auto simp: rebuild_def bind_res_Inr_iff assms(3) m(1) split: if_splits)
  note m' = seal_manifest_fields [OF w(2)]
  note h = warm_head [OF w(1)] warm_head [OF warm_chained [OF s(2)]]
  have gs: "m_segment (sg_manifest s) = g" "m_shard (sg_manifest s) = sh" using m'(2,3) w(3) by simp_all
  have len: "length rs = length rs'"
    using m(5) m'(5) w(3) s(3) h(1) assms(4) by (auto intro: of_nat_word_inj [where ?'a = 64])
  have "items_head b (zip (map (rec_seq \<circ> fst) rs) (bodies_of s)) =
      items_head b (zip (map (rec_seq \<circ> fst) rs') (ft_records f))"
    using h m(4) m'(4) w(3) len seal_facts(7) [OF s(1)] by auto
  moreover have "segment_msgs s (bodies_of s) = item_msgs b (zip (map (rec_seq \<circ> fst) rs) (bodies_of s))"
    "segment_msgs s' (ft_records f) = item_msgs b (zip (map (rec_seq \<circ> fst) rs') (ft_records f))"
    using m(1) m'(1) seal_facts(7) [OF s(1)] seal_facts(7) [OF w(2)] by (simp_all add: segment_msgs_def)
  moreover have l2: "length (bodies_of s) = length rs" "length (ft_records f) = length rs'"
    using h(1) seal_facts(7) [OF s(1)] by simp_all
  ultimately consider "collides (segment_msgs s (bodies_of s)) (segment_msgs s' (ft_records f))"
    | "zip (map (rec_seq \<circ> fst) rs) (bodies_of s) = zip (map (rec_seq \<circ> fst) rs') (ft_records f)"
    using items_bind [of "zip (map (rec_seq \<circ> fst) rs) (bodies_of s)"
        "zip (map (rec_seq \<circ> fst) rs') (ft_records f)" b b] len by fastforce
  then show ?thesis
  proof cases
    case 2
    then have "bodies_of s = ft_records f" using l2 len by (metis length_map map_snd_zip)
    moreover from this have "rs' = rs"
      using w(1) warm_chained [OF s(2)] seal_facts(7) [OF s(1)] by simp
    ultimately show ?thesis using w(2) s(1) gs by simp
  qed blast
qed

subsection \<open>A tier over a store that keeps its contract\<close>

abbreviation publication_of :: "Segment \<Rightarrow> Publication" where
  "publication_of s \<equiv> segment_publication (sg_manifest s) (bodies_of s)"

definition seg_key :: "Segment \<Rightarrow> ShardIx \<times> SegmentId" where
  "seg_key s = (m_shard (sg_manifest s), m_segment (sg_manifest s))"

definition stored :: "(str \<rightharpoonup> bytes) \<Rightarrow> Segment \<Rightarrow> bool" where
  "stored obs s \<longleftrightarrow>
     obs (manifest_key (publication_of s)) = Some (pb_manifest (publication_of s)) \<and>
     obs (body_key (publication_of s)) = Some (pb_body (publication_of s))"

text \<open>The objects are bodies out of \<open>B\<close> under their digests and manifests of segments whose body is there.\<close>

definition bucket_ok :: "bytes set \<Rightarrow> (str \<rightharpoonup> bytes) \<Rightarrow> bool" where
  "bucket_ok B obs \<longleftrightarrow>
     (\<forall>p d b. obs (body_key_for p d) = Some b \<longrightarrow> body_digest b = d \<and> b \<in> B) \<and>
     (\<forall>p e. obs (manifest_key p) = Some e \<longrightarrow>
        (\<exists>s. from_log s \<and> seg_key s = (pb_shard p, pb_segment p) \<and> stored obs s))"

definition hot_ok :: "(str \<rightharpoonup> bytes) \<Rightarrow> (ShardIx \<times> SegmentId, Segment) mapping \<Rightarrow> bool" where
  "hot_ok obs hot \<longleftrightarrow> finite (Mapping.keys hot) \<and>
     (\<forall>k s. Mapping.lookup hot k = Some s \<longrightarrow> from_log s \<and> seg_key s = k \<and> stored obs s)"

definition published_body :: "Segment \<Rightarrow> bytes" where
  "published_body s = encode_body (bodies_of s)"

lemma stored_mono: "obs \<subseteq>\<^sub>m obs' \<Longrightarrow> stored obs s \<Longrightarrow> stored obs' s"
  by (auto simp: stored_def map_le_def dom_def)

lemma manifest_key_publication: "seg_key s = (sh, g) \<Longrightarrow> manifest_key (publication_of s) = manifest_key (key_of_segment sh g)"
  by (auto simp: seg_key_def segment_publication_def key_of_segment_def manifest_key_def Let_def)

lemma pb_publication:
  "pb_manifest (publication_of s) = encode_envelope (body_digest (published_body s)) (sg_manifest s)"
  "pb_body (publication_of s) = published_body s"
  "body_key (publication_of s) = body_key_for (key_of_segment (fst (seg_key s)) (snd (seg_key s))) (body_digest (published_body s))"
  by (simp_all add: segment_publication_def published_body_def key_of_segment_def seg_key_def body_key_def body_key_for_def Let_def)

text \<open>One key, one segment.\<close>

lemma stored_unique:
  assumes "from_log s" "from_log s'" "seg_key s = seg_key s'" "stored obs s" "stored obs s'"
  shows "s = s'"
proof -
  obtain sh g where k: "seg_key s = (sh, g)" by fastforce
  have "manifest_key (publication_of s) = manifest_key (publication_of s')"
    using manifest_key_publication [of s sh g] manifest_key_publication [of s' sh g] k assms(3) by simp
  then have env: "encode_envelope (body_digest (published_body s)) (sg_manifest s) =
      encode_envelope (body_digest (published_body s')) (sg_manifest s')"
    using assms(4,5) by (simp add: stored_def pb_publication del: manifest_key_inj)
  have dec: "decode_envelope (encode_envelope (body_digest (published_body x)) (sg_manifest x)) =
      Inr (body_digest (published_body x), sg_manifest x)" if "from_log x" for x
    using from_log_fits(3) [OF that] by (subst decode_envelope_Inr) (simp_all add: encode_envelope_def)
  have "Inr (body_digest (published_body s), sg_manifest s) =
      (Inr (body_digest (published_body s'), sg_manifest s') :: ColdError + hash \<times> SegmentManifest)"
    unfolding dec [OF assms(1), symmetric] dec [OF assms(2), symmetric] env ..
  then have m: "sg_manifest s = sg_manifest s'" "body_digest (published_body s) = body_digest (published_body s')"
    by simp_all
  have at: "obs (body_key_for (key_of_segment (fst (seg_key x)) (snd (seg_key x))) (body_digest (published_body x))) =
      Some (published_body x)" if "stored obs x" for x
    using that by (simp add: stored_def pb_publication)
  have "Some (published_body s) = Some (published_body s')"
    unfolding at [OF assms(4), symmetric] at [OF assms(5), symmetric] m(2) assms(3) ..
  then have "published_body s = published_body s'" by simp
  then have bs: "bodies_of s = bodies_of s'"
    using decode_body_Inr [of "published_body s"] from_log_fits(1) [OF assms(1)] from_log_fits(1) [OF assms(2)]
    by (metis published_body_def sum.inject(2))
  have "Inr s = (Inr s' :: TierError + Segment)"
    unfolding rebuild_published [OF assms(1), symmetric] rebuild_published [OF assms(2), symmetric] m(1) bs ..
  then show ?thesis by simp
qed

lemma hot_ok_update:
  assumes "hot_ok obs hot" "from_log s" "stored obs s"
  shows "hot_ok obs (Mapping.update (seg_key s) s hot)"
  using assms by (auto simp: hot_ok_def lookup_update' keys_update split: if_splits)

lemma hot_ok_mono: "obs \<subseteq>\<^sub>m obs' \<Longrightarrow> hot_ok obs hot \<Longrightarrow> hot_ok obs' hot"
  by (auto simp: hot_ok_def intro: stored_mono)

lemma hot_ok_evict:
  assumes "hot_ok obs (tr_hot t)"
  shows "hot_ok obs (tr_hot (evict t))"
proof -
  have fin: "finite (Mapping.keys (tr_hot t))" using assms by (simp add: hot_ok_def)
  have sub: "Mapping.lookup (tr_hot (evict t)) k = Some s \<Longrightarrow> Mapping.lookup (tr_hot t) k = Some s" for k s
    by (cases k) (auto simp: lookup_evict [OF fin] split: if_splits)
  have "Mapping.keys (tr_hot (evict t)) \<subseteq> Mapping.keys (tr_hot t)"
    using sub by (auto simp: keys_dom_lookup)
  with sub assms fin show ?thesis unfolding hot_ok_def by (blast intro: finite_subset)
qed

lemma evict_other [simp]: "tr_cold (evict t) = tr_cold t" "tr_policy (evict t) = tr_policy t"
  by (simp_all add: evict_def)

definition body_msg :: "bytes \<Rightarrow> bytes" where
  "body_msg b = ascii ''trailryx/published-object/v1'' @ [0] @ b"

lemma body_digest_msg: "body_digest b = Sha384_digest (body_msg b)"
  using streaming_digest [of "[ascii ''trailryx/published-object/v1'' @ [0], b]"]
  by (simp add: body_digest_def body_msg_def Let_def)

lemma digest_binds:
  assumes "\<not> collides (map body_msg bs) (map body_msg bs)" "a \<in> set bs" "b \<in> set bs"
    and "body_digest a = body_digest b"
  shows "a = b"
proof -
  have "body_msg a = body_msg b" using assms unfolding collides_def body_digest_msg by (metis imageI set_map)
  then show ?thesis by (simp add: body_msg_def)
qed

definition tier_ok :: "bytes set \<Rightarrow> ('o \<Rightarrow> str \<rightharpoonup> bytes) \<Rightarrow> 'o Tier \<Rightarrow> bool" where
  "tier_ok B objects t \<longleftrightarrow> bucket_ok B (objects (tr_cold t)) \<and> hot_ok (objects (tr_cold t)) (tr_hot t)"

context object_store
begin

lemma publish_bucket_ok:
  assumes "publish S (publication_of s) n st = (r, st')" "wf st" "bucket_ok (set bs) (objects st)"
    and "from_log s" "published_body s \<in> set bs" "\<not> collides (map body_msg bs) (map body_msg bs)"
  shows "bucket_ok (set bs) (objects st')" "(\<exists>x. r = Inr x) \<Longrightarrow> stored (objects st') s"
proof -
  let ?p = "publication_of s"
  note k = publish_keeps [OF assms(1,2)]
  have bodies: "body_digest b = d \<and> b \<in> set bs" if "objects st' (body_key_for p d) = Some b" for p d b
  proof (cases "body_key_for p d = body_key ?p")
    case True
    then have "d = body_digest (published_body s)" by (simp add: body_key_def pb_publication)
    moreover have "objects st (body_key_for p d) = Some b \<or> b = published_body s"
      using k(6) that unfolding True pb_publication(2) by auto
    ultimately show ?thesis using assms(3,5) by (auto simp: bucket_ok_def)
  next
    case False
    then show ?thesis using k(4) [of "body_key_for p d"] that assms(3) by (simp add: bucket_ok_def)
  qed
  have there: "stored (objects st') s"
    if "objects st' (manifest_key ?p) = Some (pb_manifest ?p)" "objects st' (body_key ?p) \<noteq> None"
  proof -
    from that(2) obtain b where b: "objects st' (body_key ?p) = Some b" by blast
    from bodies [OF this [unfolded body_key_def]] have "b = published_body s"
      using digest_binds [OF assms(6) _ assms(5), of b] by (simp add: pb_publication)
    with b that(1) show ?thesis by (simp add: stored_def pb_publication)
  qed
  show "stored (objects st') s" if "\<exists>x. r = Inr x" using k(3) that there by (auto simp: tells_def)
  have manifests: "\<exists>s'. from_log s' \<and> seg_key s' = (pb_shard q, pb_segment q) \<and> stored (objects st') s'"
    if e: "objects st' (manifest_key q) = Some e" for q e
  proof (cases "objects st (manifest_key q) = Some e")
    case True
    then show ?thesis using assms(3) stored_mono [OF k(2)] unfolding bucket_ok_def by blast
  next
    case False
    have eq: "manifest_key q = manifest_key ?p"
    proof (rule ccontr)
      assume "manifest_key q \<noteq> manifest_key ?p"
      then have "objects st' (manifest_key q) = objects st (manifest_key q)"
        by (intro k(4)) (simp_all add: body_key_def)
      with False e show False by simp
    qed
    have "objects st' (manifest_key ?p) \<noteq> objects st (manifest_key ?p)" using False e unfolding eq by simp
    from k(5) [OF this] have "stored (objects st') s" using there by blast
    moreover have "seg_key s = (pb_shard q, pb_segment q)"
      using eq by (auto simp: seg_key_def segment_publication_def Let_def)
    ultimately show ?thesis using assms(4) by blast
  qed
  show "bucket_ok (set bs) (objects st')" using bodies manifests unfolding bucket_ok_def by blast
qed

lemma tier_publish_ok:
  assumes "tier_publish S x n t = (r, t')" "wf (tr_cold t)" "tier_ok (set bs) objects t"
    and "from_log (ss_segment x)" "published_body (ss_segment x) \<in> set bs"
    and "\<not> collides (map body_msg bs) (map body_msg bs)"
  shows "wf (tr_cold t')" "tier_ok (set bs) objects t'" "objects (tr_cold t) \<subseteq>\<^sub>m objects (tr_cold t')"
    "r = Inr () \<Longrightarrow> stored (objects (tr_cold t')) (ss_segment x)"
proof -
  obtain pr cold where p: "publish S (publication_of (ss_segment x)) n (tr_cold t) = (pr, cold)" by fastforce
  note ok = publish_bucket_ok [OF p assms(2) _ assms(4-6)] and k = publish_keeps [OF p assms(2)]
  have t: "bucket_ok (set bs) (objects (tr_cold t))" "hot_ok (objects (tr_cold t)) (tr_hot t)"
    using assms(3) by (simp_all add: tier_ok_def)
  have hot: "hot_ok (objects cold) (tr_hot t)" by (rule hot_ok_mono [OF k(2) t(2)])
  have cases: "(\<exists>e. pr = Inl e \<and> r = Inl (TierCold (ColdPublish e)) \<and> t' = t\<lparr>tr_cold := cold\<rparr>) \<or>
      (\<exists>y. pr = Inr y \<and> r = Inr () \<and> t' = evict (t\<lparr>tr_cold := cold,
         tr_hot := Mapping.update (seg_key (ss_segment x)) (ss_segment x) (tr_hot t)\<rparr>))"
    using assms(1) p by (cases pr) (auto simp: tier_publish_def publish_segment_def ss_manifest_def seg_key_def Let_def)
  then have cold: "tr_cold t' = cold" by auto
  then show "wf (tr_cold t')" "objects (tr_cold t) \<subseteq>\<^sub>m objects (tr_cold t')" using k by simp_all
  show "stored (objects (tr_cold t')) (ss_segment x)" if "r = Inr ()" using cases ok(2) t(1) that cold by auto
  have "hot_ok (objects cold) (tr_hot t')"
  proof (cases pr)
    case (Inl e)
    then show ?thesis using cases hot by auto
  next
    case (Inr y)
    then have "stored (objects cold) (ss_segment x)" using ok(2) t(1) by blast
    from hot_ok_update [OF hot assms(4) this] have
      "hot_ok (objects cold) (tr_hot (t\<lparr>tr_cold := cold,
         tr_hot := Mapping.update (seg_key (ss_segment x)) (ss_segment x) (tr_hot t)\<rparr>))" by simp
    from hot_ok_evict [OF this] show ?thesis using cases Inr by auto
  qed
  then show "tier_ok (set bs) objects t'" using ok(1) t(1) cold by (simp add: tier_ok_def)
qed

lemma warm_ok:
  assumes "warm S sh g t = (r, t')" "wf (tr_cold t)" "tier_ok B objects t"
  shows "wf (tr_cold t') \<and> objects (tr_cold t') = objects (tr_cold t) \<and> tr_hot t' = tr_hot t \<and>
    (\<forall>s. from_log s \<and> seg_key s = (sh, g) \<and> stored (objects (tr_cold t)) s \<longrightarrow>
       r = Inl (TierCold ColdUnavailable) \<or> r = Inr s) \<and>
    (\<forall>s. r = Inr s \<longrightarrow> from_log s \<and> seg_key s = (sh, g) \<and> stored (objects (tr_cold t)) s)"
proof (cases "\<exists>s. from_log s \<and> seg_key s = (sh, g) \<and> stored (objects (tr_cold t)) s")
  case True
  then obtain s where s: "from_log s" "seg_key s = (sh, g)" "stored (objects (tr_cold t)) s" by blast
  have k: "sh = m_shard (sg_manifest s)" "g = m_segment (sg_manifest s)" using s(2) by (simp_all add: seg_key_def)
  obtain fr cold where f: "fetch_segment S sh g (tr_cold t) = (fr, cold)" by fastforce
  have st: "wf cold \<and> objects cold = objects (tr_cold t) \<and>
      (fr = Inl ColdUnavailable \<or> fr = Inr (Some \<lparr>ft_manifest = sg_manifest s, ft_records = bodies_of s\<rparr>))"
    by (rule fetch_stored [OF f [unfolded k] assms(2)])
       (use s(3) from_log_fits [OF s(1)] in \<open>simp_all add: stored_def pb_publication published_body_def\<close>)
  have rb: "rebuild sh g \<lparr>ft_manifest = sg_manifest s, ft_records = bodies_of s\<rparr> = Inr s"
    using rebuild_published [OF s(1)] by (simp only: k)
  have t': "tr_cold t' = cold" "tr_hot t' = tr_hot t" "r = Inl (TierCold ColdUnavailable) \<or> r = Inr s"
    using assms(1) f st rb by (auto simp: warm_def)
  have only: "s' = s" if "from_log s' \<and> seg_key s' = (sh, g) \<and> stored (objects (tr_cold t)) s'" for s'
    using stored_unique [OF _ s(1) _ _ s(3)] that s(2) by simp
  have "r = Inl (TierCold ColdUnavailable) \<or> r = Inr s'"
    if "from_log s' \<and> seg_key s' = (sh, g) \<and> stored (objects (tr_cold t)) s'" for s'
    using only [OF that] t'(3) by simp
  moreover have "from_log s' \<and> seg_key s' = (sh, g) \<and> stored (objects (tr_cold t)) s'" if "r = Inr s'" for s'
    using t'(3) that s by simp
  ultimately show ?thesis using st t'(1,2) by simp
next
  case False
  have none: "objects (tr_cold t) (manifest_key (key_of_segment sh g)) = None"
  proof (rule ccontr)
    assume "objects (tr_cold t) (manifest_key (key_of_segment sh g)) \<noteq> None"
    then obtain e where "objects (tr_cold t) (manifest_key (key_of_segment sh g)) = Some e" by blast
    then show False using assms(3) False by (fastforce simp: tier_ok_def bucket_ok_def key_of_segment_def)
  qed
  obtain x cold where x: "os_get S (manifest_key (key_of_segment sh g)) (tr_cold t) = (x, cold)" by fastforce
  note w = get_wf [OF x assms(2)]
  have "(\<exists>e. x = Inl e) \<or> x = Inr None" using get_value [of _ "tr_cold t"] x assms(2) none by (cases x) auto
  then have "t' = t\<lparr>tr_cold := cold\<rparr>" "\<exists>e. r = Inl e"
    using assms(1) x by (auto simp: warm_def fetch_segment_def)
  with w False show ?thesis by auto
qed

lemma tier_query_ok:
  assumes "tier_query S sh g q t = (r, t')" "wf (tr_cold t)" "tier_ok B objects t"
  shows "wf (tr_cold t')" "tier_ok B objects t'" "objects (tr_cold t') = objects (tr_cold t)"
    "from_log s \<Longrightarrow> seg_key s = (sh, g) \<Longrightarrow> stored (objects (tr_cold t)) s \<Longrightarrow>
       r = Inr (query_segment s q) \<or> r = Inl (TierCold ColdUnavailable)"
proof -
  have hot: "hot_ok (objects (tr_cold t)) (tr_hot t)" using assms(3) by (simp add: tier_ok_def)
  have "wf (tr_cold t') \<and> tier_ok B objects t' \<and> objects (tr_cold t') = objects (tr_cold t) \<and>
    (from_log s \<and> seg_key s = (sh, g) \<and> stored (objects (tr_cold t)) s \<longrightarrow>
       r = Inr (query_segment s q) \<or> r = Inl (TierCold ColdUnavailable))"
  proof (cases "Mapping.lookup (tr_hot t) (sh, g)")
    case (Some held)
    then have "from_log held" "seg_key held = (sh, g)" "stored (objects (tr_cold t)) held"
      using hot by (auto simp: hot_ok_def)
    then show ?thesis using stored_unique [of s held] Some assms by (auto simp: tier_query_def)
  next
    case None
    obtain wr u where w: "warm S sh g t = (wr, u)" by fastforce
    note k = warm_ok [OF w assms(2,3)]
    have ok: "tier_ok B objects u" using k assms(3) by (simp add: tier_ok_def)
    show ?thesis
    proof (cases wr)
      case (Inl e)
      then have "r = Inl e" "t' = u" using assms(1) None w by (simp_all add: tier_query_def)
      then show ?thesis using k Inl ok by auto
    next
      case (Inr x)
      then have rt: "r = Inr (query_segment x q)" "t' = evict (u\<lparr>tr_hot := Mapping.update (sh, g) x (tr_hot u)\<rparr>)"
        using assms(1) None w by (simp_all add: tier_query_def)
      have x: "from_log x" "seg_key x = (sh, g)" "stored (objects (tr_cold u)) x" using k Inr by auto
      have "hot_ok (objects (tr_cold u)) (tr_hot u)" using ok by (simp add: tier_ok_def)
      from hot_ok_update [OF this x(1,3)] have
        "hot_ok (objects (tr_cold u)) (tr_hot (u\<lparr>tr_hot := Mapping.update (sh, g) x (tr_hot u)\<rparr>))"
        using x(2) by simp
      from hot_ok_evict [OF this] have "tier_ok B objects t'" using ok rt(2) by (simp add: tier_ok_def)
      then show ?thesis using rt k Inr by auto
    qed
  qed
  then show "wf (tr_cold t')" "tier_ok B objects t'" "objects (tr_cold t') = objects (tr_cold t)"
    "from_log s \<Longrightarrow> seg_key s = (sh, g) \<Longrightarrow> stored (objects (tr_cold t)) s \<Longrightarrow>
       r = Inr (query_segment s q) \<or> r = Inl (TierCold ColdUnavailable)" by auto
qed

end

text \<open>Publications and queries, in any order.\<close>

datatype TierOp = Publish_op SealedSegment u32 | Query_op ShardIx SegmentId Query

primrec tier_run :: "'o ObjectStore \<Rightarrow> TierOp list \<Rightarrow> 'o Tier \<Rightarrow> 'o Tier" where
  "tier_run S [] t = t"
| "tier_run S (a # ops) t =
     tier_run S ops
       (case a of Publish_op x n \<Rightarrow> snd (tier_publish S x n t)
        | Query_op sh g q \<Rightarrow> snd (tier_query S sh g q t))"

primrec op_bodies :: "TierOp list \<Rightarrow> bytes list" where
  "op_bodies [] = []"
| "op_bodies (a # ops) =
     (case a of Publish_op x _ \<Rightarrow> [published_body (ss_segment x)] | Query_op _ _ _ \<Rightarrow> []) @ op_bodies ops"

definition op_ok :: "TierOp \<Rightarrow> bool" where
  "op_ok a \<longleftrightarrow> (case a of Publish_op x _ \<Rightarrow> from_log (ss_segment x) | Query_op _ _ _ \<Rightarrow> True)"

context object_store
begin

lemma tier_run_ok:
  assumes "list_all op_ok ops" "set (op_bodies ops) \<subseteq> set bs" "wf (tr_cold t)" "tier_ok (set bs) objects t"
    and "\<not> collides (map body_msg bs) (map body_msg bs)"
  shows "wf (tr_cold (tier_run S ops t)) \<and> tier_ok (set bs) objects (tier_run S ops t) \<and>
    objects (tr_cold t) \<subseteq>\<^sub>m objects (tr_cold (tier_run S ops t))"
  using assms(1-4)
proof (induction ops arbitrary: t)
  case (Cons a ops)
  define u where "u = (case a of Publish_op x n \<Rightarrow> snd (tier_publish S x n t)
        | Query_op sh g q \<Rightarrow> snd (tier_query S sh g q t))"
  have u: "wf (tr_cold u) \<and> tier_ok (set bs) objects u \<and> objects (tr_cold t) \<subseteq>\<^sub>m objects (tr_cold u)"
  proof (cases a)
    case (Publish_op x n)
    then obtain r where "tier_publish S x n t = (r, u)" by (cases "tier_publish S x n t") (simp add: u_def)
    from tier_publish_ok [OF this] Cons.prems Publish_op assms(5) show ?thesis by (simp add: op_ok_def)
  next
    case (Query_op sh g q)
    then obtain r where "tier_query S sh g q t = (r, u)" by (cases "tier_query S sh g q t") (simp add: u_def)
    from tier_query_ok(1-3) [OF this] Cons.prems show ?thesis by simp
  qed
  with Cons.IH [of u] Cons.prems show ?case by (auto simp: u_def [symmetric] intro: map_le_trans)
qed simp

lemma tier_transparent:
  assumes "list_all op_ok (before @ Publish_op x n # after)"
    and "wf (tr_cold t)" "tier_ok (set bs) objects t" "bs = op_bodies (before @ Publish_op x n # after)"
    and "\<not> collides (map body_msg bs) (map body_msg bs)"
    and "tier_publish S x n (tier_run S before t) = (Inr (), t1)"
    and "tier_query S (m_shard (ss_manifest x)) (m_segment (ss_manifest x)) q (tier_run S after t1) = (r, t2)"
  shows "r = Inr (query_segment (ss_segment x) q) \<or> r = Inl (TierCold ColdUnavailable)"
proof -
  have app: "op_bodies (xs @ ys) = op_bodies xs @ op_bodies ys" for xs ys by (induction xs) simp_all
  have ok: "from_log (ss_segment x)" "list_all op_ok before" "list_all op_ok after"
    using assms(1) by (simp_all add: op_ok_def)
  have sub: "set (op_bodies before) \<subseteq> set bs" "set (op_bodies after) \<subseteq> set bs"
    "published_body (ss_segment x) \<in> set bs" by (auto simp: assms(4) app)
  note r0 = tier_run_ok [OF ok(2) sub(1) assms(2,3,5)]
  note r1 = tier_publish_ok [OF assms(6) conjunct1 [OF r0] conjunct1 [OF conjunct2 [OF r0]] ok(1) sub(3) assms(5)]
  note r2 = tier_run_ok [OF ok(3) sub(2) r1(1,2) assms(5)]
  have "stored (objects (tr_cold (tier_run S after t1))) (ss_segment x)"
    using stored_mono [OF conjunct2 [OF conjunct2 [OF r2]] r1(4) [OF refl]] .
  with tier_query_ok(4) [OF assms(7) conjunct1 [OF r2] conjunct1 [OF conjunct2 [OF r2]] ok(1)] show ?thesis
    by (simp add: seg_key_def ss_manifest_def)
qed

end

lemma tier_ok_new: "(\<And>k. objects cold k = None) \<Longrightarrow> tier_ok B objects (Tier_new cold policy)"
  by (simp add: tier_ok_def bucket_ok_def hot_ok_def Tier_new_def lookup_empty keys_empty)

subsection \<open>Properties\<close>



text \<open>
  C15. Bytes in the bucket are not taken on trust. Whatever a fetch returned, a segment rebuilt from it
  under the manifest published for a segment sealed from a journal is that segment, byte for byte
  of its bodies; or the two chains hash different messages to one digest.
\<close>

theorem rebuild_accepts_only_published:
  assumes "from_log s" "rebuild sh g f = Inr s'" "ft_manifest f = sg_manifest s"
    and "length (ft_records f) < 2 ^ 64"
  shows "s' = s \<and> ft_records f = map encode_record (sg_records s) \<or>
    collides (segment_msgs s (map encode_record (sg_records s))) (segment_msgs s' (ft_records f))"
  by (rule rebuild_binds [OF assms])

theorem rebuild_accepts_only_published_witness:
  "\<exists>s f. from_log s \<and> rebuild 3 1 f = Inr s \<and> ft_manifest f = sg_manifest s \<and>
     (ft_records f = map encode_record (sg_records s) \<or>
      collides (segment_msgs s (map encode_record (sg_records s))) (segment_msgs s (ft_records f)))"
proof -
  obtain j io v x where h: "history sample_name (Up j io)" "journal_read_all SimIo_Io j io = (Inr v, io)"
    "seal_segment SimIo_Io j 1 3 io = (Inr (Sealed x), io)"
    by (rule sample_sealed)
  define s where "s = ss_segment x"
  define f where "f = \<lparr>ft_manifest = sg_manifest s, ft_records = bodies_of s\<rparr>"
  have s: "from_log s" using sealed_from_log [OF h(1,3)] by (simp add: s_def)
  have "seal 1 3 (jn_genesis j) (take (unat (jn_acked j)) (wk_records v)) = Inr s"
    using seal_outcome [OF h] by (simp add: s_def)
  note k = seal_manifest_fields(2,3) [OF this]
  have r: "rebuild 3 1 f = Inr s" using rebuild_published [OF s] unfolding k f_def .
  have m: "ft_manifest f = sg_manifest s" "length (ft_records f) < 2 ^ 64"
    using from_log_fits(1) [OF s] by (simp_all add: f_def body_fits_def)
  from rebuild_accepts_only_published [OF s r m] s r m(1) show ?thesis by blast
qed

text \<open>
  Eviction drops exactly the oldest: a segment stays local when fewer than the policy's number of
  newer segments of its shard are local, and no other does; nothing is changed or added.
\<close>

theorem evict_keeps_newest:
  assumes "finite (Mapping.keys (tr_hot t))"
  shows "Mapping.lookup (tr_hot (evict t)) (sh, g) =
    (if card {g'. (sh, g') \<in> Mapping.keys (tr_hot t) \<and> g < g'} < keep_hot (tr_policy t)
     then Mapping.lookup (tr_hot t) (sh, g) else None)"
  by (rule lookup_evict [OF assms])

theorem evict_keeps_newest_witness:
  "\<forall>s. let t = \<lparr>tr_cold = Memory_default, tr_hot = Mapping.update (3, 1) s (Mapping.update (3, 2) s Mapping.empty),
               tr_policy = \<lparr>keep_hot = 1\<rparr>, tr_warmed = 0\<rparr> in
     finite (Mapping.keys (tr_hot t)) \<and> Mapping.lookup (tr_hot (evict t)) (3, 1) = None \<and>
     Mapping.lookup (tr_hot (evict t)) (3, 2) = Some s"
proof
  fix s
  define t where "t = \<lparr>tr_cold = Memory_default, tr_hot = Mapping.update (3, 1) s (Mapping.update (3, 2) s Mapping.empty),
               tr_policy = \<lparr>keep_hot = 1\<rparr>, tr_warmed = 0\<rparr>"
  have k: "Mapping.keys (tr_hot t) = {(3, 1), (3, 2)}" by (auto simp: t_def keys_update keys_empty)
  have "{g'. ((3::ShardIx), g') \<in> Mapping.keys (tr_hot t) \<and> 1 < g'} = {2}"
    "{g'. ((3::ShardIx), g') \<in> Mapping.keys (tr_hot t) \<and> 2 < g'} = {}" by (auto simp: k)
  then have c: "card {g'. ((3::ShardIx), g') \<in> Mapping.keys (tr_hot t) \<and> 1 < g'} = 1"
    "card {g'. ((3::ShardIx), g') \<in> Mapping.keys (tr_hot t) \<and> 2 < g'} = 0" by (simp_all only: card.empty) simp
  have p: "keep_hot (tr_policy t) = 1" "Mapping.lookup (tr_hot t) (3, 2) = Some s" "finite (Mapping.keys (tr_hot t))"
    by (simp_all add: k) (simp_all add: t_def lookup_update')
  show
    "let t = \<lparr>tr_cold = Memory_default, tr_hot = Mapping.update (3, 1) s (Mapping.update (3, 2) s Mapping.empty),
               tr_policy = \<lparr>keep_hot = 1\<rparr>, tr_warmed = 0\<rparr> in
     finite (Mapping.keys (tr_hot t)) \<and> Mapping.lookup (tr_hot (evict t)) (3, 1) = None \<and>
     Mapping.lookup (tr_hot (evict t)) (3, 2) = Some s"
    using evict_keeps_newest [OF p(3), of 3 1] evict_keeps_newest [OF p(3), of 3 2] p
    unfolding t_def [symmetric] Let_def c by simp
qed

text \<open>
  Cold bodies carry no version, and trying both is a determination: no bytes are a record of
  the current version and a record of version 1 at once.
\<close>

theorem body_versions_disjoint:
  "\<not> (\<exists>r r'. decode_record b = Inr r \<and> decode_record_at b 1 = Inr r')"
proof
  assume "\<exists>r r'. decode_record b = Inr r \<and> decode_record_at b 1 = Inr r'"
  moreover have "\<not> (2 :: u8) \<le> 1" by (simp add: word_le_nat_alt)
  ultimately obtain r r' where r: "record_fits r" "b = put_body r @ put_opt put_proof (delegation_proof (basis r))"
    and r': "record_fits r'" "delegation_proof (basis r') = None" "b = put_body r'"
    unfolding decode_record_def FRAME_VERSION_def encode_record_def [symmetric]
    using decode_record_iff(1) [of 2 b] decode_record_iff(2) [of 1 b] by blast
  have "get_body b = Inr (without_proof r, put_opt put_proof (delegation_proof (basis r)))"
    using r record_fits_without_proof [of r] by (simp add: record_body.get_iff) (simp add: without_proof_def)
  moreover have "get_body b = Inr (r', [])" using r' by (simp add: record_body.get_iff)
  ultimately show False by (cases "delegation_proof (basis r)") (simp_all add: put_opt_def put_u8_def)
qed

text \<open>
  C38. The archive writes every body in the current version, while the links of records read from a
  version 1 journal are over version 1 bodies: such a segment, published and fetched back unaltered,
  is refused as tampered with.
\<close>

theorem v1_segment_refused:
  assumes "record_fits r" "delegation_proof (basis r) = None"
    and "seal g sh b [(r, chain_step b (rec_seq r) (put_body r))] = Inr s"
  shows "(\<exists>m. rebuild sh g \<lparr>ft_manifest = sg_manifest s, ft_records = bodies_of s\<rparr> =
      Inl (ManifestMismatch (sg_manifest s) m)) \<or>
    collides [chain_msg b (rec_seq r) (put_body r)] [chain_msg b (rec_seq r) (encode_record r)]"
proof -
  let ?l = "chain_step b (rec_seq r) (encode_record r)"
  obtain s' where s': "seal g sh b [(r, ?l)] = Inr s'" using seal_one by blast
  note m = seal_manifest_fields [OF assms(3)] and m' = seal_manifest_fields [OF s']
  have bodies: "bodies_of s = [encode_record r]" using seal_facts(7) [OF assms(3)] by simp
  have rb: "rebuild sh g \<lparr>ft_manifest = sg_manifest s, ft_records = bodies_of s\<rparr> =
      (if sg_manifest s' \<noteq> sg_manifest s then Inl (ManifestMismatch (sg_manifest s) (sg_manifest s')) else Inr s')"
    using s' assms(1) by (simp add: rebuild_def bodies decode_encoded m(1) Let_def)
  show ?thesis
  proof (cases "sg_manifest s' = sg_manifest s")
    case True
    then have "?l = chain_step b (rec_seq r) (put_body r)" using m(4) m'(4) by simp
    moreover have "encode_record r \<noteq> put_body r" using assms(2) by (simp add: encode_record_def put_opt_def put_u8_def)
    ultimately show ?thesis by (simp add: collides_def chain_step_digest)
  qed (use rb in simp)
qed

theorem v1_segment_refused_witness:
  "\<exists>s. let r = sample_record; b = 0; l = chain_step b (rec_seq r) (put_body r) in
     seal 1 3 b [(r, l)] = Inr s \<and>
     ((\<exists>m. rebuild 3 1 \<lparr>ft_manifest = sg_manifest s, ft_records = map encode_record (sg_records s)\<rparr> =
         Inl (ManifestMismatch (sg_manifest s) m)) \<or>
      collides [chain_msg b (rec_seq r) (put_body r)] [chain_msg b (rec_seq r) (encode_record r)])"
proof -
  let ?r = sample_record
  have r: "record_fits ?r" "delegation_proof (basis ?r) = None"
    by (rule sample_fits)+
  obtain s where s: "seal 1 3 0 [(?r, chain_step 0 (rec_seq ?r) (put_body ?r))] = Inr s" using seal_one by blast
  from v1_segment_refused [OF r s] s show ?thesis unfolding Let_def by blast
qed

end
