(* ===== verification/VerifierHash.thy ===== *)
theory VerifierHash
  imports Merkle
begin

text \<open>
  The verifier's own hasher and Merkle root: \<open>crates/trailryx-verify/src/sha384.rs\<close> and
  \<open>crates/trailryx-verify/src/merkle.rs\<close>. The verifier shares no code with the store, so this is a
  second implementation: other constants' text, a bit counter instead of a byte counter, and padding
  written in one piece instead of byte by byte.

  The results: both hashers compute one function, on any message cut in any way, and both Merkle
  roots are one function of the leaves. So a disagreement between a store and its verifier is never
  a disagreement about arithmetic.
\<close>

subsection \<open>The hasher\<close>

definition V_K :: "u64 list" where
  "V_K = [
     4794697086780616226, 8158064640168781261, 13096744586834688815, 16840607885511220156,
     4131703408338449720, 6480981068601479193, 10538285296894168987, 12329834152419229976,
     15566598209576043074, 1334009975649890238, 2608012711638119052, 6128411473006802146,
     8268148722764581231, 9286055187155687089, 11230858885718282805, 13951009754708518548,
     16472876342353939154, 17275323862435702243, 1135362057144423861, 2597628984639134821,
     3308224258029322869, 5365058923640841347, 6679025012923562964, 8573033837759648693,
     10970295158949994411, 12119686244451234320, 12683024718118986047, 13788192230050041572,
     14330467153632333762, 15395433587784984357, 489312712824947311, 1452737877330783856,
     2861767655752347644, 3322285676063803686, 5560940570517711597, 5996557281743188959,
     7280758554555802590, 8532644243296465576, 9350256976987008742, 10552545826968843579,
     11727347734174303076, 12113106623233404929, 14000437183269869457, 14369950271660146224,
     15101387698204529176, 15463397548674623760, 17586052441742319658, 1182934255886127544,
     1847814050463011016, 2177327727835720531, 2830643537854262169, 3796741975233480872,
     4115178125766777443, 5681478168544905931, 6601373596472566643, 7507060721942968483,
     8399075790359081724, 8693463985226723168, 9568029438360202098, 10144078919501101548,
     10430055236837252648, 11840083180663258601, 13761210420658862357, 14299343276471374635,
     14566680578165727644, 15097957966210449927, 16922976911328602910, 17689382322260857208,
     500013540394364858, 748580250866718886, 1242879168328830382, 1977374033974150939,
     2944078676154940804, 3659926193048069267, 4368137639120453308, 4836135668995329356,
     5532061633213252278, 6448918945643986474, 6902733635092675308, 7801388544844847127]"

definition V_INIT :: "u64 list" where
  "V_INIT = [
     14680500436340154072, 7105036623409894663, 10473403895298186519, 1526699215303891257,
     7436329637833083697, 10282925794625328401, 15784041429090275239, 5167115440072839076]"

record VSha384 =
  v_state :: "u64 list"
  v_buffer :: bytes
  v_buffered :: nat
  v_total_bits :: u128

definition VSha384_new :: VSha384 where
  "VSha384_new = \<lparr>v_state = V_INIT, v_buffer = replicate 128 0, v_buffered = 0, v_total_bits = 0\<rparr>"

primrec v_schedule :: "nat \<Rightarrow> bytes \<Rightarrow> u64 list" where
  "v_schedule 0 block = map (\<lambda>i. from_be_bytes (take 8 (drop (i * 8) block))) [0..<16]"
| "v_schedule (Suc n) block =
     (let w = v_schedule n block;
          i = 16 + n;
          s0 = word_rotr 1 (w ! (i - 15)) XOR word_rotr 8 (w ! (i - 15)) XOR drop_bit 7 (w ! (i - 15));
          s1 = word_rotr 19 (w ! (i - 2)) XOR word_rotr 61 (w ! (i - 2)) XOR drop_bit 6 (w ! (i - 2))
      in w @ [w ! (i - 16) + s0 + w ! (i - 7) + s1])"

fun v_round :: "u64 list \<Rightarrow> u64 \<times> u64 \<Rightarrow> u64 list" where
  "v_round [a, b, c, d, e, f, g, h] (k, w) =
     (let s1 = word_rotr 14 e XOR word_rotr 18 e XOR word_rotr 41 e;
          ch = (e AND f) XOR ((NOT e) AND g);
          t1 = h + s1 + ch + k + w;
          s0 = word_rotr 28 a XOR word_rotr 34 a XOR word_rotr 39 a;
          maj = (a AND b) XOR (a AND c) XOR (b AND c);
          t2 = s0 + maj
      in [t1 + t2, a, b, c, d + t1, e, f, g])"
| "v_round _ _ = []"

definition v_compress :: "VSha384 \<Rightarrow> bytes \<Rightarrow> VSha384" where
  "v_compress s block =
     s\<lparr>v_state := map2 (+) (v_state s) (foldl v_round (v_state s) (zip V_K (v_schedule 64 block)))\<rparr>"

text \<open>One filling of the buffer: \<open>update\<close> does it once, \<open>finish\<close> until its padding is used up.\<close>

definition v_fill :: "VSha384 \<Rightarrow> bytes \<Rightarrow> VSha384 \<times> bytes" where
  "v_fill s data =
     (let want = 128 - v_buffered s;
          n = min want (length data);
          s = s\<lparr>v_buffer := copy_at (v_buffer s) (v_buffered s) (take n data), v_buffered := v_buffered s + n\<rparr>;
          data = drop n data
      in if v_buffered s = 128 then ((v_compress s (v_buffer s))\<lparr>v_buffered := 0\<rparr>, data)
         else (s, data))"

function v_blocks :: "VSha384 \<Rightarrow> bytes \<Rightarrow> VSha384 \<times> bytes" where
  "v_blocks s data =
     (if 128 \<le> length data then v_blocks (v_compress s (take 128 data)) (drop 128 data) else (s, data))"
  by pat_completeness auto
termination
  by (relation "measure (\<lambda>(s, data). length data)") auto

declare v_blocks.simps [simp del]

definition VSha384_update :: "VSha384 \<Rightarrow> bytes \<Rightarrow> VSha384" where
  "VSha384_update s data =
     (let s = s\<lparr>v_total_bits := v_total_bits s + of_nat (length data) * 8\<rparr>;
          (s, data) = (if 0 < v_buffered s then v_fill s data else (s, data));
          (s, data) = v_blocks s data
      in if data \<noteq> [] then s\<lparr>v_buffer := copy_at (v_buffer s) 0 data, v_buffered := length data\<rparr> else s)"

text \<open>The padding, and the loop that feeds it. A buffer never holds more than a block.\<close>

function v_pad :: "nat \<Rightarrow> bytes \<Rightarrow> bytes" where
  "v_pad buffered tail = (if (buffered + length tail) mod 128 \<noteq> 112 then v_pad buffered (tail @ [0]) else tail)"
  by pat_completeness auto
termination
  by (relation "measure (\<lambda>(n, tail). zero_gap (n + length tail))") (auto simp: zero_gap_step BLOCK_def)

declare v_pad.simps [simp del]

function v_feed :: "VSha384 \<Rightarrow> bytes \<Rightarrow> VSha384" where
  "v_feed s data =
     (if data \<noteq> [] \<and> v_buffered s \<le> 128 then v_feed (fst (v_fill s data)) (snd (v_fill s data)) else s)"
  by pat_completeness auto
termination
  by (relation "measures [\<lambda>(s, data). length data, \<lambda>(s, data). v_buffered s]")
     (auto simp: v_fill_def v_compress_def Let_def)

declare v_feed.simps [simp del]

definition VSha384_finish :: "VSha384 \<Rightarrow> hash" where
  "VSha384_finish s =
     (let bits = v_total_bits s;
          tail = v_pad (v_buffered s) [0x80] @ to_be_bytes bits;
          s = v_feed s tail
      in Hash_of_bytes (concat (map to_be_bytes (take 6 (v_state s)))))"

definition VSha384_digest :: "bytes \<Rightarrow> hash" where
  "VSha384_digest data = VSha384_finish (VSha384_update VSha384_new data)"

subsection \<open>Both hashers, one function\<close>

lemma V_constants: "V_INIT = IV" "V_K = K"
  by (simp_all add: V_INIT_def IV_def V_K_def K_def)

lemma length_IV: "length IV = 8"
  by (simp add: IV_def)

lemma v_schedule_extend: "extend_schedule n w' = v_schedule (m + n) block" if "w' = v_schedule m block" "length w' = 16 + m"
  using that
proof (induction n arbitrary: m w')
  case (Suc n)
  have "w' @ [schedule_word w' (length w')] = v_schedule (Suc m) block"
    using Suc.prems by (simp add: schedule_word_def Let_def)
  from Suc.IH [OF this] Suc.prems(2) show ?case by simp
qed simp

lemma v_schedule_words: "v_schedule 64 block = extend_schedule 64 (block_words block)"
  using v_schedule_extend [of "block_words block" 0 block 64] by (simp add: block_words_def)

definition tuple8 :: "u64 list \<Rightarrow> u64 \<times> u64 \<times> u64 \<times> u64 \<times> u64 \<times> u64 \<times> u64 \<times> u64" where
  "tuple8 h = (h ! 0, h ! 1, h ! 2, h ! 3, h ! 4, h ! 5, h ! 6, h ! 7)"

lemma length_8: "length h = 8 \<Longrightarrow> h = [h ! 0, h ! 1, h ! 2, h ! 3, h ! 4, h ! 5, h ! 6, h ! 7]"
  by (rule nth_equalityI) (auto simp: less_Suc_eq numeral_eq_Suc)

lemma v_round_tuple:
  assumes "length h = 8"
  shows "length (v_round h kw) = 8 \<and> tuple8 (v_round h kw) = sha_round (tuple8 h) kw"
proof -
  obtain k w where kw: "kw = (k, w)" by fastforce
  obtain a b c d e f g x where h: "h = [a, b, c, d, e, f, g, x]" using length_8 [OF assms] by blast
  show ?thesis by (simp add: kw h tuple8_def Let_def)
qed

lemma v_rounds_tuple:
  "length h = 8 \<Longrightarrow> length (foldl v_round h kws) = 8 \<and> tuple8 (foldl v_round h kws) = foldl sha_round (tuple8 h) kws"
proof (induction kws arbitrary: h)
  case (Cons kw kws)
  from v_round_tuple [OF Cons.prems, of kw] Cons.IH [of "v_round h kw"] show ?case by simp
qed simp

lemma v_compress_state:
  assumes "length (v_state s) = 8"
  shows "v_state (v_compress s block) = compress (v_state s) block"
proof -
  let ?r = "foldl v_round (v_state s) (zip V_K (v_schedule 64 block))"
  have r: "length ?r = 8" "tuple8 ?r = foldl sha_round (tuple8 (v_state s)) (zip K (extend_schedule 64 (block_words block)))"
    using v_rounds_tuple [OF assms] by (simp_all add: V_constants v_schedule_words)
  have "v_state (v_compress s block) = map2 (+) [v_state s ! 0, v_state s ! 1, v_state s ! 2, v_state s ! 3,
      v_state s ! 4, v_state s ! 5, v_state s ! 6, v_state s ! 7] [?r ! 0, ?r ! 1, ?r ! 2, ?r ! 3, ?r ! 4, ?r ! 5, ?r ! 6, ?r ! 7]"
    unfolding v_compress_def using length_8 [OF assms] length_8 [OF r(1)] by simp
  also have "\<dots> = compress (v_state s) block"
    unfolding compress_def Let_def r(2) [symmetric, unfolded tuple8_def] prod.case by simp
  finally show ?thesis .
qed

text \<open>The verifier's state as the store's, whose counter counts other units.\<close>

definition to_sha :: "VSha384 \<Rightarrow> Sha384" where
  "to_sha s = \<lparr>sha_h = v_state s, sha_buf = v_buffer s, sha_buf_len = v_buffered s, sha_total_bytes = 0\<rparr>"

lemma to_sha_sel [simp]:
  "sha_h (to_sha s) = v_state s" "sha_buf (to_sha s) = v_buffer s" "sha_buf_len (to_sha s) = v_buffered s"
  by (simp_all add: to_sha_def)

definition v_ready :: "VSha384 \<Rightarrow> bytes \<Rightarrow> bool" where
  "v_ready s bs \<longleftrightarrow> absorbed (to_sha s) bs"

lemma length_run_blocks: "length h = 8 \<Longrightarrow> length (fst (run_blocks h bs)) = 8"
proof (induction h bs rule: run_blocks.induct)
  case (1 h bs)
  have "length (compress h (take BLOCK bs)) = 8" by (simp add: compress_def Let_def split: prod.splits)
  with 1 show ?case by (simp add: run_blocks.simps [of h bs])
qed

lemma ready_state: "v_ready s bs \<Longrightarrow> length (v_state s) = 8"
  using length_run_blocks [OF length_IV, of bs] by (simp add: v_ready_def absorbed_def)

lemma v_compress_other [simp]:
  "v_buffer (v_compress s b) = v_buffer s" "v_buffered (v_compress s b) = v_buffered s"
  "v_total_bits (v_compress s b) = v_total_bits s"
  by (simp_all add: v_compress_def)

lemma v_blocks_sha:
  assumes "length (v_state s) = 8"
  shows "absorb_blocks (to_sha s) data = (to_sha (fst (v_blocks s data)), snd (v_blocks s data)) \<and>
    v_total_bits (fst (v_blocks s data)) = v_total_bits s"
  using assms
proof (induction s data rule: v_blocks.induct)
  case (1 s data)
  show ?case
  proof (cases "128 \<le> length data")
    case True
    have c: "to_sha (v_compress s (take 128 data)) = compress_into (to_sha s) (take BLOCK data)"
      using v_compress_state [OF "1.prems"] by (simp add: to_sha_def compress_into_def BLOCK_def)
    have l: "length (v_state (v_compress s (take 128 data))) = 8"
      using v_compress_state [OF "1.prems"] by (simp add: compress_def Let_def split: prod.splits)
    from "1.IH" [OF True l] True show ?thesis
      by (simp add: v_blocks.simps [of s data] absorb_blocks.simps [of "to_sha s" data] c BLOCK_def)
  qed (simp add: v_blocks.simps [of s data] absorb_blocks.simps [of "to_sha s" data] BLOCK_def)
qed

lemma v_fill_sha:
  assumes "length (v_state s) = 8" "0 < v_buffered s"
  shows "fill_buffer (to_sha s) data = (to_sha (fst (v_fill s data)), snd (v_fill s data)) \<and>
    v_total_bits (fst (v_fill s data)) = v_total_bits s \<and> length (v_state (fst (v_fill s data))) = 8"
  using assms v_compress_state [of "s\<lparr>v_buffer := b, v_buffered := n\<rparr>" for b n]
  by (auto simp: fill_buffer_def v_fill_def Let_def BLOCK_def to_sha_def compress_into_def compress_def
      split: prod.splits)

lemma v_update_sha:
  assumes "length (v_state s) = 8"
  shows "to_sha (VSha384_update s data) = (Sha384_update (to_sha s) data)\<lparr>sha_total_bytes := 0\<rparr>"
    "v_total_bits (VSha384_update s data) = v_total_bits s + of_nat (length data) * 8"
proof -
  let ?s = "s\<lparr>v_total_bits := v_total_bits s + of_nat (length data) * 8\<rparr>"
  let ?n = "of_nat (length data) :: u128"
  define f where "f = (if 0 < v_buffered s then v_fill ?s data else (?s, data))"
  have tot: "fill_buffer (x\<lparr>sha_total_bytes := n\<rparr>) d = (case fill_buffer x d of (y, r) \<Rightarrow> (y\<lparr>sha_total_bytes := n\<rparr>, r))"
    for x n d by (cases x) (simp add: fill_buffer_def Let_def compress_into_def)
  have into: "compress_into (x\<lparr>sha_total_bytes := n\<rparr>) b = (compress_into x b)\<lparr>sha_total_bytes := n\<rparr>" for x n b
    by (cases x) (simp add: compress_into_def)
  have tot2: "absorb_blocks (x\<lparr>sha_total_bytes := n\<rparr>) d = (case absorb_blocks x d of (y, r) \<Rightarrow> (y\<lparr>sha_total_bytes := n\<rparr>, r))"
    for x n d
  proof (induction x d rule: absorb_blocks.induct)
    case (1 x d)
    then show ?case
      by (simp add: absorb_blocks.simps [of x d] absorb_blocks.simps [of "x\<lparr>sha_total_bytes := n\<rparr>" d] into)
  qed
  have f: "fill_buffer (to_sha s) data = (to_sha (fst f), snd f)" "v_total_bits (fst f) = v_total_bits ?s"
    "length (v_state (fst f)) = 8"
    using v_fill_sha [of ?s data] assms by (auto simp: f_def to_sha_def fill_buffer_def)
  note b = v_blocks_sha [OF f(3), of "snd f"]
  obtain s2 d2 where v: "v_blocks (fst f) (snd f) = (s2, d2)" by fastforce
  have u: "VSha384_update s data = (if d2 \<noteq> [] then s2\<lparr>v_buffer := copy_at (v_buffer s2) 0 d2, v_buffered := length d2\<rparr> else s2)"
    using v by (simp add: VSha384_update_def f_def Let_def case_prod_beta split: if_splits)
  show "to_sha (VSha384_update s data) = (Sha384_update (to_sha s) data)\<lparr>sha_total_bytes := 0\<rparr>"
    using b v by (simp add: u Sha384_update_def tot f(1) tot2 Let_def) (simp add: to_sha_def)
  show "v_total_bits (VSha384_update s data) = v_total_bits s + of_nat (length data) * 8"
    using b v f(2) by (simp add: u)
qed

lemma v_ready_new: "v_ready VSha384_new []" "v_total_bits VSha384_new = 0"
  using absorbed_new by (simp_all add: v_ready_def VSha384_new_def to_sha_def V_constants Sha384_new_def BLOCK_def)

lemma v_ready_update:
  "v_ready s bs \<Longrightarrow> v_ready (VSha384_update s data) (bs @ data)"
  "v_ready s bs \<Longrightarrow> v_total_bits (VSha384_update s data) = v_total_bits s + of_nat (length data) * 8"
  using absorbed_update(1) [of "to_sha s" bs data] v_update_sha [OF ready_state] by (simp_all add: v_ready_def)

lemma v_pad_gap: "v_pad n tail = tail @ replicate (zero_gap (n + length tail)) 0"
proof (induction n tail rule: v_pad.induct)
  case (1 n tail)
  show ?case
  proof (cases "(n + length tail) mod 128 = 112")
    case True
    then show ?thesis by (simp add: v_pad.simps [of n tail] zero_gap_done BLOCK_def)
  next
    case False
    then have g: "zero_gap (n + length tail) = Suc (zero_gap (n + length (tail @ [0])))"
      using zero_gap_step [of "n + length tail"] by (simp add: BLOCK_def)
    from "1.IH" False show ?thesis by (simp add: v_pad.simps [of n tail] g [simplified])
  qed
qed

lemma v_fill_ready:
  assumes "v_ready s bs" "data \<noteq> []"
  shows "\<exists>n. 0 < n \<and> n \<le> length data \<and> snd (v_fill s data) = drop n data \<and>
    v_ready (fst (v_fill s data)) (bs @ take n data)"
proof -
  let ?l = "v_buffered s" and ?b = "v_buffer s" and ?n = "min (128 - v_buffered s) (length data)"
  have s: "length ?b = 128" "?l < 128" "run_blocks IV bs = (v_state s, take ?l ?b)"
    using assms(1) by (simp_all add: v_ready_def absorbed_def BLOCK_def)
  have n: "0 < ?n" "?n \<le> length data" "length (take ?n data) = ?n" using s(2) assms(2) by (simp_all add: min_def)
  have run: "run_blocks IV (bs @ take ?n data) = run_blocks (v_state s) (take ?l ?b @ take ?n data)"
    using s(3) by (simp add: run_blocks_append [of IV])
  have copy: "take (?l + ?n) (copy_at ?b ?l (take ?n data)) = take ?l ?b @ take ?n data"
    "length (copy_at ?b ?l (take ?n data)) = 128"
    using s(1,2) n(3) by (simp_all add: copy_at_def)
  show ?thesis
  proof (cases "?l + ?n = 128")
    case True
    let ?blk = "copy_at ?b ?l (take ?n data)"
    have blk: "?blk = take ?l ?b @ take ?n data" using copy True by simp
    have "run_blocks IV (bs @ take ?n data) = (compress (v_state s) ?blk, [])"
      using run_blocks_block [of ?blk "v_state s" "[]"] copy(2) run blk
      by (simp add: BLOCK_def run_blocks_short)
    moreover have "fst (v_fill s data) = (v_compress (s\<lparr>v_buffer := ?blk, v_buffered := 128\<rparr>) ?blk)\<lparr>v_buffered := 0\<rparr>"
      "snd (v_fill s data) = drop ?n data"
      using True by (simp_all add: v_fill_def Let_def)
    moreover have "v_state (v_compress (s\<lparr>v_buffer := ?blk, v_buffered := 128\<rparr>) ?blk) = compress (v_state s) ?blk"
      using v_compress_state [of "s\<lparr>v_buffer := ?blk, v_buffered := 128\<rparr>" ?blk] ready_state [OF assms(1)] by simp
    ultimately have "v_ready (fst (v_fill s data)) (bs @ take ?n data)" "snd (v_fill s data) = drop ?n data"
      using copy(2) by (simp_all add: v_ready_def absorbed_def BLOCK_def)
    then show ?thesis using n by blast
  next
    case False
    then have lt: "?l + ?n < 128" using s(2) by (simp add: min_def split: if_splits)
    have "run_blocks IV (bs @ take ?n data) = (v_state s, take ?l ?b @ take ?n data)"
      using run run_blocks_short [of "take ?l ?b @ take ?n data" "v_state s"] lt s n(3) by (simp add: BLOCK_def)
    moreover have "v_fill s data = (s\<lparr>v_buffer := copy_at ?b ?l (take ?n data), v_buffered := ?l + ?n\<rparr>, drop ?n data)"
      using False by (simp add: v_fill_def Let_def)
    ultimately have "v_ready (fst (v_fill s data)) (bs @ take ?n data)" "snd (v_fill s data) = drop ?n data"
      using copy lt by (simp_all add: v_ready_def absorbed_def BLOCK_def)
    then show ?thesis using n by blast
  qed
qed

lemma v_feed_ready: "v_ready s bs \<Longrightarrow> v_ready (v_feed s data) (bs @ data)"
proof (induction s data arbitrary: bs rule: v_feed.induct)
  case (1 s data)
  show ?case
  proof (cases "data = []")
    case True
    then show ?thesis using "1.prems" by (simp add: v_feed.simps)
  next
    case False
    have le: "v_buffered s \<le> 128" using "1.prems" by (simp add: v_ready_def absorbed_def BLOCK_def)
    obtain n where n: "snd (v_fill s data) = drop n data" "v_ready (fst (v_fill s data)) (bs @ take n data)"
      using v_fill_ready [OF "1.prems" False] by blast
    have "data \<noteq> [] \<and> v_buffered s \<le> 128" using False le by simp
    from "1.IH" [OF this n(2)] False le n(1) show ?thesis by (simp add: v_feed.simps [of s data])
  qed
qed

lemma v_finish_ready:
  assumes "v_ready s bs" "v_total_bits s = of_nat (length bs) * 8"
  shows "VSha384_finish s = sha384_reference bs"
proof -
  have "v_buffered s = length bs mod BLOCK" using absorbed_buf_len [of "to_sha s" bs] assms(1) by (simp add: v_ready_def)
  then have "zero_gap (v_buffered s + 1) = zero_gap (length bs + 1)"
    by (simp add: zero_gap_def mod_Suc_eq)
  then have "bs @ v_pad (v_buffered s) [0x80] @ to_be_bytes (v_total_bits s) = sha384_pad bs"
    using assms(2) by (simp add: v_pad_gap sha384_pad_def)
  with v_feed_ready [OF assms(1), of "v_pad (v_buffered s) [0x80] @ to_be_bytes (v_total_bits s)"]
  show ?thesis
    by (simp add: v_ready_def absorbed_def VSha384_finish_def sha384_reference_def output_words_def Let_def)
qed

lemma v_updates_ready:
  "v_ready s bs \<Longrightarrow> v_total_bits s = of_nat (length bs) * 8 \<Longrightarrow>
   v_ready (foldl VSha384_update s chunks) (bs @ concat chunks) \<and>
   v_total_bits (foldl VSha384_update s chunks) = of_nat (length (bs @ concat chunks)) * 8"
proof (induction chunks arbitrary: s bs)
  case (Cons c chunks)
  have "v_total_bits (VSha384_update s c) = of_nat (length (bs @ c)) * 8"
    using v_ready_update(2) [OF Cons.prems(1), of c] Cons.prems(2) by (simp add: distrib_right)
  from Cons.IH [OF v_ready_update(1) [OF Cons.prems(1)] this] show ?case by simp
qed simp

lemma v_finish_updates: "VSha384_finish (foldl VSha384_update VSha384_new chunks) = Sha384_digest (concat chunks)"
  using v_finish_ready v_updates_ready [OF v_ready_new(1), of chunks] v_ready_new(2) by (simp add: digest_reference)

subsection \<open>The Merkle root\<close>

definition v_empty_root :: hash where
  "v_empty_root = VSha384_digest []"

definition v_leaf_hash :: "bytes \<Rightarrow> hash" where
  "v_leaf_hash data =
     (let h = VSha384_new; h = VSha384_update h [0x00]; h = VSha384_update h data in VSha384_finish h)"

definition v_node_hash :: "hash \<Rightarrow> hash \<Rightarrow> hash" where
  "v_node_hash left right =
     (let h = VSha384_new; h = VSha384_update h [0x01]; h = VSha384_update h (as_bytes left);
          h = VSha384_update h (as_bytes right) in VSha384_finish h)"

text \<open>The split point is found by the loop the store's tree has too.\<close>

function root_of :: "hash list \<Rightarrow> hash" where
  "root_of ls =
     (if length ls = 0 then v_empty_root
      else if length ls = 1 then ls ! 0
      else
        let k = split_loop 1 (length ls)
        in v_node_hash (root_of (take k ls)) (root_of (drop k ls)))"
  by pat_completeness auto
termination
  by (relation "measure length")
     (auto intro!: split_shrinks [unfolded split_def One_nat_def] two_le_length simp del: length_take length_drop)

declare root_of.simps [simp del]

lemma v_leaf [simp]: "v_leaf_hash data = leaf_hash data"
  using v_finish_updates [of "[[0x00], data]"] streaming_digest [of "[[0x00], data]"]
  by (simp add: v_leaf_hash_def leaf_hash_def LEAF_PREFIX_def Let_def)

lemma v_node: "v_node_hash l r = node_hash l r"
  using v_finish_updates [of "[[0x01], as_bytes l, as_bytes r]"] streaming_digest [of "[[0x01], as_bytes l, as_bytes r]"]
  by (simp add: v_node_hash_def node_hash_def NODE_PREFIX_def Let_def)

lemma v_empty: "v_empty_root = empty_root"
  using v_finish_updates [of "[[]]"] by (simp add: v_empty_root_def empty_root_def VSha384_digest_def)

lemma root_of_mth [simp]: "root_of ls = mth ls"
proof (induction ls rule: root_of.induct)
  case (1 ls)
  then show ?case by (simp add: root_of.simps [of ls] mth.simps [of ls] v_node v_empty split_def Let_def)
qed

subsection \<open>Properties\<close>

text \<open>
  C24. The store and its verifier agree on arithmetic. The verifier's own hasher, fed a message in any
  pieces, gives the digest the store's hasher gives when fed the message in any other pieces, and
  its own Merkle root over any leaves is the store's.
\<close>

theorem verifier_hash_agrees:
  "(concat chunks = concat chunks' \<longrightarrow>
      VSha384_finish (foldl VSha384_update VSha384_new chunks) =
      Sha384_finish (foldl Sha384_update Sha384_new chunks')) \<and>
   root_of ls = root (from_leaf_hashes ls)"
  by (auto simp: v_finish_updates streaming_digest root_def from_leaf_hashes_def)

theorem verifier_hash_agrees_witness:
  "concat [[1, 2], [3]] = concat [[1], [2, 3::u8]] \<and>
   VSha384_finish (foldl VSha384_update VSha384_new [[1, 2], [3]]) =
   Sha384_finish (foldl Sha384_update Sha384_new [[1], [2, 3]])"
  using verifier_hash_agrees [of "[[1, 2], [3]]" "[[1], [2, 3]]"] by simp

end
