(* ===== verification/Pack.thy ===== *)
theory Pack
  imports Cold Signing
begin

text \<open>
  The evidence pack: the writer in \<open>crates/trailryx-store/src/evidence.rs\<close> and the verifier's own
  reader in \<open>crates/trailryx-verify/src/pack.rs\<close>. The two share a format and no code.

  The results: the reader reads every pack the writer builds, within the reader's bound on a
  section, as exactly what was put in; a pack that was read spells no shard, segment, record set or
  anchor twice; and what the format nevertheless lets pass: bytes after the end, and a header or a
  signature repeated.
\<close>

subsection \<open>The writer\<close>

definition PACK_MAGIC :: bytes where
  "PACK_MAGIC = ascii ''TRXEVID''"

definition PACK_VERSION :: u8 where
  "PACK_VERSION = 3"

definition SECTION_END :: u8 where "SECTION_END = 0"

definition SECTION_HEADER :: u8 where "SECTION_HEADER = 1"

definition SECTION_SHARD :: u8 where "SECTION_SHARD = 2"

definition SECTION_SEGMENT :: u8 where "SECTION_SEGMENT = 3"

definition SECTION_RECORDS :: u8 where "SECTION_RECORDS = 4"

definition SECTION_SIGNATURE :: u8 where "SECTION_SIGNATURE = 5"

definition SECTION_WITNESS :: u8 where "SECTION_WITNESS = 6"

definition SECTION_ANCHOR :: u8 where "SECTION_ANCHOR = 7"

definition ANCHOR_TSP :: u8 where "ANCHOR_TSP = 1"

record AnchorPart =
  ap_kind :: u8
  ap_authority :: str
  ap_algorithm :: str
  ap_root :: hash
  ap_challenge :: bytes
  ap_evidence :: bytes

record ShardPart =
  sp_shard :: ShardIx
  sp_root :: hash
  sp_segments :: "(SegmentManifest \<times> bytes list) list"

record PackBuilder =
  pb_tenant :: TenantId
  pb_generated_at :: Timestamp
  pb_signature :: "RootSignature option"
  pb_witnesses :: "WitnessAttestation list"
  pb_anchors :: "AnchorPart list"
  pb_shards :: "ShardPart list"

definition PackBuilder_new :: "TenantId \<Rightarrow> Timestamp \<Rightarrow> PackBuilder" where
  "PackBuilder_new tn generated_at =
     \<lparr>pb_tenant = tn, pb_generated_at = generated_at, pb_signature = None, pb_witnesses = [],
      pb_anchors = [], pb_shards = []\<rparr>"

definition signed_with :: "RootSignature \<Rightarrow> PackBuilder \<Rightarrow> PackBuilder" where
  "signed_with signature b = b\<lparr>pb_signature := Some signature\<rparr>"

definition witnessed_by :: "WitnessAttestation \<Rightarrow> PackBuilder \<Rightarrow> PackBuilder" where
  "witnessed_by attestation b = b\<lparr>pb_witnesses := pb_witnesses b @ [attestation]\<rparr>"

definition anchored :: "u8 \<Rightarrow> str \<Rightarrow> str \<Rightarrow> hash \<Rightarrow> bytes \<Rightarrow> bytes \<Rightarrow> PackBuilder \<Rightarrow> PackBuilder" where
  "anchored kind authority algorithm rt challenge evidence b =
     b\<lparr>pb_anchors := pb_anchors b @ [\<lparr>ap_kind = kind, ap_authority = authority, ap_algorithm = algorithm,
        ap_root = rt, ap_challenge = challenge, ap_evidence = evidence\<rparr>]\<rparr>"

definition anchored_by :: "str \<Rightarrow> hash \<Rightarrow> u64 \<Rightarrow> bytes \<Rightarrow> PackBuilder \<Rightarrow> PackBuilder" where
  "anchored_by authority rt nonce token b = anchored ANCHOR_TSP authority [] rt (to_be_bytes nonce) token b"

definition add_shard :: "ShardTree \<Rightarrow> Segment list \<Rightarrow> PackBuilder \<Rightarrow> PackBuilder" where
  "add_shard tree segments b =
     b\<lparr>pb_shards := pb_shards b @ [\<lparr>sp_shard = st_shard tree, sp_root = ShardTree_root tree,
        sp_segments = map (\<lambda>s. (sg_manifest s, map encode_record (sg_records s))) segments\<rparr>]\<rparr>"

definition put_section :: "u8 \<Rightarrow> bytes \<Rightarrow> bytes" where
  "put_section kind body = [kind] @ to_be_bytes (of_nat (length body) :: u64) @ body"

definition pack_algorithms :: "PackBuilder \<Rightarrow> bytes" where
  "pack_algorithms b =
     (case pb_shards b of
        [] \<Rightarrow> [1, 1, 1]
      | s # _ \<Rightarrow> (case sp_segments s of [] \<Rightarrow> [1, 1, 1] | (m, _) # _ \<Rightarrow> algorithm_code (m_algorithms m)))"

definition put_header :: "PackBuilder \<Rightarrow> StoreTree \<Rightarrow> bytes" where
  "put_header b store =
     pk_put_str (pb_tenant b) @ to_be_bytes (pb_generated_at b) @ as_bytes (store_root store) @
     to_be_bytes (of_nat (length (pb_shards b)) :: u32) @ pack_algorithms b"

definition put_signature :: "RootSignature \<Rightarrow> bytes" where
  "put_signature s =
     pk_put_str (SigAlg_as_str (rs_algorithm s)) @ pk_put_bytes (rs_public_key s) @ pk_put_bytes (rs_signature s)"

definition put_witness :: "WitnessAttestation \<Rightarrow> bytes" where
  "put_witness a =
     pk_put_str (wa_witness a) @ to_be_bytes (wa_seen_at a) @ pk_put_str (SigAlg_as_str (wa_algorithm a)) @
     pk_put_bytes (wa_public_key a) @ pk_put_bytes (wa_signature a)"

definition put_anchor :: "AnchorPart \<Rightarrow> bytes" where
  "put_anchor a =
     [ap_kind a] @ pk_put_str (ap_authority a) @ pk_put_str (ap_algorithm a) @ as_bytes (ap_root a) @
     pk_put_bytes (ap_challenge a) @ pk_put_bytes (ap_evidence a)"

definition put_shard :: "ShardPart \<Rightarrow> bytes" where
  "put_shard s =
     to_be_bytes (sp_shard s) @ to_be_bytes (of_nat (length (sp_segments s)) :: u32) @ as_bytes (sp_root s)"

definition put_records :: "SegmentManifest \<times> bytes list \<Rightarrow> bytes" where
  "put_records mr =
     to_be_bytes (m_shard (fst mr)) @ to_be_bytes (m_segment (fst mr)) @
     to_be_bytes (of_nat (length (snd mr)) :: u64) @ concat (map pk_put_bytes (snd mr))"

text \<open>The sections of a pack, in the order \<open>build\<close> writes them.\<close>

definition pack_sections :: "PackBuilder \<Rightarrow> StoreTree \<Rightarrow> (u8 \<times> bytes) list" where
  "pack_sections b store =
     [(SECTION_HEADER, put_header b store)] @
     (case pb_signature b of None \<Rightarrow> [] | Some s \<Rightarrow> [(SECTION_SIGNATURE, put_signature s)]) @
     map (\<lambda>a. (SECTION_WITNESS, put_witness a)) (pb_witnesses b) @
     map (\<lambda>a. (SECTION_ANCHOR, put_anchor a)) (pb_anchors b) @
     map (\<lambda>s. (SECTION_SHARD, put_shard s)) (pb_shards b) @
     concat (map (\<lambda>s. concat (map (\<lambda>mr.
        [(SECTION_SEGMENT, encode_manifest (fst mr)), (SECTION_RECORDS, put_records mr)]) (sp_segments s))) (pb_shards b))"

definition build_pack :: "PackBuilder \<Rightarrow> StoreTree \<Rightarrow> bytes" where
  "build_pack b store =
     PACK_MAGIC @ [PACK_VERSION] @ concat (map (\<lambda>(k, body). put_section k body) (pack_sections b store)) @ [SECTION_END]"

subsection \<open>The reader\<close>

datatype PackError =
    PkBadMagic
  | PkUnknownVersion u8
  | PkTruncated string
  | PkUnknownSection u8
  | PkTooMany string
  | PkNotUtf8 string
  | PkSectionOverrun string
  | PkMissing string
  | PkDuplicate string u16 u64

definition MIN_PACK_VERSION :: u8 where
  "MIN_PACK_VERSION = 2"

definition MAX_ITEMS :: u64 where
  "MAX_ITEMS = 100000000"

type_synonym 'a pk = "bytes \<Rightarrow> PackError + 'a \<times> bytes"

definition pk_return :: "'a \<Rightarrow> 'a pk" where
  "pk_return x bs = Inr (x, bs)"

definition pk_then :: "'a pk \<Rightarrow> ('a \<Rightarrow> 'b pk) \<Rightarrow> 'b pk" where
  "pk_then g f bs = bind_res (g bs) (\<lambda>(x, rest). f x rest)"

definition pk_take :: "nat \<Rightarrow> string \<Rightarrow> bytes pk" where
  "pk_take n what bs = (if length bs < n then Inl (PkTruncated what) else Inr (take n bs, drop n bs))"

definition pk_u8 :: "string \<Rightarrow> u8 pk" where
  "pk_u8 what = pk_then (pk_take 1 what) (\<lambda>b. pk_return (b ! 0))"

definition pk_u16 :: "string \<Rightarrow> u16 pk" where
  "pk_u16 what = pk_then (pk_take 2 what) (\<lambda>b. pk_return (from_be_bytes b))"

definition pk_u32 :: "string \<Rightarrow> u32 pk" where
  "pk_u32 what = pk_then (pk_take 4 what) (\<lambda>b. pk_return (from_be_bytes b))"

definition pk_u64 :: "string \<Rightarrow> u64 pk" where
  "pk_u64 what = pk_then (pk_take 8 what) (\<lambda>b. pk_return (from_be_bytes b))"

definition pk_hash :: "string \<Rightarrow> hash pk" where
  "pk_hash what = pk_then (pk_take 48 what) (\<lambda>b. pk_return (Hash_of_bytes b))"

definition pk_bytes :: "string \<Rightarrow> bytes pk" where
  "pk_bytes what = pk_then (pk_u32 what) (\<lambda>len. pk_take (unat len) what)"

definition pk_string :: "string \<Rightarrow> str pk" where
  "pk_string what = pk_then (pk_bytes what) (\<lambda>b rest. if utf8_valid b then Inr (b, rest) else Inl (PkNotUtf8 what))"

definition pk_count :: "string \<Rightarrow> nat pk" where
  "pk_count what = pk_then (pk_u64 what) (\<lambda>n rest. if MAX_ITEMS < n then Inl (PkTooMany what) else Inr (unat n, rest))"

primrec pk_repeat :: "nat \<Rightarrow> 'a pk \<Rightarrow> 'a list pk" where
  "pk_repeat 0 g = pk_return []"
| "pk_repeat (Suc n) g = pk_then g (\<lambda>x. pk_then (pk_repeat n g) (\<lambda>xs. pk_return (x # xs)))"

record VHeader =
  vh_tenant :: str
  vh_generated_at :: u64
  vh_store_root :: hash
  vh_shard_count :: u32
  vh_algorithms :: bytes

record VSignature =
  vs_algorithm :: str
  vs_public_key :: bytes
  vs_signature :: bytes

record VWitness =
  vw_witness :: str
  vw_seen_at :: u64
  vw_algorithm :: str
  vw_public_key :: bytes
  vw_signature :: bytes

datatype AnchorKind = Tsp | TransparencyLog | SignedArtifact | UnknownKind u8

definition from_code :: "u8 \<Rightarrow> AnchorKind" where
  "from_code c = (if c = 1 then Tsp else if c = 2 then TransparencyLog else if c = 3 then SignedArtifact else UnknownKind c)"

primrec kind_code :: "AnchorKind \<Rightarrow> u8" where
  "kind_code Tsp = 1"
| "kind_code TransparencyLog = 2"
| "kind_code SignedArtifact = 3"
| "kind_code (UnknownKind c) = c"

record VAnchor =
  va_kind :: AnchorKind
  va_authority :: str
  va_algorithm :: str
  va_root :: hash
  va_challenge :: bytes
  va_evidence :: bytes

definition va_nonce :: "VAnchor \<Rightarrow> u64 option" where
  "va_nonce a = (if length (va_challenge a) = 8 then Some (from_be_bytes (va_challenge a)) else None)"

record VShard =
  vd_shard :: u16
  vd_segment_count :: u32
  vd_root :: hash

record VSegment =
  vg_format_version :: u16
  vg_segment :: u64
  vg_shard :: u16
  vg_records :: u64
  vg_history_root :: hash
  vg_index_roots :: "(str \<times> hash) list"
  vg_chain_before :: hash
  vg_chain_after :: hash
  vg_first_recorded_at :: u64
  vg_last_recorded_at :: u64
  vg_algorithms :: bytes

record RecordSet =
  rs_shard :: u16
  rs_segment :: u64
  rs_records :: "bytes list"

record Pack =
  pk_header :: VHeader
  pk_signature :: "VSignature option"
  pk_witnesses :: "VWitness list"
  pk_anchors :: "VAnchor list"
  pk_shards :: "VShard list"
  pk_segments :: "VSegment list"
  pk_record_sets :: "RecordSet list"

definition parse_algorithms :: "bytes pk" where
  "parse_algorithms =
     pk_then (pk_u8 ''the hash algorithm'') (\<lambda>a.
     pk_then (pk_u8 ''the signature algorithm'') (\<lambda>b.
     pk_then (pk_u8 ''the KEM algorithm'') (\<lambda>c.
     pk_return [a, b, c])))"

definition parse_header :: "VHeader pk" where
  "parse_header =
     pk_then (pk_string ''the tenant'') (\<lambda>tn.
     pk_then (pk_u64 ''the timestamp'') (\<lambda>generated_at.
     pk_then (pk_hash ''the store root'') (\<lambda>rt.
     pk_then (pk_u32 ''the shard count'') (\<lambda>n.
     pk_then parse_algorithms (\<lambda>algorithms.
     pk_return \<lparr>vh_tenant = tn, vh_generated_at = generated_at, vh_store_root = rt, vh_shard_count = n,
       vh_algorithms = algorithms\<rparr>)))))"

definition parse_signature :: "VSignature pk" where
  "parse_signature =
     pk_then (pk_string ''a signature algorithm'') (\<lambda>algorithm.
     pk_then (pk_bytes ''a public key'') (\<lambda>public_key.
     pk_then (pk_bytes ''a signature'') (\<lambda>signature.
     pk_return \<lparr>vs_algorithm = algorithm, vs_public_key = public_key, vs_signature = signature\<rparr>)))"

definition parse_witness :: "VWitness pk" where
  "parse_witness =
     pk_then (pk_string ''a witness name'') (\<lambda>witness.
     pk_then (pk_u64 ''a witness timestamp'') (\<lambda>seen_at.
     pk_then (pk_string ''a signature algorithm'') (\<lambda>algorithm.
     pk_then (pk_bytes ''a public key'') (\<lambda>public_key.
     pk_then (pk_bytes ''a signature'') (\<lambda>signature.
     pk_return \<lparr>vw_witness = witness, vw_seen_at = seen_at, vw_algorithm = algorithm,
       vw_public_key = public_key, vw_signature = signature\<rparr>)))))"

definition parse_anchor :: "VAnchor pk" where
  "parse_anchor =
     pk_then (pk_u8 ''an anchor kind'') (\<lambda>kind.
     pk_then (pk_string ''an anchor authority'') (\<lambda>authority.
     pk_then (pk_string ''an anchor algorithm'') (\<lambda>algorithm.
     pk_then (pk_hash ''an anchored root'') (\<lambda>rt.
     pk_then (pk_bytes ''an anchor challenge'') (\<lambda>challenge.
     pk_then (pk_bytes ''anchor evidence'') (\<lambda>evidence.
     pk_return \<lparr>va_kind = from_code kind, va_authority = authority, va_algorithm = algorithm,
       va_root = rt, va_challenge = challenge, va_evidence = evidence\<rparr>))))))"

definition parse_shard :: "VShard pk" where
  "parse_shard =
     pk_then (pk_u16 ''a shard index'') (\<lambda>shard.
     pk_then (pk_u32 ''a segment count'') (\<lambda>n.
     pk_then (pk_hash ''a shard root'') (\<lambda>rt.
     pk_return \<lparr>vd_shard = shard, vd_segment_count = n, vd_root = rt\<rparr>)))"

definition parse_index_root :: "(str \<times> hash) pk" where
  "parse_index_root =
     pk_then (pk_string ''a dimension name'') (\<lambda>name.
     pk_then (pk_hash ''an index root'') (\<lambda>rt. pk_return (name, rt)))"

definition parse_segment :: "VSegment pk" where
  "parse_segment =
     pk_then (pk_u16 ''a format version'') (\<lambda>format_version.
     pk_then (pk_u64 ''a segment id'') (\<lambda>segment.
     pk_then (pk_u16 ''a shard index'') (\<lambda>shard.
     pk_then (pk_u64 ''a record count'') (\<lambda>records.
     pk_then (pk_hash ''a history root'') (\<lambda>history.
     pk_then (pk_hash ''a chain head'') (\<lambda>before.
     pk_then (pk_hash ''a chain head'') (\<lambda>after.
     pk_then (pk_count ''an index-root count'') (\<lambda>n.
     pk_then (pk_repeat n parse_index_root) (\<lambda>roots.
     pk_then (pk_u64 ''a first timestamp'') (\<lambda>first.
     pk_then (pk_u64 ''a last timestamp'') (\<lambda>lst.
     pk_then parse_algorithms (\<lambda>algorithms.
     pk_return \<lparr>vg_format_version = format_version, vg_segment = segment, vg_shard = shard,
       vg_records = records, vg_history_root = history, vg_index_roots = roots, vg_chain_before = before,
       vg_chain_after = after, vg_first_recorded_at = first, vg_last_recorded_at = lst,
       vg_algorithms = algorithms\<rparr>))))))))))))"

definition parse_records :: "RecordSet pk" where
  "parse_records =
     pk_then (pk_u16 ''a shard index'') (\<lambda>shard.
     pk_then (pk_u64 ''a segment id'') (\<lambda>segment.
     pk_then (pk_count ''a record count'') (\<lambda>n.
     pk_then (pk_repeat n (pk_bytes ''a record body'')) (\<lambda>records.
     pk_return \<lparr>rs_shard = shard, rs_segment = segment, rs_records = records\<rparr>))))"

text \<open>What the loop over the sections has gathered.\<close>

record Gathered =
  ga_header :: "VHeader option"
  ga_signature :: "VSignature option"
  ga_witnesses :: "VWitness list"
  ga_anchors :: "VAnchor list"
  ga_shards :: "VShard list"
  ga_segments :: "VSegment list"
  ga_record_sets :: "RecordSet list"

definition Gathered_empty :: Gathered where
  "Gathered_empty = \<lparr>ga_header = None, ga_signature = None, ga_witnesses = [], ga_anchors = [],
     ga_shards = [], ga_segments = [], ga_record_sets = []\<rparr>"

definition same_segment :: "VSegment \<Rightarrow> VSegment \<Rightarrow> bool" where
  "same_segment d s \<longleftrightarrow> vg_shard d = vg_shard s \<and> vg_segment d = vg_segment s"

definition same_set :: "RecordSet \<Rightarrow> RecordSet \<Rightarrow> bool" where
  "same_set d s \<longleftrightarrow> rs_shard d = rs_shard s \<and> rs_segment d = rs_segment s"

definition same_anchor :: "VAnchor \<Rightarrow> VAnchor \<Rightarrow> bool" where
  "same_anchor a b \<longleftrightarrow>
     va_authority a = va_authority b \<and> va_kind a = va_kind b \<and> va_challenge a = va_challenge b"

text \<open>One section: its parser, what it must not repeat, and that nothing of its body is left.\<close>

definition whole :: "(Gathered \<times> bytes) \<Rightarrow> PackError + Gathered" where
  "whole gr = (if snd gr \<noteq> [] then Inl (PkSectionOverrun ''a section'') else Inr (fst gr))"

definition read_section :: "u8 \<Rightarrow> bytes \<Rightarrow> Gathered \<Rightarrow> PackError + Gathered" where
  "read_section kind body g =
     (if kind = SECTION_HEADER then
        bind_res (parse_header body) (\<lambda>(h, r). whole (g\<lparr>ga_header := Some h\<rparr>, r))
      else if kind = SECTION_SHARD then
        bind_res (parse_shard body) (\<lambda>(s, r).
          if \<exists>d \<in> set (ga_shards g). vd_shard d = vd_shard s
          then Inl (PkDuplicate ''shard manifests'' (vd_shard s) 0)
          else whole (g\<lparr>ga_shards := ga_shards g @ [s]\<rparr>, r))
      else if kind = SECTION_SEGMENT then
        bind_res (parse_segment body) (\<lambda>(s, r).
          if \<exists>d \<in> set (ga_segments g). same_segment d s
          then Inl (PkDuplicate ''segment manifests'' (vg_shard s) (vg_segment s))
          else whole (g\<lparr>ga_segments := ga_segments g @ [s]\<rparr>, r))
      else if kind = SECTION_RECORDS then
        bind_res (parse_records body) (\<lambda>(s, r).
          if \<exists>d \<in> set (ga_record_sets g). same_set d s
          then Inl (PkDuplicate ''record sets'' (rs_shard s) (rs_segment s))
          else whole (g\<lparr>ga_record_sets := ga_record_sets g @ [s]\<rparr>, r))
      else if kind = SECTION_SIGNATURE then
        bind_res (parse_signature body) (\<lambda>(s, r). whole (g\<lparr>ga_signature := Some s\<rparr>, r))
      else if kind = SECTION_WITNESS then
        bind_res (parse_witness body) (\<lambda>(w, r). whole (g\<lparr>ga_witnesses := ga_witnesses g @ [w]\<rparr>, r))
      else if kind = SECTION_ANCHOR then
        bind_res (parse_anchor body) (\<lambda>(a, r).
          if \<exists>d \<in> set (ga_anchors g). same_anchor d a
          then Inl (PkDuplicate ''an anchor from one party of one kind under one challenge'' 0
                 (case va_nonce a of None \<Rightarrow> 0 | Some n \<Rightarrow> n))
          else whole (g\<lparr>ga_anchors := ga_anchors g @ [a]\<rparr>, r))
      else Inl (PkUnknownSection kind))"

text \<open>A section's frame: its kind, its declared length, its body.\<close>

definition section_frame :: "(u8 \<times> bytes option) pk" where
  "section_frame =
     pk_then (pk_u8 ''a section kind'') (\<lambda>kind.
       if kind = SECTION_END then pk_return (kind, None)
       else pk_then (pk_count ''a section length'') (\<lambda>len.
            pk_then (pk_take len ''a section body'') (\<lambda>body. pk_return (kind, Some body))))"

lemma pk_then_Inr: "pk_then g f bs = Inr (y, r) \<longleftrightarrow> (\<exists>x q. g bs = Inr (x, q) \<and> f x q = Inr (y, r))"
  by (auto simp: pk_then_def bind_res_Inr_iff)

lemma pk_return_Inr [simp]: "pk_return x bs = Inr (y, r) \<longleftrightarrow> y = x \<and> bs = r"
  by (auto simp: pk_return_def)

lemma pk_take_Inr: "pk_take n what bs = Inr (x, r) \<longleftrightarrow> length x = n \<and> bs = x @ r"
  by (auto simp: pk_take_def)

lemma section_frame_shrinks: "section_frame bs = Inr (kb, r) \<Longrightarrow> length r < length bs"
  by (auto simp: section_frame_def pk_u8_def pk_count_def pk_u64_def pk_then_Inr pk_take_Inr split: if_splits)

function parse_loop :: "Gathered \<Rightarrow> bytes \<Rightarrow> PackError + Gathered" where
  "parse_loop g bs =
     (case section_frame bs of
        Inl e \<Rightarrow> Inl e
      | Inr ((kind, None), _) \<Rightarrow> Inr g
      | Inr ((kind, Some body), rest) \<Rightarrow>
          (case read_section kind body g of
             Inl e \<Rightarrow> Inl e
           | Inr g \<Rightarrow> parse_loop g rest))"
  by pat_completeness auto
termination
  by (relation "measure (\<lambda>(g, bs). length bs)") (auto dest: section_frame_shrinks)

declare parse_loop.simps [simp del]

definition Pack_parse :: "bytes \<Rightarrow> PackError + Pack" where
  "Pack_parse bytes =
     bind_res (pk_take (length PACK_MAGIC) ''the magic'' bytes) (\<lambda>(magic, r).
       if magic \<noteq> PACK_MAGIC then Inl PkBadMagic
       else bind_res (pk_u8 ''the version'' r) (\<lambda>(version, r).
         if \<not> (MIN_PACK_VERSION \<le> version \<and> version \<le> PACK_VERSION) then Inl (PkUnknownVersion version)
         else bind_res (parse_loop Gathered_empty r) (\<lambda>g.
           case ga_header g of
             None \<Rightarrow> Inl (PkMissing ''header'')
           | Some h \<Rightarrow> Inr \<lparr>pk_header = h, pk_signature = ga_signature g, pk_witnesses = ga_witnesses g,
                pk_anchors = ga_anchors g, pk_shards = ga_shards g, pk_segments = ga_segments g,
                pk_record_sets = ga_record_sets g\<rparr>)))"

definition records_for :: "Pack \<Rightarrow> u16 \<Rightarrow> u64 \<Rightarrow> RecordSet option" where
  "records_for p shard segment = find (\<lambda>s. rs_shard s = shard \<and> rs_segment s = segment) (pk_record_sets p)"

subsection \<open>The reader reads what the writer writes\<close>

lemma pk_u8_Inr: "pk_u8 what bs = Inr (x, r) \<longleftrightarrow> bs = x # r"
proof -
  have "pk_u8 what bs = Inr (x, r) \<longleftrightarrow> (\<exists>b. length b = 1 \<and> b ! 0 = x \<and> bs = b @ r)"
    by (auto simp: pk_u8_def pk_then_Inr pk_take_Inr)
  then show ?thesis by (auto simp: length_Suc_conv)
qed

lemma pk_u16_Inr: "pk_u16 what bs = Inr (x, r) \<longleftrightarrow> bs = to_be_bytes x @ r"
  using be_reads [of bs r x] by (auto simp: pk_u16_def pk_then_Inr pk_take_Inr)

lemma pk_u32_Inr: "pk_u32 what bs = Inr (x, r) \<longleftrightarrow> bs = to_be_bytes x @ r"
  using be_reads [of bs r x] by (auto simp: pk_u32_def pk_then_Inr pk_take_Inr)

lemma pk_u64_Inr: "pk_u64 what bs = Inr (x, r) \<longleftrightarrow> bs = to_be_bytes x @ r"
  using be_reads [of bs r x] by (auto simp: pk_u64_def pk_then_Inr pk_take_Inr)

lemma pk_hash_Inr: "pk_hash what bs = Inr (x, r) \<longleftrightarrow> bs = as_bytes x @ r"
proof -
  have "pk_hash what bs = Inr (x, r) \<longleftrightarrow> (\<exists>b. length b = 48 \<and> bs = b @ r \<and> x = Hash_of_bytes b)"
    by (auto simp: pk_hash_def pk_then_Inr pk_take_Inr)
  then show ?thesis by (auto simp: as_bytes_Hash_of_bytes intro: exI [of _ "as_bytes x"])
qed

lemma pk_bytes_Inr: "pk_bytes what bs = Inr (x, r) \<longleftrightarrow> length x < 2 ^ 32 \<and> bs = pk_put_bytes x @ r"
proof
  assume "pk_bytes what bs = Inr (x, r)"
  then obtain len q where l: "bs = to_be_bytes (len :: u32) @ q" "length x = unat len" "q = x @ r"
    by (auto simp: pk_bytes_def pk_then_Inr pk_u32_Inr pk_take_Inr)
  then have "of_nat (length x) = len" by simp
  moreover have "unat len < 2 ^ 32" by (rule order.strict_trans2 [OF unsigned_less]) simp
  ultimately show "length x < 2 ^ 32 \<and> bs = pk_put_bytes x @ r" using l by (simp add: pk_put_bytes_def)
next
  assume x: "length x < 2 ^ 32 \<and> bs = pk_put_bytes x @ r"
  then have "length x = unat (of_nat (length x) :: u32)" by (simp add: unat_of_nat)
  with x show "pk_bytes what bs = Inr (x, r)"
    by (auto simp: pk_bytes_def pk_then_Inr pk_u32_Inr pk_take_Inr pk_put_bytes_def)
qed

lemma pk_string_Inr:
  "pk_string what bs = Inr (x, r) \<longleftrightarrow> utf8_valid x \<and> length x < 2 ^ 32 \<and> bs = pk_put_str x @ r"
  by (auto simp: pk_string_def pk_then_Inr pk_bytes_Inr pk_put_str_def)

lemma MAX_ITEMS_nat: "n \<le> 100000000 \<Longrightarrow> unat (of_nat n :: u64) = n"
  by (rule unat_of_nat_u64) simp

lemma pk_count_Inr:
  "pk_count what bs = Inr (n, r) \<longleftrightarrow> n \<le> 100000000 \<and> bs = to_be_bytes (of_nat n :: u64) @ r"
proof
  assume "pk_count what bs = Inr (n, r)"
  then obtain c where "bs = to_be_bytes (c :: u64) @ r" "\<not> MAX_ITEMS < c" "n = unat c"
    by (auto simp: pk_count_def pk_then_Inr pk_u64_Inr split: if_splits)
  then show "n \<le> 100000000 \<and> bs = to_be_bytes (of_nat n :: u64) @ r"
    by (simp add: MAX_ITEMS_def word_less_nat_alt)
next
  assume n: "n \<le> 100000000 \<and> bs = to_be_bytes (of_nat n :: u64) @ r"
  then have "unat (of_nat n :: u64) = n" using MAX_ITEMS_nat by simp
  with n show "pk_count what bs = Inr (n, r)"
    by (auto simp: pk_count_def pk_then_Inr pk_u64_Inr MAX_ITEMS_def word_less_nat_alt intro!: exI [of _ "of_nat n"])
qed

lemma pk_repeat_Inr:
  assumes "\<And>bs x r. g bs = Inr (x, r) \<longleftrightarrow> ok x \<and> bs = put x @ r"
  shows "pk_repeat n g bs = Inr (xs, r) \<longleftrightarrow> length xs = n \<and> list_all ok xs \<and> bs = concat (map put xs) @ r"
proof (induction n arbitrary: bs xs)
  case (Suc n)
  show ?case by (cases xs) (auto simp: pk_then_Inr assms Suc)
qed auto

lemma parse_algorithms_Inr: "parse_algorithms bs = Inr (a, r) \<longleftrightarrow> length a = 3 \<and> bs = a @ r"
  by (auto simp: parse_algorithms_def pk_then_Inr pk_u8_Inr numeral_3_eq_3 length_Suc_conv)

definition put_index_root :: "str \<times> hash \<Rightarrow> bytes" where
  "put_index_root nr = pk_put_str (fst nr) @ as_bytes (snd nr)"

definition name_ok :: "str \<Rightarrow> bool" where
  "name_ok x \<longleftrightarrow> utf8_valid x \<and> length x < 2 ^ 32"

lemma parse_index_root_Inr:
  "parse_index_root bs = Inr (nr, r) \<longleftrightarrow> name_ok (fst nr) \<and> bs = put_index_root nr @ r"
  by (cases nr) (auto simp: parse_index_root_def pk_then_Inr pk_string_Inr pk_hash_Inr put_index_root_def name_ok_def)

definition put_vsegment :: "VSegment \<Rightarrow> bytes" where
  "put_vsegment s =
     to_be_bytes (vg_format_version s) @ to_be_bytes (vg_segment s) @ to_be_bytes (vg_shard s) @
     to_be_bytes (vg_records s) @ as_bytes (vg_history_root s) @ as_bytes (vg_chain_before s) @
     as_bytes (vg_chain_after s) @ to_be_bytes (of_nat (length (vg_index_roots s)) :: u64) @
     concat (map put_index_root (vg_index_roots s)) @
     to_be_bytes (vg_first_recorded_at s) @ to_be_bytes (vg_last_recorded_at s) @ vg_algorithms s"

definition vsegment_ok :: "VSegment \<Rightarrow> bool" where
  "vsegment_ok s \<longleftrightarrow> length (vg_index_roots s) \<le> 100000000 \<and> list_all (name_ok \<circ> fst) (vg_index_roots s) \<and>
     length (vg_algorithms s) = 3"

lemma parse_segment_Inr: "parse_segment bs = Inr (s, r) \<longleftrightarrow> vsegment_ok s \<and> bs = put_vsegment s @ r"
  unfolding parse_segment_def pk_then_Inr pk_u16_Inr pk_u64_Inr pk_hash_Inr pk_count_Inr
    pk_repeat_Inr [OF parse_index_root_Inr] parse_algorithms_Inr pk_return_Inr
  by (cases s) (fastforce simp: put_vsegment_def vsegment_ok_def list_all_iff)

definition put_vset :: "RecordSet \<Rightarrow> bytes" where
  "put_vset s = to_be_bytes (rs_shard s) @ to_be_bytes (rs_segment s) @
     to_be_bytes (of_nat (length (rs_records s)) :: u64) @ concat (map pk_put_bytes (rs_records s))"

definition set_ok :: "RecordSet \<Rightarrow> bool" where
  "set_ok s \<longleftrightarrow> length (rs_records s) \<le> 100000000 \<and> list_all (\<lambda>b. length b < 2 ^ 32) (rs_records s)"

lemma parse_records_Inr: "parse_records bs = Inr (s, r) \<longleftrightarrow> set_ok s \<and> bs = put_vset s @ r"
  unfolding parse_records_def pk_then_Inr pk_u16_Inr pk_u64_Inr pk_count_Inr
    pk_repeat_Inr [OF pk_bytes_Inr] pk_return_Inr
  by (cases s) (fastforce simp: put_vset_def set_ok_def)

lemmas pk_iffs = pk_then_Inr pk_u8_Inr pk_u16_Inr pk_u32_Inr pk_u64_Inr pk_hash_Inr pk_bytes_Inr pk_string_Inr
  pk_return_Inr parse_algorithms_Inr

lemma parse_header_Inr:
  "parse_header bs = Inr (h, r) \<longleftrightarrow> name_ok (vh_tenant h) \<and> length (vh_algorithms h) = 3 \<and>
     bs = pk_put_str (vh_tenant h) @ to_be_bytes (vh_generated_at h) @ as_bytes (vh_store_root h) @
       to_be_bytes (vh_shard_count h) @ vh_algorithms h @ r"
  unfolding parse_header_def pk_iffs by (cases h) (fastforce simp: name_ok_def)

lemma parse_shard_Inr:
  "parse_shard bs = Inr (s, r) \<longleftrightarrow>
     bs = to_be_bytes (vd_shard s) @ to_be_bytes (vd_segment_count s) @ as_bytes (vd_root s) @ r"
  unfolding parse_shard_def pk_iffs by (cases s) fastforce

lemma parse_signature_Inr:
  "parse_signature bs = Inr (s, r) \<longleftrightarrow>
     name_ok (vs_algorithm s) \<and> length (vs_public_key s) < 2 ^ 32 \<and> length (vs_signature s) < 2 ^ 32 \<and>
     bs = pk_put_str (vs_algorithm s) @ pk_put_bytes (vs_public_key s) @ pk_put_bytes (vs_signature s) @ r"
  unfolding parse_signature_def pk_iffs by (cases s) (fastforce simp: name_ok_def)

lemma parse_witness_Inr:
  "parse_witness bs = Inr (w, r) \<longleftrightarrow>
     name_ok (vw_witness w) \<and> name_ok (vw_algorithm w) \<and> length (vw_public_key w) < 2 ^ 32 \<and>
     length (vw_signature w) < 2 ^ 32 \<and>
     bs = pk_put_str (vw_witness w) @ to_be_bytes (vw_seen_at w) @ pk_put_str (vw_algorithm w) @
       pk_put_bytes (vw_public_key w) @ pk_put_bytes (vw_signature w) @ r"
  unfolding parse_witness_def pk_iffs by (cases w) (fastforce simp: name_ok_def)

lemma parse_anchor_Inr:
  "parse_anchor bs = Inr (a, r) \<longleftrightarrow> (\<exists>c. va_kind a = from_code c \<and>
     name_ok (va_authority a) \<and> name_ok (va_algorithm a) \<and> length (va_challenge a) < 2 ^ 32 \<and>
     length (va_evidence a) < 2 ^ 32 \<and>
     bs = c # pk_put_str (va_authority a) @ pk_put_str (va_algorithm a) @ as_bytes (va_root a) @
       pk_put_bytes (va_challenge a) @ pk_put_bytes (va_evidence a) @ r)"
  unfolding parse_anchor_def pk_iffs by (cases a) (fastforce simp: name_ok_def)

subsection \<open>The sections of a pack\<close>

fun read_sections :: "(u8 \<times> bytes) list \<Rightarrow> Gathered \<Rightarrow> PackError + Gathered" where
  "read_sections [] g = Inr g"
| "read_sections ((k, body) # ss) g = bind_res (read_section k body g) (read_sections ss)"

abbreviation put_sections :: "(u8 \<times> bytes) list \<Rightarrow> bytes" where
  "put_sections ss \<equiv> concat (map (\<lambda>(k, body). put_section k body) ss)"

definition section_ok :: "u8 \<times> bytes \<Rightarrow> bool" where
  "section_ok kb \<longleftrightarrow> fst kb \<noteq> SECTION_END \<and> length (snd kb) \<le> 100000000"

lemma section_frame_Inr:
  "section_frame bs = Inr ((k, Some body), r) \<longleftrightarrow> section_ok (k, body) \<and> bs = put_section k body @ r"
  "section_frame bs = Inr ((k, None), r) \<longleftrightarrow> k = SECTION_END \<and> bs = SECTION_END # r"
proof -
  have "section_frame bs = Inr ((k, Some body), r) \<longleftrightarrow> k \<noteq> SECTION_END \<and> length body \<le> 100000000 \<and>
      bs = k # to_be_bytes (of_nat (length body) :: u64) @ body @ r"
    by (auto simp: section_frame_def pk_then_Inr pk_u8_Inr pk_count_Inr pk_take_Inr split: if_splits)
  then show "section_frame bs = Inr ((k, Some body), r) \<longleftrightarrow> section_ok (k, body) \<and> bs = put_section k body @ r"
    by (simp add: section_ok_def put_section_def)
  show "section_frame bs = Inr ((k, None), r) \<longleftrightarrow> k = SECTION_END \<and> bs = SECTION_END # r"
    by (auto simp: section_frame_def pk_then_Inr pk_u8_Inr split: if_splits)
qed

lemma parse_loop_simps:
  "section_ok (k, body) \<Longrightarrow> parse_loop g (put_section k body @ rest) = bind_res (read_section k body g) (\<lambda>g. parse_loop g rest)"
  "parse_loop g (SECTION_END # junk) = Inr g"
proof -
  show "parse_loop g (put_section k body @ rest) = bind_res (read_section k body g) (\<lambda>g. parse_loop g rest)"
    if "section_ok (k, body)"
  proof -
    have "section_frame (put_section k body @ rest) = Inr ((k, Some body), rest)" using that by (simp add: section_frame_Inr)
    then show ?thesis by (simp add: parse_loop.simps [of g "put_section k body @ rest"] bind_res_def)
  qed
  have "section_frame (SECTION_END # junk) = Inr ((SECTION_END, None), junk)" by (simp add: section_frame_Inr)
  then show "parse_loop g (SECTION_END # junk) = Inr g" by (simp add: parse_loop.simps [of g "SECTION_END # junk"])
qed

lemma parse_loop_sections:
  "list_all section_ok ss \<Longrightarrow> parse_loop g (put_sections ss @ SECTION_END # junk) = read_sections ss g"
proof (induction ss arbitrary: g)
  case (Cons kb ss)
  obtain k body where kb: "kb = (k, body)" by fastforce
  with Cons.prems have ok: "section_ok (k, body)" by simp
  have "bind_res (read_section k body g) (\<lambda>g. parse_loop g (put_sections ss @ SECTION_END # junk)) =
      bind_res (read_section k body g) (read_sections ss)"
    using Cons by (cases "read_section k body g") simp_all
  then show ?case by (simp add: kb parse_loop_simps(1) [OF ok])
qed (simp add: parse_loop_simps)

lemma parse_loop_Inr:
  "parse_loop g bs = Inr g' \<Longrightarrow>
   \<exists>ss junk. list_all section_ok ss \<and> bs = put_sections ss @ SECTION_END # junk \<and> read_sections ss g = Inr g'"
proof (induction g bs rule: parse_loop.induct)
  case (1 g bs)
  obtain fr where f: "section_frame bs = Inr fr" using "1.prems" by (auto simp: parse_loop.simps [of g bs] split: sum.splits)
  obtain k bo rest where fr: "fr = ((k, bo), rest)" by (metis prod.exhaust)
  show ?case
  proof (cases bo)
    case None
    then have "bs = SECTION_END # rest" "g' = g"
      using "1.prems" f fr by (simp_all add: parse_loop.simps [of g bs] section_frame_Inr)
    then show ?thesis by (intro exI [of _ "[]"] exI [of _ rest]) simp
  next
    case (Some body)
    then obtain g1 where g1: "read_section k body g = Inr g1" "parse_loop g1 rest = Inr g'"
      using "1.prems" f fr by (auto simp: parse_loop.simps [of g bs] split: sum.splits)
    have ok: "section_ok (k, body)" "bs = put_section k body @ rest"
      using f fr Some by (simp_all add: section_frame_Inr)
    from "1.IH" [OF f fr [symmetric] refl Some g1(1) g1(2)] obtain ss junk where
      "list_all section_ok ss" "rest = put_sections ss @ SECTION_END # junk" "read_sections ss g1 = Inr g'" by blast
    then show ?thesis
      using ok g1(1) by (intro exI [of _ "(k, body) # ss"] exI [of _ junk]) simp
  qed
qed

text \<open>What holds of everything gathered.\<close>

definition gathered_ok :: "Gathered \<Rightarrow> bool" where
  "gathered_ok g \<longleftrightarrow>
     distinct (map vd_shard (ga_shards g)) \<and>
     distinct (map (\<lambda>s. (vg_shard s, vg_segment s)) (ga_segments g)) \<and> list_all vsegment_ok (ga_segments g) \<and>
     distinct (map (\<lambda>s. (rs_shard s, rs_segment s)) (ga_record_sets g)) \<and> list_all set_ok (ga_record_sets g) \<and>
     distinct (map (\<lambda>a. (va_authority a, va_kind a, va_challenge a)) (ga_anchors g))"

lemma whole_Nil [simp]: "whole (g, []) = Inr g"
  by (simp add: whole_def)

lemma whole_Inr [simp]: "whole gr = Inr g \<longleftrightarrow> snd gr = [] \<and> g = fst gr"
  by (auto simp: whole_def)

lemma same_keys:
  "(\<exists>d \<in> set ss. vd_shard d = n) \<longleftrightarrow> n \<in> set (map vd_shard ss)"
  "(\<exists>d \<in> set gs. same_segment d s) \<longleftrightarrow> (vg_shard s, vg_segment s) \<in> set (map (\<lambda>s. (vg_shard s, vg_segment s)) gs)"
  "(\<exists>d \<in> set rs. same_set d r) \<longleftrightarrow> (rs_shard r, rs_segment r) \<in> set (map (\<lambda>s. (rs_shard s, rs_segment s)) rs)"
  "(\<exists>d \<in> set as. same_anchor d a) \<longleftrightarrow>
     (va_authority a, va_kind a, va_challenge a) \<in> set (map (\<lambda>a. (va_authority a, va_kind a, va_challenge a)) as)"
  by (auto simp: same_segment_def same_set_def same_anchor_def image_iff) metis+

lemma read_section_ok:
  assumes "read_section k body g = Inr g'" "gathered_ok g"
  shows "gathered_ok g'"
  using assms unfolding read_section_def same_keys
  by (auto simp: bind_res_Inr_iff gathered_ok_def parse_segment_Inr parse_records_Inr simp del: set_map split: if_splits)

lemma read_sections_ok: "read_sections ss g = Inr g' \<Longrightarrow> gathered_ok g \<Longrightarrow> gathered_ok g'"
  by (induction ss g rule: read_sections.induct) (auto simp: bind_res_Inr_iff dest: read_section_ok)

lemma gathered_ok_empty: "gathered_ok Gathered_empty"
  by (simp add: gathered_ok_def Gathered_empty_def)

lemma Pack_parse_Inr:
  "Pack_parse bs = Inr p \<longleftrightarrow>
   (\<exists>v ss junk g h. bs = PACK_MAGIC @ [v] @ put_sections ss @ SECTION_END # junk \<and> list_all section_ok ss \<and>
      MIN_PACK_VERSION \<le> v \<and> v \<le> PACK_VERSION \<and> read_sections ss Gathered_empty = Inr g \<and> ga_header g = Some h \<and>
      p = \<lparr>pk_header = h, pk_signature = ga_signature g, pk_witnesses = ga_witnesses g,
           pk_anchors = ga_anchors g, pk_shards = ga_shards g, pk_segments = ga_segments g,
           pk_record_sets = ga_record_sets g\<rparr>)" (is "?l \<longleftrightarrow> ?r")
proof
  assume ?l
  then obtain v r g h where "bs = PACK_MAGIC @ v # r" "MIN_PACK_VERSION \<le> v" "v \<le> PACK_VERSION"
    "parse_loop Gathered_empty r = Inr g" "ga_header g = Some h"
    "p = \<lparr>pk_header = h, pk_signature = ga_signature g, pk_witnesses = ga_witnesses g,
           pk_anchors = ga_anchors g, pk_shards = ga_shards g, pk_segments = ga_segments g,
           pk_record_sets = ga_record_sets g\<rparr>"
    by (auto simp: Pack_parse_def bind_res_Inr_iff pk_take_Inr pk_u8_Inr split: if_splits option.splits)
  with parse_loop_Inr [of Gathered_empty r g] show ?r by fastforce
next
  assume ?r
  then obtain v ss junk g h where s: "bs = PACK_MAGIC @ [v] @ put_sections ss @ SECTION_END # junk" "list_all section_ok ss"
      "MIN_PACK_VERSION \<le> v" "v \<le> PACK_VERSION" "read_sections ss Gathered_empty = Inr g" "ga_header g = Some h"
      "p = \<lparr>pk_header = h, pk_signature = ga_signature g, pk_witnesses = ga_witnesses g,
           pk_anchors = ga_anchors g, pk_shards = ga_shards g, pk_segments = ga_segments g,
           pk_record_sets = ga_record_sets g\<rparr>" by blast
  have "pk_take (length PACK_MAGIC) ''the magic'' bs = Inr (PACK_MAGIC, v # put_sections ss @ SECTION_END # junk)"
    by (simp add: pk_take_Inr s(1))
  moreover have "pk_u8 ''the version'' (v # put_sections ss @ SECTION_END # junk) = Inr (v, put_sections ss @ SECTION_END # junk)"
    by (simp add: pk_u8_Inr)
  ultimately show ?l using s(3-7) parse_loop_sections [OF s(2)] by (simp add: Pack_parse_def)
qed

definition pack_ok :: "Pack \<Rightarrow> bool" where
  "pack_ok p \<longleftrightarrow>
     distinct (map vd_shard (pk_shards p)) \<and>
     distinct (map (\<lambda>s. (vg_shard s, vg_segment s)) (pk_segments p)) \<and> list_all vsegment_ok (pk_segments p) \<and>
     distinct (map (\<lambda>s. (rs_shard s, rs_segment s)) (pk_record_sets p)) \<and> list_all set_ok (pk_record_sets p) \<and>
     distinct (map (\<lambda>a. (va_authority a, va_kind a, va_challenge a)) (pk_anchors p))"

lemma parsed_pack_ok: "Pack_parse bs = Inr p \<Longrightarrow> pack_ok p"
  using read_sections_ok [OF _ gathered_ok_empty] by (fastforce simp: Pack_parse_Inr pack_ok_def gathered_ok_def)

subsection \<open>A pack as it was built\<close>

definition v_header :: "PackBuilder \<Rightarrow> StoreTree \<Rightarrow> VHeader" where
  "v_header b store = \<lparr>vh_tenant = pb_tenant b, vh_generated_at = pb_generated_at b,
     vh_store_root = store_root store, vh_shard_count = of_nat (length (pb_shards b)),
     vh_algorithms = pack_algorithms b\<rparr>"

definition v_signature :: "RootSignature \<Rightarrow> VSignature" where
  "v_signature s = \<lparr>vs_algorithm = SigAlg_as_str (rs_algorithm s), vs_public_key = rs_public_key s,
     vs_signature = rs_signature s\<rparr>"

definition v_witness :: "WitnessAttestation \<Rightarrow> VWitness" where
  "v_witness a = \<lparr>vw_witness = wa_witness a, vw_seen_at = wa_seen_at a, vw_algorithm = SigAlg_as_str (wa_algorithm a),
     vw_public_key = wa_public_key a, vw_signature = wa_signature a\<rparr>"

definition v_anchor :: "AnchorPart \<Rightarrow> VAnchor" where
  "v_anchor a = \<lparr>va_kind = from_code (ap_kind a), va_authority = ap_authority a, va_algorithm = ap_algorithm a,
     va_root = ap_root a, va_challenge = ap_challenge a, va_evidence = ap_evidence a\<rparr>"

definition v_shard :: "ShardPart \<Rightarrow> VShard" where
  "v_shard s = \<lparr>vd_shard = sp_shard s, vd_segment_count = of_nat (length (sp_segments s)), vd_root = sp_root s\<rparr>"

definition v_manifest :: "SegmentManifest \<Rightarrow> VSegment" where
  "v_manifest m = \<lparr>vg_format_version = m_format_version m, vg_segment = m_segment m, vg_shard = m_shard m,
     vg_records = m_records m, vg_history_root = history_root m,
     vg_index_roots = map (\<lambda>dr. (Dimension_as_str (fst dr), snd dr)) (index_roots m),
     vg_chain_before = chain_before m, vg_chain_after = chain_after m,
     vg_first_recorded_at = first_recorded_at m, vg_last_recorded_at = last_recorded_at m,
     vg_algorithms = algorithm_code (m_algorithms m)\<rparr>"

definition v_set :: "SegmentManifest \<times> bytes list \<Rightarrow> RecordSet" where
  "v_set mr = \<lparr>rs_shard = m_shard (fst mr), rs_segment = m_segment (fst mr), rs_records = snd mr\<rparr>"

definition all_segments :: "PackBuilder \<Rightarrow> (SegmentManifest \<times> bytes list) list" where
  "all_segments b = concat (map sp_segments (pb_shards b))"

definition described :: "PackBuilder \<Rightarrow> StoreTree \<Rightarrow> Pack" where
  "described b store = \<lparr>pk_header = v_header b store, pk_signature = map_option v_signature (pb_signature b),
     pk_witnesses = map v_witness (pb_witnesses b), pk_anchors = map v_anchor (pb_anchors b),
     pk_shards = map v_shard (pb_shards b), pk_segments = map (v_manifest \<circ> fst) (all_segments b),
     pk_record_sets = map v_set (all_segments b)\<rparr>"

text \<open>What the format can carry: text that is text, sections within the reader's bound, nothing twice.\<close>

definition builder_ok :: "PackBuilder \<Rightarrow> StoreTree \<Rightarrow> bool" where
  "builder_ok b store \<longleftrightarrow>
     list_all section_ok (pack_sections b store) \<and> utf8_valid (pb_tenant b) \<and>
     list_all (utf8_valid \<circ> wa_witness) (pb_witnesses b) \<and>
     list_all (\<lambda>a. utf8_valid (ap_authority a) \<and> utf8_valid (ap_algorithm a)) (pb_anchors b) \<and>
     distinct (map (\<lambda>a. (ap_authority a, from_code (ap_kind a), ap_challenge a)) (pb_anchors b)) \<and>
     distinct (map sp_shard (pb_shards b)) \<and>
     distinct (map (\<lambda>mr. (m_shard (fst mr), m_segment (fst mr))) (all_segments b))"

lemma put_vsegment_manifest: "put_vsegment (v_manifest m) = encode_manifest m"
proof -
  have "put_index_root (Dimension_as_str (fst dr), snd dr) = encode_index_root dr" for dr
    by (cases dr) (simp add: put_index_root_def encode_index_root_def)
  then show ?thesis by (simp add: put_vsegment_def v_manifest_def encode_manifest_def comp_def)
qed

lemma algorithm_code_length [simp]: "length (algorithm_code a) = 3"
  by (simp add: algorithm_code_def)

lemma pack_algorithms_length [simp]: "length (pack_algorithms b) = 3"
  by (simp add: pack_algorithms_def split: list.splits prod.splits)

lemma SigAlg_name_ok [simp]: "utf8_valid (SigAlg_as_str a)" "length (SigAlg_as_str a) \<le> 9"
  by (rule utf8_valid_ascii; cases a; simp add: ascii_def) (cases a; simp add: ascii_def)

lemma length_pk_put [simp]:
  "length (pk_put_bytes b) = 4 + length b" "length (pk_put_str b) = 4 + length b"
  by (simp_all add: pk_put_bytes_def pk_put_str_def)

lemma manifest_ok:
  assumes "section_ok (SECTION_SEGMENT, encode_manifest m)"
  shows "vsegment_ok (v_manifest m)"
proof -
  have "length (index_roots m) \<le> 100000000"
    using assms length_encode_roots [of "index_roots m"] by (simp add: section_ok_def encode_manifest_def)
  moreover have "name_ok (Dimension_as_str d)" for d
    using dimension_names(1,2) [of d] by (simp add: name_ok_def)
  ultimately show ?thesis by (simp add: vsegment_ok_def v_manifest_def list_all_iff)
qed

lemma length_concat_bytes: "b \<in> set bs \<Longrightarrow> length b \<le> length (concat (map pk_put_bytes bs))"
  by (induction bs) auto

lemma length_concat_count: "length bs \<le> length (concat (map pk_put_bytes bs))"
  by (induction bs) auto

lemma set_of_ok:
  assumes "section_ok (SECTION_RECORDS, put_records mr)"
  shows "set_ok (v_set mr)" "put_records mr = put_vset (v_set mr)"
proof -
  have l: "length (concat (map pk_put_bytes (snd mr))) \<le> 100000000"
    using assms by (simp add: section_ok_def put_records_def)
  have "length b < 2 ^ 32" if "b \<in> set (snd mr)" for b using length_concat_bytes [OF that] l by simp
  then show "set_ok (v_set mr)"
    using l length_concat_count [of "snd mr"] by (simp add: set_ok_def v_set_def list_all_iff)
  show "put_records mr = put_vset (v_set mr)" by (simp add: put_records_def put_vset_def v_set_def)
qed

lemma section_kinds [simp]:
  "SECTION_SHARD \<noteq> SECTION_HEADER" "SECTION_SEGMENT \<noteq> SECTION_HEADER" "SECTION_SEGMENT \<noteq> SECTION_SHARD"
  "SECTION_RECORDS \<noteq> SECTION_HEADER" "SECTION_RECORDS \<noteq> SECTION_SHARD" "SECTION_RECORDS \<noteq> SECTION_SEGMENT"
  "SECTION_SIGNATURE \<noteq> SECTION_HEADER" "SECTION_SIGNATURE \<noteq> SECTION_SHARD" "SECTION_SIGNATURE \<noteq> SECTION_SEGMENT"
  "SECTION_SIGNATURE \<noteq> SECTION_RECORDS" "SECTION_WITNESS \<noteq> SECTION_HEADER" "SECTION_WITNESS \<noteq> SECTION_SHARD"
  "SECTION_WITNESS \<noteq> SECTION_SEGMENT" "SECTION_WITNESS \<noteq> SECTION_RECORDS" "SECTION_WITNESS \<noteq> SECTION_SIGNATURE"
  "SECTION_ANCHOR \<noteq> SECTION_HEADER" "SECTION_ANCHOR \<noteq> SECTION_SHARD" "SECTION_ANCHOR \<noteq> SECTION_SEGMENT"
  "SECTION_ANCHOR \<noteq> SECTION_RECORDS" "SECTION_ANCHOR \<noteq> SECTION_SIGNATURE" "SECTION_ANCHOR \<noteq> SECTION_WITNESS"
  by (simp_all add: SECTION_SHARD_def SECTION_HEADER_def SECTION_SEGMENT_def SECTION_RECORDS_def
      SECTION_SIGNATURE_def SECTION_WITNESS_def SECTION_ANCHOR_def)

lemma read_header:
  assumes "section_ok (SECTION_HEADER, put_header b store)" "utf8_valid (pb_tenant b)"
  shows "read_section SECTION_HEADER (put_header b store) g = Inr (g\<lparr>ga_header := Some (v_header b store)\<rparr>)"
proof -
  have "parse_header (put_header b store) = Inr (v_header b store, [])"
    using assms by (simp add: parse_header_Inr put_header_def v_header_def name_ok_def section_ok_def)
  then show ?thesis by (simp add: read_section_def)
qed

lemma read_signature:
  assumes "section_ok (SECTION_SIGNATURE, put_signature s)"
  shows "read_section SECTION_SIGNATURE (put_signature s) g = Inr (g\<lparr>ga_signature := Some (v_signature s)\<rparr>)"
proof -
  have "parse_signature (put_signature s) = Inr (v_signature s, [])"
    using assms by (simp add: parse_signature_Inr put_signature_def v_signature_def name_ok_def section_ok_def)
  then show ?thesis by (simp add: read_section_def)
qed

lemma read_witnesses:
  "list_all section_ok (map (\<lambda>a. (SECTION_WITNESS, put_witness a)) ws) \<Longrightarrow> list_all (utf8_valid \<circ> wa_witness) ws \<Longrightarrow>
   read_sections (map (\<lambda>a. (SECTION_WITNESS, put_witness a)) ws @ rest) g =
   read_sections rest (g\<lparr>ga_witnesses := ga_witnesses g @ map v_witness ws\<rparr>)"
proof (induction ws arbitrary: g)
  case (Cons a ws)
  have "parse_witness (put_witness a) = Inr (v_witness a, [])"
    using Cons.prems by (simp add: parse_witness_Inr put_witness_def v_witness_def name_ok_def section_ok_def)
  then show ?case using Cons by (simp add: read_section_def)
qed simp

lemma read_anchors:
  "list_all section_ok (map (\<lambda>a. (SECTION_ANCHOR, put_anchor a)) as) \<Longrightarrow>
   list_all (\<lambda>a. utf8_valid (ap_authority a) \<and> utf8_valid (ap_algorithm a)) as \<Longrightarrow>
   distinct (map (\<lambda>a. (va_authority a, va_kind a, va_challenge a)) (ga_anchors g @ map v_anchor as)) \<Longrightarrow>
   read_sections (map (\<lambda>a. (SECTION_ANCHOR, put_anchor a)) as @ rest) g =
   read_sections rest (g\<lparr>ga_anchors := ga_anchors g @ map v_anchor as\<rparr>)"
proof (induction as arbitrary: g)
  case (Cons a as)
  have p: "parse_anchor (put_anchor a) = Inr (v_anchor a, [])"
    using Cons.prems(1,2)
    by (auto simp: parse_anchor_Inr put_anchor_def v_anchor_def name_ok_def section_ok_def)
  have "\<not> (\<exists>d \<in> set (ga_anchors g). same_anchor d (v_anchor a))"
    unfolding same_keys using Cons.prems(3) by auto
  with p Cons.IH [of "g\<lparr>ga_anchors := ga_anchors g @ [v_anchor a]\<rparr>"] Cons.prems show ?case
    by (simp add: read_section_def)
qed simp

lemma read_shards:
  "distinct (map vd_shard (ga_shards g @ map v_shard ss)) \<Longrightarrow>
   read_sections (map (\<lambda>s. (SECTION_SHARD, put_shard s)) ss @ rest) g =
   read_sections rest (g\<lparr>ga_shards := ga_shards g @ map v_shard ss\<rparr>)"
proof (induction ss arbitrary: g)
  case (Cons s ss)
  have p: "parse_shard (put_shard s) = Inr (v_shard s, [])" by (simp add: parse_shard_Inr put_shard_def v_shard_def)
  have "\<not> (\<exists>d \<in> set (ga_shards g). vd_shard d = vd_shard (v_shard s))"
    unfolding same_keys using Cons.prems by auto
  with p Cons.IH [of "g\<lparr>ga_shards := ga_shards g @ [v_shard s]\<rparr>"] Cons.prems show ?case
    by (simp add: read_section_def)
qed simp

abbreviation segment_sections :: "(SegmentManifest \<times> bytes list) list \<Rightarrow> (u8 \<times> bytes) list" where
  "segment_sections mrs \<equiv> concat (map (\<lambda>mr.
     [(SECTION_SEGMENT, encode_manifest (fst mr)), (SECTION_RECORDS, put_records mr)]) mrs)"

lemma read_segments:
  "list_all section_ok (segment_sections mrs) \<Longrightarrow>
   distinct (map (\<lambda>s. (vg_shard s, vg_segment s)) (ga_segments g @ map (v_manifest \<circ> fst) mrs)) \<Longrightarrow>
   distinct (map (\<lambda>s. (rs_shard s, rs_segment s)) (ga_record_sets g @ map v_set mrs)) \<Longrightarrow>
   read_sections (segment_sections mrs) g =
   Inr (g\<lparr>ga_segments := ga_segments g @ map (v_manifest \<circ> fst) mrs, ga_record_sets := ga_record_sets g @ map v_set mrs\<rparr>)"
proof (induction mrs arbitrary: g)
  case (Cons mr mrs)
  let ?g = "g\<lparr>ga_segments := ga_segments g @ [v_manifest (fst mr)]\<rparr>"
  have s: "parse_segment (encode_manifest (fst mr)) = Inr (v_manifest (fst mr), [])"
    using Cons.prems(1) manifest_ok by (simp add: parse_segment_Inr put_vsegment_manifest)
  have r: "parse_records (put_records mr) = Inr (v_set mr, [])"
    using Cons.prems(1) set_of_ok by (simp add: parse_records_Inr)
  have ns: "\<not> (\<exists>d \<in> set (ga_segments g). same_segment d (v_manifest (fst mr)))"
    unfolding same_keys using Cons.prems(2) by auto
  have nr: "\<not> (\<exists>d \<in> set (ga_record_sets g). same_set d (v_set mr))"
    unfolding same_keys using Cons.prems(3) by auto
  have "read_section SECTION_SEGMENT (encode_manifest (fst mr)) g = Inr ?g"
    using s ns by (simp add: read_section_def)
  moreover have "read_section SECTION_RECORDS (put_records mr) ?g =
      Inr (?g\<lparr>ga_record_sets := ga_record_sets g @ [v_set mr]\<rparr>)"
    using r nr by (simp add: read_section_def)
  moreover note Cons.IH [of "?g\<lparr>ga_record_sets := ga_record_sets g @ [v_set mr]\<rparr>"]
  ultimately show ?case using Cons.prems by simp
qed simp

lemma pack_sections_split:
  "pack_sections b store =
     (SECTION_HEADER, put_header b store) #
     (case pb_signature b of None \<Rightarrow> [] | Some s \<Rightarrow> [(SECTION_SIGNATURE, put_signature s)]) @
     map (\<lambda>a. (SECTION_WITNESS, put_witness a)) (pb_witnesses b) @
     map (\<lambda>a. (SECTION_ANCHOR, put_anchor a)) (pb_anchors b) @
     map (\<lambda>s. (SECTION_SHARD, put_shard s)) (pb_shards b) @ segment_sections (all_segments b)"
proof -
  have "concat (map (\<lambda>s. segment_sections (sp_segments s)) ss) = segment_sections (concat (map sp_segments ss))" for ss
    by (induction ss) simp_all
  then show ?thesis by (simp add: pack_sections_def all_segments_def)
qed

lemma read_built:
  assumes "builder_ok b store"
    and that: "ga_signature g = None" "ga_witnesses g = []" "ga_anchors g = []" "ga_shards g = []" "ga_segments g = []"
      "ga_record_sets g = []"
  shows "read_sections (pack_sections b store) g = Inr (g\<lparr>ga_header := Some (v_header b store),
      ga_signature := map_option v_signature (pb_signature b), ga_witnesses := map v_witness (pb_witnesses b),
      ga_anchors := map v_anchor (pb_anchors b), ga_shards := map v_shard (pb_shards b),
      ga_segments := map (v_manifest \<circ> fst) (all_segments b), ga_record_sets := map v_set (all_segments b)\<rparr>)"
proof -
  have ok: "list_all section_ok (pack_sections b store)" "utf8_valid (pb_tenant b)"
    "list_all (utf8_valid \<circ> wa_witness) (pb_witnesses b)"
    "list_all (\<lambda>a. utf8_valid (ap_authority a) \<and> utf8_valid (ap_algorithm a)) (pb_anchors b)"
    using assms(1) by (simp_all add: builder_ok_def)
  have d: "distinct (map (\<lambda>a. (va_authority a, va_kind a, va_challenge a)) (map v_anchor (pb_anchors b)))"
    "distinct (map vd_shard (map v_shard (pb_shards b)))"
    "distinct (map (\<lambda>s. (vg_shard s, vg_segment s)) (map (v_manifest \<circ> fst) (all_segments b)))"
    "distinct (map (\<lambda>s. (rs_shard s, rs_segment s)) (map v_set (all_segments b)))"
    using assms(1) by (simp_all add: builder_ok_def v_anchor_def v_shard_def v_manifest_def v_set_def comp_def)
  note parts = ok(1) [unfolded pack_sections_split]
  let ?g1 = "g\<lparr>ga_header := Some (v_header b store), ga_signature := map_option v_signature (pb_signature b)\<rparr>"
  have "read_sections (pack_sections b store) g =
      read_sections (map (\<lambda>a. (SECTION_WITNESS, put_witness a)) (pb_witnesses b) @
       map (\<lambda>a. (SECTION_ANCHOR, put_anchor a)) (pb_anchors b) @
       map (\<lambda>s. (SECTION_SHARD, put_shard s)) (pb_shards b) @ segment_sections (all_segments b)) ?g1"
  proof (cases "pb_signature b")
    case None
    then have "g\<lparr>ga_header := Some (v_header b store)\<rparr> = ?g1" using that(1) by (cases g) simp
    with None parts ok(2) show ?thesis unfolding pack_sections_split by (simp add: read_header)
  next
    case (Some sig)
    with parts ok(2) show ?thesis unfolding pack_sections_split by (simp add: read_header read_signature)
  qed
  also have "\<dots> = Inr (g\<lparr>ga_header := Some (v_header b store),
      ga_signature := map_option v_signature (pb_signature b), ga_witnesses := map v_witness (pb_witnesses b),
      ga_anchors := map v_anchor (pb_anchors b), ga_shards := map v_shard (pb_shards b),
      ga_segments := map (v_manifest \<circ> fst) (all_segments b), ga_record_sets := map v_set (all_segments b)\<rparr>)"
  proof -
    have w: "list_all section_ok (map (\<lambda>a. (SECTION_WITNESS, put_witness a)) (pb_witnesses b))"
      "list_all section_ok (map (\<lambda>a. (SECTION_ANCHOR, put_anchor a)) (pb_anchors b))"
      "list_all section_ok (segment_sections (all_segments b))" using parts by simp_all
    show ?thesis
      using that d by (simp add: read_witnesses [OF w(1) ok(3)] read_anchors [OF w(2) ok(4)] read_shards
          read_segments [OF w(3)] del: map_map)
  qed
  finally show ?thesis .
qed

lemma parse_built:
  assumes "builder_ok b store"
  shows "Pack_parse (build_pack b store @ junk) = Inr (described b store)"
proof -
  have "list_all section_ok (pack_sections b store)" using assms by (simp add: builder_ok_def)
  moreover have "build_pack b store @ junk =
      PACK_MAGIC @ [PACK_VERSION] @ put_sections (pack_sections b store) @ SECTION_END # junk"
    by (simp add: build_pack_def)
  moreover have "MIN_PACK_VERSION \<le> PACK_VERSION" by (simp add: MIN_PACK_VERSION_def PACK_VERSION_def word_le_nat_alt)
  moreover note read_built [OF assms, of Gathered_empty]
  ultimately show ?thesis
    unfolding Pack_parse_Inr by (fastforce simp: Gathered_empty_def described_def)
qed

subsection \<open>Properties\<close>

text \<open>
  C28. The auditor reads what the store wrote. The verifier's reader, given the pack the store's
  builder built, returns exactly the header, signature, attestations, anchors, shards, manifests
  and records that were put in, as long as every section keeps within the reader's bound, the text
  is text, and nothing was added twice.
\<close>

theorem built_pack_parses:
  assumes "builder_ok b store"
  shows "Pack_parse (build_pack b store) = Inr (described b store)"
  using parse_built [OF assms, of "[]"] by simp

definition sample_builder :: PackBuilder where
  "sample_builder = anchored_by (ascii ''tsa'') 7 9 [1, 2] (PackBuilder_new (ascii ''acme'') 5)"

lemma sample_builder_ok: "builder_ok sample_builder (from_shards [])"
proof -
  have v: "utf8_valid (ascii ''acme'')" "utf8_valid (ascii ''tsa'')" "utf8_valid []"
    by (rule utf8_valid_ascii; simp add: ascii_def)+
  show ?thesis
    using v by (simp add: builder_ok_def sample_builder_def anchored_by_def anchored_def PackBuilder_new_def
        pack_sections_def section_ok_def put_header_def put_anchor_def all_segments_def
        SECTION_HEADER_def SECTION_ANCHOR_def SECTION_END_def ascii_def)
qed

theorem built_pack_parses_witness:
  "builder_ok sample_builder (from_shards []) \<and>
   Pack_parse (build_pack sample_builder (from_shards [])) = Inr (described sample_builder (from_shards []))"
  using built_pack_parses [OF sample_builder_ok] sample_builder_ok by blast

text \<open>
  C39. What was read spells no shard, no segment, no record set and no anchor twice, and holds only
  bounded counts, names that are text and three algorithm codes, whatever the bytes were.
\<close>

theorem parsed_pack_is_unambiguous:
  assumes "Pack_parse bs = Inr p"
  shows "distinct (map vd_shard (pk_shards p)) \<and>
    distinct (map (\<lambda>s. (vg_shard s, vg_segment s)) (pk_segments p)) \<and>
    distinct (map (\<lambda>s. (rs_shard s, rs_segment s)) (pk_record_sets p)) \<and>
    distinct (map (\<lambda>a. (va_authority a, va_kind a, va_challenge a)) (pk_anchors p)) \<and>
    list_all vsegment_ok (pk_segments p) \<and> list_all set_ok (pk_record_sets p)"
  using parsed_pack_ok [OF assms] by (simp add: pack_ok_def)

theorem parsed_pack_is_unambiguous_witness:
  "\<exists>p. Pack_parse (build_pack sample_builder (from_shards [])) = Inr p \<and> length (pk_anchors p) = 1 \<and>
     distinct (map (\<lambda>a. (va_authority a, va_kind a, va_challenge a)) (pk_anchors p))"
proof -
  have p: "Pack_parse (build_pack sample_builder (from_shards [])) = Inr (described sample_builder (from_shards []))"
    using parse_built [OF sample_builder_ok, of "[]"] by simp
  have "length (pk_anchors (described sample_builder (from_shards []))) = 1"
    by (simp add: described_def sample_builder_def anchored_by_def anchored_def PackBuilder_new_def)
  with parsed_pack_is_unambiguous [OF p] p show ?thesis by blast
qed

text \<open>
  C40. A pack still has other spellings. Bytes after the end of a pack, and a header in front of its
  own header naming any tenant, root and count, are read over: the pack means what it meant without
  them, and nothing reports them.
\<close>

theorem pack_has_other_spellings:
  assumes "builder_ok b store" "section_ok (SECTION_HEADER, put_header b' store')" "utf8_valid (pb_tenant b')"
  shows "Pack_parse (build_pack b store @ junk) = Pack_parse (build_pack b store) \<and>
    Pack_parse (PACK_MAGIC @ [PACK_VERSION] @ put_section SECTION_HEADER (put_header b' store') @
           put_sections (pack_sections b store) @ [SECTION_END]) = Pack_parse (build_pack b store)"
proof
  show "Pack_parse (build_pack b store @ junk) = Pack_parse (build_pack b store)"
    using parse_built [OF assms(1), of junk] parse_built [OF assms(1), of "[]"] by simp
  let ?ss = "(SECTION_HEADER, put_header b' store') # pack_sections b store"
  have "list_all section_ok ?ss" using assms(1,2) by (simp add: builder_ok_def)
  moreover have "MIN_PACK_VERSION \<le> PACK_VERSION" by (simp add: MIN_PACK_VERSION_def PACK_VERSION_def word_le_nat_alt)
  moreover note read_built [OF assms(1), of "Gathered_empty\<lparr>ga_header := Some (v_header b' store')\<rparr>"]
    read_header [OF assms(2,3), of Gathered_empty]
  ultimately have "Pack_parse (PACK_MAGIC @ [PACK_VERSION] @ put_sections ?ss @ SECTION_END # []) = Inr (described b store)"
    unfolding Pack_parse_Inr
    by (intro exI [of _ PACK_VERSION] exI [of _ ?ss] exI [of _ "[]"]) (simp add: Gathered_empty_def described_def)
  then show "Pack_parse (PACK_MAGIC @ [PACK_VERSION] @ put_section SECTION_HEADER (put_header b' store') @
           put_sections (pack_sections b store) @ [SECTION_END]) = Pack_parse (build_pack b store)"
    using parse_built [OF assms(1), of "[]"] by simp
qed

theorem pack_has_other_spellings_witness:
  "let header = put_header (PackBuilder_new (ascii ''acme'') 5) (from_shards []) in
   Pack_parse (build_pack sample_builder (from_shards []) @ [1, 2]) =
     Pack_parse (build_pack sample_builder (from_shards [])) \<and>
   Pack_parse (PACK_MAGIC @ [PACK_VERSION] @ put_section SECTION_HEADER header @
     put_sections (pack_sections sample_builder (from_shards [])) @ [SECTION_END]) =
     Pack_parse (build_pack sample_builder (from_shards []))"
proof -
  have h: "section_ok (SECTION_HEADER, put_header (PackBuilder_new (ascii ''acme'') 5) (from_shards []))"
    by (simp add: section_ok_def put_header_def PackBuilder_new_def SECTION_HEADER_def SECTION_END_def ascii_def)
  have "utf8_valid (pb_tenant (PackBuilder_new (ascii ''acme'') 5))"
    unfolding PackBuilder_new_def by (simp, rule utf8_valid_ascii) (simp add: ascii_def)
  from pack_has_other_spellings [OF sample_builder_ok h this] show ?thesis unfolding Let_def by blast
qed

end
