(* ===== verification/RecordFields.thy ===== *)
theory RecordFields
  imports Pack
begin

text \<open>
  The verifier's partial reader of records: \<open>crates/trailryx-verify/src/record.rs\<close>. It walks a record
  body in the order the store writes it, keeps what the indexes are built from and passes over the
  rest by its shape.

  The results: on every body the store's own decoder accepts, of either version, it reads the
  fields of the record that decoder returns, and the index keys it derives from them are the
  store's; and it accepts more than that decoder does.
\<close>

subsection \<open>The model\<close>

record Fields =
  f_id :: u128
  f_recorded_at :: u64
  f_agent_id :: str
  f_run_id :: str
  f_event_type :: u8
  f_seq :: u64

definition cu_byte :: "u8 pk" where
  "cu_byte = pk_u8 ''a record''"

definition cu_take :: "nat \<Rightarrow> bytes pk" where
  "cu_take n = pk_take n ''a record''"

fun cu_varint_loop :: "u64 \<Rightarrow> nat \<Rightarrow> u64 pk" where
  "cu_varint_loop value shift [] = Inl (PkTruncated ''a record'')"
| "cu_varint_loop value shift (byte # rest) =
     (if 64 \<le> shift then Inl (PkTruncated ''a varint'')
      else
        let value = value OR push_bit shift (ucast (byte AND 0x7F))
        in if byte AND 0x80 = 0 then Inr (value, rest) else cu_varint_loop value (shift + 7) rest)"

definition cu_varint :: "u64 pk" where
  "cu_varint = cu_varint_loop 0 0"

definition cu_zigzag :: "i64 pk" where
  "cu_zigzag = pk_then cu_varint (\<lambda>v. pk_return (drop_bit 1 v XOR - (v AND 1)))"

definition cu_bytes :: "bytes pk" where
  "cu_bytes = pk_then cu_varint (\<lambda>len. cu_take (unat len))"

definition cu_string :: "str pk" where
  "cu_string = pk_then cu_bytes (\<lambda>b rest. if utf8_valid b then Inr (b, rest) else Inl (PkNotUtf8 ''a record field''))"

definition cu_u128 :: "u128 pk" where
  "cu_u128 = pk_then (cu_take 16) (\<lambda>b. pk_return (from_be_bytes b))"

definition cu_hash :: "unit pk" where
  "cu_hash = pk_then (cu_take 48) (\<lambda>_. pk_return ())"

definition skip :: "'a pk \<Rightarrow> unit pk" where
  "skip c = pk_then c (\<lambda>_. pk_return ())"

definition cu_opt :: "unit pk \<Rightarrow> unit pk" where
  "cu_opt f = pk_then cu_byte (\<lambda>b. if b = 1 then f else pk_return ())"

primrec cu_times :: "nat \<Rightarrow> unit pk \<Rightarrow> unit pk" where
  "cu_times 0 f = pk_return ()"
| "cu_times (Suc n) f = pk_then f (\<lambda>_. cu_times n f)"

definition cu_seq :: "unit pk \<Rightarrow> unit pk" where
  "cu_seq f = pk_then cu_varint (\<lambda>n. cu_times (unat n) f)"

definition cu_basis :: "unit pk" where
  "cu_basis =
     pk_then (cu_opt (skip cu_bytes)) (\<lambda>_.
     pk_then (cu_opt (skip cu_zigzag)) (\<lambda>_.
     pk_then (cu_opt cu_hash) (\<lambda>_.
     pk_then (cu_opt (skip cu_bytes)) (\<lambda>_.
     pk_then (cu_opt (skip cu_varint)) (\<lambda>_.
     pk_then (cu_opt (skip cu_varint)) (\<lambda>_.
     pk_then (cu_opt cu_hash) (\<lambda>_.
     pk_then (cu_seq (skip cu_bytes)) (\<lambda>_.
     cu_seq (skip cu_bytes)))))))))"

definition cu_outcome :: "unit pk" where
  "cu_outcome =
     pk_then (cu_opt (skip cu_byte)) (\<lambda>_.
     pk_then (cu_opt (skip cu_byte)) (\<lambda>_.
     pk_then (cu_opt (skip cu_varint)) (\<lambda>_.
     pk_then (cu_opt (skip cu_varint)) (\<lambda>_.
     pk_then (cu_opt (skip cu_varint)) (\<lambda>_.
     cu_opt (skip cu_zigzag))))))"

definition cu_payload :: "unit pk" where
  "cu_payload =
     pk_then cu_hash (\<lambda>_.
     pk_then cu_varint (\<lambda>_.
     pk_then cu_byte (\<lambda>_. cu_hash)))"

definition fields_walk :: "Fields pk" where
  "fields_walk =
     pk_then cu_u128 (\<lambda>ident.
     pk_then cu_bytes (\<lambda>_.
     pk_then cu_varint (\<lambda>_.
     pk_then cu_string (\<lambda>agent.
     pk_then cu_string (\<lambda>run.
     pk_then (cu_opt (skip cu_bytes)) (\<lambda>_.
     pk_then (cu_seq (skip cu_bytes)) (\<lambda>_.
     pk_then cu_varint (\<lambda>_.
     pk_then (cu_opt (skip cu_varint)) (\<lambda>_.
     pk_then cu_varint (\<lambda>recorded.
     pk_then (cu_opt (skip cu_varint)) (\<lambda>_.
     pk_then (cu_opt (skip cu_varint)) (\<lambda>_.
     pk_then cu_byte (\<lambda>event.
     pk_then cu_byte (\<lambda>_.
     pk_then cu_basis (\<lambda>_.
     pk_then (cu_seq (skip cu_u128)) (\<lambda>_.
     pk_then cu_outcome (\<lambda>_.
     pk_then (cu_opt cu_payload) (\<lambda>_.
     pk_then cu_varint (\<lambda>sq.
     pk_return \<lparr>f_id = ident, f_recorded_at = recorded, f_agent_id = agent, f_run_id = run,
       f_event_type = event, f_seq = sq\<rparr>)))))))))))))))))))"

definition fields :: "bytes \<Rightarrow> PackError + Fields" where
  "fields bytes = bind_res (fields_walk bytes) (\<lambda>(f, _). Inr f)"

definition key_for :: "str \<Rightarrow> Fields \<Rightarrow> bytes option" where
  "key_for dim f =
     (if dim = ascii ''id'' then Some (to_be_bytes (f_id f))
      else if dim = ascii ''recorded_at'' then Some (to_be_bytes (f_recorded_at f))
      else if dim = ascii ''agent_id'' then Some (f_agent_id f)
      else if dim = ascii ''run_id'' then Some (f_run_id f)
      else if dim = ascii ''event_type'' then Some [f_event_type f]
      else None)"

subsection \<open>Reading after the store's own reader\<close>

text \<open>Wherever the store's reader reads \<open>x\<close>, the cursor reads \<open>h x\<close> and stops at the same byte.\<close>

definition follows :: "'b pk \<Rightarrow> 'a get \<Rightarrow> ('a \<Rightarrow> 'b) \<Rightarrow> bool" where
  "follows c g h \<longleftrightarrow> (\<forall>bs x r. g bs = Inr (x, r) \<longrightarrow> c bs = Inr (h x, r))"

named_theorems follow

lemma followsI: "(\<And>bs x r. g bs = Inr (x, r) \<Longrightarrow> c bs = Inr (h x, r)) \<Longrightarrow> follows c g h"
  by (simp add: follows_def)

lemma followsD: "follows c g h \<Longrightarrow> g bs = Inr (x, r) \<Longrightarrow> c bs = Inr (h x, r)"
  by (simp add: follows_def)

lemma follow_then:
  assumes "follows c g h" "\<And>x. follows (f' (h x)) (f x) k"
  shows "follows (pk_then c f') (get_then g f) k"
proof (rule followsI)
  fix bs y r
  assume "get_then g f bs = Inr (y, r)"
  then obtain x q where "g bs = Inr (x, q)" "f x q = Inr (y, r)" by (auto simp: get_then_Inr)
  then show "pk_then c f' bs = Inr (k y, r)"
    using followsD [OF assms(1)] followsD [OF assms(2)] by (simp add: pk_then_def)
qed

lemma varint_follows:
  "varint_loop out (7 * n) n bs = Inr (x, r) \<Longrightarrow> cu_varint_loop out (7 * n) bs = Inr (x, r)"
proof (induction bs arbitrary: out n)
  case (Cons b bs)
  then have n: "n < 10" by (auto simp: Let_def split: if_splits)
  show ?case
  proof (cases "b AND 0x80 = 0")
    case True
    with Cons.prems n show ?thesis by (auto simp: Let_def split: if_splits)
  next
    case False
    with Cons.prems have "varint_loop (out OR push_bit (7 * n) (ucast (b AND 0x7F))) (7 * Suc n) (Suc n) bs = Inr (x, r)"
      by (auto simp: Let_def add.commute split: if_splits)
    from Cons.IH [OF this] False n show ?thesis by (simp add: Let_def add.commute)
  qed
qed simp

lemma follow_varint [follow]: "follows cu_varint get_varint (\<lambda>x. x)"
  using varint_follows [of 0 0] by (auto intro!: followsI simp: cu_varint_def get_varint_def simp del: varint_iff)

lemma follow_take: "follows (cu_take n) (get_take n) (\<lambda>x. x)"
  by (rule followsI) (auto simp: cu_take_def get_take_def pk_take_def split: if_splits)

lemma follow_return: "follows (pk_return (h x)) (get_return x) h"
  by (rule followsI) (simp add: get_return_def pk_return_def)

lemma follow_skip: "follows c g h \<Longrightarrow> follows (skip c) g (\<lambda>_. ())"
  by (auto intro!: followsI dest: followsD simp: skip_def pk_then_def pk_return_def)

lemma follow_bytes: "follows cu_bytes get_bytes (\<lambda>x. x)"
proof (rule followsI)
  fix bs x r
  assume "get_bytes bs = Inr (x, r)"
  then obtain v q where v: "get_varint bs = Inr (v, q)" "get_take (unat v) q = Inr (x, r)"
    by (auto simp: get_bytes_def get_then_Inr Let_def get_fail_def split: if_splits simp del: varint_iff)
  show "cu_bytes bs = Inr (x, r)"
    using followsD [OF follow_varint v(1)] followsD [OF follow_take v(2)] by (simp add: cu_bytes_def pk_then_def)
qed

lemma follow_str: "follows cu_string get_str (\<lambda>x. x)" "follows cu_bytes get_str (\<lambda>x. x)"
proof -
  have "cu_bytes bs = Inr (x, r) \<and> utf8_valid x" if "get_str bs = Inr (x, r)" for bs x r
    using that followsD [OF follow_bytes, of bs x r]
    by (auto simp: get_str_def get_then_Inr get_return_def get_fail_def split: if_splits)
  then show "follows cu_string get_str (\<lambda>x. x)" "follows cu_bytes get_str (\<lambda>x. x)"
    by (auto intro!: followsI simp: cu_string_def pk_then_def)
qed

lemma follow_token:
  assumes "codec put_str g (token_ok n allowed)" "\<And>c. allowed c \<Longrightarrow> c < 0x80" "n \<le> MAX_BODY_BYTES"
  shows "follows cu_string g (\<lambda>x. x)" "follows cu_bytes g (\<lambda>x. x)"
proof -
  have "get_str bs = Inr (x, r)" if "g bs = Inr (x, r)" for bs x r
  proof -
    from that have x: "token_ok n allowed x" "bs = put_str x @ r" by (simp_all add: codec.get_iff [OF assms(1)])
    then have "utf8_valid x" "length x \<le> MAX_BODY_BYTES"
      using token_ok_valid [OF x(1) assms(2)] assms(3) by (simp_all add: token_ok_def)
    with x(2) show ?thesis by (simp add: codec.get_iff [OF codec_str])
  qed
  then show "follows cu_string g (\<lambda>x. x)" "follows cu_bytes g (\<lambda>x. x)"
    using follow_str by (auto simp: follows_def)
qed

lemma follow_tokens [follow]:
  "follows cu_string (get_id name TenantId_parse) (\<lambda>x. x)" "follows cu_bytes (get_id name TenantId_parse) (\<lambda>x. x)"
  "follows cu_string (get_id name AgentId_parse) (\<lambda>x. x)" "follows cu_bytes (get_id name AgentId_parse) (\<lambda>x. x)"
  "follows cu_string (get_id name RunId_parse) (\<lambda>x. x)" "follows cu_bytes (get_id name RunId_parse) (\<lambda>x. x)"
  "follows cu_string (get_id name PrincipalId_parse) (\<lambda>x. x)" "follows cu_bytes (get_id name PrincipalId_parse) (\<lambda>x. x)"
  "follows cu_string (get_id name PolicyVersion_parse) (\<lambda>x. x)" "follows cu_bytes (get_id name PolicyVersion_parse) (\<lambda>x. x)"
  "follows cu_string (get_id name ModelId_parse) (\<lambda>x. x)" "follows cu_bytes (get_id name ModelId_parse) (\<lambda>x. x)"
  "follows cu_string (get_id name ToolName_parse) (\<lambda>x. x)" "follows cu_bytes (get_id name ToolName_parse) (\<lambda>x. x)"
  by (rule follow_token, rule codec_tokens; simp add: char_classes_ascii)+

lemma follow_hash [follow]: "follows cu_hash get_hash (\<lambda>_. ())"
  by (auto intro!: followsI dest!: followsD [OF follow_take] simp: cu_hash_def get_hash_def get_then_Inr pk_then_def
      pk_return_def HASH_BYTES_def)

lemma follow_u128 [follow]: "follows cu_u128 get_u128 (\<lambda>x. x)"
  by (auto intro!: followsI dest!: followsD [OF follow_take] simp: cu_u128_def get_u128_def get_then_Inr pk_then_def
      pk_return_def get_return_def)

lemma follow_varint_after:
  assumes "\<And>bs x r. g bs = Inr (x, r) \<Longrightarrow> \<exists>v. get_varint bs = Inr (v, r)"
  shows "follows (skip cu_varint) g (\<lambda>_. ())" "follows (skip cu_zigzag) g (\<lambda>_. ())"
proof -
  have "\<exists>v. cu_varint bs = Inr (v, r)" if "g bs = Inr (x, r)" for bs x r
    using assms [OF that] followsD [OF follow_varint] by blast
  then show "follows (skip cu_varint) g (\<lambda>_. ())" "follows (skip cu_zigzag) g (\<lambda>_. ())"
    by (fastforce intro!: followsI simp: skip_def cu_zigzag_def pk_then_def pk_return_def)+
qed

lemma varint_inside:
  "get_varint bs = Inr (x, r) \<Longrightarrow> \<exists>v. get_varint bs = Inr (v, r)"
  "get_varint_i64 bs = Inr (y, r) \<Longrightarrow> \<exists>v. get_varint bs = Inr (v, r)"
  "get_u16 bs = Inr (z, r) \<Longrightarrow> \<exists>v. get_varint bs = Inr (v, r)"
  "get_u32 bs = Inr (w, r) \<Longrightarrow> \<exists>v. get_varint bs = Inr (v, r)"
  "get_untrusted bs = Inr (u, r) \<Longrightarrow> \<exists>v. get_varint bs = Inr (v, r)"
  by (auto simp: get_varint_i64_def get_u16_def get_u32_def get_untrusted_def get_then_Inr get_return_def get_fail_def
      split: if_splits simp del: varint_iff)

lemma follow_skip_varint [follow]:
  "follows (skip cu_varint) get_varint (\<lambda>_. ())" "follows (skip cu_zigzag) get_varint_i64 (\<lambda>_. ())"
  "follows (skip cu_varint) get_u16 (\<lambda>_. ())" "follows (skip cu_varint) get_u32 (\<lambda>_. ())"
  "follows (skip cu_varint) get_untrusted (\<lambda>_. ())"
  by (rule follow_varint_after; erule varint_inside)+

lemmas follow_skips [follow] =
  follow_skip [OF follow_u128] follow_tokens [THEN follow_skip]

lemma cu_byte_Cons [simp]: "cu_byte (b # r) = Inr (b, r)"
  by (simp add: cu_byte_def pk_u8_Inr)

lemma follow_disc [follow]: "follows (skip cu_byte) (disc_get table name) (\<lambda>_. ())"
  by (rule followsI) (auto simp: disc_get_def get_then_Inr skip_def put_u8_def pk_then_def pk_return_def
      get_return_def get_fail_def split: option.splits)

lemma follow_opt [follow]: "follows c g h \<Longrightarrow> follows (cu_opt c) (get_opt g) (\<lambda>_. ())"
  by (rule followsI) (auto simp: get_opt_def cu_opt_def get_then_Inr pk_then_def put_u8_def
      pk_return_def get_return_def get_fail_def dest: followsD split: if_splits)

lemma follow_seq [follow]:
  assumes "follows c g (\<lambda>_. ())"
  shows "follows (cu_seq c) (get_seq g) (\<lambda>_. ())"
proof -
  have n: "get_n g n bs = Inr (xs, r) \<Longrightarrow> cu_times n c bs = Inr ((), r)" for n bs xs r
    by (induction n arbitrary: bs xs)
       (auto simp: get_then_Inr pk_then_def pk_return_def get_return_def dest!: followsD [OF assms])
  show ?thesis
    by (rule followsI)
       (auto simp: get_seq_def cu_seq_def get_then_Inr pk_then_def Let_def get_fail_def simp del: varint_iff
        dest!: followsD [OF follow_varint] n split: if_splits)
qed

lemma follow_last: "follows c g (\<lambda>_. ()) \<Longrightarrow> follows c (get_then g (\<lambda>x. get_return (k x))) (\<lambda>_. ())"
  by (auto intro!: followsI dest: followsD simp: get_then_Inr get_return_def)

lemma follow_narrow [follow]: "follows cu_varint get_u16 ucast" "follows cu_varint get_untrusted as_untrusted"
proof -
  show "follows cu_varint get_u16 ucast"
  proof (rule followsI)
    fix bs x r
    assume "get_u16 bs = Inr (x, r)"
    then have "bs = put_varint (ucast x) @ r" using codec.get_iff [OF codec_u16] by simp
    then show "cu_varint bs = Inr (ucast x, r)" using followsD [OF follow_varint, of bs "ucast x" r] by simp
  qed
  show "follows cu_varint get_untrusted as_untrusted"
  proof (rule followsI)
    fix bs x r
    assume "get_untrusted bs = Inr (x, r)"
    then have "bs = put_varint (as_untrusted x) @ r" using codec.get_iff [OF codec_untrusted] by simp
    then show "cu_varint bs = Inr (as_untrusted x, r)" using followsD [OF follow_varint, of bs "as_untrusted x" r] by simp
  qed
qed

lemma follow_event: "follows cu_byte (disc_get event_type_table name) event_code"
proof (rule followsI)
  fix bs x r
  assume "disc_get event_type_table name bs = Inr (x, r)"
  then have "bs = disc_put event_type_table x @ r"
    using codec.get_iff [OF codec_disc [OF tables_ok(1)]] by simp
  then show "cu_byte bs = Inr (event_code x, r)"
    by (cases x) (simp_all add: disc_put_def event_type_table_def put_u8_def)
qed

lemma follow_severity: "follows cu_byte (disc_get severity_table name) (\<lambda>x. the (map_of severity_table x))"
proof (rule followsI)
  fix bs x r
  assume "disc_get severity_table name bs = Inr (x, r)"
  then have "bs = disc_put severity_table x @ r"
    using codec.get_iff [OF codec_disc [OF tables_ok(2)]] by simp
  then show "cu_byte bs = Inr (the (map_of severity_table x), r)"
    by (cases x) (simp_all add: disc_put_def severity_table_def put_u8_def)
qed

lemmas follow_rules = follow_then follow_last follow follow_event follow_severity

lemma follow_basis: "follows cu_basis get_basis (\<lambda>_. ())"
  unfolding cu_basis_def get_basis_def by (rule follow_rules)+

lemma follow_outcome: "follows cu_outcome get_outcome (\<lambda>_. ())"
  unfolding cu_outcome_def get_outcome_def by (rule follow_rules)+

lemma follow_payload: "follows cu_payload get_payload (\<lambda>_. ())"
proof -
  have class_byte: "follows cu_byte (disc_get payload_class_table name) (\<lambda>x. the (map_of payload_class_table x))" for name
  proof (rule followsI)
    fix bs x r
    assume "disc_get payload_class_table name bs = Inr (x, r)"
    then have "bs = disc_put payload_class_table x @ r"
      using codec.get_iff [OF codec_disc [OF tables_ok(5)]] by simp
    then show "cu_byte bs = Inr (the (map_of payload_class_table x), r)"
      by (cases x) (simp_all add: disc_put_def payload_class_table_def put_u8_def)
  qed
  show ?thesis unfolding cu_payload_def get_payload_def by (rule follow_rules class_byte)+
qed

definition fields_of :: "Record \<Rightarrow> Fields" where
  "fields_of r = \<lparr>f_id = rec_id r, f_recorded_at = recorded_at r, f_agent_id = agent_id r, f_run_id = run_id r,
     f_event_type = event_code (event_type r), f_seq = rec_seq r\<rparr>"

text \<open>The walk stops after the sequence number; the store's reader goes on.\<close>

definition reads_first :: "'b pk \<Rightarrow> 'a get \<Rightarrow> ('a \<Rightarrow> 'b) \<Rightarrow> bool" where
  "reads_first c g h \<longleftrightarrow> (\<forall>bs x r. g bs = Inr (x, r) \<longrightarrow> (\<exists>q. c bs = Inr (h x, q)))"

lemma reads_first_then:
  assumes "follows c g h" "\<And>x. reads_first (f' (h x)) (f x) k"
  shows "reads_first (pk_then c f') (get_then g f) k"
proof -
  have "\<exists>q. pk_then c f' bs = Inr (k y, q)" if h: "get_then g f bs = Inr (y, r)" for bs y r
  proof -
    from h obtain x q where "g bs = Inr (x, q)" "f x q = Inr (y, r)" by (auto simp: get_then_Inr)
    then show ?thesis
      using followsD [OF assms(1)] assms(2) [of x, unfolded reads_first_def] by (fastforce simp: pk_then_def)
  qed
  then show ?thesis by (auto simp: reads_first_def)
qed

lemma fields_walk_body: "reads_first fields_walk get_body fields_of"
  unfolding fields_walk_def get_body_def
  apply (rule reads_first_then, (rule follow_rules follow_basis follow_outcome follow_payload)+)+
  apply (auto simp: reads_first_def get_then_Inr fields_of_def)
  done


lemma fields_decoded:
  assumes "decode_record_at bs version = Inr r"
  shows "fields bs = Inr (fields_of r)"
proof -
  from assms have "get_record version bs = Inr (r, [])" by (auto simp: decode_record_at_def bind_res_Inr_iff)
  then obtain r0 q where r0: "get_body bs = Inr (r0, q)" "fields_of r = fields_of r0"
    by (auto simp: get_record_def get_then_Inr get_return_def fields_of_def split: if_splits)
  then show ?thesis using fields_walk_body unfolding reads_first_def by (fastforce simp: fields_def)
qed

lemma fields_encoded: "record_fits r \<Longrightarrow> fields (encode_record r) = Inr (fields_of r)"
  using fields_decoded [of "encode_record r" 2 r] by (simp add: decode_record_iff)

lemma key_for_fields: "key_for (Dimension_as_str d) (fields_of r) = Some (key_of d r)"
  by (cases d) (simp_all add: key_for_def fields_of_def ascii_def)

subsection \<open>Properties\<close>

text \<open>
  C25. The verifier and the store read one record. Whatever body the store's own decoder accepts, of
  either version, the verifier's independent reader reads from the same bytes, and takes from it
  the id, time, agent, run, event type and position that decoder would; and the index key it
  derives for each of the store's five dimensions is the key the store indexed the record under.
\<close>

theorem verifier_reads_records:
  assumes "decode_record_at bs version = Inr r"
  shows "fields bs = Inr (fields_of r) \<and>
    (\<forall>d. key_for (Dimension_as_str d) (fields_of r) = Some (key_of d r))"
  using fields_decoded [OF assms] key_for_fields by blast

theorem verifier_reads_records_witness:
  "fields (encode_record sample_record) = Inr (fields_of sample_record) \<and>
   key_for (Dimension_as_str Dim_AgentId) (fields_of sample_record) = Some (ascii ''agent://d/p'')"
proof -
  have "decode_record_at (encode_record sample_record) 2 = Inr sample_record"
    using sample_fits(1) by (simp add: decode_record_iff)
  from verifier_reads_records [OF this] show ?thesis
    by (metis key_of.simps(3) Record.select_convs(4) sample_record_def)
qed

end
