(* ===== verification/Tsp.thy ===== *)
theory Tsp
  imports VerifierHash "HOL-Library.Signed_Division"
begin

text \<open>
  The verifier's reader of timestamp tokens: \<open>crates/trailryx-verify/src/tsp.rs\<close>. It reads DER far
  enough to find the digest an authority stamped, the time and the nonce.

  The results: an element is accepted only in its one DER spelling and always in that one; a time
  is accepted exactly when it spells a date of the calendar in UTC, and is then the number of
  seconds from the epoch to that date, counted day by day.
\<close>

subsection \<open>The model\<close>

definition OID_SIGNED_DATA :: bytes where
  "OID_SIGNED_DATA = [0x2A, 0x86, 0x48, 0x86, 0xF7, 0x0D, 0x01, 0x07, 0x02]"

definition OID_TST_INFO :: bytes where
  "OID_TST_INFO = [0x2A, 0x86, 0x48, 0x86, 0xF7, 0x0D, 0x01, 0x09, 0x10, 0x01, 0x04]"

definition OID_SHA384 :: bytes where
  "OID_SHA384 = [0x60, 0x86, 0x48, 0x01, 0x65, 0x03, 0x04, 0x02, 0x02]"

definition TAG_BOOLEAN :: u8 where "TAG_BOOLEAN = 0x01"

definition TAG_INTEGER :: u8 where "TAG_INTEGER = 0x02"

definition TAG_OCTET_STRING :: u8 where "TAG_OCTET_STRING = 0x04"

definition TAG_OID :: u8 where "TAG_OID = 0x06"

definition TAG_GENERALIZED_TIME :: u8 where "TAG_GENERALIZED_TIME = 0x18"

definition TAG_SEQUENCE :: u8 where "TAG_SEQUENCE = 0x30"

definition TAG_CONTEXT_0 :: u8 where "TAG_CONTEXT_0 = 0xA0"

datatype TokenError = TokTruncated | NotDer | Unexpected | NotATimestamp | WrongDigest | BadTime

record Stamped =
  imprint :: hash
  stamped_at :: int
  stamped_nonce :: "u64 option"

definition covers :: "Stamped \<Rightarrow> hash \<Rightarrow> bool" where
  "covers s rt \<longleftrightarrow> imprint s = VSha384_digest (as_bytes rt)"

text \<open>The length digits, with the two checked operations of a 64-bit \<open>usize\<close>.\<close>

fun der_length :: "nat \<Rightarrow> bytes \<Rightarrow> nat option" where
  "der_length len [] = Some len"
| "der_length len (digit # digits) =
     (if 2 ^ 64 \<le> len * 256 then None
      else if 2 ^ 64 \<le> len * 256 + unat digit then None
      else der_length (len * 256 + unat digit) digits)"

definition tlv_length :: "u8 \<Rightarrow> bytes \<Rightarrow> TokenError + nat \<times> bytes" where
  "tlv_length first after_first =
     (if first < 0x80 then Inr (unat first, after_first)
      else if first = 0x80 \<or> first = 0xFF then Inl NotDer
      else
        let count = unat (first AND 0x7F) in
        if 8 < count then Inl NotDer
        else if length after_first < count then Inl TokTruncated
        else
          let digits = take count after_first; rest = drop count after_first in
          if digits ! 0 = 0 then Inl NotDer
          else case der_length 0 digits of
            None \<Rightarrow> Inl NotDer
          | Some len \<Rightarrow> if len < 0x80 then Inl NotDer else Inr (len, rest))"

definition tlv_split :: "bytes \<Rightarrow> TokenError + u8 \<times> bytes \<times> bytes" where
  "tlv_split bytes =
     (case bytes of
        [] \<Rightarrow> Inl TokTruncated
      | tag # after_tag \<Rightarrow>
          if tag AND 0x1F = 0x1F then Inl NotDer
          else case after_tag of
            [] \<Rightarrow> Inl TokTruncated
          | first # after_first \<Rightarrow>
              bind_res (tlv_length first after_first) (\<lambda>(len, after_length).
                if length after_length < len then Inl TokTruncated
                else Inr (tag, take len after_length, drop len after_length)))"

definition tlv :: "bytes \<Rightarrow> u8 \<Rightarrow> TokenError + bytes \<times> bytes" where
  "tlv bytes want =
     bind_res (tlv_split bytes) (\<lambda>(tag, body, rest). if tag \<noteq> want then Inl Unexpected else Inr (body, rest))"

definition nested :: "bytes \<Rightarrow> u8 \<Rightarrow> TokenError + bytes" where
  "nested bytes want =
     bind_res (tlv bytes want) (\<lambda>(body, rest). if rest \<noteq> [] then Inl NotDer else Inr body)"

definition tlv_skip :: "bytes \<Rightarrow> TokenError + bytes" where
  "tlv_skip bytes = bind_res (tlv_split bytes) (\<lambda>(_, _, rest). Inr rest)"

definition after_field :: "bytes \<Rightarrow> TokenError + bytes" where
  "after_field bytes = tlv_skip bytes"

definition skip_if :: "u8 \<Rightarrow> bytes \<Rightarrow> TokenError + bytes" where
  "skip_if tag rest = (if rest \<noteq> [] \<and> rest ! 0 = tag then tlv_skip rest else Inr rest)"

definition nonce_value :: "bytes \<Rightarrow> TokenError + u64 option" where
  "nonce_value body =
     (case body of
        [] \<Rightarrow> Inl NotDer
      | first # others \<Rightarrow>
          if first = 0 \<and> others \<noteq> [] \<and> others ! 0 AND 0x80 = 0 then Inl NotDer
          else if first AND 0x80 \<noteq> 0 then Inr None
          else
            let significant = (if first = 0 then others else body) in
            if 8 < length significant then Inr None
            else Inr (Some (foldl (\<lambda>acc b. push_bit 8 acc OR ucast b) 0 significant)))"

definition optional_nonce :: "bytes \<Rightarrow> TokenError + u64 option" where
  "optional_nonce rest =
     bind_res (skip_if TAG_SEQUENCE rest) (\<lambda>rest.
     bind_res (skip_if TAG_BOOLEAN rest) (\<lambda>rest.
       if rest = [] \<or> rest ! 0 \<noteq> TAG_INTEGER then Inr None
       else bind_res (tlv rest TAG_INTEGER) (\<lambda>(body, _). nonce_value body)))"

definition is_ascii_digit :: "u8 \<Rightarrow> bool" where
  "is_ascii_digit b \<longleftrightarrow> 0x30 \<le> b \<and> b \<le> 0x39"

definition digits_from :: "bytes \<Rightarrow> nat \<Rightarrow> nat \<Rightarrow> int" where
  "digits_from fixed lo hi =
     foldl (\<lambda>acc d. acc * 10 + int (unat (d - 0x30))) 0 (take (hi - lo) (drop lo fixed))"

definition leap :: "int \<Rightarrow> bool" where
  "leap year \<longleftrightarrow> year mod 4 = 0 \<and> (year mod 100 \<noteq> 0 \<or> year mod 400 = 0)"

definition month_days :: "int \<Rightarrow> int \<Rightarrow> int option" where
  "month_days year month =
     (if month \<in> {1, 3, 5, 7, 8, 10, 12} then Some 31
      else if month \<in> {4, 6, 9, 11} then Some 30
      else if month = 2 then Some (if leap year then 29 else 28)
      else None)"

definition days_from_civil :: "int \<Rightarrow> int \<Rightarrow> int \<Rightarrow> int" where
  "days_from_civil year month day =
     (let y = (if month \<le> 2 then year - 1 else year);
          era = (if 0 \<le> y then y else y - 399) sdiv 400;
          yoe = y - era * 400;
          mp = (month + 9) smod 12;
          doy = (153 * mp + 2) sdiv 5 + day - 1;
          doe = yoe * 365 + yoe sdiv 4 - yoe sdiv 100 + doy
      in era * 146097 + doe - 719468)"

definition fraction_ok :: "bytes \<Rightarrow> bool" where
  "fraction_ok fraction \<longleftrightarrow>
     (case fraction of [] \<Rightarrow> True | dot # digits \<Rightarrow> dot = 0x2E \<and> digits \<noteq> [] \<and> list_all is_ascii_digit digits)"

definition generalized_time :: "bytes \<Rightarrow> TokenError + int" where
  "generalized_time body =
     (if length body < 15 then Inl BadTime
      else if last body \<noteq> 0x5A then Inl BadTime
      else
        let head = butlast body; fixed = take 14 head; fraction = drop 14 head in
        if \<not> fraction_ok fraction then Inl BadTime
        else if \<not> list_all is_ascii_digit fixed then Inl BadTime
        else
          let year = digits_from fixed 0 4; month = digits_from fixed 4 6; day = digits_from fixed 6 8;
              hour = digits_from fixed 8 10; minute = digits_from fixed 10 12; second = digits_from fixed 12 14
          in case month_days year month of
               None \<Rightarrow> Inl BadTime
             | Some days \<Rightarrow>
                 if day < 1 \<or> day > days \<or> hour > 23 \<or> minute > 59 \<or> second > 59 then Inl BadTime
                 else Inr (days_from_civil year month day * 86400 + hour * 3600 + minute * 60 + second))"

definition tsp_read :: "bytes \<Rightarrow> TokenError + Stamped" where
  "tsp_read token =
     bind_res (nested token TAG_SEQUENCE) (\<lambda>ci.
     bind_res (tlv ci TAG_OID) (\<lambda>(content_type, after_type).
     if content_type \<noteq> OID_SIGNED_DATA then Inl NotATimestamp else
     bind_res (tlv after_type TAG_CONTEXT_0) (\<lambda>(explicit, _).
     bind_res (nested explicit TAG_SEQUENCE) (\<lambda>sd.
     bind_res (tlv sd TAG_INTEGER) (\<lambda>(_, after_version).
     bind_res (tlv_skip after_version) (\<lambda>after_algorithms.
     bind_res (tlv after_algorithms TAG_SEQUENCE) (\<lambda>(eci, _).
     bind_res (tlv eci TAG_OID) (\<lambda>(econtent_type, after_econtent_type).
     if econtent_type \<noteq> OID_TST_INFO then Inl NotATimestamp else
     bind_res (tlv after_econtent_type TAG_CONTEXT_0) (\<lambda>(wrapper, _).
     bind_res (tlv wrapper TAG_OCTET_STRING) (\<lambda>(content, _).
     bind_res (nested content TAG_SEQUENCE) (\<lambda>info.
     bind_res (tlv info TAG_INTEGER) (\<lambda>(_, after_info_version).
     bind_res (tlv after_info_version TAG_OID) (\<lambda>(_, after_policy).
     bind_res (tlv after_policy TAG_SEQUENCE) (\<lambda>(mi, _).
     bind_res (tlv mi TAG_SEQUENCE) (\<lambda>(algorithm, _).
     bind_res (tlv algorithm TAG_OID) (\<lambda>(algorithm_oid, _).
     if algorithm_oid \<noteq> OID_SHA384 then Inl WrongDigest else
     bind_res (after_field mi) (\<lambda>beside.
     bind_res (tlv beside TAG_OCTET_STRING) (\<lambda>(hashed, _).
     if length hashed \<noteq> 48 then Inl WrongDigest else
     bind_res (tlv_skip after_policy) (\<lambda>after_imprint.
     bind_res (tlv after_imprint TAG_INTEGER) (\<lambda>(_, after_serial).
     bind_res (tlv after_serial TAG_GENERALIZED_TIME) (\<lambda>(time, after_time).
     bind_res (generalized_time time) (\<lambda>at.
     bind_res (optional_nonce after_time) (\<lambda>nonce.
     Inr \<lparr>imprint = Hash_of_bytes hashed, stamped_at = at, stamped_nonce = nonce\<rparr>)))))))))))))))))))))))"


subsection \<open>One spelling of an element\<close>

fun nat_bytes :: "nat \<Rightarrow> bytes" where
  "nat_bytes n = (if n = 0 then [] else nat_bytes (n div 256) @ [of_nat n])"

declare nat_bytes.simps [simp del]

definition der_len :: "nat \<Rightarrow> bytes" where
  "der_len n = (if n < 128 then [of_nat n] else of_nat (128 + length (nat_bytes n)) # nat_bytes n)"

definition der :: "u8 \<Rightarrow> bytes \<Rightarrow> bytes" where
  "der tag body = tag # der_len (length body) @ body"

lemma be_nat_nat_bytes [simp]: "be_nat (nat_bytes n) = n"
proof (induction n rule: nat_bytes.induct)
  case (1 n)
  then show ?case by (cases "n = 0") (simp_all add: nat_bytes.simps [of n] nat_bytes.simps [of 0] unat_of_nat_u8)
qed

lemma nat_bytes_be_nat: "ds = [] \<or> ds ! 0 \<noteq> 0 \<Longrightarrow> nat_bytes (be_nat ds) = ds"
proof (induction ds rule: rev_induct)
  case (snoc d ds)
  have d: "unat d < 256" by simp
  have hd: "ds = [] \<or> ds ! 0 \<noteq> 0" using snoc.prems by (cases ds) auto
  have nz: "be_nat (ds @ [d]) \<noteq> 0"
  proof (cases ds)
    case Nil
    with snoc.prems show ?thesis by (simp add: be_nat_def unsigned_eq_0_iff)
  next
    case (Cons x xs)
    with hd have "unat x \<noteq> 0" by (simp add: unsigned_eq_0_iff)
    with Cons show ?thesis by (simp add: be_nat_Cons)
  qed
  have "(of_nat (be_nat ds * 256 + unat d) :: u8) = d"
    by (rule unsigned_word_eqI [where ?'a = nat]) (simp only: unat_of_nat_u8, simp)
  with snoc.IH [OF hd] nz d show ?case by (simp add: nat_bytes.simps [of "be_nat ds * 256 + unat d"])
qed (simp add: nat_bytes.simps)

lemma nat_bytes_first: "n \<noteq> 0 \<Longrightarrow> nat_bytes n ! 0 \<noteq> 0"
proof (induction n rule: nat_bytes.induct)
  case (1 n)
  show ?case
  proof (cases "n div 256 = 0")
    case True
    with "1.prems" have n: "nat_bytes n = [of_nat n]" "n < 256" "n \<noteq> 0" by (simp_all add: nat_bytes.simps)
    then have "unat (of_nat n :: u8) \<noteq> 0" by (simp add: unat_of_nat_u8)
    with n(1) show ?thesis by force
  next
    case False
    with "1.IH" "1.prems" show ?thesis
      by (simp add: nat_bytes.simps [of n] nth_append) (simp add: nat_bytes.simps)
  qed
qed

lemma nat_bytes_length: "n < 256 ^ k \<Longrightarrow> length (nat_bytes n) \<le> k"
proof (induction k arbitrary: n)
  case (Suc k)
  then have "n div 256 < 256 ^ k" by (simp add: less_mult_imp_div_less mult.commute)
  with Suc.IH show ?case by (simp add: nat_bytes.simps [of n])
qed (simp add: nat_bytes.simps)

lemma der_length_be: "length pre + length ds \<le> 8 \<Longrightarrow> der_length (be_nat pre) ds = Some (be_nat (pre @ ds))"
proof (induction ds arbitrary: pre)
  case (Cons d ds)
  have "be_nat (pre @ [d]) < 256 ^ 8"
    by (rule less_le_trans [OF be_nat_less], rule power_increasing) (use Cons.prems in simp_all)
  then have "be_nat pre * 256 + unat d < 2 ^ 64" by simp
  with Cons.IH [of "pre @ [d]"] Cons.prems show ?case by simp
qed simp

lemma seven_bits: "unat ((b :: u8) AND 0x7F) = unat b mod 128"
proof -
  have "(0x7F :: u8) = mask 7" by (simp add: mask_eq_decr_exp)
  then have "b AND 0x7F = take_bit 7 b" by (simp add: take_bit_eq_mask)
  then show ?thesis by (simp add: unsigned_take_bit_eq take_bit_nat_def)
qed

lemma unat_ge: "(0x80 :: u8) \<le> b \<longleftrightarrow> 128 \<le> unat b"
  by (simp add: word_le_nat_alt)

lemma tlv_length_Inr:
  "tlv_length first after = Inr (len, rest) \<longleftrightarrow> len < 2 ^ 64 \<and> first # after = der_len len @ rest"
proof
  assume l: "tlv_length first after = Inr (len, rest)"
  show "len < 2 ^ 64 \<and> first # after = der_len len @ rest"
  proof (cases "first < 0x80")
    case True
    then have "unat first < 128" by (simp add: word_less_nat_alt)
    with True l show ?thesis by (auto simp: tlv_length_def der_len_def)
  next
    case False
    let ?c = "unat (first AND 0x7F)"
    let ?ds = "take ?c after"
    from False l have c: "?c \<le> 8" "?c \<le> length after" "?ds ! 0 \<noteq> 0" "der_length 0 ?ds = Some len" "128 \<le> len"
      "rest = drop ?c after" "first \<noteq> 0x80"
      by (auto simp: tlv_length_def Let_def split: if_splits option.splits)
    have "128 \<le> unat first" "unat first - 128 < 128"
      using False unat_u8_less [of first] by (simp add: unat_ge not_less, linarith)
    then have f: "unat first = 128 + ?c"
      unfolding seven_bits by (simp add: le_mod_geq)
    have len: "len = be_nat ?ds" using der_length_be [of "[]" ?ds] c(1,2,4) by simp
    have "be_nat ?ds < 256 ^ 8"
      by (rule less_le_trans [OF be_nat_less], rule power_increasing) (use c(1) in simp_all)
    moreover have "nat_bytes len = ?ds" using nat_bytes_be_nat [of ?ds] c(3) len by blast
    moreover have "of_nat (128 + ?c) = first" unfolding f [symmetric] by simp
    ultimately show ?thesis using c len by (simp add: der_len_def)
  qed
next
  assume r: "len < 2 ^ 64 \<and> first # after = der_len len @ rest"
  show "tlv_length first after = Inr (len, rest)"
  proof (cases "len < 128")
    case True
    then have "unat (of_nat len :: u8) = len" by (simp add: unat_of_nat_u8)
    with True r show ?thesis by (auto simp: der_len_def tlv_length_def word_less_nat_alt)
  next
    case False
    let ?ds = "nat_bytes len"
    have k: "length ?ds \<le> 8" using nat_bytes_length [of len 8] r by simp
    have ne: "?ds \<noteq> []" using False by (simp add: nat_bytes.simps)
    have first: "first = of_nat (128 + length ?ds)" and after: "after = ?ds @ rest"
      using r False by (simp_all add: der_len_def)
    have "unat (of_nat (128 + length ?ds) :: u8) = 128 + length ?ds"
      unfolding unat_of_nat_u8 using k by simp
    then have f: "unat first = 128 + length ?ds" "after = ?ds @ rest" using first after by (simp_all only:)
    have "first \<noteq> 0x80" "first \<noteq> 0xFF" using f(1) ne k by auto
    moreover have "der_length 0 ?ds = Some len" using der_length_be [of "[]" ?ds] k by simp
    moreover have "?ds ! 0 \<noteq> 0" using nat_bytes_first [of len] False by simp
    moreover have "unat (first AND 0x7F) = length ?ds" using f(1) k by (simp add: seven_bits)
    moreover have "\<not> first < 0x80" using f(1) by (simp add: word_less_nat_alt)
    ultimately show ?thesis using f False k by (simp add: tlv_length_def)
  qed
qed

lemma tlv_split_Inr:
  "tlv_split bs = Inr (tag, body, rest) \<longleftrightarrow>
   tag AND 0x1F \<noteq> 0x1F \<and> length body < 2 ^ 64 \<and> bs = der tag body @ rest" (is "?l \<longleftrightarrow> ?r")
proof -
  have two: "tlv_split (tag # first # after) = Inr (tag, body, rest) \<longleftrightarrow>
      tag AND 0x1F \<noteq> 0x1F \<and> tlv_length first after = Inr (length body, body @ rest)" for first after
    by (cases "tlv_length first after") (auto simp: tlv_split_def split: if_splits)
  show ?thesis
  proof
    assume l: ?l
    then obtain first after where "bs = tag # first # after"
      by (auto simp: tlv_split_def bind_res_Inr_iff split: list.splits if_splits)
    with l two show ?r by (simp add: tlv_length_Inr der_def)
  next
    assume r: ?r
    obtain first after where "der_len (length body) @ body @ rest = first # after"
      by (cases "der_len (length body) @ body @ rest") (auto simp: der_len_def split: if_splits)
    with r two [of first after] show ?l by (simp add: tlv_length_Inr der_def)
  qed
qed

subsection \<open>One spelling of a time\<close>

primrec dec :: "nat \<Rightarrow> nat \<Rightarrow> bytes" where
  "dec 0 v = []"
| "dec (Suc k) v = dec k (v div 10) @ [of_nat (48 + v mod 10)]"

definition dec_value :: "bytes \<Rightarrow> nat" where
  "dec_value ds = foldl (\<lambda>acc d. acc * 10 + (unat d - 48)) 0 ds"

lemma digit_unat: "is_ascii_digit d \<longleftrightarrow> 48 \<le> unat d \<and> unat d \<le> 57"
  by (simp add: is_ascii_digit_def word_le_nat_alt)

lemma length_dec [simp]: "length (dec k v) = k"
  by (induction k arbitrary: v) simp_all

lemma dec_digit: "unat (of_nat (48 + v mod 10) :: u8) = 48 + v mod 10"
proof -
  have "48 + v mod 10 < 256" using mod_less_divisor [of 10 v] by linarith
  then show ?thesis by (simp only: unat_of_nat_u8 mod_less)
qed

lemma dec_digits: "list_all is_ascii_digit (dec k v)"
proof (induction k arbitrary: v)
  case (Suc k)
  have "v mod 10 < 10" by simp
  with Suc show ?case by (simp only: dec.simps list_all_append list.pred_inject digit_unat dec_digit) simp
qed simp

lemma dec_value_dec: "v < 10 ^ k \<Longrightarrow> dec_value (dec k v) = v"
proof (induction k arbitrary: v)
  case (Suc k)
  then have "v div 10 < 10 ^ k" by (simp add: less_mult_imp_div_less mult.commute)
  from Suc.IH [OF this] show ?case by (simp only: dec.simps dec_value_def foldl_append foldl.simps dec_digit) simp
qed (simp add: dec_value_def)

lemma dec_dec_value: "list_all is_ascii_digit ds \<Longrightarrow> dec (length ds) (dec_value ds) = ds \<and> dec_value ds < 10 ^ length ds"
proof (induction ds rule: rev_induct)
  case (snoc d ds)
  then have d: "48 \<le> unat d" "unat d \<le> 57" and ih: "dec (length ds) (dec_value ds) = ds" "dec_value ds < 10 ^ length ds"
    by (auto simp: digit_unat)
  have v: "dec_value (ds @ [d]) = dec_value ds * 10 + (unat d - 48)" by (simp add: dec_value_def)
  have "unat d - 48 < 10" using d by linarith
  then have "(dec_value ds * 10 + (unat d - 48)) div 10 = dec_value ds" "(dec_value ds * 10 + (unat d - 48)) mod 10 = unat d - 48"
    by (simp_all only: div_mult_self3 mod_mult_self3 mod_less div_less)
  moreover have "48 + (unat d - 48) = unat d" using d by simp
  ultimately show ?case using ih d by (simp add: v del: of_nat_add)
qed (simp add: dec_value_def)

lemma digits_from_value:
  assumes "list_all is_ascii_digit fixed"
  shows "digits_from fixed lo hi = int (dec_value (take (hi - lo) (drop lo fixed)))"
proof -
  have "unat (d - 0x30) = unat d - 48" if "is_ascii_digit d" for d
    using that by (simp add: digit_unat unat_sub_if')
  then have step: "int a * 10 + int (unat (d - 0x30)) = int (a * 10 + (unat d - 48))" if "is_ascii_digit d" for a d
    using that by simp
  have "foldl (\<lambda>acc d. acc * 10 + int (unat (d - 0x30))) (int a) ds = int (foldl (\<lambda>acc d. acc * 10 + (unat d - 48)) a ds)"
    if "list_all is_ascii_digit ds" for ds a
    using that by (induction ds arbitrary: a) (simp_all only: foldl.simps list.pred_inject step)
  from this [of "take (hi - lo) (drop lo fixed)" 0] show ?thesis
    using assms by (auto simp: digits_from_def dec_value_def list_all_iff dest: in_set_takeD in_set_dropD)
qed

text \<open>The calendar, counted: whole years, whole months, days.\<close>

definition nat_leap :: "nat \<Rightarrow> bool" where
  "nat_leap y \<longleftrightarrow> 4 dvd y \<and> (\<not> 100 dvd y \<or> 400 dvd y)"

definition days_of_month :: "nat \<Rightarrow> nat \<Rightarrow> nat" where
  "days_of_month y m = (if m = 2 then if nat_leap y then 29 else 28 else if m \<in> {4, 6, 9, 11} then 30 else 31)"

primrec days_before_year :: "nat \<Rightarrow> nat" where
  "days_before_year 0 = 0"
| "days_before_year (Suc y) = days_before_year y + (if nat_leap y then 366 else 365)"

primrec days_before_month :: "nat \<Rightarrow> nat \<Rightarrow> nat" where
  "days_before_month y 0 = 0"
| "days_before_month y (Suc m) = days_before_month y m + (if m = 0 then 0 else days_of_month y m)"

definition day_number :: "nat \<Rightarrow> nat \<Rightarrow> nat \<Rightarrow> int" where
  "day_number y m d = int (days_before_year y + days_before_month y m + d)"

definition civil :: "nat \<Rightarrow> nat \<Rightarrow> nat \<Rightarrow> bool" where
  "civil y m d \<longleftrightarrow> y < 10000 \<and> 1 \<le> m \<and> m \<le> 12 \<and> 1 \<le> d \<and> d \<le> days_of_month y m"

lemma div_step:
  fixes n k :: int
  assumes "0 < k"
  shows "(n + k) div k = (n + (k - 1)) div k + (if k dvd n then 1 else 0)"
proof -
  define q r where "q = n div k" and "r = n mod k"
  have n: "n = r + q * k" by (simp add: q_def r_def)
  have r: "0 \<le> r" "r < k" using assms by (simp_all add: r_def)
  have d: "k dvd n \<longleftrightarrow> r = 0" by (simp add: r_def dvd_eq_mod_eq_0)
  have "n + k = r + (q + 1) * k" by (simp add: n algebra_simps)
  then have "(n + k) div k = q + 1" using r assms by (simp only: div_mult_self1) simp
  moreover have "n + (k - 1) = (r + (k - 1)) + q * k" by (simp add: n)
  then have "(n + (k - 1)) div k = (r + (k - 1)) div k + q" using assms by (simp only: div_mult_self1)
  moreover have "(r + (k - 1)) div k = (if r = 0 then 0 else 1)"
  proof (cases "r = 0")
    case False
    then have "r + (k - 1) = (r - 1) + 1 * k" "0 \<le> r - 1" using r by simp_all
    then have "(r + (k - 1)) div k = (r - 1) div k + 1" using assms by (simp only: div_mult_self1)
    moreover have "(r - 1) div k = 0" using r False by simp
    ultimately show ?thesis using False by simp
  qed (use assms in simp)
  ultimately show ?thesis using d by simp
qed

lemma leap_count:
  "int (if nat_leap y then 366 else 365) =
     365 + (if 4 dvd int y then 1 else 0) - (if 100 dvd int y then 1 else 0) + (if 400 dvd int y then 1 else 0)"
proof -
  have "4 dvd y \<longleftrightarrow> 4 dvd int y" "100 dvd y \<longleftrightarrow> 100 dvd int y" "400 dvd y \<longleftrightarrow> 400 dvd int y" by presburger+
  moreover have "100 dvd int y \<Longrightarrow> 4 dvd int y" "400 dvd int y \<Longrightarrow> 100 dvd int y" by presburger+
  ultimately show ?thesis by (auto simp: nat_leap_def)
qed

lemma div_steps:
  fixes y :: int
  shows "(y + 4) div 4 = (y + 3) div 4 + (if 4 dvd y then 1 else 0)"
    "(y + 100) div 100 = (y + 99) div 100 + (if 100 dvd y then 1 else 0)"
    "(y + 400) div 400 = (y + 399) div 400 + (if 400 dvd y then 1 else 0)"
  using div_step [of 4 y] div_step [of 100 y] div_step [of 400 y] by simp_all

lemma days_before_year_closed:
  "int (days_before_year y) = 365 * int y + (int y + 3) div 4 - (int y + 99) div 100 + (int y + 399) div 400"
proof (induction y)
  case (Suc y)
  have "int (Suc y) + 3 = int y + 4" "int (Suc y) + 99 = int y + 100" "int (Suc y) + 399 = int y + 400" by simp_all
  moreover have "a + b - c + d + (365 + i - j + l) = a + 365 + (b + i) - (c + j) + (d + l)" for a b c d i j l :: int
    by simp
  moreover have "365 * int (Suc y) = 365 * int y + 365" by simp
  ultimately show ?case using Suc by (simp only: days_before_year.simps of_nat_add div_steps leap_count)
qed simp

lemma days_before_month_closed:
  assumes "1 \<le> m" "m \<le> 12"
  shows "int (days_before_month y m) =
    (if m \<le> 2 then 31 * (int m - 1) else (153 * (int m - 3) + 2) div 5 + 59 + (if nat_leap y then 1 else 0))"
proof -
  have "m \<in> {1, 2, 3, 4, 5, 6, 7, 8, 9, 10, 11, 12}" using assms by (simp, arith)
  then show ?thesis
    by (elim insertE; simp add: eval_nat_numeral days_of_month_def)
qed

lemma sdiv_nonneg: "0 \<le> a \<Longrightarrow> 0 < b \<Longrightarrow> a sdiv b = a div (b :: int)"
  by (cases "a = 0") (simp_all add: signed_divide_int_def)

lemma days_from_civil_closed:
  assumes "0 \<le> year" "1 \<le> month" "month \<le> 12"
  shows "days_from_civil year month day =
    (let y = (if month \<le> 2 then year - 1 else year);
         mp = (if month \<le> 2 then month + 9 else month - 3)
     in 365 * y + y div 4 - y div 100 + y div 400 + (153 * mp + 2) div 5 + day - 1 - 719468)"
proof -
  define y where "y = (if month \<le> 2 then year - 1 else year)"
  have y: "-1 \<le> y" using assms by (simp add: y_def)
  define era where "era = y div 400"
  have era: "(if 0 \<le> y then y else y - 399) sdiv 400 = era"
  proof (cases "0 \<le> y")
    case True
    then show ?thesis by (simp add: era_def sdiv_nonneg)
  next
    case False
    with y have "y = -1" by simp
    then show ?thesis by (simp add: era_def signed_divide_int_def)
  qed
  define yoe where "yoe = y mod 400"
  have ye: "y = yoe + era * 400" "0 \<le> yoe" by (simp_all add: era_def yoe_def)
  have d: "y div 4 = yoe div 4 + era * 100" "y div 100 = yoe div 100 + era * 4" "y div 400 = era" "y - era * 400 = yoe"
    using ye(1) by (simp_all add: era_def)
  have mp: "(month + 9) smod 12 = (if month \<le> 2 then month + 9 else month - 3)"
  proof -
    have "(month + 9) mod 12 = month - 3" if "3 \<le> month"
      using that assms mod_add_self2 [of "month - 3" 12] by (simp add: add.commute)
    then show ?thesis using assms by (auto simp: signed_modulo_int_def)
  qed
  show ?thesis
    unfolding days_from_civil_def Let_def y_def [symmetric] era d mp using ye assms by (simp add: sdiv_nonneg del: div_mult_self1 div_mult_self2 div_mult_self3 div_mult_self4)
qed

lemma days_from_civil_counts:
  assumes "1 \<le> m" "m \<le> 12"
  shows "days_from_civil (int y) (int m) (int d) = day_number y m d - day_number 1970 1 1"
proof -
  have epoch: "day_number 1970 (Suc 0) (Suc 0) = 719529"
    by (simp only: day_number_def of_nat_add days_before_year_closed days_before_month.simps) simp
  define q where "q = (int y + 3) div 4 - (int y + 99) div 100 + (int y + 399) div 400"
  have n: "day_number y m d = 365 * int y + q + int (days_before_month y m) + int d"
    by (simp only: day_number_def of_nat_add days_before_year_closed q_def)
  show ?thesis
  proof (cases "m \<le> 2")
    case True
    have "(int y - 1) div 4 - (int y - 1) div 100 + (int y - 1) div 400 = q - 1"
      using div_mult_self1 [of 4 "int y - 1" 1] div_mult_self1 [of 100 "int y - 1" 1] div_mult_self1 [of 400 "int y - 1" 1]
      by (simp add: q_def add.commute)
    moreover have "(153 * (int m + 9) + 2) div 5 = 306 + 31 * (int m - 1)"
      using True assms(1) by (cases "m = 1") auto
    ultimately show ?thesis
      using True assms by (simp add: days_from_civil_closed days_before_month_closed n epoch Let_def)
  next
    case False
    have "int y div 4 = (int y + 4) div 4 - 1" "int y div 100 = (int y + 100) div 100 - 1" "int y div 400 = (int y + 400) div 400 - 1"
      by simp_all
    moreover have "(if nat_leap y then 1 else 0 :: int) = (if 4 dvd int y then 1 else 0) - (if 100 dvd int y then 1 else 0) +
        (if 400 dvd int y then 1 else 0)" using leap_count [of y] by (cases "nat_leap y") simp_all
    ultimately have "int y div 4 - int y div 100 + int y div 400 = q - 1 + (if nat_leap y then 1 else 0)"
      by (simp only: div_steps q_def)
    with False assms show ?thesis by (simp add: days_from_civil_closed days_before_month_closed n epoch Let_def)
  qed
qed


definition utc_stamp :: "nat \<Rightarrow> nat \<Rightarrow> nat \<Rightarrow> nat \<Rightarrow> nat \<Rightarrow> nat \<Rightarrow> bytes" where
  "utc_stamp y m d h mi s = dec 4 y @ dec 2 m @ dec 2 d @ dec 2 h @ dec 2 mi @ dec 2 s"

lemma utc_stamp_parts:
  "length (utc_stamp y m d h mi s) = 14" "list_all is_ascii_digit (utc_stamp y m d h mi s)"
  by (simp_all add: utc_stamp_def dec_digits del: dec.simps)

lemma digits_from_utc:
  assumes "y < 10000" "m < 100" "d < 100" "h < 100" "mi < 100" "s < 100"
  shows "digits_from (utc_stamp y m d h mi s) 0 4 = int y" "digits_from (utc_stamp y m d h mi s) 4 6 = int m"
    "digits_from (utc_stamp y m d h mi s) 6 8 = int d" "digits_from (utc_stamp y m d h mi s) 8 10 = int h"
    "digits_from (utc_stamp y m d h mi s) 10 12 = int mi" "digits_from (utc_stamp y m d h mi s) 12 14 = int s"
  using assms
  by (simp_all add: digits_from_value utc_stamp_parts) (simp_all add: utc_stamp_def dec_value_dec del: dec.simps)

lemma fixed_stamp:
  assumes "length fixed = 14" "list_all is_ascii_digit fixed"
  obtains y m d h mi s where "fixed = utc_stamp y m d h mi s" "y < 10000" "m < 100" "d < 100" "h < 100" "mi < 100" "s < 100"
proof
  let ?v = "\<lambda>lo n. dec_value (take n (drop lo fixed))"
  have part: "dec n (?v lo n) = take n (drop lo fixed) \<and> ?v lo n < 10 ^ n" if "lo + n \<le> 14" for lo n
    using dec_dec_value [of "take n (drop lo fixed)"] that assms
    by (auto simp: list_all_iff dest: in_set_takeD in_set_dropD)
  have f: "fixed = take 4 (drop 0 fixed) @ take 2 (drop 4 fixed) @ take 2 (drop 6 fixed) @ take 2 (drop 8 fixed) @
      take 2 (drop 10 fixed) @ take 2 (drop 12 fixed)"
    using assms(1) by (intro nth_equalityI) (auto simp: nth_append min_def)
  show "fixed = utc_stamp (?v 0 4) (?v 4 2) (?v 6 2) (?v 8 2) (?v 10 2) (?v 12 2)"
    unfolding utc_stamp_def using part [of 0 4] part [of 4 2] part [of 6 2] part [of 8 2] part [of 10 2] part [of 12 2] f by simp
  show "?v 0 4 < 10000" "?v 4 2 < 100" "?v 6 2 < 100" "?v 8 2 < 100" "?v 10 2 < 100" "?v 12 2 < 100"
    using part [of 0 4] part [of 4 2] part [of 6 2] part [of 8 2] part [of 10 2] part [of 12 2] by simp_all
qed

lemma month_days_nat: "month_days (int y) (int m) = (if 1 \<le> m \<and> m \<le> 12 then Some (int (days_of_month y m)) else None)"
proof -
  have "leap (int y) \<longleftrightarrow> nat_leap y" unfolding leap_def nat_leap_def by presburger
  moreover have "m \<in> {1, 2, 3, 4, 5, 6, 7, 8, 9, 10, 11, 12}" if "1 \<le> m" "m \<le> 12" using that by (simp, arith)
  ultimately show ?thesis by (auto simp: month_days_def days_of_month_def)
qed

definition seconds :: "nat \<Rightarrow> nat \<Rightarrow> nat \<Rightarrow> nat \<Rightarrow> nat \<Rightarrow> nat \<Rightarrow> int" where
  "seconds y m d h mi s =
     (day_number y m d - day_number 1970 1 1) * 86400 + int h * 3600 + int mi * 60 + int s"

definition clock :: "nat \<Rightarrow> nat \<Rightarrow> nat \<Rightarrow> bool" where
  "clock h mi s \<longleftrightarrow> h \<le> 23 \<and> mi \<le> 59 \<and> s \<le> 59"

lemma time_of_stamp:
  assumes "y < 10000" "m < 100" "d < 100" "h < 100" "mi < 100" "s < 100"
  shows "generalized_time (utc_stamp y m d h mi s @ fraction @ [0x5A]) = Inr t \<longleftrightarrow>
    fraction_ok fraction \<and> civil y m d \<and> clock h mi s \<and> t = seconds y m d h mi s"
proof -
  have b: "butlast (utc_stamp y m d h mi s @ fraction @ [0x5A]) = utc_stamp y m d h mi s @ fraction"
    by (metis append.assoc butlast_snoc)
  show ?thesis
    using assms(1) days_from_civil_counts [of m y d]
    by (auto simp: generalized_time_def b utc_stamp_parts digits_from_utc [OF assms] month_days_nat Let_def civil_def clock_def
        seconds_def simp del: append_assoc)
qed


subsection \<open>A whole token\<close>

definition uint_bytes :: "u64 \<Rightarrow> bytes" where
  "uint_bytes n =
     (let b = nat_bytes (unat n) in if b = [] then [0] else if b ! 0 AND 0x80 \<noteq> 0 then 0 # b else b)"

definition tst_info :: "bytes \<Rightarrow> hash \<Rightarrow> bytes \<Rightarrow> bytes \<Rightarrow> u64 option \<Rightarrow> bytes" where
  "tst_info policy h serial time nonce = der TAG_SEQUENCE
     (der TAG_INTEGER [1] @ der TAG_OID policy @
      der TAG_SEQUENCE (der TAG_SEQUENCE (der TAG_OID OID_SHA384) @ der TAG_OCTET_STRING (as_bytes h)) @
      der TAG_INTEGER serial @ der TAG_GENERALIZED_TIME time @
      (case nonce of None \<Rightarrow> [] | Some n \<Rightarrow> der TAG_INTEGER (uint_bytes n)))"

definition timestamp_token :: "bytes \<Rightarrow> bytes \<Rightarrow> bytes \<Rightarrow> bytes" where
  "timestamp_token algorithms info signers = der TAG_SEQUENCE
     (der TAG_OID OID_SIGNED_DATA @ der TAG_CONTEXT_0 (der TAG_SEQUENCE
        (der TAG_INTEGER [3] @ der TAG_SEQUENCE algorithms @
         der TAG_SEQUENCE (der TAG_OID OID_TST_INFO @ der TAG_CONTEXT_0 (der TAG_OCTET_STRING info)) @ signers)))"

lemma tlv_der:
  assumes "tag AND 0x1F \<noteq> 0x1F" "length body < 2 ^ 64"
  shows "tlv_split (der tag body @ rest) = Inr (tag, body, rest)" "tlv_split (der tag body) = Inr (tag, body, [])"
  using assms by (simp_all add: tlv_split_Inr)

lemma length_der: "length body \<le> length (der tag body)"
  by (simp add: der_def)

lemma or_shift: "push_bit 8 acc OR ucast (b :: u8) = (acc * 256 + ucast b :: u64)"
proof -
  have "push_bit 8 acc AND ucast b = 0"
    by (rule bit_eqI) (auto simp: bit_simps dest: bit_imp_le_length)
  then show ?thesis by (simp add: disjunctive_add_eq_or [symmetric] push_bit_eq_mult)
qed

lemma shift_fold: "foldl (\<lambda>acc b. push_bit 8 acc OR ucast b) 0 bs = (from_be_bytes bs :: u64)"
proof (induction bs rule: rev_induct)
  case (snoc b bs)
  then show ?case by (simp add: or_shift from_be_bytes_def)
qed (simp add: from_be_bytes_def)


lemma nonce_uint: "nonce_value (uint_bytes n) = Inr (Some n)"
proof -
  let ?b = "nat_bytes (unat n)"
  have fold: "foldl (\<lambda>acc b. push_bit 8 acc OR ucast b) 0 ?b = n"
    unfolding shift_fold by (simp add: from_be_bytes_def)
  have len: "length ?b \<le> 8" using nat_bytes_length [of "unat n" 8] unsigned_less [of n, where ?'a = nat] by simp
  show ?thesis
  proof (cases ?b)
    case Nil
    with fold show ?thesis by (simp add: uint_bytes_def nonce_value_def)
  next
    case (Cons x xs)
    have "unat n \<noteq> 0" using Cons by (metis list.distinct(1) nat_bytes.simps)
    then have "x \<noteq> 0" using nat_bytes_first [of "unat n"] Cons by simp
    then show ?thesis using Cons fold len by (auto simp: uint_bytes_def nonce_value_def Let_def)
  qed
qed

lemma tags_ok:
  "TAG_BOOLEAN AND 0x1F \<noteq> 0x1F" "TAG_INTEGER AND 0x1F \<noteq> 0x1F" "TAG_OCTET_STRING AND 0x1F \<noteq> 0x1F"
  "TAG_OID AND 0x1F \<noteq> 0x1F" "TAG_GENERALIZED_TIME AND 0x1F \<noteq> 0x1F" "TAG_SEQUENCE AND 0x1F \<noteq> 0x1F"
  "TAG_CONTEXT_0 AND 0x1F \<noteq> 0x1F"
  by (simp_all add: TAG_BOOLEAN_def TAG_INTEGER_def TAG_OCTET_STRING_def TAG_OID_def TAG_GENERALIZED_TIME_def
      TAG_SEQUENCE_def TAG_CONTEXT_0_def)

lemma short_der: "length (der tag body) < n \<Longrightarrow> length body < n"
  using length_der [of body tag] by linarith

lemma nonce_field:
  assumes "length (uint_bytes n) < 2 ^ 64"
  shows "optional_nonce (der TAG_INTEGER (uint_bytes n)) = Inr (Some n)"
proof -
  have "der TAG_INTEGER (uint_bytes n) ! 0 = TAG_INTEGER" "der TAG_INTEGER (uint_bytes n) \<noteq> []" by (simp_all add: der_def)
  moreover have "TAG_INTEGER \<noteq> TAG_SEQUENCE" "TAG_INTEGER \<noteq> TAG_BOOLEAN"
    by (simp_all add: TAG_INTEGER_def TAG_SEQUENCE_def TAG_BOOLEAN_def)
  ultimately show ?thesis
    using assms by (simp add: optional_nonce_def skip_if_def tlv_def tlv_der tags_ok nonce_uint)
qed

lemma read_token:
  assumes "length (timestamp_token algs (tst_info policy h serial time nonce) signers) < 2 ^ 64" "generalized_time time = Inr t"
  shows "tsp_read (timestamp_token algs (tst_info policy h serial time nonce) signers) =
    Inr \<lparr>imprint = h, stamped_at = t, stamped_nonce = nonce\<rparr>"
proof -
  let ?mi = "der TAG_SEQUENCE (der TAG_OID OID_SHA384) @ der TAG_OCTET_STRING (as_bytes h)"
  let ?tail = "case nonce of None \<Rightarrow> [] | Some n \<Rightarrow> der TAG_INTEGER (uint_bytes n)"
  let ?ti = "der TAG_INTEGER [1] @ der TAG_OID policy @ der TAG_SEQUENCE ?mi @ der TAG_INTEGER serial @
      der TAG_GENERALIZED_TIME time @ ?tail"
  let ?eci = "der TAG_OID OID_TST_INFO @ der TAG_CONTEXT_0 (der TAG_OCTET_STRING (der TAG_SEQUENCE ?ti))"
  let ?sd = "der TAG_INTEGER [3] @ der TAG_SEQUENCE algs @ der TAG_SEQUENCE ?eci @ signers"
  let ?ci = "der TAG_OID OID_SIGNED_DATA @ der TAG_CONTEXT_0 (der TAG_SEQUENCE ?sd)"
  have tok: "timestamp_token algs (tst_info policy h serial time nonce) signers = der TAG_SEQUENCE ?ci"
    by (simp add: timestamp_token_def tst_info_def)
  have ci: "length ?ci < 2 ^ 64" using assms(1) unfolding tok by (rule short_der)
  then have sdx: "length (der TAG_SEQUENCE ?sd) < 2 ^ 64" by (simp only: length_append) (blast intro: short_der le_less_trans le_add2)
  then have sd: "length ?sd < 2 ^ 64" by (rule short_der)
  then have "length (der TAG_SEQUENCE ?eci) < 2 ^ 64" "length (der TAG_SEQUENCE algs) < 2 ^ 64"
    by (simp_all only: length_append)
  then have eci: "length ?eci < 2 ^ 64" and al: "length algs < 2 ^ 64" by (auto dest: short_der)
  then have octx: "length (der TAG_CONTEXT_0 (der TAG_OCTET_STRING (der TAG_SEQUENCE ?ti))) < 2 ^ 64"
    by (simp only: length_append)
  then have oct: "length (der TAG_OCTET_STRING (der TAG_SEQUENCE ?ti)) < 2 ^ 64" by (rule short_der)
  then have tix: "length (der TAG_SEQUENCE ?ti) < 2 ^ 64" by (rule short_der)
  then have ti: "length ?ti < 2 ^ 64" by (rule short_der)
  then have "length (der TAG_OID policy) < 2 ^ 64" "length (der TAG_SEQUENCE ?mi) < 2 ^ 64"
     "length (der TAG_INTEGER serial) < 2 ^ 64" "length (der TAG_GENERALIZED_TIME time) < 2 ^ 64" "length ?tail < 2 ^ 64"
    by (simp_all only: length_append)
  then have parts: "length policy < 2 ^ 64" "length ?mi < 2 ^ 64" "length serial < 2 ^ 64" "length time < 2 ^ 64"
      "length ?tail < 2 ^ 64" by (auto dest: short_der)
  have oids: "length OID_SIGNED_DATA < 2 ^ 64" "length OID_TST_INFO < 2 ^ 64" "length OID_SHA384 < 2 ^ 64"
      "length (der TAG_OID OID_SHA384) < 2 ^ 64" "length (as_bytes h) < 2 ^ 64" "length [x] < 2 ^ 64" for x :: u8
    by (simp_all add: OID_SIGNED_DATA_def OID_TST_INFO_def OID_SHA384_def der_def der_len_def)
  have tail: "optional_nonce ?tail = Inr nonce"
    using parts(5) by (cases nonce) (simp add: optional_nonce_def skip_if_def, auto simp: nonce_field dest: short_der)
  show ?thesis
    unfolding tok tsp_read_def nested_def tlv_def tlv_skip_def after_field_def
    by (simp only: tlv_der [OF tags_ok(2)] tlv_der [OF tags_ok(3)] tlv_der [OF tags_ok(4)] tlv_der [OF tags_ok(5)]
        tlv_der [OF tags_ok(6)] tlv_der [OF tags_ok(7)] ci sdx sd eci al octx oct tix ti parts oids assms(2) tail
        bind_res_simps prod.case refl if_False if_True not_True_eq_False simp_thms) simp
qed


subsection \<open>Properties\<close>

text \<open>
  C31. No two spellings of an element. The reader splits a tag, a body and a rest off some bytes
  exactly when those bytes begin with the one DER encoding of that tag and body: the length in the
  fewest digits, in the short form when it fits, never indefinite, and never past 64 bits.
\<close>

theorem token_elements_one_spelling:
  "tlv_split bs = Inr (tag, body, rest) \<longleftrightarrow>
   tag AND 0x1F \<noteq> 0x1F \<and> length body < 2 ^ 64 \<and> bs = der tag body @ rest"
  by (rule tlv_split_Inr)

text \<open>
  C30. A time is read as the calendar counts it. A body reads as \<open>t\<close> exactly when it spells a date of
  the calendar up to the year 9999, leap days included, and a time of day to the second, with or
  without a fraction, in UTC; and \<open>t\<close> is then the number of seconds from the epoch to it, counting
  every year and month that passed. No other body is a time.
\<close>

theorem token_time_is_calendar:
  "generalized_time body = Inr t \<longleftrightarrow>
   (\<exists>y m d h mi s fraction. civil y m d \<and> clock h mi s \<and> fraction_ok fraction \<and>
      body = utc_stamp y m d h mi s @ fraction @ [0x5A] \<and> t = seconds y m d h mi s)" (is "?l \<longleftrightarrow> ?r")
proof
  assume l: ?l
  let ?head = "butlast body"
  from l have g: "15 \<le> length body" "last body = 0x5A" "list_all is_ascii_digit (take 14 ?head)"
    by (auto simp: generalized_time_def Let_def split: if_splits)
  then have body: "body = take 14 ?head @ drop 14 ?head @ [0x5A]"
    by (metis append.assoc append_butlast_last_id append_take_drop_id list.size(3) not_numeral_le_zero)
  have "length (take 14 ?head) = 14" using g(1) by simp
  then obtain y m d h mi s where f: "take 14 ?head = utc_stamp y m d h mi s" "y < 10000" "m < 100" "d < 100" "h < 100" "mi < 100" "s < 100"
    by (rule fixed_stamp [OF _ g(3)])
  with l body time_of_stamp [OF f(2-7), of "drop 14 ?head" t] show ?r by metis
next
  assume ?r
  then obtain y m d h mi s fraction where r: "civil y m d" "clock h mi s" "fraction_ok fraction"
      "body = utc_stamp y m d h mi s @ fraction @ [0x5A]" "t = seconds y m d h mi s" by blast
  then have "y < 10000" "m < 100" "d < 100" "h < 100" "mi < 100" "s < 100"
    by (auto simp: civil_def clock_def days_of_month_def split: if_splits)
  with r time_of_stamp show ?l by blast
qed

end
