(* ===== verification/P384.thy ===== *)
theory P384
  imports VerifierHash
begin

text \<open>
  The verifier's signature check: \<open>crates/trailryx-verify/src/p384.rs\<close>, ECDSA on P-384 over numbers
  of six 64-bit limbs.

  The results: the limb arithmetic computes sums, differences, products and powers modulo the
  modulus exactly, with every carry and borrow accounted for; the point operations never leave the
  curve; and the check accepts exactly what the equation over the integers modulo the two primes
  accepts.
\<close>

subsection \<open>Big integers\<close>

type_synonym Fe = "u64 list"

definition P :: Fe where
  "P = [0x00000000ffffffff, 0xffffffff00000000, 0xfffffffffffffffe, 0xffffffffffffffff,
        0xffffffffffffffff, 0xffffffffffffffff]"

definition N :: Fe where
  "N = [0xecec196accc52973, 0x581a0db248b0a77a, 0xc7634d81f4372ddf, 0xffffffffffffffff,
        0xffffffffffffffff, 0xffffffffffffffff]"

definition B :: Fe where
  "B = [0x2a85c8edd3ec2aef, 0xc656398d8a2ed19d, 0x0314088f5013875a, 0x181d9c6efe814112,
        0x988e056be3f82d19, 0xb3312fa7e23ee7e4]"

definition GX :: Fe where
  "GX = [0x3a545e3872760ab7, 0x5502f25dbf55296c, 0x59f741e082542a38, 0x6e1d3b628ba79b98,
         0x8eb1c71ef320ad74, 0xaa87ca22be8b0537]"

definition GY :: Fe where
  "GY = [0x7a431d7c90ea0e5f, 0x0a60b1ce1d7e819d, 0xe9da3113b5f0b8c0, 0xf8f41dbd289a147c,
         0x5d9e98bf9292dc29, 0x3617de4a96262c6f]"

definition ZERO :: Fe where
  "ZERO = replicate 6 0"

definition fe_is_zero :: "Fe \<Rightarrow> bool" where
  "fe_is_zero a \<longleftrightarrow> list_all (\<lambda>l. l = 0) a"

text \<open>From the most significant limb down to the first that differs.\<close>

primrec less_from :: "nat \<Rightarrow> Fe \<Rightarrow> Fe \<Rightarrow> bool" where
  "less_from 0 a b \<longleftrightarrow> False"
| "less_from (Suc i) a b \<longleftrightarrow> (if a ! i \<noteq> b ! i then a ! i < b ! i else less_from i a b)"

definition fe_less :: "Fe \<Rightarrow> Fe \<Rightarrow> bool" where
  "fe_less a b = less_from 6 a b"

definition overflowing_sub :: "u64 \<Rightarrow> u64 \<Rightarrow> u64 \<times> bool" where
  "overflowing_sub a b = (a - b, a < b)"

definition overflowing_add :: "u64 \<Rightarrow> u64 \<Rightarrow> u64 \<times> bool" where
  "overflowing_add a b = (a + b, a + b < a)"

fun sub_limbs :: "u64 \<Rightarrow> Fe \<Rightarrow> Fe \<Rightarrow> Fe \<times> u64" where
  "sub_limbs borrow (a # as) (b # bs) =
     (let (d, b1) = overflowing_sub a b;
          (d, b2) = overflowing_sub d borrow;
          (ds, out) = sub_limbs (of_bool b1 + of_bool b2) as bs
      in (d # ds, out))"
| "sub_limbs borrow _ _ = ([], borrow)"

text \<open>\<open>a -= b\<close> and the borrow out; likewise below with the carry and the bit shifted out.\<close>

definition sub_assign :: "Fe \<Rightarrow> Fe \<Rightarrow> Fe \<times> u64" where
  "sub_assign a b = sub_limbs 0 a b"

fun add_limbs :: "u64 \<Rightarrow> Fe \<Rightarrow> Fe \<Rightarrow> Fe \<times> u64" where
  "add_limbs carry (a # as) (b # bs) =
     (let (s, c1) = overflowing_add a b;
          (s, c2) = overflowing_add s carry;
          (ss, out) = add_limbs (of_bool c1 + of_bool c2) as bs
      in (s # ss, out))"
| "add_limbs carry _ _ = ([], carry)"

definition add_assign :: "Fe \<Rightarrow> Fe \<Rightarrow> Fe \<times> u64" where
  "add_assign a b = add_limbs 0 a b"

fun shl_limbs :: "u64 \<Rightarrow> Fe \<Rightarrow> Fe \<times> u64" where
  "shl_limbs carry (limb # limbs) =
     (let (rest, out) = shl_limbs (drop_bit 63 limb) limbs
      in ((push_bit 1 limb OR carry) # rest, out))"
| "shl_limbs carry [] = ([], carry)"

definition shl1 :: "Fe \<Rightarrow> Fe \<times> u64" where
  "shl1 a = shl_limbs 0 a"

definition mul_step :: "u64 \<Rightarrow> nat \<Rightarrow> Fe \<Rightarrow> u64 list \<times> u128 \<Rightarrow> nat \<Rightarrow> u64 list \<times> u128" where
  "mul_step ai i b oc j =
     (let (out, carry) = oc;
          t = ucast ai * ucast (b ! j) + ucast (out ! (i + j)) + carry
      in (out[i + j := ucast t], drop_bit 64 t))"

text \<open>
  The carry runs on until it is spent. An index past the end would panic in the source; the test on
  it here is never what stops the loop, since the product fits.
\<close>

function carry_on :: "nat \<Rightarrow> u128 \<Rightarrow> u64 list \<Rightarrow> u64 list" where
  "carry_on at carry out =
     (if carry = 0 \<or> length out \<le> at then out
      else
        let t = ucast (out ! at) + carry
        in carry_on (at + 1) (drop_bit 64 t) (out[at := ucast t]))"
  by pat_completeness auto
termination
  by (relation "measure (\<lambda>(at, carry, out). length out - at)") auto

declare carry_on.simps [simp del]

definition mul_row :: "Fe \<Rightarrow> Fe \<Rightarrow> u64 list \<Rightarrow> nat \<Rightarrow> u64 list" where
  "mul_row a b out i =
     (let (out, carry) = foldl (mul_step (a ! i) i b) (out, 0) [0..<6]
      in carry_on (i + 6) carry out)"

definition mul_wide :: "Fe \<Rightarrow> Fe \<Rightarrow> u64 list" where
  "mul_wide a b = foldl (mul_row a b) (replicate 12 0) [0..<6]"

definition limb_bit :: "u64 list \<Rightarrow> nat \<Rightarrow> u64" where
  "limb_bit a i = drop_bit (i mod 64) (a ! (i div 64)) AND 1"

definition reduce_step :: "u64 list \<Rightarrow> Fe \<Rightarrow> Fe \<Rightarrow> nat \<Rightarrow> Fe" where
  "reduce_step wide m r i =
     (let bit = limb_bit wide i;
          (r, carry) = shl1 r;
          r = r[0 := r ! 0 OR bit]
      in if carry \<noteq> 0 \<or> \<not> fe_less r m then fst (sub_assign r m) else r)"

definition reduce :: "u64 list \<Rightarrow> Fe \<Rightarrow> Fe" where
  "reduce wide m = foldl (reduce_step wide m) ZERO (rev [0..<768])"

definition mul_mod :: "Fe \<Rightarrow> Fe \<Rightarrow> Fe \<Rightarrow> Fe" where
  "mul_mod a b m = reduce (mul_wide a b) m"

definition add_mod :: "Fe \<Rightarrow> Fe \<Rightarrow> Fe \<Rightarrow> Fe" where
  "add_mod a b m =
     (let (r, carry) = add_assign a b
      in if carry \<noteq> 0 \<or> \<not> fe_less r m then fst (sub_assign r m) else r)"

definition sub_mod :: "Fe \<Rightarrow> Fe \<Rightarrow> Fe \<Rightarrow> Fe" where
  "sub_mod a b m =
     (let (r, borrow) = sub_assign a b
      in if borrow \<noteq> 0 then fst (add_assign r m) else r)"

definition ONE :: Fe where
  "ONE = [1, 0, 0, 0, 0, 0]"

definition pow_step :: "Fe \<Rightarrow> Fe \<Rightarrow> Fe \<times> Fe \<Rightarrow> nat \<Rightarrow> Fe \<times> Fe" where
  "pow_step e m ra i =
     (let (result, acc) = ra
      in (if limb_bit e i = 1 then mul_mod result acc m else result, mul_mod acc acc m))"

definition pow_mod :: "Fe \<Rightarrow> Fe \<Rightarrow> Fe \<Rightarrow> Fe" where
  "pow_mod base e m = fst (foldl (pow_step e m) (ONE, base) [0..<384])"

definition inv_mod :: "Fe \<Rightarrow> Fe \<Rightarrow> Fe" where
  "inv_mod a m = pow_mod a (fst (sub_assign m [2, 0, 0, 0, 0, 0])) m"

fun chunks8 :: "bytes \<Rightarrow> bytes list" where
  "chunks8 [] = []"
| "chunks8 (b # bs) = take 8 (b # bs) # chunks8 (drop 8 (b # bs))"

text \<open>A chunk shorter than a limb is padded on the left, which is its value read big-endian.\<close>

definition fe_from_be_bytes :: "bytes \<Rightarrow> Fe" where
  "fe_from_be_bytes bytes =
     foldl (\<lambda>out (i, chunk). out[i := from_be_bytes chunk]) ZERO (enumerate 0 (rev (chunks8 bytes)))"

subsection \<open>The curve\<close>

record Point =
  pt_x :: Fe
  pt_y :: Fe
  pt_z :: Fe

definition INFINITY :: Point where
  "INFINITY = \<lparr>pt_x = ONE, pt_y = ONE, pt_z = ZERO\<rparr>"

definition double_point :: "Point \<Rightarrow> Point" where
  "double_point p =
     (if fe_is_zero (pt_z p) then INFINITY
      else
        let delta = mul_mod (pt_z p) (pt_z p) P;
            gamma = mul_mod (pt_y p) (pt_y p) P;
            beta = mul_mod (pt_x p) gamma P;
            x_minus = sub_mod (pt_x p) delta P;
            x_plus = add_mod (pt_x p) delta P;
            t = mul_mod x_minus x_plus P;
            alpha = add_mod (add_mod t t P) t P;
            beta4 = add_mod beta beta P;
            beta4 = add_mod beta4 beta4 P;
            beta8 = add_mod beta4 beta4 P;
            x3 = sub_mod (mul_mod alpha alpha P) beta8 P;
            yz = add_mod (pt_y p) (pt_z p) P;
            z3 = sub_mod (sub_mod (mul_mod yz yz P) gamma P) delta P;
            gamma2 = mul_mod gamma gamma P;
            g8 = add_mod gamma2 gamma2 P;
            g8 = add_mod g8 g8 P;
            g8 = add_mod g8 g8 P;
            y3 = sub_mod (mul_mod alpha (sub_mod beta4 x3 P) P) g8 P
        in \<lparr>pt_x = x3, pt_y = y3, pt_z = z3\<rparr>)"

definition add_point :: "Point \<Rightarrow> Point \<Rightarrow> Point" where
  "add_point a b =
     (if fe_is_zero (pt_z a) then b
      else if fe_is_zero (pt_z b) then a
      else
        let z1z1 = mul_mod (pt_z a) (pt_z a) P;
            z2z2 = mul_mod (pt_z b) (pt_z b) P;
            u1 = mul_mod (pt_x a) z2z2 P;
            u2 = mul_mod (pt_x b) z1z1 P;
            s1 = mul_mod (mul_mod (pt_y a) (pt_z b) P) z2z2 P;
            s2 = mul_mod (mul_mod (pt_y b) (pt_z a) P) z1z1 P
        in if u1 = u2 then if s1 = s2 then double_point a else INFINITY
        else
          let h = sub_mod u2 u1 P;
              h2 = add_mod h h P;
              i = mul_mod h2 h2 P;
              j = mul_mod h i P;
              r = sub_mod s2 s1 P;
              r = add_mod r r P;
              v = mul_mod u1 i P;
              x3 = sub_mod (sub_mod (mul_mod r r P) j P) (add_mod v v P) P;
              s1j = mul_mod s1 j P;
              y3 = sub_mod (mul_mod r (sub_mod v x3 P) P) (add_mod s1j s1j P) P;
              zz = add_mod (pt_z a) (pt_z b) P;
              z3 = mul_mod (sub_mod (sub_mod (mul_mod zz zz P) z1z1 P) z2z2 P) h P
          in \<lparr>pt_x = x3, pt_y = y3, pt_z = z3\<rparr>)"

definition mul_point_step :: "Fe \<Rightarrow> Point \<Rightarrow> Point \<Rightarrow> nat \<Rightarrow> Point" where
  "mul_point_step k p acc i =
     (let acc = double_point acc
      in if limb_bit k i = 1 then add_point acc p else acc)"

definition mul_point :: "Fe \<Rightarrow> Point \<Rightarrow> Point" where
  "mul_point k p = foldl (mul_point_step k p) INFINITY (rev [0..<384])"

definition affine_x :: "Point \<Rightarrow> Fe option" where
  "affine_x p =
     (if fe_is_zero (pt_z p) then None
      else
        let zinv = inv_mod (pt_z p) P;
            zinv2 = mul_mod zinv zinv P
        in Some (mul_mod (pt_x p) zinv2 P))"

definition on_curve :: "Fe \<Rightarrow> Fe \<Rightarrow> bool" where
  "on_curve x y \<longleftrightarrow>
     (let lhs = mul_mod y y P;
          x3 = mul_mod (mul_mod x x P) x P;
          three_x = add_mod (add_mod x x P) x P;
          rhs = add_mod (sub_mod x3 three_x P) B P
      in lhs = rhs)"

subsection \<open>ECDSA\<close>

datatype SigError = BadKeyEncoding | KeyNotOnCurve | BadSignatureEncoding | ComponentOutOfRange | DoesNotVerify

definition PUBLIC_KEY_BYTES :: nat where
  "PUBLIC_KEY_BYTES = 97"

definition SIGNATURE_BYTES :: nat where
  "SIGNATURE_BYTES = 96"

definition below_order :: "Fe \<Rightarrow> Fe" where
  "below_order e = (if \<not> fe_less e N then fst (sub_assign e N) else e)"

definition p384_verify :: "bytes \<Rightarrow> bytes \<Rightarrow> bytes \<Rightarrow> SigError + unit" where
  "p384_verify public_key message signature =
     (if length public_key \<noteq> PUBLIC_KEY_BYTES \<or> public_key ! 0 \<noteq> 0x04 then Inl BadKeyEncoding
      else if length signature \<noteq> SIGNATURE_BYTES then Inl BadSignatureEncoding
      else
        let qx = fe_from_be_bytes (take 48 (drop 1 public_key));
            qy = fe_from_be_bytes (take 48 (drop 49 public_key))
        in if \<not> fe_less qx P \<or> \<not> fe_less qy P \<or> \<not> on_curve qx qy then Inl KeyNotOnCurve
        else
          let r = fe_from_be_bytes (take 48 signature);
              s = fe_from_be_bytes (drop 48 signature)
          in if fe_is_zero r \<or> fe_is_zero s \<or> \<not> fe_less r N \<or> \<not> fe_less s N then Inl ComponentOutOfRange
          else
            let e = below_order (fe_from_be_bytes (as_bytes (VSha384_digest message)));
                w = inv_mod s N;
                u1 = mul_mod e w N;
                u2 = mul_mod r w N;
                g = \<lparr>pt_x = GX, pt_y = GY, pt_z = ONE\<rparr>;
                q = \<lparr>pt_x = qx, pt_y = qy, pt_z = ONE\<rparr>;
                point = add_point (mul_point u1 g) (mul_point u2 q)
            in case affine_x point of
                 None \<Rightarrow> Inl DoesNotVerify
               | Some x \<Rightarrow> if below_order x = r then Inr () else Inl DoesNotVerify)"

subsection \<open>What the limbs say\<close>

definition RADIX :: nat where
  "RADIX = 2 ^ 64"

fun fe_value :: "u64 list \<Rightarrow> nat" where
  "fe_value [] = 0"
| "fe_value (x # xs) = unat x + RADIX * fe_value xs"

lemma unat_radix [simp]: "unat (x :: u64) < RADIX"
  using unsigned_less [of x, where ?'a = nat] by (simp add: RADIX_def)

lemma radix_pos [simp]: "0 < RADIX"
  by (simp add: RADIX_def)

lemma fe_append: "fe_value (xs @ ys) = fe_value xs + RADIX ^ length xs * fe_value ys"
  by (induction xs) (simp_all add: algebra_simps)

lemma place_bound: "x < k \<Longrightarrow> v < w \<Longrightarrow> x + k * v < k * (w :: nat)"
  by (metis add_less_cancel_right less_le_trans mult_Suc_right mult_le_mono2 Suc_leI)

lemma fe_bound: "fe_value xs < RADIX ^ length xs"
  by (induction xs) (simp_all add: place_bound)

lemma fe_digits: "fe_value (x # xs) mod RADIX = unat x" "fe_value (x # xs) div RADIX = fe_value xs"
  by (simp_all add: less_imp_neq)

lemma fe_inj: "length xs = length ys \<Longrightarrow> fe_value xs = fe_value ys \<longleftrightarrow> xs = ys"
proof (induction xs ys rule: list_induct2)
  case (Cons x xs y ys)
  have "unat x = unat y \<and> fe_value xs = fe_value ys" if "fe_value (x # xs) = fe_value (y # ys)"
    using that by (metis fe_digits)
  then show ?case using Cons by (metis list.inject unsigned_word_eqI)
qed simp

text \<open>One limb of a subtraction, of an addition and of a shift.\<close>

lemma sub_limb:
  assumes "unat borrow \<le> 1"
  shows "unat (a - b - borrow :: u64) + unat b + unat borrow =
      unat a + RADIX * unat (of_bool (a < b) + of_bool (a - b < borrow) :: u64)"
    and "unat (of_bool (a < b) + of_bool (a - b < borrow) :: u64) \<le> 1"
proof -
  have r: "unat a < 2 ^ 64" "unat b < 2 ^ 64" using unat_radix [of a] unat_radix [of b] by (simp_all add: RADIX_def)
  have s: "unat (a - b) = (if unat b \<le> unat a then unat a - unat b else unat a + 2 ^ 64 - unat b)"
    by (simp add: unat_sub_if')
  have t: "unat (a - b - borrow) = (if unat borrow \<le> unat (a - b) then unat (a - b) - unat borrow
      else unat (a - b) + 2 ^ 64 - unat borrow)" by (simp add: unat_sub_if')
  show "unat (of_bool (a < b) + of_bool (a - b < borrow) :: u64) \<le> 1"
    "unat (a - b - borrow :: u64) + unat b + unat borrow =
      unat a + RADIX * unat (of_bool (a < b) + of_bool (a - b < borrow) :: u64)"
    using r assms unfolding t s word_less_nat_alt RADIX_def by (auto simp: of_bool_def)
qed

lemma add_limb:
  assumes "unat carry \<le> 1"
  shows "unat (a + b + carry :: u64) + RADIX * unat (of_bool (a + b < a) + of_bool (a + b + carry < a + b) :: u64) =
      unat a + unat b + unat carry"
    and "unat (of_bool (a + b < a) + of_bool (a + b + carry < a + b) :: u64) \<le> 1"
proof -
  have r: "unat a < 2 ^ 64" "unat b < 2 ^ 64" using unat_radix [of a] unat_radix [of b] by (simp_all add: RADIX_def)
  have s: "unat (a + b) = (if unat a + unat b < 2 ^ 64 then unat a + unat b else unat a + unat b - 2 ^ 64)"
    by (simp add: unat_plus_if')
  have t: "unat (a + b + carry) = (if unat (a + b) + unat carry < 2 ^ 64 then unat (a + b) + unat carry
      else unat (a + b) + unat carry - 2 ^ 64)" by (simp add: unat_plus_if')
  show "unat (of_bool (a + b < a) + of_bool (a + b + carry < a + b) :: u64) \<le> 1"
    "unat (a + b + carry :: u64) + RADIX * unat (of_bool (a + b < a) + of_bool (a + b + carry < a + b) :: u64) =
      unat a + unat b + unat carry"
    using r assms unfolding t s word_less_nat_alt RADIX_def by (auto simp: of_bool_def)
qed

lemma shl_limb:
  assumes "unat carry \<le> 1"
  shows "unat (push_bit 1 a OR carry :: u64) + RADIX * unat (drop_bit 63 a :: u64) = 2 * unat a + unat carry"
    and "unat (drop_bit 63 a :: u64) \<le> 1"
proof -
  have r: "unat a < 2 ^ 64" using unat_radix [of a] by (simp add: RADIX_def)
  have "carry = 0 \<or> carry = 1" using assms by (metis le_Suc_eq le_zero_eq One_nat_def unat_0 unat_1 unsigned_word_eqI)
  then have "push_bit 1 a AND carry = 0" by (auto simp: and_one_eq mod_2_eq_odd)
  then have o: "push_bit 1 a OR carry = 2 * a + carry"
    by (simp add: disjunctive_add_eq_or [symmetric] push_bit_eq_mult mult.commute)
  have d: "unat (drop_bit 63 a) = unat a div 2 ^ 63" by (simp add: drop_bit_eq_div unat_div)
  show "unat (drop_bit 63 a :: u64) \<le> 1" using r unfolding d by (simp add: div_le_mono less_mult_imp_div_less)
  have u: "unat (2 * a + carry) = (2 * unat a + unat carry) mod 2 ^ 64"
    by (simp add: unat_word_ariths mod_simps)
  show "unat (push_bit 1 a OR carry :: u64) + RADIX * unat (drop_bit 63 a :: u64) = 2 * unat a + unat carry"
  proof -
    have "(2 * unat a + unat carry) div 2 = unat a" using assms by simp
    then have "(2 * unat a + unat carry) div (2 * 2 ^ 63) = unat a div 2 ^ 63" by (simp only: div_mult2_eq)
    moreover have "(2 * unat a + unat carry) mod (2 * 2 ^ 63) + (2 * 2 ^ 63) * ((2 * unat a + unat carry) div (2 * 2 ^ 63)) =
      2 * unat a + unat carry" by (rule mod_mult_div_eq)
    moreover have "(2 :: nat) * 2 ^ 63 = 2 ^ 64" by simp
    ultimately show ?thesis unfolding o d RADIX_def u by (simp only:)
  qed
qed


lemma sub_limbs_value:
  "length a = length b \<Longrightarrow> unat borrow \<le> 1 \<Longrightarrow> sub_limbs borrow a b = (d, out) \<Longrightarrow>
   length d = length a \<and> unat out \<le> 1 \<and>
   fe_value d + fe_value b + unat borrow = fe_value a + RADIX ^ length a * unat out"
proof (induction a b arbitrary: borrow d rule: list_induct2)
  case (Cons x xs y ys)
  define o1 where "o1 = (of_bool (x < y) + of_bool (x - y < borrow) :: u64)"
  obtain ds where ds: "sub_limbs o1 xs ys = (ds, out)" "d = (x - y - borrow) # ds"
    using Cons.prems(2) by (auto simp: overflowing_sub_def Let_def o1_def split: prod.splits)
  note l = sub_limb [OF Cons.prems(1), of x y, folded o1_def]
  note ih = Cons.IH [OF l(2) ds(1)]
  have "RADIX * fe_value ds + RADIX * fe_value ys + RADIX * unat o1 = RADIX * fe_value xs + RADIX * RADIX ^ length xs * unat out"
    using arg_cong [OF ih [THEN conjunct2, THEN conjunct2], of "\<lambda>n. RADIX * n"] by (simp only: distrib_left mult.assoc)
  with ih l(1) show ?case unfolding ds(2) by simp
qed simp

lemma add_limbs_value:
  "length a = length b \<Longrightarrow> unat carry \<le> 1 \<Longrightarrow> add_limbs carry a b = (r, out) \<Longrightarrow>
   length r = length a \<and> unat out \<le> 1 \<and>
   fe_value r + RADIX ^ length a * unat out = fe_value a + fe_value b + unat carry"
proof (induction a b arbitrary: carry r rule: list_induct2)
  case (Cons x xs y ys)
  define o1 where "o1 = (of_bool (x + y < x) + of_bool (x + y + carry < x + y) :: u64)"
  obtain ds where ds: "add_limbs o1 xs ys = (ds, out)" "r = (x + y + carry) # ds"
    using Cons.prems(2) by (auto simp: overflowing_add_def Let_def o1_def split: prod.splits)
  note l = add_limb [OF Cons.prems(1), of x y, folded o1_def]
  note ih = Cons.IH [OF l(2) ds(1)]
  have "RADIX * fe_value ds + RADIX * RADIX ^ length xs * unat out = RADIX * fe_value xs + RADIX * fe_value ys + RADIX * unat o1"
    using arg_cong [OF ih [THEN conjunct2, THEN conjunct2], of "\<lambda>n. RADIX * n"] by (simp only: distrib_left mult.assoc)
  with ih l(1) show ?case unfolding ds(2) by simp
qed simp

lemma shl_limbs_value:
  "unat carry \<le> 1 \<Longrightarrow> shl_limbs carry a = (r, out) \<Longrightarrow>
   length r = length a \<and> unat out \<le> 1 \<and> fe_value r + RADIX ^ length a * unat out = 2 * fe_value a + unat carry"
proof (induction a arbitrary: carry r)
  case (Cons x xs)
  obtain rs where rs: "shl_limbs (drop_bit 63 x) xs = (rs, out)" "r = (push_bit 1 x OR carry) # rs"
    using Cons.prems(2) by (auto split: prod.splits)
  note l = shl_limb [OF Cons.prems(1), of x]
  note ih = Cons.IH [OF l(2) rs(1)]
  have m: "RADIX * fe_value rs + RADIX * RADIX ^ length xs * unat out = 2 * (RADIX * fe_value xs) + RADIX * unat (drop_bit 63 x)"
    using arg_cong [OF ih [THEN conjunct2, THEN conjunct2], of "\<lambda>n. RADIX * n"]
    by (simp only: distrib_left mult.assoc mult.left_commute)
  have "fe_value r + RADIX ^ length (x # xs) * unat out = 2 * fe_value (x # xs) + unat carry"
  proof -
    have "a + b + c = 2 * (u + v) + w" if "b + c = 2 * v + d" "a + d = 2 * u + w" for a b c d u v w :: nat
      using that by simp
    from this [OF m l(1)] show ?thesis unfolding rs(2) length_Cons fe_value.simps power_Suc .
  qed
  with ih show ?case by (simp add: rs(2))
qed auto

lemma less_from_value:
  "length a = length b \<Longrightarrow> k \<le> length a \<Longrightarrow> less_from k a b \<longleftrightarrow> fe_value (take k a) < fe_value (take k b)"
proof (induction k)
  case (Suc k)
  have t: "fe_value (take (Suc k) c) = fe_value (take k c) + RADIX ^ k * unat (c ! k)" if "length c = length a" for c
    using that Suc.prems by (simp add: take_Suc_conv_app_nth fe_append)
  have bound: "fe_value (take k c) < RADIX ^ k" if "length c = length a" for c
    using fe_bound [of "take k c"] that Suc.prems by (simp add: min_def)
  have cmp: "u + RADIX ^ k * x < v + RADIX ^ k * y \<longleftrightarrow> x < y" if "u < RADIX ^ k" "v < RADIX ^ k" "x \<noteq> y" for u v x y
    using that place_bound [of u "RADIX ^ k" x y] place_bound [of v "RADIX ^ k" y x]
    by (metis linorder_neqE_nat not_less_iff_gr_or_eq trans_less_add2 less_le_trans le_add2)
  show ?case
  proof (cases "a ! k = b ! k")
    case True
    with Suc show ?thesis by (simp add: t)
  next
    case False
    then have "unat (a ! k) \<noteq> unat (b ! k)" by (metis unsigned_word_eqI)
    with False Suc.prems show ?thesis by (simp add: t cmp bound word_less_nat_alt)
  qed
qed simp

lemma fe_less_value: "length a = 6 \<Longrightarrow> length b = 6 \<Longrightarrow> fe_less a b \<longleftrightarrow> fe_value a < fe_value b"
  using less_from_value [of a b 6] by (simp add: fe_less_def)

text \<open>A subtraction that does not borrow on balance, an addition that does not carry on balance.\<close>

lemma sub_assign_value:
  assumes "length a = 6" "length b = 6" "sub_assign a b = (d, out)"
  shows "length d = 6" "unat out \<le> 1" "fe_value d + fe_value b = fe_value a + RADIX ^ 6 * unat out"
  using sub_limbs_value [of a b 0 d out] assms by (simp_all add: sub_assign_def)

lemma add_assign_value:
  assumes "length a = 6" "length b = 6" "add_assign a b = (r, out)"
  shows "length r = 6" "unat out \<le> 1" "fe_value r + RADIX ^ 6 * unat out = fe_value a + fe_value b"
  using add_limbs_value [of a b 0 r out] assms by (simp_all add: add_assign_def)

lemma shl1_value:
  assumes "length a = 6" "shl1 a = (r, out)"
  shows "length r = 6" "unat out \<le> 1" "fe_value r + RADIX ^ 6 * unat out = 2 * fe_value a"
  using shl_limbs_value [of 0 a r out] assms by (simp_all add: shl1_def)


subsection \<open>Products\<close>

lemma fe_update:
  assumes "k < length out"
  shows "fe_value (out[k := x]) + RADIX ^ k * unat (out ! k) = fe_value out + RADIX ^ k * unat x"
proof -
  have "fe_value (out[k := x]) = fe_value (take k out) + RADIX ^ k * (unat x + RADIX * fe_value (drop (Suc k) out))"
    using assms by (simp add: upd_conv_take_nth_drop fe_append)
  moreover have "fe_value out = fe_value (take k out) + RADIX ^ k * (unat (out ! k) + RADIX * fe_value (drop (Suc k) out))"
    using assms arg_cong [OF id_take_nth_drop [OF assms], of fe_value] by (simp add: fe_append)
  ultimately show ?thesis by (simp add: algebra_simps)
qed

lemma unat_up: "unat (ucast (x :: u64) :: u128) = unat x"
  by (rule unat_ucast_up) simp

lemma split_wide: "unat (ucast (t :: u128) :: u64) + RADIX * unat (drop_bit 64 t) = unat t" "unat (drop_bit 64 t) < RADIX"
proof -
  have t: "unat t < 2 ^ 128" using unsigned_less [of t, where ?'a = nat] by simp
  have d: "unat (drop_bit 64 t) = unat t div 2 ^ 64" by (simp add: drop_bit_eq_div unat_div)
  have "unat (ucast t :: u64) = unat t mod 2 ^ 64" by (simp add: unsigned_ucast_eq take_bit_nat_def)
  then show "unat (ucast t :: u64) + RADIX * unat (drop_bit 64 t) = unat t" by (simp only: d RADIX_def mod_mult_div_eq)
  show "unat (drop_bit 64 t) < RADIX" unfolding d RADIX_def by (rule less_mult_imp_div_less) (use t in simp)
qed

lemma wide_fits:
  assumes "x < RADIX" "y < RADIX" "z < RADIX" "c < RADIX"
  shows "x * y + z + c < 2 ^ 128"
proof -
  have "x * y \<le> (RADIX - 1) * (RADIX - 1)" using assms(1,2) by (intro mult_le_mono) simp_all
  then have "x * y + z + c \<le> (RADIX - 1) * (RADIX - 1) + (RADIX - 1) + (RADIX - 1)" using assms(3,4) by linarith
  also have "\<dots> < 2 ^ 128" by (simp add: RADIX_def)
  finally show ?thesis .
qed

lemma mul_step_value:
  assumes "mul_step ai i b (out, carry) j = (out', carry')" "i + j < length out" "unat carry < RADIX"
  shows "length out' = length out" "unat carry' < RADIX"
    "fe_value out' + RADIX ^ (i + j + 1) * unat carry' =
     fe_value out + RADIX ^ (i + j) * (unat carry + unat ai * unat (b ! j))"
proof -
  define t :: u128 where "t = ucast ai * ucast (b ! j) + ucast (out ! (i + j)) + carry"
  have o: "out' = out[i + j := ucast t]" "carry' = drop_bit 64 t" using assms(1) by (simp_all add: mul_step_def Let_def t_def)
  have fits: "unat ai * unat (b ! j) + unat (out ! (i + j)) + unat carry < 2 ^ 128"
    by (rule wide_fits) (use assms(3) in simp_all)
  then have t: "unat t = unat ai * unat (b ! j) + unat (out ! (i + j)) + unat carry"
    unfolding t_def by (simp add: unat_word_ariths unat_up mod_simps)
  show "length out' = length out" "unat carry' < RADIX" using o split_wide(2) by simp_all
  have "fe_value out' + RADIX ^ (i + j) * unat (out ! (i + j)) = fe_value out + RADIX ^ (i + j) * unat (ucast t :: u64)"
    unfolding o by (rule fe_update [OF assms(2)])
  moreover have "RADIX ^ (i + j) * unat (ucast t :: u64) + RADIX ^ (i + j + 1) * unat carry' = RADIX ^ (i + j) * unat t"
    using arg_cong [OF split_wide(1) [of t], of "\<lambda>n. RADIX ^ (i + j) * n"] unfolding o(2)
    by (simp only: distrib_left mult.assoc power_add power_one_right)
  moreover have "RADIX ^ (i + j) * unat t = RADIX ^ (i + j) * (unat carry + unat ai * unat (b ! j)) + RADIX ^ (i + j) * unat (out ! (i + j))"
    unfolding t by (simp add: algebra_simps)
  ultimately show "fe_value out' + RADIX ^ (i + j + 1) * unat carry' =
     fe_value out + RADIX ^ (i + j) * (unat carry + unat ai * unat (b ! j))" by linarith
qed

lemma mul_steps_value:
  assumes "i + length b \<le> length out" "k \<le> length b" "foldl (mul_step ai i b) (out, 0) [0..<k] = (out', carry)"
  shows "length out' = length out \<and> unat carry < RADIX \<and>
    fe_value out' + RADIX ^ (i + k) * unat carry = fe_value out + RADIX ^ i * (unat ai * fe_value (take k b))"
  using assms(2,3)
proof (induction k arbitrary: out' carry)
  case (Suc k)
  obtain o1 c1 where o1: "foldl (mul_step ai i b) (out, 0) [0..<k] = (o1, c1)" by fastforce
  note ih = Suc.IH [OF _ o1]
  have l: "length o1 = length out" "unat c1 < RADIX" "i + k < length o1"
    using ih Suc.prems(1) assms(1) by simp_all
  have st: "mul_step ai i b (o1, c1) k = (out', carry)" using Suc.prems(2) o1 by simp
  note m = mul_step_value [OF st l(3) l(2)]
  have "fe_value (take (Suc k) b) = fe_value (take k b) + RADIX ^ k * unat (b ! k)"
    using Suc.prems(1) by (simp add: take_Suc_conv_app_nth fe_append)
  then have "RADIX ^ i * (unat ai * fe_value (take (Suc k) b)) =
      RADIX ^ i * (unat ai * fe_value (take k b)) + RADIX ^ (i + k) * (unat ai * unat (b ! k))"
    by (simp add: algebra_simps power_add)
  with m ih Suc.prems(1) l show ?case by (simp add: distrib_left)
qed simp

lemma carry_on_value:
  "unat carry < RADIX \<Longrightarrow> fe_value out + RADIX ^ at * unat carry < RADIX ^ length out \<Longrightarrow>
   length (carry_on at carry out) = length out \<and> fe_value (carry_on at carry out) = fe_value out + RADIX ^ at * unat carry"
proof (induction at carry out rule: carry_on.induct)
  case (1 at carry out)
  show ?case
  proof (cases "carry = 0")
    case False
    have at: "at < length out"
    proof (rule ccontr)
      assume "\<not> at < length out"
      then have "RADIX ^ length out \<le> RADIX ^ at" by (intro power_increasing) (simp_all add: RADIX_def)
      also have "\<dots> \<le> RADIX ^ at * unat carry" using False by (simp add: Suc_le_eq unat_gt_0)
      finally show False using "1.prems"(2) by simp
    qed
    define t :: u128 where "t = ucast (out ! at) + carry"
    have "unat (out ! at) + unat carry < 2 ^ 128"
      using wide_fits [of 0 0 "unat (out ! at)" "unat carry"] "1.prems"(1) by simp
    then have t: "unat t = unat (out ! at) + unat carry" unfolding t_def by (simp add: unat_word_ariths unat_up mod_simps)
    have "RADIX ^ at * unat (ucast t :: u64) + RADIX ^ (at + 1) * unat (drop_bit 64 t) = RADIX ^ at * unat t"
      using arg_cong [OF split_wide(1) [of t], of "\<lambda>n. RADIX ^ at * n"]
      by (simp only: distrib_left mult.assoc power_add power_one_right)
    moreover have "RADIX ^ at * unat t = RADIX ^ at * unat (out ! at) + RADIX ^ at * unat carry" unfolding t by (rule distrib_left)
    moreover note fe_update [OF at, of "ucast t"]
    ultimately have e: "fe_value (out[at := ucast t]) + RADIX ^ (at + 1) * unat (drop_bit 64 t) = fe_value out + RADIX ^ at * unat carry"
      by linarith
    have "\<not> (carry = 0 \<or> length out \<le> at)" using False at by simp
    from "1.IH" [OF this t_def split_wide(2)] e "1.prems"(2) False at show ?thesis
      by (simp add: carry_on.simps [of at carry out] t_def [symmetric] Let_def)
  qed (simp add: carry_on.simps)
qed

lemma mul_row_value:
  assumes "length a = 6" "length b = 6" "length out = 12" "i < 6" "fe_value out = fe_value (take i a) * fe_value b"
  shows "length (mul_row a b out i) = 12 \<and> fe_value (mul_row a b out i) = fe_value (take (Suc i) a) * fe_value b"
proof -
  obtain o1 c1 where o1: "foldl (mul_step (a ! i) i b) (out, 0) [0..<6] = (o1, c1)" by fastforce
  have m: "length o1 = 12" "unat c1 < RADIX"
    "fe_value o1 + RADIX ^ (i + 6) * unat c1 = fe_value out + RADIX ^ i * (unat (a ! i) * fe_value b)"
    using mul_steps_value [OF _ _ o1] assms(2-4) by simp_all
  have s: "fe_value (take (Suc i) a) * fe_value b = fe_value out + RADIX ^ i * (unat (a ! i) * fe_value b)"
    using assms by (simp add: take_Suc_conv_app_nth fe_append algebra_simps)
  have "fe_value (take (Suc i) a) * fe_value b < RADIX ^ Suc i * RADIX ^ 6"
  proof (rule mult_strict_mono)
    have "length (take (Suc i) a) = Suc i" using assms by simp
    then show "fe_value (take (Suc i) a) < RADIX ^ Suc i" using fe_bound [of "take (Suc i) a"] by metis
    show "fe_value b < RADIX ^ 6" using fe_bound [of b] assms by simp
  qed simp_all
  also have "\<dots> \<le> RADIX ^ 12" unfolding power_add [symmetric] using assms(4) by (intro power_increasing) (simp_all add: RADIX_def)
  finally have "fe_value o1 + RADIX ^ (i + 6) * unat c1 < RADIX ^ length o1" using s m by simp
  from carry_on_value [OF m(2) this] s m show ?thesis by (simp add: mul_row_def o1)
qed

lemma mul_wide_value:
  assumes "length a = 6" "length b = 6"
  shows "length (mul_wide a b) = 12" "fe_value (mul_wide a b) = fe_value a * fe_value b"
proof -
  have "length (foldl (mul_row a b) (replicate 12 0) [0..<k]) = 12 \<and>
      fe_value (foldl (mul_row a b) (replicate 12 0) [0..<k]) = fe_value (take k a) * fe_value b" if "k \<le> 6" for k
    using that
  proof (induction k)
    case 0
    show ?case by (simp add: eval_nat_numeral)
  next
    case (Suc k)
    then show ?case using mul_row_value [OF assms, of "foldl (mul_row a b) (replicate 12 0) [0..<k]" k] by simp
  qed
  from this [of 6] show "length (mul_wide a b) = 12" "fe_value (mul_wide a b) = fe_value a * fe_value b"
    using assms by (simp_all add: mul_wide_def)
qed


subsection \<open>Remainders\<close>

lemma fe_bit: "i < 64 * length xs \<Longrightarrow> bit (fe_value xs) i \<longleftrightarrow> bit (xs ! (i div 64)) (i mod 64)"
proof (induction xs arbitrary: i)
  case (Cons x xs)
  have x: "take_bit 64 (unat x) = unat x" using unat_radix [of x] by (simp add: take_bit_nat_eq_self RADIX_def)
  have "fe_value (x # xs) = unat x + push_bit 64 (fe_value xs)" by (simp add: RADIX_def push_bit_eq_mult mult.commute)
  also have "\<dots> = unat x OR push_bit 64 (fe_value xs)"
  proof (rule disjunctive_add_eq_or)
    have "take_bit 64 (unat x) AND push_bit 64 (fe_value xs) = 0"
      by (rule bit_eqI) (auto simp: bit_and_iff bit_take_bit_iff bit_push_bit_iff)
    then show "unat x AND push_bit 64 (fe_value xs) = 0" by (simp only: x)
  qed
  finally have b: "bit (fe_value (x # xs)) i \<longleftrightarrow> bit (unat x) i \<or> 64 \<le> i \<and> bit (fe_value xs) (i - 64)"
    by (simp add: bit_or_iff bit_push_bit_iff)
  show ?case
  proof (cases "i < 64")
    case True
    then show ?thesis unfolding b by (simp add: bit_unsigned_iff)
  next
    case False
    then have "\<not> bit (unat x) i" using x by (metis bit_take_bit_iff)
    moreover have "i div 64 = Suc ((i - 64) div 64)" "i mod 64 = (i - 64) mod 64"
      using False by (simp_all add: le_div_geq le_mod_geq)
    ultimately show ?thesis using False Cons.IH [of "i - 64"] Cons.prems unfolding b by simp
  qed
qed simp

lemma limb_bit_value: "i < 64 * length xs \<Longrightarrow> limb_bit xs i = of_bool (bit (fe_value xs) i)"
proof -
  assume "i < 64 * length xs"
  moreover have "drop_bit j w AND 1 = of_bool (bit w j)" for j and w :: u64
    by (simp add: and_one_eq mod_2_eq_odd bit_iff_odd_drop_bit)
  ultimately show ?thesis by (simp add: limb_bit_def fe_bit)
qed

lemma div_bit: "(n :: nat) div 2 ^ i = 2 * (n div 2 ^ Suc i) + of_bool (bit n i)"
proof -
  have "n div 2 ^ Suc i = n div 2 ^ i div 2" by (simp only: power_Suc2 div_mult2_eq)
  moreover have "of_bool (bit n i) = n div 2 ^ i mod 2" by (simp add: bit_iff_odd mod_2_eq_odd)
  ultimately show ?thesis by (metis mult_div_mod_eq)
qed

lemma or_low_bit:
  assumes "length r = 6" "even (fe_value r)" "bt = of_bool c"
  shows "length (r[0 := r ! 0 OR bt]) = 6" "fe_value (r[0 := r ! 0 OR bt]) = fe_value r + of_bool c"
proof -
  obtain x xs where r: "r = x # xs" using assms(1) by (cases r) auto
  have "even (RADIX * fe_value xs)" by (simp add: RADIX_def)
  then have "even (unat x)" using assms(2) r by simp
  then have "even x" using bit_unsigned_iff [of x 0, where ?'a = nat] by (simp add: bit_0)
  then have "x AND bt = 0" using assms(3) by (cases c) (simp_all add: and_one_eq mod_2_eq_odd)
  then have o: "x OR bt = x + bt" by (simp add: disjunctive_add_eq_or)
  have "unat x + of_bool c < 2 ^ 64"
  proof -
    have "even ((2 :: nat) ^ 64)" by simp
    then have "Suc (unat x) \<noteq> 2 ^ 64" using \<open>even (unat x)\<close> by (metis even_Suc)
    moreover have "unat x < 2 ^ 64" using unat_radix [of x] by (simp add: RADIX_def)
    ultimately show ?thesis by (cases c) simp_all
  qed
  then have "unat (x + bt) = unat x + of_bool c"
    unfolding assms(3) by (cases c) (simp_all add: unat_plus_if' split: if_splits)
  with o r assms(1) show "length (r[0 := r ! 0 OR bt]) = 6" "fe_value (r[0 := r ! 0 OR bt]) = fe_value r + of_bool c"
    by simp_all
qed

text \<open>One conditional subtraction: the value is carry and limbs together, below twice the modulus.\<close>

lemma settle_value:
  assumes "length r = 6" "length m = 6" "unat carry \<le> 1" "v = fe_value r + RADIX ^ 6 * unat carry" "v < 2 * fe_value m"
  defines "r' \<equiv> (if carry \<noteq> 0 \<or> \<not> fe_less r m then fst (sub_assign r m) else r)"
  shows "length r' = 6" "fe_value r' = v mod fe_value m"
proof -
  obtain d out where d: "sub_assign r m = (d, out)" by fastforce
  note s = sub_assign_value [OF assms(1,2) d]
  have bounds: "fe_value d < RADIX ^ 6" "fe_value r < RADIX ^ 6" "fe_value m < RADIX ^ 6"
    using fe_bound [of d] fe_bound [of r] fe_bound [of m] s(1) assms(1,2) by simp_all
  show "length r' = 6" using s(1) assms(1) d by (simp add: r'_def)
  show "fe_value r' = v mod fe_value m"
  proof (cases "carry \<noteq> 0 \<or> \<not> fe_less r m")
    case True
    then have ge: "fe_value m \<le> v"
    proof
      assume "carry \<noteq> 0"
      then have "1 \<le> unat carry" by (simp add: Suc_le_eq unat_gt_0)
      then have "RADIX ^ 6 \<le> v" using assms(4) by (simp add: trans_le_add2)
      with bounds(3) show ?thesis by simp
    qed (use assms fe_less_value in simp)
    have c: "unat carry = unat out"
    proof (rule ccontr)
      assume "unat carry \<noteq> unat out"
      then consider "unat carry = 0" "unat out = 1" | "unat carry = 1" "unat out = 0" using assms(3) s(2) by linarith
      then show False using s(3) assms(4,5) ge bounds by cases simp_all
    qed
    then have "v = fe_value d + fe_value m" using s(3) assms(4) by simp
    then have "fe_value d = v mod fe_value m" using assms(5) by simp
    then show ?thesis using True d by (simp add: r'_def)
  next
    case False
    then have "v < fe_value m" "r' = r" "v = fe_value r" using assms fe_less_value by (simp_all add: r'_def)
    then show ?thesis by simp
  qed
qed

lemma reduce_step_value:
  assumes "length r = 6" "length m = 6" "length wide = 12" "i < 768" "0 < fe_value m"
    "fe_value r = fe_value wide div 2 ^ Suc i mod fe_value m"
  shows "length (reduce_step wide m r i) = 6 \<and>
    fe_value (reduce_step wide m r i) = fe_value wide div 2 ^ i mod fe_value m"
proof -
  let ?b = "bit (fe_value wide) i"
  have bt: "limb_bit wide i = of_bool ?b" using limb_bit_value [of i wide] assms(3,4) by simp
  obtain r1 c where r1: "shl1 r = (r1, c)" by fastforce
  note s = shl1_value [OF assms(1) r1]
  have "even (RADIX ^ 6 * unat c)" by (simp add: RADIX_def)
  then have "even (fe_value r1)" using s(3) by (metis dvd_add_left_iff dvd_triv_left)
  note o = or_low_bit [OF s(1) this bt]
  let ?r2 = "r1[0 := r1 ! 0 OR limb_bit wide i]"
  have v: "2 * fe_value r + of_bool ?b = fe_value ?r2 + RADIX ^ 6 * unat c" using s(3) o(2) by simp
  have "fe_value r < fe_value m" using assms(5,6) by simp
  then have lt: "2 * fe_value r + of_bool ?b < 2 * fe_value m" by (cases ?b) simp_all
  note t = settle_value [OF o(1) assms(2) s(2) v lt]
  have "(2 * fe_value r + of_bool ?b) mod fe_value m = fe_value wide div 2 ^ i mod fe_value m"
    unfolding assms(6) by (subst div_bit [of _ i]) (metis mod_add_left_eq mod_mult_right_eq)
  with t show ?thesis by (simp add: reduce_step_def r1 Let_def)
qed

lemma reduce_value:
  assumes "length wide = 12" "length m = 6" "0 < fe_value m"
  shows "length (reduce wide m) = 6" "fe_value (reduce wide m) = fe_value wide mod fe_value m"
proof -
  have "length (foldl (reduce_step wide m) ZERO (rev [768 - k..<768])) = 6 \<and>
    fe_value (foldl (reduce_step wide m) ZERO (rev [768 - k..<768])) = fe_value wide div 2 ^ (768 - k) mod fe_value m"
    if "k \<le> 768" for k
    using that
  proof (induction k)
    case 0
    have "RADIX ^ 12 = 2 ^ 768" unfolding RADIX_def power_mult [symmetric] by simp
    then have "fe_value wide < 2 ^ 768" using fe_bound [of wide] assms(1) by simp
    moreover have "fe_value ZERO = 0" "length ZERO = 6" by (simp_all add: ZERO_def eval_nat_numeral)
    ultimately show ?case by (simp only: upt_conv_Nil diff_zero order_refl rev.simps foldl.simps div_less) simp
  next
    case (Suc k)
    let ?j = "768 - Suc k"
    have sj: "Suc ?j = 768 - k" "?j < 768" using Suc.prems by simp_all
    then have j: "[768 - Suc k..<768] = ?j # [768 - k..<768]" "Suc ?j = 768 - k" "?j < 768"
      using upt_conv_Cons [OF sj(2)] by (simp_all only:)
    from Suc.IH Suc.prems j reduce_step_value [of _ m wide ?j] assms show ?case by (simp only: j(1) rev.simps foldl_append foldl.simps)
  qed
  from this [of 768] show "length (reduce wide m) = 6" "fe_value (reduce wide m) = fe_value wide mod fe_value m"
    by (simp_all add: reduce_def)
qed


subsection \<open>Arithmetic modulo\<close>

text \<open>A number of six limbs below a modulus.\<close>

definition residue :: "Fe \<Rightarrow> Fe \<Rightarrow> bool" where
  "residue m a \<longleftrightarrow> length a = 6 \<and> fe_value a < fe_value m"

lemma residue_length [simp]: "residue m a \<Longrightarrow> length a = 6"
  by (simp add: residue_def)

lemma mul_mod_value:
  assumes "length a = 6" "length b = 6" "length m = 6" "0 < fe_value m"
  shows "residue m (mul_mod a b m)" "fe_value (mul_mod a b m) = fe_value a * fe_value b mod fe_value m"
  using reduce_value [OF mul_wide_value(1) [OF assms(1,2)] assms(3,4)] mul_wide_value(2) [OF assms(1,2)] assms(4)
  by (simp_all add: mul_mod_def residue_def)

lemma add_mod_value:
  assumes "residue m a" "residue m b" "length m = 6"
  shows "residue m (add_mod a b m)" "fe_value (add_mod a b m) = (fe_value a + fe_value b) mod fe_value m"
proof -
  obtain r c where r: "add_assign a b = (r, c)" by fastforce
  have ab: "length a = 6" "length b = 6" using assms(1,2) by simp_all
  note s = add_assign_value [OF ab r]
  have "fe_value a + fe_value b < 2 * fe_value m" using assms(1,2) by (simp add: residue_def)
  from settle_value [OF s(1) assms(3) s(2) s(3) [symmetric] this]
  have v: "length (add_mod a b m) = 6" "fe_value (add_mod a b m) = (fe_value a + fe_value b) mod fe_value m"
    by (simp_all add: add_mod_def r)
  then show "fe_value (add_mod a b m) = (fe_value a + fe_value b) mod fe_value m" by simp
  show "residue m (add_mod a b m)" using v assms(1) by (simp add: residue_def mod_less_divisor)
qed

lemma sub_mod_value:
  assumes "residue m a" "residue m b" "length m = 6"
  shows "residue m (sub_mod a b m)" "int (fe_value (sub_mod a b m)) = (int (fe_value a) - int (fe_value b)) mod int (fe_value m)"
proof -
  obtain d bw where d: "sub_assign a b = (d, bw)" by fastforce
  have ab: "length a = 6" "length b = 6" using assms(1,2) by simp_all
  note s = sub_assign_value [OF ab d]
  have lt: "fe_value a < fe_value m" "fe_value b < fe_value m" using assms(1,2) by (simp_all add: residue_def)
  have bounds: "fe_value m < RADIX ^ 6" "fe_value a < RADIX ^ 6" using fe_bound [of m] fe_bound [of a] assms by simp_all
  have v: "length (sub_mod a b m) = 6 \<and> fe_value (sub_mod a b m) + fe_value b = fe_value a + (if bw = 0 then 0 else fe_value m) \<and>
      (bw = 0 \<or> fe_value a < fe_value b)"
  proof (cases "bw = 0")
    case True
    then show ?thesis using s d by (simp add: sub_mod_def)
  next
    case False
    then have "unat bw = 1" using s(2) unat_gt_0 [of bw] by linarith
    then have b: "fe_value d + fe_value b = fe_value a + RADIX ^ 6" using s(3) by simp
    obtain r c where r: "add_assign d m = (r, c)" by fastforce
    note t = add_assign_value [OF s(1) assms(3) r]
    have "fe_value r < RADIX ^ 6" "fe_value d < RADIX ^ 6" using fe_bound [of r] fe_bound [of d] t(1) s(1) by simp_all
    then have "unat c = 1 \<and> fe_value a < fe_value b" using t(2,3) b lt by (cases "unat c = 0") auto
    then show ?thesis using False t b d r by (simp add: sub_mod_def)
  qed
  have "fe_value (sub_mod a b m) < fe_value m" using v lt by (auto split: if_splits)
  then show "residue m (sub_mod a b m)" using v by (simp add: residue_def)
  have "int (fe_value (sub_mod a b m)) = int (fe_value a) - int (fe_value b) + (if bw = 0 then 0 else int (fe_value m))"
    using v by (simp split: if_splits)
  then have "int (fe_value (sub_mod a b m)) mod int (fe_value m) = (int (fe_value a) - int (fe_value b)) mod int (fe_value m)"
    by (cases "bw = 0") (simp_all only: if_True if_False add.right_neutral mod_add_self2 simp_thms)
  then show "int (fe_value (sub_mod a b m)) = (int (fe_value a) - int (fe_value b)) mod int (fe_value m)"
    using \<open>fe_value (sub_mod a b m) < fe_value m\<close> by simp
qed

lemma ONE_value: "length ONE = 6" "fe_value ONE = 1"
  by (simp_all add: ONE_def)

lemma pow_steps_value:
  assumes "length base = 6" "length e = 6" "length m = 6" "1 < fe_value m" "k \<le> 384"
    "foldl (pow_step e m) (ONE, base) [0..<k] = (result, acc)"
  shows "residue m result \<and> length acc = 6 \<and> fe_value acc mod fe_value m = fe_value base ^ (2 ^ k) mod fe_value m \<and>
    fe_value result = fe_value base ^ (fe_value e mod 2 ^ k) mod fe_value m"
  using assms(5,6)
proof (induction k arbitrary: result acc)
  case 0
  then show ?case using assms(1,4) ONE_value by (auto simp: residue_def)
next
  case (Suc k)
  obtain r a where ra: "foldl (pow_step e m) (ONE, base) [0..<k] = (r, a)" by fastforce
  note ih = Suc.IH [OF _ ra]
  have l: "length r = 6" "length a = 6" using ih Suc.prems(1) by (simp_all add: residue_def)
  have b: "limb_bit e k = of_bool (bit (fe_value e) k)" using limb_bit_value [of k e] assms(2) Suc.prems(1) by simp
  have "pow_step e m (r, a) k = (result, acc)" using Suc.prems(2) ra by simp
  then have st: "result = (if bit (fe_value e) k then mul_mod r a m else r)" "acc = mul_mod a a m"
    using b by (auto simp: pow_step_def split: if_splits)
  have m0: "0 < fe_value m" using assms(4) by simp
  note ma = mul_mod_value [OF l(2) l(2) assms(3) m0] and mr = mul_mod_value [OF l assms(3) m0]
  let ?M = "fe_value m" and ?x = "fe_value base"
  have "fe_value acc mod ?M = ?x ^ (2 ^ Suc k) mod ?M"
  proof -
    have "fe_value acc mod ?M = (fe_value a mod ?M) * (fe_value a mod ?M) mod ?M" by (simp add: st ma mod_simps)
    also have "\<dots> = ?x ^ (2 ^ k) * ?x ^ (2 ^ k) mod ?M" using ih Suc.prems(1) by (simp add: mod_simps)
    also have "?x ^ (2 ^ k) * ?x ^ (2 ^ k) = ?x ^ (2 ^ Suc k)" by (simp flip: power_add add: mult_2)
    finally show ?thesis .
  qed
  moreover have "fe_value result = ?x ^ (fe_value e mod 2 ^ Suc k) mod ?M"
  proof (cases "bit (fe_value e) k")
    case True
    then have e: "fe_value e mod 2 ^ Suc k = 2 ^ k + fe_value e mod 2 ^ k"
      using take_bit_Suc_from_most [of k "fe_value e"] by (simp add: take_bit_eq_mod)
    have "fe_value result = (fe_value r mod ?M) * (fe_value a mod ?M) mod ?M" using True by (simp add: st mr mod_simps)
    also have "\<dots> = ?x ^ (fe_value e mod 2 ^ k) * ?x ^ (2 ^ k) mod ?M" using ih Suc.prems(1) by (simp add: mod_simps)
    finally show ?thesis by (simp only: e power_add mult.commute)
  next
    case False
    then have "fe_value e mod 2 ^ Suc k = fe_value e mod 2 ^ k"
      using take_bit_Suc_from_most [of k "fe_value e"] by (simp add: take_bit_eq_mod)
    with False ih Suc.prems(1) show ?thesis by (simp add: st)
  qed
  ultimately show ?case using ma mr ih Suc.prems(1) by (simp add: st)
qed

lemma radix_6: "RADIX ^ 6 = 2 ^ 384"
  unfolding RADIX_def power_mult [symmetric] by simp

lemma pow_mod_value:
  assumes "length base = 6" "length e = 6" "length m = 6" "1 < fe_value m"
  shows "residue m (pow_mod base e m)" "fe_value (pow_mod base e m) = fe_value base ^ fe_value e mod fe_value m"
proof -
  obtain result acc where r: "foldl (pow_step e m) (ONE, base) [0..<384] = (result, acc)" by fastforce
  have "fe_value e < 2 ^ 384" using fe_bound [of e] assms(2) radix_6 by simp
  then have "fe_value e mod 2 ^ 384 = fe_value e" by (rule mod_less)
  with pow_steps_value [OF assms _ r]
  show "residue m (pow_mod base e m)" "fe_value (pow_mod base e m) = fe_value base ^ fe_value e mod fe_value m"
    unfolding pow_mod_def r by (simp_all only: fst_conv order_refl simp_thms)
qed

lemma inv_mod_value:
  assumes "length a = 6" "length m = 6" "2 \<le> fe_value m"
  shows "residue m (inv_mod a m)" "fe_value (inv_mod a m) = fe_value a ^ (fe_value m - 2) mod fe_value m"
proof -
  obtain d out where d: "sub_assign m [2, 0, 0, 0, 0, 0] = (d, out)" by fastforce
  have two: "length [2, 0, 0, 0, 0, 0 :: u64] = 6" "fe_value [2, 0, 0, 0, 0, 0] = 2" by simp_all
  note s = sub_assign_value [OF assms(2) two(1) d]
  have "fe_value d < RADIX ^ 6" using fe_bound [of d] s(1) by simp
  have "unat out = 0"
  proof (rule ccontr)
    assume "unat out \<noteq> 0"
    then have "unat out = 1" using s(2) by linarith
    then show False using s(3) two(2) assms(3) \<open>fe_value d < RADIX ^ 6\<close> by simp
  qed
  then have "fe_value d = fe_value m - 2" using s(3) two(2) by simp
  with pow_mod_value [OF assms(1) s(1) assms(2)] assms(3)
  show "residue m (inv_mod a m)" "fe_value (inv_mod a m) = fe_value a ^ (fe_value m - 2) mod fe_value m"
    by (simp_all add: inv_mod_def d)
qed

end
