(* ===== verification/Curve.thy ===== *)
theory Curve
  imports P384
begin

text \<open>
  What the limb-level P-384 code of \<open>crates/trailryx-verify/src/p384.rs\<close> computes: the points it
  reaches stay on the curve, its point arithmetic is the Jacobian arithmetic on integers modulo the
  prime, and its signature check is the ECDSA equation. The integer-level definitions
  (\<open>j_double\<close>, \<open>j_add\<close>, \<open>j_mul\<close>, \<open>ecdsa_accepts\<close>) are the reference the code is held to.
\<close>

subsection \<open>Points stay on the curve\<close>

abbreviation fv :: "Fe \<Rightarrow> int" where
  "fv a \<equiv> int (fe_value a)"

abbreviation p_value :: int where
  "p_value \<equiv> fv P"

lemma constants_length: "length P = 6" "length N = 6" "length B = 6" "length GX = 6" "length GY = 6" "length ZERO = 6"
  by (simp_all add: P_def N_def B_def GX_def GY_def ZERO_def)

lemma P_value: "fe_value P = 2 ^ 384 - 2 ^ 128 - 2 ^ 96 + 2 ^ 32 - 1"
  by (simp add: P_def RADIX_def)

lemma P_pos: "0 < fe_value P" "1 < fe_value P"
  by (simp_all add: P_value)

lemma residue_ops [simp]:
  "residue P a \<Longrightarrow> residue P b \<Longrightarrow> residue P (mul_mod a b P)"
  "residue P a \<Longrightarrow> residue P b \<Longrightarrow> residue P (add_mod a b P)"
  "residue P a \<Longrightarrow> residue P b \<Longrightarrow> residue P (sub_mod a b P)"
  using mul_mod_value(1) [OF _ _ constants_length(1) P_pos(1)] add_mod_value(1) [OF _ _ constants_length(1)]
    sub_mod_value(1) [OF _ _ constants_length(1)] by (simp_all add: residue_def)

lemma fv_ops:
  "residue P a \<Longrightarrow> residue P b \<Longrightarrow> fv (mul_mod a b P) = fv a * fv b mod p_value"
  "residue P a \<Longrightarrow> residue P b \<Longrightarrow> fv (add_mod a b P) = (fv a + fv b) mod p_value"
  "residue P a \<Longrightarrow> residue P b \<Longrightarrow> fv (sub_mod a b P) = (fv a - fv b) mod p_value"
  using mul_mod_value(2) [OF _ _ constants_length(1) P_pos(1), of a b] add_mod_value(2) [OF _ _ constants_length(1), of a b]
    sub_mod_value(2) [OF _ _ constants_length(1), of a b] by (simp_all add: residue_def zmod_int)

definition curve :: "int \<Rightarrow> int \<Rightarrow> int \<Rightarrow> int" where
  "curve x y z = y ^ 2 - (x ^ 3 - 3 * x * z ^ 4 + fv B * z ^ 6)"

definition point_ok :: "Point \<Rightarrow> bool" where
  "point_ok q \<longleftrightarrow> residue P (pt_x q) \<and> residue P (pt_y q) \<and> residue P (pt_z q) \<and>
     curve (fv (pt_x q)) (fv (pt_y q)) (fv (pt_z q)) mod p_value = 0"

lemma curve_mod: "curve (x mod m) (y mod m) (z mod m) mod m = curve x y z mod m"
proof -
  have "((y mod m) ^ 2 - ((x mod m) ^ 3 - 3 * (x mod m) * (z mod m) ^ 4 + b * (z mod m) ^ 6)) mod m =
      (y ^ 2 - (x ^ 3 - 3 * x * z ^ 4 + b * z ^ 6)) mod m" for b
    by (intro mod_diff_cong mod_add_cong mod_mult_cong) (simp_all add: power_mod)
  then show ?thesis by (simp add: curve_def)
qed

lemma double_identity:
  fixes X Y Z :: int
  defines "A \<equiv> 3 * ((X - Z ^ 2) * (X + Z ^ 2))"
  defines "X3 \<equiv> A ^ 2 - 8 * (X * Y ^ 2)"
  shows "curve X3 (A * (4 * (X * Y ^ 2) - X3) - 8 * Y ^ 4) (2 * (Y * Z)) = 64 * Y ^ 6 * curve X Y Z"
  unfolding curve_def X3_def A_def by algebra


lemma scale_identity: "curve (x * w ^ 2) (y * w ^ 3) (z * w) = w ^ 6 * curve x y z"
  unfolding curve_def by algebra

lemma chord_identity:
  fixes U1 U2 S1 S2 Z :: int
  defines "H \<equiv> U2 - U1" and "R \<equiv> S2 - S1"
  defines "X \<equiv> R ^ 2 - H ^ 3 - 2 * U1 * H ^ 2"
  shows "curve (4 * X) (8 * (R * (U1 * H ^ 2 - X) - S1 * H ^ 3)) (2 * Z * H) =
    64 * ((curve U2 S2 Z - curve U1 S1 Z) * (H ^ 3 * X - H ^ 5 * U1) + H ^ 6 * curve U1 S1 Z)"
  unfolding curve_def X_def H_def R_def by algebra


lemma ZERO_list: "ZERO = [0, 0, 0, 0, 0, 0]"
  by (simp add: ZERO_def eval_nat_numeral)

lemma residue_constants [simp]: "residue P ZERO" "residue P ONE" "residue P B" "residue P GX" "residue P GY"
  by (simp_all add: residue_def ZERO_list ONE_def B_def GX_def GY_def P_value RADIX_def)

lemma INFINITY_ok: "point_ok INFINITY"
  by (simp add: point_ok_def INFINITY_def curve_def ONE_value) (simp add: ZERO_list)

text \<open>The tangent and the chord, over the integers modulo the prime.\<close>

type_synonym jac = "int \<times> int \<times> int"

definition j_double :: "jac \<Rightarrow> jac" where
  "j_double q =
     (case q of (X, Y, Z) \<Rightarrow>
        if Z = 0 then (1, 1, 0)
        else
          let A = 3 * ((X - Z ^ 2) * (X + Z ^ 2)); X3 = A ^ 2 - 8 * (X * Y ^ 2)
          in (X3 mod p_value, (A * (4 * (X * Y ^ 2) - X3) - 8 * Y ^ 4) mod p_value, 2 * (Y * Z) mod p_value))"

definition j_add :: "jac \<Rightarrow> jac \<Rightarrow> jac" where
  "j_add p q =
     (case (p, q) of ((X1, Y1, Z1), (X2, Y2, Z2)) \<Rightarrow>
        if Z1 = 0 then q
        else if Z2 = 0 then p
        else
          let U1 = X1 * Z2 ^ 2; U2 = X2 * Z1 ^ 2; S1 = Y1 * Z2 ^ 3; S2 = Y2 * Z1 ^ 3
          in if U1 mod p_value = U2 mod p_value then
               if S1 mod p_value = S2 mod p_value then j_double p else (1, 1, 0)
             else
               let H = U2 - U1; R = S2 - S1; X = R ^ 2 - H ^ 3 - 2 * U1 * H ^ 2
               in (4 * X mod p_value, 8 * (R * (U1 * H ^ 2 - X) - S1 * H ^ 3) mod p_value,
                   2 * (Z1 * Z2) * H mod p_value))"

definition jac_of :: "Point \<Rightarrow> jac" where
  "jac_of q = (fv (pt_x q), fv (pt_y q), fv (pt_z q))"

definition coords_ok :: "Point \<Rightarrow> bool" where
  "coords_ok q \<longleftrightarrow> residue P (pt_x q) \<and> residue P (pt_y q) \<and> residue P (pt_z q)"

definition on_jac :: "jac \<Rightarrow> bool" where
  "on_jac q \<longleftrightarrow> (case q of (X, Y, Z) \<Rightarrow> curve X Y Z mod p_value = 0)"

lemma point_ok_jac: "point_ok q \<longleftrightarrow> coords_ok q \<and> on_jac (jac_of q)"
  by (auto simp: point_ok_def coords_ok_def on_jac_def jac_of_def)

lemma fe_is_zero_value: "fe_is_zero a \<longleftrightarrow> fe_value a = 0"
  by (induction a) (auto simp: fe_is_zero_def unsigned_eq_0_iff RADIX_def)

lemma residue_eq: "residue P a \<Longrightarrow> residue P b \<Longrightarrow> a = b \<longleftrightarrow> fv a = fv b"
  using fe_inj [of a b] by (simp add: residue_def)

lemma infinity_jac: "coords_ok INFINITY" "jac_of INFINITY = (1, 1, 0)"
  using INFINITY_ok by (simp_all add: point_ok_jac) (simp add: jac_of_def INFINITY_def ONE_value ZERO_list)

lemma double_point_jac:
  assumes "coords_ok q"
  shows "coords_ok (double_point q)" "jac_of (double_point q) = j_double (jac_of q)"
proof -
  have r [simp]: "residue P (pt_x q)" "residue P (pt_y q)" "residue P (pt_z q)" using assms by (simp_all add: coords_ok_def)
  let ?X = "fv (pt_x q)" and ?Y = "fv (pt_y q)" and ?Z = "fv (pt_z q)"
  define delta gamma where "delta = mul_mod (pt_z q) (pt_z q) P" and "gamma = mul_mod (pt_y q) (pt_y q) P"
  define beta where "beta = mul_mod (pt_x q) gamma P"
  define t where "t = mul_mod (sub_mod (pt_x q) delta P) (add_mod (pt_x q) delta P) P"
  define alpha where "alpha = add_mod (add_mod t t P) t P"
  define beta4 where "beta4 = add_mod (add_mod beta beta P) (add_mod beta beta P) P"
  define x3 where "x3 = sub_mod (mul_mod alpha alpha P) (add_mod beta4 beta4 P) P"
  define yz where "yz = add_mod (pt_y q) (pt_z q) P"
  define z3 where "z3 = sub_mod (sub_mod (mul_mod yz yz P) gamma P) delta P"
  define g2 where "g2 = add_mod (mul_mod gamma gamma P) (mul_mod gamma gamma P) P"
  define g8 where "g8 = add_mod (add_mod g2 g2 P) (add_mod g2 g2 P) P"
  define y3 where "y3 = sub_mod (mul_mod alpha (sub_mod beta4 x3 P) P) g8 P"
  have dbl: "double_point q = (if fe_is_zero (pt_z q) then INFINITY else \<lparr>pt_x = x3, pt_y = y3, pt_z = z3\<rparr>)"
    by (simp add: double_point_def Let_def delta_def gamma_def beta_def t_def alpha_def beta4_def x3_def yz_def
        z3_def g2_def g8_def y3_def)
  note defs = delta_def gamma_def beta_def t_def alpha_def beta4_def x3_def yz_def z3_def g2_def g8_def y3_def
  have res [simp]: "residue P delta" "residue P gamma" "residue P beta" "residue P t" "residue P alpha" "residue P beta4"
    "residue P x3" "residue P yz" "residue P z3" "residue P g2" "residue P g8" "residue P y3"
    by (simp_all add: defs)
  let ?A = "3 * ((?X - ?Z ^ 2) * (?X + ?Z ^ 2))"
  let ?X3 = "?A ^ 2 - 8 * (?X * ?Y ^ 2)"
  have d: "fv delta = ?Z ^ 2 mod p_value" and g: "fv gamma = ?Y ^ 2 mod p_value"
    by (simp_all add: delta_def gamma_def fv_ops power2_eq_square)
  have b: "fv beta = ?X * ?Y ^ 2 mod p_value" by (simp add: beta_def fv_ops g mod_simps)
  have t: "fv t = (?X - ?Z ^ 2) * (?X + ?Z ^ 2) mod p_value" by (simp add: t_def fv_ops d mod_simps)
  have a: "fv alpha = ?A mod p_value" by (simp add: alpha_def fv_ops t mod_simps)
  have b4: "fv beta4 = 4 * (?X * ?Y ^ 2) mod p_value" by (simp add: beta4_def fv_ops b mod_simps)
  have x: "fv x3 = ?X3 mod p_value" by (simp add: x3_def fv_ops a b4 mod_simps power2_eq_square)
  have z: "fv z3 = 2 * (?Y * ?Z) mod p_value"
  proof -
    have "fv z3 = ((?Y + ?Z) ^ 2 - ?Y ^ 2 - ?Z ^ 2) mod p_value" by (simp add: z3_def yz_def fv_ops g d mod_simps power2_eq_square)
    also have "(?Y + ?Z) ^ 2 - ?Y ^ 2 - ?Z ^ 2 = 2 * (?Y * ?Z)" by algebra
    finally show ?thesis .
  qed
  have g8: "fv g8 = 8 * ?Y ^ 4 mod p_value"
    by (simp add: g8_def g2_def fv_ops g mod_simps power2_eq_square power4_eq_xxxx mult.assoc)
  have y: "fv y3 = (?A * (4 * (?X * ?Y ^ 2) - ?X3) - 8 * ?Y ^ 4) mod p_value"
    by (simp add: y3_def fv_ops a b4 x g8 mod_simps)
  show "coords_ok (double_point q)" using infinity_jac(1) by (simp add: dbl coords_ok_def)
  show "jac_of (double_point q) = j_double (jac_of q)"
    using infinity_jac(2) x y z by (simp add: dbl jac_of_def j_double_def fe_is_zero_value Let_def)
qed

lemma on_jac_mod: "on_jac (X mod p_value, Y mod p_value, Z mod p_value) \<longleftrightarrow> p_value dvd curve X Y Z"
  using curve_mod [of X p_value Y Z] by (simp only: on_jac_def prod.case dvd_eq_mod_eq_0)

lemma on_jac_infinity: "on_jac (1, 1, 0)"
  by (simp add: on_jac_def curve_def)

lemma j_double_on: "on_jac q \<Longrightarrow> on_jac (j_double q)"
proof -
  obtain X Y Z where q: "q = (X, Y, Z)" by (metis prod.exhaust)
  assume "on_jac q"
  then have "p_value dvd 64 * Y ^ 6 * curve X Y Z" by (simp add: on_jac_def q mod_eq_0_iff_dvd)
  then show ?thesis
    by (cases "Z = 0") (simp_all only: j_double_def q prod.case if_True if_False Let_def on_jac_mod double_identity on_jac_infinity simp_thms)
qed

lemma add_point_jac:
  assumes "coords_ok p" "coords_ok q"
  shows "coords_ok (add_point p q)" "jac_of (add_point p q) = j_add (jac_of p) (jac_of q)"
proof -
  have r [simp]: "residue P (pt_x p)" "residue P (pt_y p)" "residue P (pt_z p)"
    "residue P (pt_x q)" "residue P (pt_y q)" "residue P (pt_z q)" using assms by (simp_all add: coords_ok_def)
  let ?X1 = "fv (pt_x p)" and ?Y1 = "fv (pt_y p)" and ?Z1 = "fv (pt_z p)"
  let ?X2 = "fv (pt_x q)" and ?Y2 = "fv (pt_y q)" and ?Z2 = "fv (pt_z q)"
  define z1z1 z2z2 where "z1z1 = mul_mod (pt_z p) (pt_z p) P" and "z2z2 = mul_mod (pt_z q) (pt_z q) P"
  define u1 u2 where "u1 = mul_mod (pt_x p) z2z2 P" and "u2 = mul_mod (pt_x q) z1z1 P"
  define s1 s2 where "s1 = mul_mod (mul_mod (pt_y p) (pt_z q) P) z2z2 P" and "s2 = mul_mod (mul_mod (pt_y q) (pt_z p) P) z1z1 P"
  define h where "h = sub_mod u2 u1 P"
  define i where "i = mul_mod (add_mod h h P) (add_mod h h P) P"
  define j where "j = mul_mod h i P"
  define rr where "rr = add_mod (sub_mod s2 s1 P) (sub_mod s2 s1 P) P"
  define v where "v = mul_mod u1 i P"
  define x3 where "x3 = sub_mod (sub_mod (mul_mod rr rr P) j P) (add_mod v v P) P"
  define s1j where "s1j = mul_mod s1 j P"
  define y3 where "y3 = sub_mod (mul_mod rr (sub_mod v x3 P) P) (add_mod s1j s1j P) P"
  define zz where "zz = add_mod (pt_z p) (pt_z q) P"
  define z3 where "z3 = mul_mod (sub_mod (sub_mod (mul_mod zz zz P) z1z1 P) z2z2 P) h P"
  note defs = z1z1_def z2z2_def u1_def u2_def s1_def s2_def h_def i_def j_def rr_def v_def x3_def s1j_def y3_def zz_def z3_def
  have add: "add_point p q = (if fe_is_zero (pt_z p) then q else if fe_is_zero (pt_z q) then p
      else if u1 = u2 then if s1 = s2 then double_point p else INFINITY
      else \<lparr>pt_x = x3, pt_y = y3, pt_z = z3\<rparr>)"
    by (simp add: add_point_def Let_def defs)
  have res [simp]: "residue P z1z1" "residue P z2z2" "residue P u1" "residue P u2" "residue P s1" "residue P s2" "residue P h"
    "residue P i" "residue P j" "residue P rr" "residue P v" "residue P x3" "residue P s1j" "residue P y3" "residue P zz" "residue P z3"
    by (simp_all add: defs)
  define U1 U2 S1 S2 where "U1 = ?X1 * ?Z2 ^ 2" and "U2 = ?X2 * ?Z1 ^ 2" and "S1 = ?Y1 * ?Z2 ^ 3" and "S2 = ?Y2 * ?Z1 ^ 3"
  define H R where "H = U2 - U1" and "R = S2 - S1"
  let ?X = "R ^ 2 - H ^ 3 - 2 * U1 * H ^ 2"
  have z: "fv z1z1 = ?Z1 ^ 2 mod p_value" "fv z2z2 = ?Z2 ^ 2 mod p_value" by (simp_all add: defs(1,2) fv_ops power2_eq_square)
  have u: "fv u1 = U1 mod p_value" "fv u2 = U2 mod p_value" by (simp_all add: defs(3,4) fv_ops z mod_simps U1_def U2_def)
  have s: "fv s1 = S1 mod p_value" "fv s2 = S2 mod p_value"
    by (simp_all add: defs(5,6) fv_ops z mod_simps S1_def S2_def power2_eq_square power3_eq_cube mult.assoc)
  have h: "fv h = H mod p_value" by (simp add: h_def fv_ops u mod_simps H_def)
  have i: "fv i = 4 * H ^ 2 mod p_value"
  proof -
    have "fv i = (H + H) * (H + H) mod p_value" by (simp add: i_def fv_ops h mod_simps)
    also have "(H + H) * (H + H) = 4 * H ^ 2" by algebra
    finally show ?thesis .
  qed
  have j: "fv j = 4 * H ^ 3 mod p_value"
  proof -
    have "fv j = H * (4 * H ^ 2) mod p_value" by (simp add: j_def fv_ops h i mod_simps)
    also have "H * (4 * H ^ 2) = 4 * H ^ 3" by algebra
    finally show ?thesis .
  qed
  have rs: "fv (sub_mod s2 s1 P) = R mod p_value" by (simp add: fv_ops s mod_simps R_def)
  have rr: "fv rr = 2 * R mod p_value" using rs by (simp add: rr_def fv_ops(2) mod_simps)
  have v: "fv v = 4 * (U1 * H ^ 2) mod p_value"
  proof -
    have "fv v = U1 * (4 * H ^ 2) mod p_value" by (simp add: v_def fv_ops u i mod_simps)
    also have "U1 * (4 * H ^ 2) = 4 * (U1 * H ^ 2)" by simp
    finally show ?thesis .
  qed
  have x: "fv x3 = 4 * ?X mod p_value"
  proof -
    have "fv x3 = (2 * R * (2 * R) - 4 * H ^ 3 - (4 * (U1 * H ^ 2) + 4 * (U1 * H ^ 2))) mod p_value"
      by (simp add: x3_def fv_ops rr j v mod_simps)
    also have "2 * R * (2 * R) - 4 * H ^ 3 - (4 * (U1 * H ^ 2) + 4 * (U1 * H ^ 2)) = 4 * ?X" by algebra
    finally show ?thesis .
  qed
  have y: "fv y3 = 8 * (R * (U1 * H ^ 2 - ?X) - S1 * H ^ 3) mod p_value"
  proof -
    have "fv y3 = (2 * R * (4 * (U1 * H ^ 2) - 4 * ?X) - (S1 * (4 * H ^ 3) + S1 * (4 * H ^ 3))) mod p_value"
      by (simp add: y3_def s1j_def fv_ops rr j v x s mod_simps)
    also have "2 * R * (4 * (U1 * H ^ 2) - 4 * ?X) - (S1 * (4 * H ^ 3) + S1 * (4 * H ^ 3)) =
        8 * (R * (U1 * H ^ 2 - ?X) - S1 * H ^ 3)" by algebra
    finally show ?thesis .
  qed
  have z3: "fv z3 = 2 * (?Z1 * ?Z2) * H mod p_value"
  proof -
    have "fv z3 = ((?Z1 + ?Z2) * (?Z1 + ?Z2) - ?Z1 ^ 2 - ?Z2 ^ 2) * H mod p_value"
      by (simp add: z3_def zz_def fv_ops z h mod_simps)
    also have "((?Z1 + ?Z2) * (?Z1 + ?Z2) - ?Z1 ^ 2 - ?Z2 ^ 2) * H = 2 * (?Z1 * ?Z2) * H" by algebra
    finally show ?thesis .
  qed
  show "coords_ok (add_point p q)"
    using assms infinity_jac(1) double_point_jac(1) by (simp add: add coords_ok_def)
  have "u1 = u2 \<longleftrightarrow> U1 mod p_value = U2 mod p_value" "s1 = s2 \<longleftrightarrow> S1 mod p_value = S2 mod p_value"
    using u s by (simp_all add: residue_eq)
  moreover have "j_add (jac_of p) (jac_of q) = (if ?Z1 = 0 then jac_of q else if ?Z2 = 0 then jac_of p
      else if U1 mod p_value = U2 mod p_value then if S1 mod p_value = S2 mod p_value then j_double (jac_of p) else (1, 1, 0)
      else (4 * ?X mod p_value, 8 * (R * (U1 * H ^ 2 - ?X) - S1 * H ^ 3) mod p_value, 2 * (?Z1 * ?Z2) * H mod p_value))"
    by (simp only: j_add_def jac_of_def prod.case Let_def H_def R_def U1_def U2_def S1_def S2_def)
  moreover have "jac_of \<lparr>pt_x = x3, pt_y = y3, pt_z = z3\<rparr> =
      (4 * ?X mod p_value, 8 * (R * (U1 * H ^ 2 - ?X) - S1 * H ^ 3) mod p_value, 2 * (?Z1 * ?Z2) * H mod p_value)"
    unfolding jac_of_def Point.select_convs x y z3 ..
  ultimately show "jac_of (add_point p q) = j_add (jac_of p) (jac_of q)"
    unfolding add fe_is_zero_value using infinity_jac(2) double_point_jac(2) [OF assms(1)] by simp
qed

lemma j_add_on:
  assumes "on_jac p" "on_jac q"
  shows "on_jac (j_add p q)"
proof -
  obtain X1 Y1 Z1 X2 Y2 Z2 where pq: "p = (X1, Y1, Z1)" "q = (X2, Y2, Z2)" by (metis prod.exhaust)
  have on: "p_value dvd curve (X1 * Z2 ^ 2) (Y1 * Z2 ^ 3) (Z1 * Z2)" "p_value dvd curve (X2 * Z1 ^ 2) (Y2 * Z1 ^ 3) (Z1 * Z2)"
    using assms scale_identity [of X1 Z2 Y1 Z1] scale_identity [of X2 Z1 Y2 Z2]
    by (simp_all add: on_jac_def pq mod_eq_0_iff_dvd mult.commute [of Z1])
  let ?U1 = "X1 * Z2 ^ 2" and ?U2 = "X2 * Z1 ^ 2" and ?S1 = "Y1 * Z2 ^ 3" and ?S2 = "Y2 * Z1 ^ 3"
  consider "Z1 = 0 \<or> Z2 = 0" | "Z1 \<noteq> 0" "Z2 \<noteq> 0" "?U1 mod p_value = ?U2 mod p_value"
    | "Z1 \<noteq> 0" "Z2 \<noteq> 0" "?U1 mod p_value \<noteq> ?U2 mod p_value" by blast
  then show ?thesis
  proof cases
    case 1
    with assms show ?thesis by (auto simp: j_add_def pq)
  next
    case 2
    with assms on_jac_infinity j_double_on show ?thesis by (simp add: j_add_def pq)
  next
    case 3
    have "p_value dvd 64 * ((curve ?U2 ?S2 (Z1 * Z2) - curve ?U1 ?S1 (Z1 * Z2)) * c + d * curve ?U1 ?S1 (Z1 * Z2))" for c d
      using on by simp
    with 3 show ?thesis by (simp only: j_add_def pq prod.case if_False Let_def on_jac_mod chord_identity)
  qed
qed

lemma double_point_ok: "point_ok q \<Longrightarrow> point_ok (double_point q)"
  by (simp add: point_ok_jac double_point_jac j_double_on)

lemma add_point_ok: "point_ok p \<Longrightarrow> point_ok q \<Longrightarrow> point_ok (add_point p q)"
  by (simp add: point_ok_jac add_point_jac j_add_on)

lemma mul_point_ok:
  assumes "point_ok p"
  shows "point_ok (mul_point k p)"
proof -
  have "point_ok (foldl (mul_point_step k p) acc is)" if "point_ok acc" for acc "is"
    using that by (induction "is" arbitrary: acc)
      (simp_all add: mul_point_step_def Let_def double_point_ok add_point_ok assms)
  then show ?thesis using INFINITY_ok by (simp add: mul_point_def)
qed

lemma on_curve_iff:
  assumes "residue P x" "residue P y"
  shows "on_curve x y \<longleftrightarrow> point_ok \<lparr>pt_x = x, pt_y = y, pt_z = ONE\<rparr>"
proof -
  let ?l = "mul_mod y y P" and ?r = "add_mod (sub_mod (mul_mod (mul_mod x x P) x P) (add_mod (add_mod x x P) x P) P) B P"
  have "on_curve x y \<longleftrightarrow> ?l = ?r" by (simp add: on_curve_def)
  also have "\<dots> \<longleftrightarrow> fv ?l = fv ?r"
    using fe_inj [of ?l ?r] residue_length [of P ?l] residue_length [of P ?r] assms by simp
  also have "\<dots> \<longleftrightarrow> fv y ^ 2 mod p_value = (fv x ^ 3 - 3 * fv x + fv B) mod p_value"
    using assms by (simp add: fv_ops mod_simps power2_eq_square power3_eq_cube)
  also have "\<dots> \<longleftrightarrow> curve (fv x) (fv y) 1 mod p_value = 0" by (simp add: curve_def mod_eq_dvd_iff mod_eq_0_iff_dvd)
  finally show ?thesis using assms by (simp add: point_ok_def ONE_value)
qed


subsection \<open>Scalars and the whole check\<close>

function j_mul :: "nat \<Rightarrow> jac \<Rightarrow> jac" where
  "j_mul k q =
     (if k = 0 then (1, 1, 0)
      else let d = j_double (j_mul (k div 2) q) in if odd k then j_add d q else d)"
  by pat_completeness auto
termination
  by (relation "measure fst") auto

declare j_mul.simps [simp del]

lemma j_mul_step:
  "j_mul k q = (let d = j_double (j_mul (k div 2) q) in if odd k then j_add d q else d)"
proof (cases "k = 0")
  case True
  have "j_double (1, 1, 0) = (1, 1, 0)" by (simp add: j_double_def)
  with True show ?thesis by (simp add: j_mul.simps [of 0])
qed (simp add: j_mul.simps [of k])

lemma mul_point_jac:
  assumes "length k = 6" "coords_ok q"
  shows "coords_ok (mul_point k q)" "jac_of (mul_point k q) = j_mul (fe_value k) (jac_of q)"
proof -
  have "coords_ok (foldl (mul_point_step k q) INFINITY (rev [384 - n..<384])) \<and>
    jac_of (foldl (mul_point_step k q) INFINITY (rev [384 - n..<384])) = j_mul (fe_value k div 2 ^ (384 - n)) (jac_of q)"
    if "n \<le> 384" for n
    using that
  proof (induction n)
    case 0
    have "fe_value k < 2 ^ 384" using fe_bound [of k] assms(1) radix_6 by simp
    then have "fe_value k div 2 ^ (384 - 0) = 0" by (simp only: diff_zero div_less)
    then show ?case using infinity_jac by (simp only: upt_conv_Nil diff_zero order_refl rev.simps foldl.simps j_mul.simps [of 0]) simp
  next
    case (Suc n)
    let ?i = "384 - Suc n" and ?v = "fe_value k"
    have i: "Suc ?i = 384 - n" "?i < 384" using Suc.prems by simp_all
    then have u: "[384 - Suc n..<384] = ?i # [384 - n..<384]" using upt_conv_Cons [OF i(2)] by (simp only:)
    define acc where "acc = foldl (mul_point_step k q) INFINITY (rev [384 - n..<384])"
    have ih: "coords_ok acc" "jac_of acc = j_mul (?v div 2 ^ Suc ?i) (jac_of q)"
      using Suc.IH Suc.prems i(1) by (simp_all add: acc_def)
    have b: "limb_bit k ?i = of_bool (bit ?v ?i)" using limb_bit_value [of ?i k] assms(1) i(2) by simp
    have d: "?v div 2 ^ ?i div 2 = ?v div 2 ^ Suc ?i" by (simp only: power_Suc2 div_mult2_eq)
    have o: "odd (?v div 2 ^ ?i) \<longleftrightarrow> bit ?v ?i" by (simp add: bit_iff_odd)
    note dbl = double_point_jac [OF ih(1)] and add = add_point_jac [OF double_point_jac(1) [OF ih(1)] assms(2)]
    have "jac_of (mul_point_step k q acc ?i) = j_mul (?v div 2 ^ ?i) (jac_of q)"
      unfolding j_mul_step [of "?v div 2 ^ ?i"] o d mul_point_step_def Let_def b ih(2) [symmetric]
      using dbl(2) add(2) by (cases "bit ?v ?i") simp_all
    moreover have "coords_ok (mul_point_step k q acc ?i)"
      using dbl(1) add(1) by (simp add: mul_point_step_def Let_def)
    moreover have "foldl (mul_point_step k q) INFINITY (rev [384 - Suc n..<384]) = mul_point_step k q acc ?i"
      by (simp only: u rev.simps foldl_append foldl.simps acc_def)
    ultimately show ?case by (simp only:)
  qed
  from this [of 384] show "coords_ok (mul_point k q)" "jac_of (mul_point k q) = j_mul (fe_value k) (jac_of q)"
    by (simp_all add: mul_point_def)
qed


lemma N_value: "fe_value N = 39402006196394479212279040100143613805079739270465446667946905279627659399113263569398956308152294913554433653942643"
  by (simp add: N_def RADIX_def)

lemma below_order_value:
  assumes "length e = 6"
  shows "length (below_order e) = 6" "fe_value (below_order e) = fe_value e mod fe_value N"
proof -
  have n: "length N = 6" by (simp add: N_def)
  have "fe_value e < 2 ^ 384" using fe_bound [of e] assms radix_6 by simp
  then have "fe_value e < 2 * fe_value N" by (simp add: N_value)
  from settle_value [OF assms n _ _ this, of 0]
  show "length (below_order e) = 6" "fe_value (below_order e) = fe_value e mod fe_value N" by (simp_all add: below_order_def)
qed

lemma be_nat_append: "be_nat (xs @ ys) = be_nat xs * 256 ^ length ys + be_nat ys"
  by (induction ys rule: rev_induct) (simp_all add: algebra_simps flip: append_assoc)

lemma chunks8_more: "8 \<le> length bs \<Longrightarrow> chunks8 bs = take 8 bs # chunks8 (drop 8 bs)"
  by (cases bs) simp_all

lemma from_be_value: "length bs \<le> 8 \<Longrightarrow> unat (from_be_bytes bs :: u64) = be_nat bs"
proof -
  assume "length bs \<le> 8"
  then have "be_nat bs < 256 ^ 8" by (intro less_le_trans [OF be_nat_less] power_increasing) simp_all
  then show ?thesis unfolding from_be_bytes_def by (intro unat_of_nat_u64) simp
qed

lemma from_be_bytes_fe:
  assumes "length bs = 48"
  shows "length (fe_from_be_bytes bs) = 6" "fe_value (fe_from_be_bytes bs) = be_nat bs"
proof -
  define c where "c i = take 8 (drop (8 * i) bs)" for i
  have len: "length (c i) = 8" if "i < 6" for i using that assms by (simp add: c_def)
  have ch: "chunks8 bs = [c 0, c 1, c 2, c 3, c 4, c 5]"
    using assms by (simp add: chunks8_more c_def)
  have f: "fe_from_be_bytes bs = map from_be_bytes [c 5, c 4, c 3, c 2, c 1, c 0]"
    by (simp add: fe_from_be_bytes_def ch ZERO_list)
  then show "length (fe_from_be_bytes bs) = 6" by simp
  have "bs = c 0 @ c 1 @ c 2 @ c 3 @ c 4 @ c 5"
    by (rule nth_equalityI) (use assms in \<open>auto simp: c_def nth_append\<close>)
  then have "be_nat bs = be_nat (c 0 @ c 1 @ c 2 @ c 3 @ c 4 @ c 5)" by simp
  also have "\<dots> = fe_value (map from_be_bytes [c 5, c 4, c 3, c 2, c 1, c 0])"
    by (simp add: be_nat_append len from_be_value RADIX_def)
  finally show "fe_value (fe_from_be_bytes bs) = be_nat bs" by (simp only: f)
qed


text \<open>ECDSA over the integers: key \<open>(x, y)\<close>, signature \<open>(r, s)\<close>, digest \<open>e\<close>.\<close>

definition ecdsa_accepts :: "int \<Rightarrow> int \<Rightarrow> nat \<Rightarrow> nat \<Rightarrow> nat \<Rightarrow> bool" where
  "ecdsa_accepts x y r s e \<longleftrightarrow>
     (let n = fe_value N; w = s ^ (n - 2) mod n;
          (X, Y, Z) = j_add (j_mul (e * w mod n) (fv GX, fv GY, 1)) (j_mul (r * w mod n) (x, y, 1))
      in Z \<noteq> 0 \<and> (X * (Z ^ (fe_value P - 2)) ^ 2 mod p_value) mod int n = int r)"

lemma affine_x_value:
  assumes "coords_ok q" "jac_of q = (X, Y, Z)"
  shows "affine_x q = None \<longleftrightarrow> Z = 0"
    and "affine_x q = Some x \<Longrightarrow> residue P x \<and> fv x = X * (Z ^ (fe_value P - 2)) ^ 2 mod p_value"
proof -
  have c [simp]: "residue P (pt_x q)" "residue P (pt_z q)" and v: "fv (pt_x q) = X" "fv (pt_z q) = Z"
    using assms by (simp_all add: coords_ok_def jac_of_def)
  show "affine_x q = None \<longleftrightarrow> Z = 0" using v by (auto simp: affine_x_def Let_def fe_is_zero_value)
  have "2 \<le> fe_value P" using P_pos(2) by simp
  note i = inv_mod_value [of "pt_z q", OF _ constants_length(1) this]
  have ri [simp]: "residue P (inv_mod (pt_z q) P)" using i(1) residue_length [OF c(2)] by simp
  have iv: "fv (inv_mod (pt_z q) P) = Z ^ (fe_value P - 2) mod p_value"
    using i(2) residue_length [OF c(2)] v(2) by (simp add: zmod_int)
  assume "affine_x q = Some x"
  then have x: "x = mul_mod (pt_x q) (mul_mod (inv_mod (pt_z q) P) (inv_mod (pt_z q) P) P) P"
    by (simp add: affine_x_def Let_def split: if_splits)
  have "fv x = X * (Z ^ (fe_value P - 2) * Z ^ (fe_value P - 2)) mod p_value" unfolding x by (simp add: fv_ops iv v mod_simps)
  moreover have "residue P x" unfolding x by simp
  ultimately show "residue P x \<and> fv x = X * (Z ^ (fe_value P - 2)) ^ 2 mod p_value" by (simp only: power2_eq_square)
qed


lemma generator_ok: "point_ok \<lparr>pt_x = GX, pt_y = GY, pt_z = ONE\<rparr>"
proof -
  have "on_curve GX GY \<longleftrightarrow> point_ok \<lparr>pt_x = GX, pt_y = GY, pt_z = ONE\<rparr>" by (rule on_curve_iff) simp_all
  moreover have "curve (fv GX) (fv GY) 1 = p_value * (- 0x4bab9bc17641ab3bca6dd8cf8cc8319b9532b7b1e5dc1af1f571cb67e0305b620dc799a2e4b3e3e5532ca58aee3fa564be6daeab22cdca1972745cf7ee2df3cd043ff67b5bd3ac3b14b1f42b0583b0e79f2fcbd9383ec074bbf09e4ea8c87b10)"
    by (simp add: curve_def GX_def GY_def B_def P_def RADIX_def)
  then have "curve (fv GX) (fv GY) 1 mod p_value = 0" by simp
  ultimately show ?thesis by (simp add: point_ok_def ONE_value)
qed

lemma v_digest: "VSha384_digest m = Sha384_digest m"
  using v_finish_updates [of "[m]"] by (simp add: VSha384_digest_def)

lemma point_checks:
  assumes "residue P qx" "residue P qy" "length r = 6" "length s = 6" "length e = 6" "fe_value r < fe_value N"
  defines "w \<equiv> inv_mod s N"
  defines "point \<equiv> add_point (mul_point (mul_mod (below_order e) w N) \<lparr>pt_x = GX, pt_y = GY, pt_z = ONE\<rparr>)
    (mul_point (mul_mod r w N) \<lparr>pt_x = qx, pt_y = qy, pt_z = ONE\<rparr>)"
  shows "(case affine_x point of None \<Rightarrow> Inl DoesNotVerify | Some x \<Rightarrow> if below_order x = r then Inr () else Inl DoesNotVerify) =
      Inr () \<longleftrightarrow> ecdsa_accepts (fv qx) (fv qy) (fe_value r) (fe_value s) (fe_value e)"
proof -
  have n: "length N = 6" "2 \<le> fe_value N" "0 < fe_value N" by (simp_all add: N_def N_value RADIX_def)
  note iw = inv_mod_value [OF assms(4) n(1,2), folded w_def]
  have lw: "length w = 6" using iw(1) by (simp add: residue_def)
  note be = below_order_value [OF assms(5)]
  note u1 = mul_mod_value [OF be(1) lw n(1,3)] and u2 = mul_mod_value [OF assms(3) lw n(1,3)]
  have v1: "fe_value (mul_mod (below_order e) w N) = fe_value e * (fe_value s ^ (fe_value N - 2) mod fe_value N) mod fe_value N"
    using u1(2) be(2) iw(2) by (simp add: mod_simps)
  have v2: "fe_value (mul_mod r w N) = fe_value r * (fe_value s ^ (fe_value N - 2) mod fe_value N) mod fe_value N"
    using u2(2) iw(2) by simp
  have c: "coords_ok \<lparr>pt_x = GX, pt_y = GY, pt_z = ONE\<rparr>" "coords_ok \<lparr>pt_x = qx, pt_y = qy, pt_z = ONE\<rparr>"
    using assms(1,2) by (simp_all add: coords_ok_def)
  have "length (mul_mod (below_order e) w N) = 6" "length (mul_mod r w N) = 6"
    using u1(1) u2(1) by (simp_all add: residue_def)
  note m1 = mul_point_jac [OF this(1) c(1)] and m2 = mul_point_jac [OF this(2) c(2)]
  obtain X Y Z where J: "jac_of point = (X, Y, Z)" by (metis prod.exhaust)
  have pt: "coords_ok point" "jac_of point = j_add (j_mul (fe_value (mul_mod (below_order e) w N)) (fv GX, fv GY, 1))
      (j_mul (fe_value (mul_mod r w N)) (fv qx, fv qy, 1))"
    using add_point_jac [OF m1(1) m2(1)] m1(2) m2(2) by (simp_all add: point_def jac_of_def ONE_value)
  have acc: "ecdsa_accepts (fv qx) (fv qy) (fe_value r) (fe_value s) (fe_value e) \<longleftrightarrow>
      Z \<noteq> 0 \<and> (X * (Z ^ (fe_value P - 2)) ^ 2 mod p_value) mod fv N = fv r"
    unfolding ecdsa_accepts_def Let_def v1 [symmetric] v2 [symmetric] pt(2) [symmetric] J prod.case ..
  show ?thesis
  proof (cases "affine_x point")
    case None
    then show ?thesis using affine_x_value(1) [OF pt(1) J] acc by simp
  next
    case (Some x)
    note a = affine_x_value(2) [OF pt(1) J Some]
    have bx: "length (below_order x) = 6" "fe_value (below_order x) = fe_value x mod fe_value N"
      using below_order_value [of x] a by (simp_all add: residue_def)
    have "below_order x = r \<longleftrightarrow> fe_value x mod fe_value N = fe_value r"
      using fe_inj [of "below_order x" r] bx assms(3) by simp
    also have "\<dots> \<longleftrightarrow> fv x mod fv N = fv r" by (simp flip: zmod_int)
    finally show ?thesis using affine_x_value(1) [OF pt(1) J] Some acc a by simp
  qed
qed

subsection \<open>Properties\<close>

text \<open>
  C27. The limb arithmetic is exact. Sums, differences, products and powers of six-limb numbers come
  out as the numbers they should be modulo the modulus, and below it: no carry, borrow or shifted
  bit is lost at any limb.
\<close>

theorem limb_arithmetic_exact:
  assumes "residue m a" "residue m b" "length m = 6" "1 < fe_value m" "length e = 6"
  shows "int (fe_value (add_mod a b m)) = (int (fe_value a) + int (fe_value b)) mod int (fe_value m) \<and>
    int (fe_value (sub_mod a b m)) = (int (fe_value a) - int (fe_value b)) mod int (fe_value m) \<and>
    fe_value (mul_mod a b m) = fe_value a * fe_value b mod fe_value m \<and>
    fe_value (pow_mod a e m) = fe_value a ^ fe_value e mod fe_value m \<and>
    (fe_less a b \<longleftrightarrow> fe_value a < fe_value b)"
proof -
  have l: "length a = 6" "length b = 6" using assms(1,2) by (simp_all add: residue_def)
  have "0 < fe_value m" using assms(4) by simp
  from add_mod_value(2) [OF assms(1-3)] sub_mod_value(2) [OF assms(1-3)] mul_mod_value(2) [OF l assms(3) this]
    pow_mod_value(2) [OF l(1) assms(5,3,4)] fe_less_value [OF l]
  show ?thesis by (simp add: zmod_int)
qed

theorem limb_arithmetic_exact_witness:
  "int (fe_value (sub_mod ONE GX P)) = (1 - int (fe_value GX)) mod int (fe_value P) \<and>
   fe_value (pow_mod ONE N P) = 1 ^ fe_value N mod fe_value P"
proof -
  have "length N = 6" by (simp add: N_def)
  from limb_arithmetic_exact [OF residue_constants(2,4) constants_length(1) P_pos(2) this] show ?thesis
    by (simp only: ONE_value) simp
qed

text \<open>
  Curve arithmetic never leaves the curve. Doubling a point of the curve, adding two, and
  multiplying one by any scalar give coordinates below the prime that satisfy the curve's equation
  again, at infinity and at a point and its negative included.
\<close>

theorem points_stay_on_curve:
  assumes "point_ok p" "point_ok q"
  shows "point_ok (double_point p) \<and> point_ok (add_point p q) \<and> point_ok (mul_point k p)"
  using double_point_ok add_point_ok mul_point_ok assms by blast

theorem points_stay_on_curve_witness:
  "let g = \<lparr>pt_x = GX, pt_y = GY, pt_z = ONE\<rparr> in
   point_ok g \<and> point_ok (double_point g) \<and> point_ok (add_point g INFINITY) \<and> point_ok (mul_point N g)"
  unfolding Let_def using points_stay_on_curve [OF generator_ok INFINITY_ok, of N] generator_ok by blast

text \<open>
  C10. The check is ECDSA. A key, a message and a signature are accepted exactly when the key is the
  97-byte encoding of a point of the curve, the signature is two numbers of 48 bytes in the range
  of the group's order, and the integer equation of ECDSA on P-384 holds for them and the SHA-384
  digest of the message. A wrong length, a point off the curve and a zero or oversized component
  are refused whatever the rest says.
\<close>

theorem signature_check_is_ecdsa:
  "p384_verify public_key message signature = Inr () \<longleftrightarrow>
   length public_key = 97 \<and> public_key ! 0 = 4 \<and> length signature = 96 \<and>
   (let x = be_nat (take 48 (drop 1 public_key)); y = be_nat (take 48 (drop 49 public_key));
        r = be_nat (take 48 signature); s = be_nat (drop 48 signature)
    in x < fe_value P \<and> y < fe_value P \<and> curve (int x) (int y) 1 mod int (fe_value P) = 0 \<and>
       0 < r \<and> r < fe_value N \<and> 0 < s \<and> s < fe_value N \<and>
       ecdsa_accepts (int x) (int y) r s (be_nat (as_bytes (Sha384_digest message))))"
proof (cases "length public_key = 97 \<and> public_key ! 0 = 4 \<and> length signature = 96")
  case True
  define qx qy r s where "qx = fe_from_be_bytes (take 48 (drop 1 public_key))"
    and "qy = fe_from_be_bytes (take 48 (drop 49 public_key))"
    and "r = fe_from_be_bytes (take 48 signature)" and "s = fe_from_be_bytes (drop 48 signature)"
  define e where "e = fe_from_be_bytes (as_bytes (Sha384_digest message))"
  have l: "length qx = 6" "length qy = 6" "length r = 6" "length s = 6" "length e = 6"
    and v: "fe_value qx = be_nat (take 48 (drop 1 public_key))" "fe_value qy = be_nat (take 48 (drop 49 public_key))"
      "fe_value r = be_nat (take 48 signature)" "fe_value s = be_nat (drop 48 signature)"
      "fe_value e = be_nat (as_bytes (Sha384_digest message))"
    using True by (simp_all add: qx_def qy_def r_def s_def e_def from_be_bytes_fe)
  have n: "length N = 6" by (simp add: N_def)
  have curve: "on_curve qx qy \<longleftrightarrow> curve (fv qx) (fv qy) 1 mod p_value = 0" if "fe_value qx < fe_value P" "fe_value qy < fe_value P"
    using on_curve_iff [of qx qy] that l by (simp add: residue_def point_ok_def ONE_value) (simp add: residue_def ONE_def P_value)
  have "p384_verify public_key message signature = Inr () \<longleftrightarrow>
      fe_value qx < fe_value P \<and> fe_value qy < fe_value P \<and> curve (fv qx) (fv qy) 1 mod p_value = 0 \<and>
      0 < fe_value r \<and> fe_value r < fe_value N \<and> 0 < fe_value s \<and> fe_value s < fe_value N \<and>
      ecdsa_accepts (fv qx) (fv qy) (fe_value r) (fe_value s) (fe_value e)"
  proof -
    let ?check = "\<lambda>w. case affine_x (add_point (mul_point (mul_mod (below_order e) w N) \<lparr>pt_x = GX, pt_y = GY, pt_z = ONE\<rparr>)
        (mul_point (mul_mod r w N) \<lparr>pt_x = qx, pt_y = qy, pt_z = ONE\<rparr>)) of
      None \<Rightarrow> Inl DoesNotVerify | Some x \<Rightarrow> if below_order x = r then Inr () else Inl DoesNotVerify"
    have u: "p384_verify public_key message signature =
        (if \<not> fe_less qx P \<or> \<not> fe_less qy P \<or> \<not> on_curve qx qy then Inl KeyNotOnCurve
         else if fe_is_zero r \<or> fe_is_zero s \<or> \<not> fe_less r N \<or> \<not> fe_less s N then Inl ComponentOutOfRange
         else ?check (inv_mod s N))"
      using True by (simp only: p384_verify_def PUBLIC_KEY_BYTES_def SIGNATURE_BYTES_def Let_def qx_def qy_def r_def s_def e_def
          v_digest simp_thms if_False)
    have a: "?check (inv_mod s N) = Inr () \<longleftrightarrow> ecdsa_accepts (fv qx) (fv qy) (fe_value r) (fe_value s) (fe_value e)"
      if "fe_value qx < fe_value P" "fe_value qy < fe_value P" "fe_value r < fe_value N"
      by (rule point_checks) (use that l in \<open>simp_all add: residue_def\<close>)
    have c: "(if A then Inl e1 else if B then Inl e2 else c) = Inr () \<longleftrightarrow> \<not> A \<and> \<not> B \<and> c = Inr ()" for A B c and e1 e2 :: SigError
      by simp
    have taut: "(\<not> (\<not> X \<or> \<not> Y \<or> \<not> C) \<and> \<not> (R0 \<or> S0 \<or> \<not> R \<or> \<not> S) \<and> V) \<longleftrightarrow>
        X \<and> Y \<and> D \<and> \<not> R0 \<and> R \<and> \<not> S0 \<and> S \<and> E"
      if "X \<Longrightarrow> Y \<Longrightarrow> C \<longleftrightarrow> D" "X \<Longrightarrow> Y \<Longrightarrow> R \<Longrightarrow> V \<longleftrightarrow> E" for X Y C D R0 S0 R S V E
      using that by blast
    show ?thesis
      unfolding u c fe_less_value [OF l(1) constants_length(1)] fe_less_value [OF l(2) constants_length(1)]
        fe_less_value [OF l(3) n] fe_less_value [OF l(4) n] fe_is_zero_value neq0_conv [symmetric]
      by (rule taut) (erule (1) curve, erule (2) a)
  qed
  with True v show ?thesis by (simp add: Let_def)
qed (auto simp: p384_verify_def PUBLIC_KEY_BYTES_def SIGNATURE_BYTES_def Let_def split: if_splits)

end
