(* ===== verification/Verifier.thy ===== *)
theory Verifier
  imports Chain RecordFields Tsp Curve
begin

text \<open>
  The evidence verifier: \<open>crates/trailryx-verify/src/verify.rs\<close>, the program an auditor runs over a
  pack. A finding is modelled by its level and the name of its check; the prose that goes with it
  is not. The signature check and the token reader are the verifier's own.

  The results: the verdict is exactly the conjunction of the recomputations, over every record,
  segment and shard the pack holds, with nothing left unread; two verified packs with one store
  root hold the same segments and the same records, or the two computations exhibit a collision;
  a pack the store builds from sealed segments verifies; and the verifier keeps quiet about
  independent witnesses only when there is one.
\<close>

subsection \<open>Findings and reports\<close>

datatype Level = Note | Weak | Broken

record Finding =
  fd_level :: Level
  fd_check :: string

record Report =
  findings :: "Finding list"
  records_checked :: u64
  segments_checked :: u64

definition Report_default :: Report where
  "Report_default = \<lparr>findings = [], records_checked = 0, segments_checked = 0\<rparr>"

definition add_finding :: "Level \<Rightarrow> string \<Rightarrow> Report \<Rightarrow> Report" where
  "add_finding level name report = report\<lparr>findings := findings report @ [\<lparr>fd_level = level, fd_check = name\<rparr>]\<rparr>"

definition note_finding :: "string \<Rightarrow> Report \<Rightarrow> Report" where
  "note_finding = add_finding Note"

definition weak :: "string \<Rightarrow> Report \<Rightarrow> Report" where
  "weak = add_finding Weak"

definition broken :: "string \<Rightarrow> Report \<Rightarrow> Report" where
  "broken = add_finding Broken"

definition verified :: "Report \<Rightarrow> bool" where
  "verified report \<longleftrightarrow> \<not> list_ex (\<lambda>f. fd_level f = Broken) (findings report)"

subsection \<open>What is recomputed\<close>

definition CHAIN_DOMAIN :: bytes where
  "CHAIN_DOMAIN = ascii ''trailryx/chain/v1'' @ [0]"

definition v_chain_step :: "hash \<Rightarrow> u64 \<Rightarrow> bytes \<Rightarrow> hash" where
  "v_chain_step prev seq record_bytes =
     (let h = VSha384_new;
          h = VSha384_update h CHAIN_DOMAIN;
          h = VSha384_update h (as_bytes prev);
          h = VSha384_update h (to_be_bytes seq);
          h = VSha384_update h (to_be_bytes (of_nat (length record_bytes) :: u64));
          h = VSha384_update h record_bytes
      in VSha384_finish h)"

definition entry_leaf :: "bytes \<Rightarrow> u64 \<Rightarrow> hash \<Rightarrow> hash" where
  "entry_leaf key seq link =
     (let h = VSha384_new;
          h = VSha384_update h [0x00];
          h = VSha384_update h (to_be_bytes (of_nat (length key) :: u64));
          h = VSha384_update h key;
          h = VSha384_update h (to_be_bytes seq);
          h = VSha384_update h (as_bytes link)
      in VSha384_finish h)"

definition v_hash_index_root :: "VSha384 \<Rightarrow> str \<times> hash \<Rightarrow> VSha384" where
  "v_hash_index_root h nr =
     (let h = VSha384_update h (to_be_bytes (of_nat (length (fst nr)) :: u64));
          h = VSha384_update h (fst nr)
      in VSha384_update h (as_bytes (snd nr)))"

definition v_manifest_root :: "VSegment \<Rightarrow> hash" where
  "v_manifest_root s =
     (let h = VSha384_new;
          h = VSha384_update h (ascii ''trailryx/segment-manifest/v1'' @ [0]);
          h = VSha384_update h (to_be_bytes (vg_format_version s));
          h = VSha384_update h (to_be_bytes (vg_segment s));
          h = VSha384_update h (to_be_bytes (vg_shard s));
          h = VSha384_update h (to_be_bytes (vg_records s));
          h = VSha384_update h (as_bytes (vg_history_root s));
          h = VSha384_update h (as_bytes (vg_chain_before s));
          h = VSha384_update h (as_bytes (vg_chain_after s));
          h = VSha384_update h (to_be_bytes (of_nat (length (vg_index_roots s)) :: u64));
          h = foldl v_hash_index_root h (vg_index_roots s);
          h = VSha384_update h (to_be_bytes (vg_first_recorded_at s));
          h = VSha384_update h (to_be_bytes (vg_last_recorded_at s));
          h = VSha384_update h (vg_algorithms s)
      in VSha384_finish h)"

definition v_shard_leaf :: "u16 \<Rightarrow> u64 \<Rightarrow> hash \<Rightarrow> hash" where
  "v_shard_leaf shard segments rt =
     (let h = VSha384_new;
          h = VSha384_update h (ascii ''trailryx/store-leaf/v1'' @ [0]);
          h = VSha384_update h (to_be_bytes shard);
          h = VSha384_update h (to_be_bytes segments);
          h = VSha384_update h (as_bytes rt)
      in v_leaf_hash (as_bytes (VSha384_finish h)))"

subsection \<open>One segment\<close>

text \<open>The index of one dimension, rebuilt: \<open>None\<close> when a key cannot be derived.\<close>

fun index_entries :: "str \<Rightarrow> Fields list \<Rightarrow> hash list \<Rightarrow> (bytes \<times> u64 \<times> hash) list option" where
  "index_entries dim (f # fs) (l # ls) =
     (case key_for dim f of
        None \<Rightarrow> None
      | Some key \<Rightarrow> map_option (\<lambda>es. (key, f_seq f, l) # es) (index_entries dim fs ls))"
| "index_entries dim _ _ = Some []"

fun strictly_sorted :: "(bytes \<times> u64 \<times> hash) list \<Rightarrow> bool" where
  "strictly_sorted (a # b # es) \<longleftrightarrow> \<not> (fst b, fst (snd b)) \<le> (fst a, fst (snd a)) \<and> strictly_sorted (b # es)"
| "strictly_sorted _ \<longleftrightarrow> True"

definition check_index :: "str \<Rightarrow> hash \<Rightarrow> Fields list \<Rightarrow> hash list \<Rightarrow> Report \<Rightarrow> Report" where
  "check_index dim declared parsed links report =
     (case index_entries dim parsed links of
        None \<Rightarrow> weak ''index-dimension'' report
      | Some entries \<Rightarrow>
          let entries = sort_key (\<lambda>e. (fst e, fst (snd e))) entries in
          if \<not> strictly_sorted entries then broken ''index-strictly-sorted'' report
          else if root_of (map (\<lambda>(key, seq, link). entry_leaf key seq link) entries) \<noteq> declared
          then broken ''index-root'' report
          else report)"

fun read_fields :: "bytes list \<Rightarrow> PackError + Fields list" where
  "read_fields [] = Inr []"
| "read_fields (b # bs) = bind_res (RecordFields.fields b) (\<lambda>f. bind_res (read_fields bs) (\<lambda>fs. Inr (f # fs)))"

text \<open>The chain from \<open>link\<close> through the records from position \<open>i\<close>, with the number each must carry.\<close>

fun follow_chain :: "nat \<Rightarrow> hash \<Rightarrow> (Fields \<times> bytes) list \<Rightarrow> Report \<Rightarrow> hash list \<times> hash \<times> Report" where
  "follow_chain i link [] report = ([], link, report)"
| "follow_chain i link ((f, bytes) # rest) report =
     (let link = v_chain_step link (f_seq f) bytes;
          report = (if f_seq f \<noteq> of_nat i + 1 then broken ''sequence-contiguous'' report else report);
          (links, head, report) = follow_chain (i + 1) link rest report
      in (link # links, head, report))"

definition check_segment :: "Pack \<Rightarrow> VSegment \<Rightarrow> Report \<Rightarrow> Report" where
  "check_segment pack segment report =
     (case records_for pack (vg_shard segment) (vg_segment segment) of
        None \<Rightarrow> broken ''records-present'' report
      | Some recs \<Rightarrow>
          let report = (if of_nat (length (rs_records recs)) \<noteq> vg_records segment
                        then broken ''record-count'' report else report)
          in case read_fields (rs_records recs) of
               Inl e \<Rightarrow> broken ''record-decodes'' report
             | Inr parsed \<Rightarrow>
                 let (links, link, report) =
                       follow_chain 0 (vg_chain_before segment) (zip parsed (rs_records recs)) report;
                     report = report\<lparr>records_checked := records_checked report + of_nat (length parsed)\<rparr>;
                     report = (if link \<noteq> vg_chain_after segment
                               then broken ''chain-within-segment'' report else report);
                     history = root_of (map (\<lambda>l. v_leaf_hash (as_bytes l)) links);
                     report = (if history \<noteq> vg_history_root segment
                               then broken ''history-root'' report else report);
                     first = min_or 0 (map f_recorded_at parsed);
                     lst = max_or 0 (map f_recorded_at parsed);
                     report = (if first \<noteq> vg_first_recorded_at segment \<or> lst \<noteq> vg_last_recorded_at segment
                               then broken ''time-span'' report else report)
                 in foldl (\<lambda>report (dim, declared). check_index dim declared parsed links report)
                      report (vg_index_roots segment))"

subsection \<open>Algorithms, signature, witnesses and anchors\<close>

definition check_algorithms :: "Pack \<Rightarrow> Report \<Rightarrow> Report" where
  "check_algorithms pack report =
     (let algorithms = vh_algorithms (pk_header pack);
          report = (if algorithms ! 0 = 1 then report else weak ''hash-algorithm'' report);
          report = (if algorithms ! 1 = 3 then note_finding ''signature-algorithm'' report else report);
          report = (if algorithms ! 2 \<noteq> 1 then weak ''kem-algorithm'' report else report)
      in foldl (\<lambda>report segment.
           if vg_algorithms segment \<noteq> algorithms then note_finding ''mixed-algorithms'' report else report)
           report (pk_segments pack))"

datatype Checked = Good | Bad SigError | UnknownAlgorithm

definition check_one :: "str \<Rightarrow> bytes \<Rightarrow> bytes \<Rightarrow> bytes \<Rightarrow> Checked" where
  "check_one algorithm public_key statement signature =
     (if algorithm = ascii ''es384'' then
        (case p384_verify public_key statement signature of Inr _ \<Rightarrow> Good | Inl e \<Rightarrow> Bad e)
      else UnknownAlgorithm)"

definition v_key_id :: "bytes \<Rightarrow> hash" where
  "v_key_id public_key =
     (let h = VSha384_new;
          h = VSha384_update h (ascii ''trailryx/key-id/v1'' @ [0]);
          h = VSha384_update h public_key
      in VSha384_finish h)"

definition v_field :: "bytes \<Rightarrow> bytes" where
  "v_field bytes = to_be_bytes (of_nat (length bytes) :: u64) @ bytes"

definition v_root_statement :: "str \<Rightarrow> hash \<Rightarrow> u32 \<Rightarrow> u64 \<Rightarrow> str \<Rightarrow> bytes \<Rightarrow> bytes" where
  "v_root_statement tn rt shards generated_at algorithm public_key =
     ascii ''trailryx/signed-root/v1'' @ [0] @ v_field tn @ v_field (as_bytes rt) @
     to_be_bytes shards @ to_be_bytes generated_at @ v_field algorithm @ v_field public_key"

definition v_witness_statement :: "str \<Rightarrow> hash \<Rightarrow> u64 \<Rightarrow> str \<Rightarrow> bytes \<Rightarrow> bytes" where
  "v_witness_statement witness rt seen_at algorithm public_key =
     ascii ''trailryx/witness/v1'' @ [0] @ v_field witness @ v_field (as_bytes rt) @
     to_be_bytes seen_at @ v_field algorithm @ v_field public_key"

text \<open>One anchor: whether it is bound to the root, and the report.\<close>

definition check_anchor :: "Pack \<Rightarrow> VAnchor \<Rightarrow> Report \<Rightarrow> bool \<times> Report" where
  "check_anchor pack anchor report =
     (if va_root anchor \<noteq> vh_store_root (pk_header pack) then (False, broken ''anchor'' report)
      else if va_kind anchor \<noteq> Tsp then (False, weak ''anchor'' report)
      else case tsp_read (va_evidence anchor) of
        Inl why \<Rightarrow> (False, broken ''anchor'' report)
      | Inr stamped \<Rightarrow>
          if \<not> covers stamped (va_root anchor) then (False, broken ''anchor'' report)
          else if (case (va_nonce anchor, stamped_nonce stamped) of
                     (Some sent, Some echoed) \<Rightarrow> sent \<noteq> echoed | _ \<Rightarrow> False)
          then (False, broken ''anchor'' report)
          else
            let report = (if va_nonce anchor = None \<or> stamped_nonce stamped = None
                          then weak ''anchor-freshness'' report else report);
                report = note_finding ''anchor'' report;
                report = weak ''anchor-signature'' report;
                generated_at_seconds = int (unat (vh_generated_at (pk_header pack) div 1000000000));
                report = (if stamped_at stamped < generated_at_seconds then weak ''anchor-clock'' report else report)
            in (True, report))"

definition check_anchors :: "Pack \<Rightarrow> Report \<Rightarrow> nat \<times> Report" where
  "check_anchors pack report =
     foldl (\<lambda>(bound, report) anchor.
        let (b, report) = check_anchor pack anchor report in (if b then bound + 1 else bound, report))
       (0, report) (pk_anchors pack)"

text \<open>One witness: the count of independent ones, the keys seen and the report.\<close>

definition check_witness ::
  "Pack \<Rightarrow> hash option \<Rightarrow> nat \<times> hash list \<times> Report \<Rightarrow> VWitness \<Rightarrow> nat \<times> hash list \<times> Report" where
  "check_witness pack publisher st witness =
     (let (independent, seen_keys, report) = st;
          ident = v_key_id (vw_public_key witness);
          statement = v_witness_statement (vw_witness witness) (vh_store_root (pk_header pack)) (vw_seen_at witness)
                        (vw_algorithm witness) (vw_public_key witness);
          checked = check_one (vw_algorithm witness) (vw_public_key witness) statement (vw_signature witness);
          independent = (if checked = Good \<and> publisher \<noteq> Some ident \<and> ident \<notin> set seen_keys
                         then independent + 1 else independent);
          report = (case checked of
                      Good \<Rightarrow> note_finding ''witness'' report
                    | Bad why \<Rightarrow> broken ''witness'' report
                    | UnknownAlgorithm \<Rightarrow> weak ''witness'' report);
          report = (if publisher = Some ident then weak ''witness-independence'' report else report);
          report = (if vw_seen_at witness < vh_generated_at (pk_header pack) then weak ''witness-clock'' report else report);
          report = (if ident \<in> set seen_keys then weak ''witness-independence'' report else report)
      in (independent, seen_keys @ [ident], report))"

definition check_witnesses :: "Pack \<Rightarrow> hash option \<Rightarrow> Report \<Rightarrow> Report" where
  "check_witnesses pack publisher report =
     (let (bound, report) = check_anchors pack report;
          (independent, seen_keys, report) = foldl (check_witness pack publisher) (0, [], report) (pk_witnesses pack)
      in if independent = 0 \<and> bound = 0 then weak ''witnesses'' report else report)"

definition check_signature :: "Pack \<Rightarrow> Report \<Rightarrow> Report" where
  "check_signature pack report =
     (case pk_signature pack of
        None \<Rightarrow> check_witnesses pack None (weak ''root-signature'' report)
      | Some signature \<Rightarrow>
          let header = pk_header pack;
              statement = v_root_statement (vh_tenant header) (vh_store_root header) (vh_shard_count header)
                            (vh_generated_at header) (vs_algorithm signature) (vs_public_key signature);
              report = (case check_one (vs_algorithm signature) (vs_public_key signature) statement (vs_signature signature) of
                          Good \<Rightarrow> note_finding ''root-signature'' report
                        | Bad why \<Rightarrow> broken ''root-signature'' report
                        | UnknownAlgorithm \<Rightarrow> weak ''root-signature'' report)
          in check_witnesses pack (Some (v_key_id (vs_public_key signature))) report)"

subsection \<open>The whole pack\<close>

fun check_numbering :: "nat \<Rightarrow> VSegment list \<Rightarrow> Report \<Rightarrow> Report" where
  "check_numbering at [] report = report"
| "check_numbering at (segment # rest) report =
     (if vg_segment segment \<noteq> of_nat at + 1 then broken ''segment-numbering'' report
      else check_numbering (at + 1) rest report)"

definition check_start :: "VSegment list \<Rightarrow> Report \<Rightarrow> Report" where
  "check_start segments report =
     (case segments of
        [] \<Rightarrow> report
      | first # _ \<Rightarrow>
          if vg_chain_before first = Hash_ZERO then broken ''first-segment-start'' report
          else note_finding ''first-segment-start'' report)"

fun walk_segments ::
  "Pack \<Rightarrow> hash option \<Rightarrow> VSegment list \<Rightarrow> Report \<times> (u16 \<times> u64) list \<Rightarrow> Report \<times> (u16 \<times> u64) list" where
  "walk_segments pack previous [] rv = rv"
| "walk_segments pack previous (segment # rest) (report, visited) =
     (let report = check_segment pack segment report;
          report = report\<lparr>segments_checked := segments_checked report + 1\<rparr>;
          visited = visited @ [(vg_shard segment, vg_segment segment)];
          report = (if previous \<noteq> None \<and> previous \<noteq> Some (vg_chain_before segment)
                    then broken ''chain-across-segments'' report else report)
      in walk_segments pack (Some (vg_chain_after segment)) rest (report, visited))"

definition shard_segments :: "Pack \<Rightarrow> VShard \<Rightarrow> VSegment list" where
  "shard_segments pack shard = sort_key vg_segment (filter (\<lambda>s. vg_shard s = vd_shard shard) (pk_segments pack))"

definition check_shard :: "Pack \<Rightarrow> Report \<times> (u16 \<times> u64) list \<Rightarrow> VShard \<Rightarrow> Report \<times> (u16 \<times> u64) list" where
  "check_shard pack rv shard =
     (let (report, visited) = rv;
          segments = shard_segments pack shard;
          report = (if length segments \<noteq> unat (vd_segment_count shard) then broken ''segment-count'' report else report);
          report = check_numbering 0 segments report;
          report = check_start segments report;
          (report, visited) = walk_segments pack None segments (report, visited);
          derived = root_of (map (\<lambda>s. v_leaf_hash (as_bytes (v_manifest_root s))) segments);
          report = (if derived \<noteq> vd_root shard then broken ''shard-root'' report else report)
      in (report, visited))"

definition verify_pack :: "Pack \<Rightarrow> Report" where
  "verify_pack pack =
     (let report = check_algorithms pack Report_default;
          report = check_signature pack report;
          report = (if length (pk_shards pack) \<noteq> unat (vh_shard_count (pk_header pack))
                    then broken ''shard-count'' report else report);
          (report, visited) = foldl (check_shard pack) (report, []) (pk_shards pack);
          derived_store = root_of (map (\<lambda>s. v_shard_leaf (vd_shard s) (ucast (vd_segment_count s)) (vd_root s)) (pk_shards pack));
          report = (if derived_store \<noteq> vh_store_root (pk_header pack) then broken ''store-root'' report else report);
          report = foldl (\<lambda>report segment.
                     if \<not> (\<exists>sh \<in> set (pk_shards pack). vd_shard sh = vg_shard segment)
                     then broken ''orphan-segment'' report else report) report (pk_segments pack)
      in foldl (\<lambda>report recs.
           if (rs_shard recs, rs_segment recs) \<notin> set visited then broken ''orphan-records'' report else report)
           report (pk_record_sets pack))"

definition verify :: "bytes \<Rightarrow> PackError + Report" where
  "verify bytes = bind_res (Pack_parse bytes) (\<lambda>pack. Inr (verify_pack pack))"


subsection \<open>The same arithmetic as the store's\<close>

lemma v_chain [simp]: "v_chain_step prev n b = chain_step prev n b"
  using v_finish_updates [of "[CHAIN_DOMAIN, as_bytes prev, to_be_bytes n, to_be_bytes (of_nat (length b) :: u64), b]"]
  by (simp add: v_chain_step_def chain_step_digest chain_msg_def DOMAIN_def CHAIN_DOMAIN_def Let_def)

lemma v_entry [simp]: "entry_leaf key n link = Entry_leaf_hash \<lparr>en_key = key, en_seq = n, record_link = link\<rparr>"
  using v_finish_updates [of "[[0x00], to_be_bytes (of_nat (length key) :: u64), key, to_be_bytes n, as_bytes link]"]
    streaming_digest [of "[[0x00], to_be_bytes (of_nat (length key) :: u64), key, to_be_bytes n, as_bytes link]"]
  by (simp add: entry_leaf_def Entry_leaf_hash_def Let_def)

lemma v_shard [simp]: "v_shard_leaf sh n rt = digest_leaf (store_leaf_msg sh n rt)"
  using v_finish_updates [of "[ascii ''trailryx/store-leaf/v1'' @ [0], to_be_bytes sh, to_be_bytes n, as_bytes rt]"]
  by (simp add: v_shard_leaf_def digest_leaf_def store_leaf_msg_def Let_def)

definition v_root_msg :: "str \<times> hash \<Rightarrow> bytes" where
  "v_root_msg nr = to_be_bytes (of_nat (length (fst nr)) :: u64) @ fst nr @ as_bytes (snd nr)"

definition v_manifest_msg :: "VSegment \<Rightarrow> bytes" where
  "v_manifest_msg s =
     (ascii ''trailryx/segment-manifest/v1'' @ [0]) @ to_be_bytes (vg_format_version s) @ to_be_bytes (vg_segment s) @
     to_be_bytes (vg_shard s) @ to_be_bytes (vg_records s) @ as_bytes (vg_history_root s) @ as_bytes (vg_chain_before s) @
     as_bytes (vg_chain_after s) @ to_be_bytes (of_nat (length (vg_index_roots s)) :: u64) @
     concat (map v_root_msg (vg_index_roots s)) @
     to_be_bytes (vg_first_recorded_at s) @ to_be_bytes (vg_last_recorded_at s) @ vg_algorithms s"

lemma v_manifest_digest [simp]: "v_manifest_root s = Sha384_digest (v_manifest_msg s)"
proof -
  let ?pieces = "\<lambda>nr. [to_be_bytes (of_nat (length (fst nr)) :: u64), fst nr, as_bytes (snd nr)]"
  have f: "foldl v_hash_index_root h rs = foldl VSha384_update h (concat (map ?pieces rs))" for h rs
    by (induction rs arbitrary: h) (simp_all add: v_hash_index_root_def Let_def)
  have c: "concat (concat (map ?pieces rs)) = concat (map v_root_msg rs)" for rs
    by (induction rs) (simp_all add: v_root_msg_def)
  let ?before = "[ascii ''trailryx/segment-manifest/v1'' @ [0], to_be_bytes (vg_format_version s), to_be_bytes (vg_segment s),
     to_be_bytes (vg_shard s), to_be_bytes (vg_records s), as_bytes (vg_history_root s), as_bytes (vg_chain_before s),
     as_bytes (vg_chain_after s), to_be_bytes (of_nat (length (vg_index_roots s)) :: u64)]"
  let ?after = "[to_be_bytes (vg_first_recorded_at s), to_be_bytes (vg_last_recorded_at s), vg_algorithms s]"
  have "v_manifest_root s = VSha384_finish (foldl VSha384_update VSha384_new (?before @ concat (map ?pieces (vg_index_roots s)) @ ?after))"
    by (simp add: v_manifest_root_def Let_def f)
  also have "\<dots> = Sha384_digest (v_manifest_msg s)"
    by (subst v_finish_updates) (simp add: v_manifest_msg_def c)
  finally show ?thesis .
qed

lemma v_statements:
  "v_root_statement tn rt n g (SigAlg_as_str a) k = root_statement tn rt n g a k"
  "v_witness_statement w rt g (SigAlg_as_str a) k = witness_statement w rt g a k"
  "v_key_id k = sign_key_id k"
  using v_finish_updates [of "[ascii ''trailryx/key-id/v1'' @ [0], k]"]
  by (simp_all add: v_root_statement_def root_statement_def v_witness_statement_def witness_statement_def v_field_def
      sign_field_def v_key_id_def sign_key_id_def Let_def)

subsection \<open>The verdict\<close>

lemma verified_add [simp]:
  "verified (note_finding c r) = verified r" "verified (weak c r) = verified r" "\<not> verified (broken c r)"
  "verified (r\<lparr>records_checked := n\<rparr>) = verified r" "verified (r\<lparr>segments_checked := n\<rparr>) = verified r"
  "verified Report_default"
  by (simp_all add: verified_def note_finding_def weak_def broken_def add_finding_def Report_default_def)

lemma verified_unless [simp]: "verified (if c then broken n r else r) \<longleftrightarrow> verified r \<and> \<not> c"
  by simp

lemma verified_quiet [simp]:
  "verified (if c then weak n r else r) = verified r" "verified (if c then note_finding n r else r) = verified r"
  by simp_all

lemma verified_foldl:
  assumes "\<And>r x. verified (f r x) \<longleftrightarrow> verified r \<and> ok x"
  shows "verified (foldl f r xs) \<longleftrightarrow> verified r \<and> (\<forall>x \<in> set xs. ok x)"
  using assms by (induction xs arbitrary: r) auto

text \<open>What each check demands.\<close>

definition index_holds :: "str \<Rightarrow> hash \<Rightarrow> Fields list \<Rightarrow> hash list \<Rightarrow> bool" where
  "index_holds dim declared fs links \<longleftrightarrow>
     (\<forall>es. index_entries dim fs links = Some es \<longrightarrow>
        (let es = sort_key (\<lambda>e. (fst e, fst (snd e))) es
         in strictly_sorted es \<and>
            mth (map (\<lambda>(key, n, link). Entry_leaf_hash \<lparr>en_key = key, en_seq = n, record_link = link\<rparr>) es) = declared))"

definition numbered :: "u64 list \<Rightarrow> bool" where
  "numbered ns \<longleftrightarrow> ns = map (\<lambda>i. of_nat i + 1) [0..<length ns]"

definition segment_holds :: "Pack \<Rightarrow> VSegment \<Rightarrow> bool" where
  "segment_holds pack s \<longleftrightarrow>
     (\<exists>recs fs. records_for pack (vg_shard s) (vg_segment s) = Some recs \<and>
        of_nat (length (rs_records recs)) = vg_records s \<and> read_fields (rs_records recs) = Inr fs \<and>
        (let items = zip (map f_seq fs) (rs_records recs); links = links_of (vg_chain_before s) items
         in numbered (map f_seq fs) \<and> items_head (vg_chain_before s) items = vg_chain_after s \<and>
            mth (map (\<lambda>l. leaf_hash (as_bytes l)) links) = vg_history_root s \<and>
            min_or 0 (map f_recorded_at fs) = vg_first_recorded_at s \<and>
            max_or 0 (map f_recorded_at fs) = vg_last_recorded_at s \<and>
            (\<forall>(dim, declared) \<in> set (vg_index_roots s). index_holds dim declared fs links)))"

lemma check_index_holds: "verified (check_index dim declared fs links r) \<longleftrightarrow> verified r \<and> index_holds dim declared fs links"
proof -
  have e: "entry_leaf = (\<lambda>key n link. Entry_leaf_hash \<lparr>en_key = key, en_seq = n, record_link = link\<rparr>)" by (intro ext) simp
  show ?thesis by (cases "index_entries dim fs links") (simp_all add: check_index_def index_holds_def Let_def e)
qed

lemma read_fields_length: "read_fields bs = Inr fs \<Longrightarrow> length fs = length bs"
  by (induction bs arbitrary: fs) (auto simp: bind_res_Inr_iff)

fun numbered_from :: "nat \<Rightarrow> u64 list \<Rightarrow> bool" where
  "numbered_from i [] \<longleftrightarrow> True"
| "numbered_from i (n # ns) \<longleftrightarrow> n = of_nat i + 1 \<and> numbered_from (i + 1) ns"

lemma follow_chain_holds:
  "length fs = length bs \<Longrightarrow> follow_chain i link (zip fs bs) r = (links, head, r') \<Longrightarrow>
   links = links_of link (zip (map f_seq fs) bs) \<and> head = items_head link (zip (map f_seq fs) bs) \<and>
   (verified r' \<longleftrightarrow> verified r \<and> numbered_from i (map f_seq fs))"
proof (induction fs bs arbitrary: i link r links rule: list_induct2)
  case (Cons f fs b bs)
  let ?l = "chain_step link (f_seq f) b"
  let ?r = "if f_seq f \<noteq> of_nat i + 1 then broken ''sequence-contiguous'' r else r"
  obtain ls where ls: "follow_chain (i + 1) ?l (zip fs bs) ?r = (ls, head, r')" "links = ?l # ls"
    using Cons.prems by (auto simp: Let_def split: prod.splits)
  note ih = Cons.IH [OF ls(1)]
  have "verified ?r \<longleftrightarrow> verified r \<and> f_seq f = of_nat i + 1" by (simp only: verified_unless not_not)
  with ih have "verified r' \<longleftrightarrow> verified r \<and> numbered_from i (map f_seq (f # fs))"
    by (simp only: list.map numbered_from.simps conj_assoc)
  moreover have "links = links_of link (zip (map f_seq (f # fs)) (b # bs))" "head = items_head link (zip (map f_seq (f # fs)) (b # bs))"
    using ih ls(2) by (simp_all only: list.map zip_Cons_Cons links_of.simps items_head_simps)
  ultimately show ?case by blast
qed simp

lemma numbered_from_upt: "numbered_from i ns \<longleftrightarrow> ns = map (\<lambda>k. of_nat k + 1) [i..<i + length ns]"
proof (induction ns arbitrary: i)
  case (Cons n ns)
  have "[i..<i + length (n # ns)] = i # [i + 1..<i + 1 + length ns]" by (simp add: upt_conv_Cons del: upt_Suc)
  then show ?case by (simp only: numbered_from.simps Cons list.map list.inject)
qed simp

lemma numbered_0: "numbered_from 0 ns \<longleftrightarrow> numbered ns"
  by (simp only: numbered_def numbered_from_upt add_0)

lemma numbered_iff: "numbered ns \<longleftrightarrow> (\<forall>k < length ns. ns ! k = of_nat k + 1)"
  by (simp only: numbered_def list_eq_iff_nth_eq length_map length_upt) simp

lemma check_segment_holds: "verified (check_segment pack s r) \<longleftrightarrow> verified r \<and> segment_holds pack s"
proof (cases "records_for pack (vg_shard s) (vg_segment s)")
  case None
  then show ?thesis by (simp add: check_segment_def segment_holds_def)
next
  case (Some recs)
  show ?thesis
  proof (cases "read_fields (rs_records recs)")
    case (Inl e)
    then show ?thesis using Some by (simp add: check_segment_def segment_holds_def Let_def)
  next
    case (Inr fs)
    let ?r = "if of_nat (length (rs_records recs)) \<noteq> vg_records s then broken ''record-count'' r else r"
    obtain links head r' where f: "follow_chain 0 (vg_chain_before s) (zip fs (rs_records recs)) ?r = (links, head, r')"
      by (metis prod.exhaust)
    note h = follow_chain_holds [OF read_fields_length [OF Inr] f]
    have i: "verified (foldl (\<lambda>report (dim, declared). check_index dim declared fs ls report) q rs) \<longleftrightarrow>
        verified q \<and> (\<forall>(dim, declared) \<in> set rs. index_holds dim declared fs ls)" for q rs ls
      by (induction rs arbitrary: q) (auto simp: check_index_holds)
    show ?thesis
      using h Some Inr f
      by (simp add: check_segment_def segment_holds_def Let_def i numbered_0)
  qed
qed


definition anchor_holds :: "Pack \<Rightarrow> VAnchor \<Rightarrow> bool" where
  "anchor_holds pack a \<longleftrightarrow>
     va_root a = vh_store_root (pk_header pack) \<and>
     (va_kind a = Tsp \<longrightarrow>
        (\<exists>st. tsp_read (va_evidence a) = Inr st \<and> imprint st = Sha384_digest (as_bytes (va_root a)) \<and>
           \<not> (\<exists>sent echoed. va_nonce a = Some sent \<and> stamped_nonce st = Some echoed \<and> sent \<noteq> echoed)))"

definition witness_holds :: "Pack \<Rightarrow> VWitness \<Rightarrow> bool" where
  "witness_holds pack w \<longleftrightarrow>
     (vw_algorithm w = ascii ''es384'' \<longrightarrow>
        p384_verify (vw_public_key w) (witness_statement (vw_witness w) (vh_store_root (pk_header pack)) (vw_seen_at w)
          Es384 (vw_public_key w)) (vw_signature w) = Inr ())"

definition signature_holds :: "Pack \<Rightarrow> VSignature \<Rightarrow> bool" where
  "signature_holds pack sg \<longleftrightarrow>
     (vs_algorithm sg = ascii ''es384'' \<longrightarrow>
        (let h = pk_header pack
         in p384_verify (vs_public_key sg) (root_statement (vh_tenant h) (vh_store_root h) (vh_shard_count h)
              (vh_generated_at h) Es384 (vs_public_key sg)) (vs_signature sg) = Inr ()))"

definition shard_holds :: "Pack \<Rightarrow> VShard \<Rightarrow> bool" where
  "shard_holds pack sh \<longleftrightarrow>
     (let segs = shard_segments pack sh
      in length segs = unat (vd_segment_count sh) \<and> numbered (map vg_segment segs) \<and>
         (segs \<noteq> [] \<longrightarrow> vg_chain_before (segs ! 0) \<noteq> Hash_ZERO) \<and>
         (\<forall>s \<in> set segs. segment_holds pack s) \<and>
         successively (\<lambda>s t. vg_chain_after s = vg_chain_before t) segs \<and>
         mth (map (digest_leaf \<circ> v_manifest_msg) segs) = vd_root sh)"

definition pack_holds :: "Pack \<Rightarrow> bool" where
  "pack_holds pack \<longleftrightarrow>
     (\<forall>sg. pk_signature pack = Some sg \<longrightarrow> signature_holds pack sg) \<and>
     (\<forall>w \<in> set (pk_witnesses pack). witness_holds pack w) \<and>
     (\<forall>a \<in> set (pk_anchors pack). anchor_holds pack a) \<and>
     length (pk_shards pack) = unat (vh_shard_count (pk_header pack)) \<and>
     (\<forall>sh \<in> set (pk_shards pack). shard_holds pack sh) \<and>
     mth (map (\<lambda>s. digest_leaf (store_leaf_msg (vd_shard s) (ucast (vd_segment_count s)) (vd_root s))) (pk_shards pack)) =
       vh_store_root (pk_header pack) \<and>
     (\<forall>s \<in> set (pk_segments pack). vg_shard s \<in> vd_shard ` set (pk_shards pack)) \<and>
     (\<forall>rs \<in> set (pk_record_sets pack). \<exists>s \<in> set (pk_segments pack).
        (vg_shard s, vg_segment s) = (rs_shard rs, rs_segment rs))"

lemma check_anchor_holds: "verified (snd (check_anchor pack a r)) \<longleftrightarrow> verified r \<and> anchor_holds pack a"
  by (auto simp: check_anchor_def anchor_holds_def covers_def v_digest Let_def split: sum.splits option.splits)

lemma check_anchors_holds:
  "verified (snd (check_anchors pack r)) \<longleftrightarrow> verified r \<and> (\<forall>a \<in> set (pk_anchors pack). anchor_holds pack a)"
proof -
  have "verified (snd (foldl (\<lambda>(bound, report) anchor.
        let (b, report) = check_anchor pack anchor report in (if b then bound + 1 else bound, report)) (n, r) as)) \<longleftrightarrow>
      verified r \<and> (\<forall>a \<in> set as. anchor_holds pack a)" for as and n :: nat
  proof (induction as arbitrary: n r)
    case (Cons a as)
    obtain b r' where c: "check_anchor pack a r = (b, r')" by fastforce
    then show ?case using Cons check_anchor_holds [of pack a r] by simp
  qed simp
  then show ?thesis by (simp add: check_anchors_def)
qed

lemma es384_statements:
  "v_root_statement tn rt n g (ascii ''es384'') k = root_statement tn rt n g Es384 k"
  "v_witness_statement w rt g (ascii ''es384'') k = witness_statement w rt g Es384 k"
  using v_statements(1) [where a = Es384] v_statements(2) [where a = Es384] by simp_all

lemma check_one_bad:
  "(\<exists>why. check_one alg k st sg = Bad why) \<longleftrightarrow> alg = ascii ''es384'' \<and> p384_verify k st sg \<noteq> Inr ()"
  by (auto simp: check_one_def split: sum.splits)

lemma verified_checked:
  "verified (case c of Good \<Rightarrow> note_finding n r | Bad why \<Rightarrow> broken n r | UnknownAlgorithm \<Rightarrow> weak n r) \<longleftrightarrow>
   verified r \<and> \<not> (\<exists>why. c = Bad why)"
  by (cases c) simp_all

lemma check_witness_holds:
  "verified (snd (snd (check_witness pack pub (n, ks, r) w))) \<longleftrightarrow> verified r \<and> witness_holds pack w"
  by (auto simp: check_witness_def Let_def verified_checked check_one_bad witness_holds_def es384_statements split del: if_split)

lemma check_witnesses_holds:
  "verified (check_witnesses pack pub r) \<longleftrightarrow> verified r \<and>
     (\<forall>w \<in> set (pk_witnesses pack). witness_holds pack w) \<and> (\<forall>a \<in> set (pk_anchors pack). anchor_holds pack a)"
proof -
  have f: "verified (snd (snd (foldl (check_witness pack pub) st ws))) \<longleftrightarrow>
      verified (snd (snd st)) \<and> (\<forall>w \<in> set ws. witness_holds pack w)" for st ws
    by (induction ws arbitrary: st) (auto simp: check_witness_holds)
  obtain b r' where a: "check_anchors pack r = (b, r')" by fastforce
  obtain n ks r'' where w: "foldl (check_witness pack pub) (0, [], r') (pk_witnesses pack) = (n, ks, r'')" by (metis prod.exhaust)
  have "verified r' \<longleftrightarrow> verified r \<and> (\<forall>a \<in> set (pk_anchors pack). anchor_holds pack a)"
    using check_anchors_holds [of pack r] a by simp
  moreover have "verified r'' \<longleftrightarrow> verified r' \<and> (\<forall>w \<in> set (pk_witnesses pack). witness_holds pack w)"
    using f [of "(0, [], r')" "pk_witnesses pack"] w by simp
  ultimately show ?thesis by (simp add: check_witnesses_def a w) blast
qed

lemma check_signature_holds:
  "verified (check_signature pack r) \<longleftrightarrow> verified r \<and>
     (\<forall>sg. pk_signature pack = Some sg \<longrightarrow> signature_holds pack sg) \<and>
     (\<forall>w \<in> set (pk_witnesses pack). witness_holds pack w) \<and> (\<forall>a \<in> set (pk_anchors pack). anchor_holds pack a)"
  by (cases "pk_signature pack")
     (auto simp: check_signature_def Let_def check_witnesses_holds verified_checked check_one_bad signature_holds_def
      es384_statements)

lemma check_algorithms_holds [simp]: "verified (check_algorithms pack r) = verified r"
proof -
  have "verified (foldl (\<lambda>report segment. if vg_algorithms segment \<noteq> algs then note_finding n report else report) q xs) =
      verified q" for algs n q and xs :: "VSegment list"
    by (induction xs arbitrary: q) simp_all
  then show ?thesis by (simp add: check_algorithms_def Let_def)
qed

lemma check_numbering_holds: "verified (check_numbering at segs r) \<longleftrightarrow> verified r \<and> numbered_from at (map vg_segment segs)"
  by (induction at segs r rule: check_numbering.induct) auto

lemma check_start_holds:
  "verified (check_start segs r) \<longleftrightarrow> verified r \<and> (segs \<noteq> [] \<longrightarrow> vg_chain_before (segs ! 0) \<noteq> Hash_ZERO)"
  by (cases segs) (auto simp: check_start_def)

lemma walk_segments_holds:
  "walk_segments pack prev segs (r, vis) = (r', vis') \<Longrightarrow>
   vis' = vis @ map (\<lambda>s. (vg_shard s, vg_segment s)) segs \<and>
   (verified r' \<longleftrightarrow> verified r \<and> (\<forall>s \<in> set segs. segment_holds pack s) \<and>
      successively (\<lambda>s t. vg_chain_after s = vg_chain_before t) segs \<and>
      (\<forall>p. prev = Some p \<longrightarrow> segs \<noteq> [] \<longrightarrow> p = vg_chain_before (segs ! 0)))"
proof (induction segs arbitrary: prev r vis)
  case (Cons s segs)
  from Cons.IH [OF Cons.prems [unfolded walk_segments.simps Let_def]] show ?case
    by (cases segs; cases prev) (auto simp: check_segment_holds)
qed simp


lemma check_shard_holds:
  assumes "check_shard pack (r, vis) sh = (r', vis')"
  shows "vis' = vis @ map (\<lambda>s. (vg_shard s, vg_segment s)) (shard_segments pack sh)"
    "verified r' \<longleftrightarrow> verified r \<and> shard_holds pack sh"
proof -
  let ?segs = "shard_segments pack sh"
  let ?r1 = "if length ?segs \<noteq> unat (vd_segment_count sh) then broken ''segment-count'' r else r"
  let ?r2 = "check_start ?segs (check_numbering 0 ?segs ?r1)"
  obtain r3 v3 where w: "walk_segments pack None ?segs (?r2, vis) = (r3, v3)" by fastforce
  note h = walk_segments_holds [OF w]
  have c: "vis' = v3" "r' = (if root_of (map (\<lambda>s. v_leaf_hash (as_bytes (v_manifest_root s))) ?segs) \<noteq> vd_root sh
      then broken ''shard-root'' r3 else r3)"
    using assms w by (simp_all add: check_shard_def Let_def)
  show "vis' = vis @ map (\<lambda>s. (vg_shard s, vg_segment s)) ?segs" using h c by simp
  have m: "map (\<lambda>s. v_leaf_hash (as_bytes (v_manifest_root s))) ?segs = map (digest_leaf \<circ> v_manifest_msg) ?segs"
    by (simp add: digest_leaf_def)
  have "verified ?r2 \<longleftrightarrow> verified r \<and> length ?segs = unat (vd_segment_count sh) \<and> numbered (map vg_segment ?segs) \<and>
      (?segs \<noteq> [] \<longrightarrow> vg_chain_before (?segs ! 0) \<noteq> Hash_ZERO)"
    by (simp only: check_start_holds check_numbering_holds verified_unless numbered_0) blast
  with h show "verified r' \<longleftrightarrow> verified r \<and> shard_holds pack sh"
    unfolding c(2) verified_unless m root_of_mth by (auto simp: shard_holds_def Let_def)
qed

lemma check_shards_holds:
  "foldl (check_shard pack) (r, vis) shs = (r', vis') \<Longrightarrow>
   set vis' = set vis \<union> (\<Union>sh \<in> set shs. (\<lambda>s. (vg_shard s, vg_segment s)) ` set (shard_segments pack sh)) \<and>
   (verified r' \<longleftrightarrow> verified r \<and> (\<forall>sh \<in> set shs. shard_holds pack sh))"
proof (induction shs arbitrary: r vis)
  case (Cons sh shs)
  obtain r1 v1 where s: "check_shard pack (r, vis) sh = (r1, v1)" by fastforce
  with Cons.prems have "foldl (check_shard pack) (r1, v1) shs = (r', vis')" by simp
  from Cons.IH [OF this] check_shard_holds [OF s] show ?case by auto
qed simp

lemma set_shard_segments: "set (shard_segments pack sh) = {s \<in> set (pk_segments pack). vg_shard s = vd_shard sh}"
  by (auto simp: shard_segments_def)

lemma verify_pack_holds: "verified (verify_pack pack) \<longleftrightarrow> pack_holds pack"
proof -
  let ?r1 = "check_signature pack (check_algorithms pack Report_default)"
  let ?r2 = "if length (pk_shards pack) \<noteq> unat (vh_shard_count (pk_header pack)) then broken ''shard-count'' ?r1 else ?r1"
  obtain r3 vis where f: "foldl (check_shard pack) (?r2, []) (pk_shards pack) = (r3, vis)" by fastforce
  note h = check_shards_holds [OF f]
  let ?store = "mth (map (\<lambda>s. digest_leaf (store_leaf_msg (vd_shard s) (ucast (vd_segment_count s)) (vd_root s))) (pk_shards pack))"
  have v: "verified (verify_pack pack) \<longleftrightarrow> verified r3 \<and> ?store = vh_store_root (pk_header pack) \<and>
      (\<forall>s \<in> set (pk_segments pack). \<exists>sh \<in> set (pk_shards pack). vd_shard sh = vg_shard s) \<and>
      (\<forall>rs \<in> set (pk_record_sets pack). (rs_shard rs, rs_segment rs) \<in> set vis)"
    unfolding verify_pack_def Let_def f prod.case
    by (subst verified_foldl [where ok = "\<lambda>rs. (rs_shard rs, rs_segment rs) \<in> set vis"], simp,
        subst verified_foldl [where ok = "\<lambda>s. \<exists>sh \<in> set (pk_shards pack). vd_shard sh = vg_shard s"], simp) auto
  have "verified ?r2 \<longleftrightarrow> (\<forall>sg. pk_signature pack = Some sg \<longrightarrow> signature_holds pack sg) \<and>
     (\<forall>w \<in> set (pk_witnesses pack). witness_holds pack w) \<and> (\<forall>a \<in> set (pk_anchors pack). anchor_holds pack a) \<and>
     length (pk_shards pack) = unat (vh_shard_count (pk_header pack))"
    by (auto simp: check_signature_holds)
  moreover have "(\<forall>rs \<in> set (pk_record_sets pack). (rs_shard rs, rs_segment rs) \<in> set vis) \<longleftrightarrow>
      (\<forall>rs \<in> set (pk_record_sets pack). \<exists>s \<in> set (pk_segments pack). (vg_shard s, vg_segment s) = (rs_shard rs, rs_segment rs))"
    if "\<forall>s \<in> set (pk_segments pack). \<exists>sh \<in> set (pk_shards pack). vd_shard sh = vg_shard s"
  proof -
    have "set vis = (\<Union>sh \<in> set (pk_shards pack).
        (\<lambda>s. (vg_shard s, vg_segment s)) ` {s \<in> set (pk_segments pack). vg_shard s = vd_shard sh})"
      using h [THEN conjunct1] by (simp only: set_shard_segments list.set Un_empty_left)
    also have "\<dots> = (\<lambda>s. (vg_shard s, vg_segment s)) ` set (pk_segments pack)" using that by fastforce
    finally have "set vis = (\<lambda>s. (vg_shard s, vg_segment s)) ` set (pk_segments pack)" .
    then show ?thesis by (simp add: image_iff) metis
  qed
  moreover have "(\<forall>s \<in> set (pk_segments pack). \<exists>sh \<in> set (pk_shards pack). vd_shard sh = vg_shard s) \<longleftrightarrow>
      (\<forall>s \<in> set (pk_segments pack). vg_shard s \<in> vd_shard ` set (pk_shards pack))" by (simp add: image_iff) metis
  ultimately show ?thesis unfolding v pack_holds_def using h by argo
qed


subsection \<open>One root, one pack\<close>

text \<open>The messages hashed in computing a root over leaves that are themselves digests.\<close>

definition commit_msgs :: "bytes list \<Rightarrow> bytes list" where
  "commit_msgs xs = concat (map digest_leaf_msgs xs) @ mth_msgs (map digest_leaf xs) @ (if xs = [] then [[]] else [])"

definition root_msg :: "bytes list \<Rightarrow> bytes" where
  "root_msg xs =
     (if xs = [] then []
      else if length xs = 1 then leaf_msg (as_bytes (Sha384_digest (xs ! 0)))
      else let k = split (length xs) in
        node_msg (mth (map digest_leaf (take k xs))) (mth (map digest_leaf (drop k xs))))"

lemma root_msg_digest: "mth (map digest_leaf xs) = Sha384_digest (root_msg xs)" "root_msg xs \<in> set (commit_msgs xs)"
proof -
  consider "xs = []" | x where "xs = [x]" | "2 \<le> length xs" by (cases xs rule: remdups_adj.cases) auto
  then have "mth (map digest_leaf xs) = Sha384_digest (root_msg xs) \<and> root_msg xs \<in> set (commit_msgs xs)"
  proof cases
    case 1
    then show ?thesis by (simp add: root_msg_def commit_msgs_def mth.simps empty_root_def)
  next
    case 2
    then show ?thesis by (simp add: root_msg_def commit_msgs_def digest_leaf_def digest_leaf_msgs_def leaf_hash_digest)
  next
    case 3
    then have "xs \<noteq> []" "length xs \<noteq> 1" "length xs \<noteq> Suc 0" by auto
    with 3 show ?thesis
      by (simp add: root_msg_def commit_msgs_def mth.simps [of "map digest_leaf xs"] mth_msgs.simps [of "map digest_leaf xs"]
          node_hash_digest take_map drop_map Let_def)
  qed
  then show "mth (map digest_leaf xs) = Sha384_digest (root_msg xs)" "root_msg xs \<in> set (commit_msgs xs)" by blast+
qed

lemma commit_msgs_parts:
  assumes "2 \<le> length xs" "k = split (length xs)"
  shows "set (commit_msgs (take k xs)) \<subseteq> set (commit_msgs xs)" "set (commit_msgs (drop k xs)) \<subseteq> set (commit_msgs xs)"
proof -
  have k: "0 < k" "k < length xs" using split_bounds [OF assms(1)] assms(2) by simp_all
  have m: "set (mth_msgs (map digest_leaf xs)) \<supseteq> set (mth_msgs (map digest_leaf (take k xs))) \<union> set (mth_msgs (map digest_leaf (drop k xs)))"
    using assms by (simp add: mth_msgs.simps [of "map digest_leaf xs"] take_map drop_map Let_def) blast
  have "take k xs \<noteq> []" "drop k xs \<noteq> []" using k by auto
  then show "set (commit_msgs (take k xs)) \<subseteq> set (commit_msgs xs)" "set (commit_msgs (drop k xs)) \<subseteq> set (commit_msgs xs)"
    using m by (auto simp: commit_msgs_def dest: in_set_takeD in_set_dropD)
qed

lemma tree_binds:
  "mth (map digest_leaf xs) = mth (map digest_leaf ys) \<Longrightarrow> \<not> collides (commit_msgs xs) (commit_msgs ys) \<Longrightarrow> xs = ys"
proof (induction "length xs" arbitrary: xs ys rule: less_induct)
  case less
  have r: "root_msg xs = root_msg ys"
    by (rule collidesD [OF less.prems(2) root_msg_digest(2) root_msg_digest(2)]) (use less.prems(1) root_msg_digest(1) in metis)
  consider "xs = []" | x where "xs = [x]" | "2 \<le> length xs" by (cases xs rule: remdups_adj.cases) auto
  then show ?case
  proof cases
    case 1
    with r show ?thesis by (auto simp: root_msg_def leaf_msg_def node_msg_def Let_def split: if_splits)
  next
    case 2
    with r obtain y where y: "ys = [y]"
      using leaf_msg_node_msg by (cases ys rule: remdups_adj.cases) (auto simp: root_msg_def leaf_msg_def Let_def split: if_splits)
    with r 2 have "Sha384_digest x = Sha384_digest y" by (simp add: root_msg_def leaf_msg_def)
    then have "x = y"
      by (rule collidesD [OF less.prems(2), rotated 2]) (simp_all add: 2 y commit_msgs_def digest_leaf_msgs_def)
    with 2 y show ?thesis by simp
  next
    case 3
    then have x: "xs \<noteq> []" "length xs \<noteq> 1" by auto
    have y: "2 \<le> length ys"
      using r x leaf_msg_node_msg [THEN not_sym] by (cases ys rule: remdups_adj.cases) (auto simp: root_msg_def Let_def node_msg_def)
    then have y': "ys \<noteq> []" "length ys \<noteq> 1" by auto
    let ?k = "split (length xs)" and ?j = "split (length ys)"
    have k: "0 < ?k" "?k < length xs" using split_bounds [OF 3] by simp_all
    have "node_msg (mth (map digest_leaf (take ?k xs))) (mth (map digest_leaf (drop ?k xs))) =
        node_msg (mth (map digest_leaf (take ?j ys))) (mth (map digest_leaf (drop ?j ys)))"
      using r x y' by (simp add: root_msg_def Let_def)
    then have h: "mth (map digest_leaf (take ?k xs)) = mth (map digest_leaf (take ?j ys))"
        "mth (map digest_leaf (drop ?k xs)) = mth (map digest_leaf (drop ?j ys))" by simp_all
    note px = commit_msgs_parts [OF 3 refl] and py = commit_msgs_parts [OF y refl]
    have "take ?k xs = take ?j ys"
      by (rule less.hyps [OF _ h(1)]) (use k collides_mono [OF _ px(1) py(1)] less.prems(2) in auto)
    moreover have "drop ?k xs = drop ?j ys"
      by (rule less.hyps [OF _ h(2)]) (use k collides_mono [OF _ px(2) py(2)] less.prems(2) in auto)
    ultimately show ?thesis by (metis append_take_drop_id)
  qed
qed


lemma v_root_msg_append_inj:
  "name_ok (fst a) \<Longrightarrow> name_ok (fst b) \<Longrightarrow> v_root_msg a @ x = v_root_msg b @ y \<longleftrightarrow> a = b \<and> x = y"
  using field_append_inj [of "fst a" "fst b" "as_bytes (snd a) @ x" "as_bytes (snd b) @ y"]
  by (cases a; cases b) (auto simp: name_ok_def v_root_msg_def sign_field_def)

lemma v_roots_append_inj:
  "length rs = length rs' \<Longrightarrow> list_all (name_ok \<circ> fst) rs \<Longrightarrow> list_all (name_ok \<circ> fst) rs' \<Longrightarrow>
   concat (map v_root_msg rs) @ x = concat (map v_root_msg rs') @ y \<longleftrightarrow> rs = rs' \<and> x = y"
  by (induction rs rs' rule: list_induct2) (auto simp: v_root_msg_append_inj)

lemma v_manifest_msg_inj:
  assumes "vsegment_ok s" "vsegment_ok t" "v_manifest_msg s = v_manifest_msg t"
  shows "s = t"
proof -
  have "(of_nat (length (vg_index_roots s)) :: u64) = of_nat (length (vg_index_roots t))"
    using assms(3) by (simp add: v_manifest_msg_def to_be_bytes_inj)
  then have l: "length (vg_index_roots s) = length (vg_index_roots t)"
    using assms(1,2) by (auto intro: of_nat_word_inj [where ?'a = 64] simp: vsegment_ok_def)
  have n: "list_all (name_ok \<circ> fst) (vg_index_roots s)" "list_all (name_ok \<circ> fst) (vg_index_roots t)"
    using assms(1,2) by (simp_all add: vsegment_ok_def)
  from assms(3) have r: "vg_index_roots s = vg_index_roots t"
    unfolding v_manifest_msg_def by (simp add: v_roots_append_inj [OF l n])
  show ?thesis
    using assms(3) unfolding v_manifest_msg_def r
    by (intro VSegment.equality) (simp_all add: r to_be_bytes_inj)
qed

definition shard_msg_of :: "VShard \<Rightarrow> bytes" where
  "shard_msg_of sh = store_leaf_msg (vd_shard sh) (ucast (vd_segment_count sh)) (vd_root sh)"

lemma shard_msg_of_inj: "shard_msg_of a = shard_msg_of b \<longleftrightarrow> a = b"
proof -
  have "(ucast (x :: u32) :: u64) = ucast y \<longleftrightarrow> x = y" for x y
  proof -
    have "ucast (ucast z :: u64) = z" for z :: u32 by (rule ucast_up_down) simp
    then show ?thesis by metis
  qed
  then show ?thesis by (auto simp: shard_msg_of_def store_leaf_msg_inj VShard.equality)
qed

text \<open>The numbered bodies behind a segment, and the messages behind a pack's root.\<close>

definition segment_items :: "Pack \<Rightarrow> VSegment \<Rightarrow> (u64 \<times> bytes) list" where
  "segment_items pack s =
     (case records_for pack (vg_shard s) (vg_segment s) of
        None \<Rightarrow> []
      | Some recs \<Rightarrow> zip (map (\<lambda>i. of_nat i + 1) [0..<length (rs_records recs)]) (rs_records recs))"

definition pack_msgs :: "Pack \<Rightarrow> bytes list" where
  "pack_msgs pack = commit_msgs (map shard_msg_of (pk_shards pack)) @
     concat (map (\<lambda>sh. commit_msgs (map v_manifest_msg (shard_segments pack sh))) (pk_shards pack)) @
     concat (map (\<lambda>s. item_msgs (vg_chain_before s) (segment_items pack s)) (pk_segments pack))"

lemma segment_items_holds:
  assumes "segment_holds pack s"
  obtains recs where "records_for pack (vg_shard s) (vg_segment s) = Some recs"
    "of_nat (length (rs_records recs)) = vg_records s"
    "items_head (vg_chain_before s) (segment_items pack s) = vg_chain_after s"
    "map snd (segment_items pack s) = rs_records recs"
proof -
  from assms obtain recs fs where r: "records_for pack (vg_shard s) (vg_segment s) = Some recs"
      "of_nat (length (rs_records recs)) = vg_records s" "read_fields (rs_records recs) = Inr fs" "numbered (map f_seq fs)"
      "items_head (vg_chain_before s) (zip (map f_seq fs) (rs_records recs)) = vg_chain_after s"
    by (auto simp: segment_holds_def Let_def)
  have "map f_seq fs = map (\<lambda>i. of_nat i + 1) [0..<length (rs_records recs)]"
    using r(4) read_fields_length [OF r(3)] unfolding numbered_def by (metis length_map)
  then have "segment_items pack s = zip (map f_seq fs) (rs_records recs)" using r(1) by (simp add: segment_items_def)
  with that r read_fields_length [OF r(3)] show ?thesis by simp
qed

lemma records_for_unique:
  assumes "pack_ok pack" "recs \<in> set (pk_record_sets pack)"
  shows "records_for pack (rs_shard recs) (rs_segment recs) = Some recs"
proof -
  have d: "distinct (map (\<lambda>s. (rs_shard s, rs_segment s)) (pk_record_sets pack))" using assms(1) by (simp add: pack_ok_def)
  have "find (\<lambda>s. rs_shard s = rs_shard recs \<and> rs_segment s = rs_segment recs) xs = Some recs"
    if "recs \<in> set xs" "distinct (map (\<lambda>s. (rs_shard s, rs_segment s)) xs)" for xs
    using that by (induction xs) (auto simp: image_iff)
  with assms(2) d show ?thesis by (simp add: records_for_def)
qed

lemma records_for_Some:
  "records_for pack sh g = Some recs \<Longrightarrow> recs \<in> set (pk_record_sets pack) \<and> rs_shard recs = sh \<and> rs_segment recs = g"
  by (auto simp: records_for_def find_Some_iff)

lemma same_root_segments:
  assumes "pack_ok p" "pack_ok q" "pack_holds p" "pack_holds q"
    "vh_store_root (pk_header p) = vh_store_root (pk_header q)" "\<not> collides (pack_msgs p) (pack_msgs q)"
  shows "pk_shards p = pk_shards q" "set (pk_segments p) = set (pk_segments q)"
proof -
  have sub: "\<not> collides xs ys" if "set xs \<subseteq> set (pack_msgs p)" "set ys \<subseteq> set (pack_msgs q)" for xs ys
    using that assms(6) collides_mono by blast
  have "mth (map digest_leaf (map shard_msg_of (pk_shards p))) = mth (map digest_leaf (map shard_msg_of (pk_shards q)))"
    using assms(3-5) by (simp add: pack_holds_def shard_msg_of_def comp_def)
  moreover have "\<not> collides (commit_msgs (map shard_msg_of (pk_shards p))) (commit_msgs (map shard_msg_of (pk_shards q)))"
    by (rule sub) (auto simp: pack_msgs_def)
  ultimately have "map shard_msg_of (pk_shards p) = map shard_msg_of (pk_shards q)" by (rule tree_binds)
  then show sh: "pk_shards p = pk_shards q" using shard_msg_of_inj by (simp add: inj_map_eq_map inj_def)
  have seg: "shard_segments p d = shard_segments q d" if d: "d \<in> set (pk_shards p)" for d
  proof -
    have h: "shard_holds p d" "shard_holds q d" using assms(3,4) d sh by (simp_all add: pack_holds_def)
    have "mth (map digest_leaf (map v_manifest_msg (shard_segments p d))) = mth (map digest_leaf (map v_manifest_msg (shard_segments q d)))"
      using h by (simp add: shard_holds_def Let_def)
    moreover have "\<not> collides (commit_msgs (map v_manifest_msg (shard_segments p d))) (commit_msgs (map v_manifest_msg (shard_segments q d)))"
      by (rule sub) (use d sh in \<open>auto simp: pack_msgs_def\<close>)
    ultimately have m: "map v_manifest_msg (shard_segments p d) = map v_manifest_msg (shard_segments q d)" by (rule tree_binds)
    have ok: "\<forall>s \<in> set (shard_segments p d). vsegment_ok s" "\<forall>s \<in> set (shard_segments q d). vsegment_ok s"
      using assms(1,2) by (auto simp: set_shard_segments pack_ok_def list_all_iff)
    have "xs = ys" if "map v_manifest_msg xs = map v_manifest_msg ys" "\<forall>s \<in> set xs. vsegment_ok s" "\<forall>s \<in> set ys. vsegment_ok s" for xs ys
      using that by (induction xs arbitrary: ys) (auto simp: Cons_eq_map_conv map_eq_Cons_conv intro: v_manifest_msg_inj)
    with m ok show ?thesis by blast
  qed
  have "set (pk_segments r) = (\<Union>d \<in> set (pk_shards r). set (shard_segments r d))" if "pack_holds r" for r
    using that by (auto simp: pack_holds_def set_shard_segments image_iff)
  then show "set (pk_segments p) = set (pk_segments q)" using assms(3,4) seg sh by simp
qed


lemma same_root_records:
  assumes "pack_ok p" "pack_ok q" "pack_holds p" "pack_holds q"
    "set (pk_segments p) = set (pk_segments q)" "\<not> collides (pack_msgs p) (pack_msgs q)" "recs \<in> set (pk_record_sets p)"
  shows "recs \<in> set (pk_record_sets q)"
proof -
  obtain s where s: "s \<in> set (pk_segments p)" "vg_shard s = rs_shard recs" "vg_segment s = rs_segment recs"
    using assms(3,7) by (auto simp: pack_holds_def)
  have held: "segment_holds r t" if "pack_holds r" "t \<in> set (pk_segments r)" for r t
    using that by (force simp: pack_holds_def shard_holds_def set_shard_segments Let_def)
  obtain rp where rp: "records_for p (vg_shard s) (vg_segment s) = Some rp" "of_nat (length (rs_records rp)) = vg_records s"
      "items_head (vg_chain_before s) (segment_items p s) = vg_chain_after s" "map snd (segment_items p s) = rs_records rp"
    using segment_items_holds [OF held [OF assms(3) s(1)]] by blast
  obtain rq where rq: "records_for q (vg_shard s) (vg_segment s) = Some rq" "of_nat (length (rs_records rq)) = vg_records s"
      "items_head (vg_chain_before s) (segment_items q s) = vg_chain_after s" "map snd (segment_items q s) = rs_records rq"
    using segment_items_holds [OF held [OF assms(4)]] s(1) assms(5) by blast
  have rpr: "rp = recs" using records_for_unique [OF assms(1,7)] rp(1) s by simp
  have "set_ok rp" "set_ok rq"
    using assms(1,2) records_for_Some [OF rp(1)] records_for_Some [OF rq(1)] by (auto simp: pack_ok_def list_all_iff)
  then have "length (rs_records rp) = length (rs_records rq)"
    using rp(2) rq(2) by (auto intro: of_nat_word_inj [where ?'a = 64] simp: set_ok_def)
  then have l: "length (segment_items p s) = length (segment_items q s)" using rp(4) rq(4) by (metis length_map)
  have "\<not> collides (item_msgs (vg_chain_before s) (segment_items p s)) (item_msgs (vg_chain_before s) (segment_items q s))"
    using assms(5,6) s(1) collides_mono [of _ _ "pack_msgs p" "pack_msgs q"] by (fastforce simp: pack_msgs_def)
  with items_bind [OF l, of "vg_chain_before s" "vg_chain_before s"] rp(3) rq(3)
  have "segment_items p s = segment_items q s" by simp
  then have "rs_records rp = rs_records rq" using rp(4) rq(4) by metis
  then have "rp = rq" using records_for_Some [OF rp(1)] records_for_Some [OF rq(1)] by (simp add: RecordSet.equality)
  with rpr records_for_Some [OF rq(1)] show ?thesis by simp
qed

subsection \<open>Quiet about witnesses\<close>

text \<open>An anchor the verifier counts, and a witness whose signature it counts as somebody else's.\<close>

definition anchor_bound :: "Pack \<Rightarrow> VAnchor \<Rightarrow> bool" where
  "anchor_bound pack a \<longleftrightarrow> va_kind a = Tsp \<and> anchor_holds pack a"

definition independent_witness :: "Pack \<Rightarrow> VWitness \<Rightarrow> bool" where
  "independent_witness pack w \<longleftrightarrow>
     vw_algorithm w = ascii ''es384'' \<and> witness_holds pack w \<and>
     (\<forall>sg. pk_signature pack = Some sg \<longrightarrow> v_key_id (vw_public_key w) \<noteq> v_key_id (vs_public_key sg))"

definition says :: "Level \<Rightarrow> string \<Rightarrow> Report \<Rightarrow> bool" where
  "says level name report \<longleftrightarrow> \<lparr>fd_level = level, fd_check = name\<rparr> \<in> set (findings report)"

lemma check_anchor_bound: "fst (check_anchor pack a r) \<longleftrightarrow> anchor_bound pack a"
  by (auto simp: check_anchor_def anchor_bound_def anchor_holds_def covers_def v_digest Let_def
      split: sum.splits option.splits)

lemma check_anchors_bound: "fst (check_anchors pack r) = length (filter (anchor_bound pack) (pk_anchors pack))"
proof -
  have "fst (foldl (\<lambda>(bound, report) anchor.
        let (b, report) = check_anchor pack anchor report in (if b then bound + 1 else bound, report)) (n, r) as) =
      n + length (filter (anchor_bound pack) as)" for as and n :: nat
  proof (induction as arbitrary: n r)
    case (Cons a as)
    show ?case using Cons check_anchor_bound [of pack a r] by (auto simp: split_beta Let_def)
  qed simp
  then show ?thesis by (simp add: check_anchors_def)
qed

lemma check_witness_counts:
  assumes "foldl (check_witness pack publisher) (n, ks, r) ws = (n', ks', r')" "n < n'"
  shows "\<exists>w \<in> set ws. vw_algorithm w = ascii ''es384'' \<and> witness_holds pack w \<and> publisher \<noteq> Some (v_key_id (vw_public_key w))"
  using assms
proof (induction ws arbitrary: n ks r)
  case (Cons w ws)
  let ?good = "check_one (vw_algorithm w) (vw_public_key w) (v_witness_statement (vw_witness w) (vh_store_root (pk_header pack))
      (vw_seen_at w) (vw_algorithm w) (vw_public_key w)) (vw_signature w) = Good"
  obtain m ks1 r1 where s: "check_witness pack publisher (n, ks, r) w = (m, ks1, r1)" by (metis prod.exhaust)
  show ?case
  proof (cases "?good \<and> publisher \<noteq> Some (v_key_id (vw_public_key w))")
    case True
    then have a: "vw_algorithm w = ascii ''es384''" by (simp add: check_one_def split: if_splits)
    moreover have "witness_holds pack w"
      using True by (simp add: a check_one_def witness_holds_def es384_statements split: sum.splits)
    ultimately show ?thesis using True by simp
  next
    case False
    then have "m = n" using s by (auto simp: check_witness_def Let_def)
    with Cons s show ?thesis by simp
  qed
qed simp

definition grows :: "Report \<Rightarrow> Report \<Rightarrow> bool" where
  "grows r r' \<longleftrightarrow> set (findings r) \<subseteq> set (findings r')"

lemma grows_rules [simp]:
  "grows r (broken n r)" "grows r (weak n r)" "grows r (note_finding n r)" "grows r r"
  "grows r (r'\<lparr>records_checked := k\<rparr>) = grows r r'" "grows r (r'\<lparr>segments_checked := k\<rparr>) = grows r r'"
  by (auto simp: grows_def broken_def weak_def note_finding_def add_finding_def)

lemma grows_trans: "grows a b \<Longrightarrow> grows b c \<Longrightarrow> grows a c"
  by (auto simp: grows_def)

lemma grows_unless: "grows r r' \<Longrightarrow> grows r (if c then broken n r' else r')"
  by (auto intro: grows_trans)

lemma grows_foldl: "(\<And>r x. grows r (f r x)) \<Longrightarrow> grows r (foldl f r xs)"
  by (induction xs arbitrary: r) (auto intro: grows_trans)

lemma grows_follow: "follow_chain i link xs r = (links, head, r') \<Longrightarrow> grows r r'"
proof (induction i link xs r arbitrary: links rule: follow_chain.induct)
  case (2 i link f b rest r)
  let ?r = "if f_seq f \<noteq> of_nat i + 1 then broken ''sequence-contiguous'' r else r"
  obtain ls where ls: "follow_chain (i + 1) (v_chain_step link (f_seq f) b) rest ?r = (ls, head, r')"
    using "2.prems" by (auto simp: Let_def split: prod.splits)
  from "2.IH" [OF refl refl ls] have "grows ?r r'" .
  then show ?case using grows_trans grows_unless [OF grows_rules(4)] by blast
qed simp

lemma grows_index: "grows r (check_index dim d fs ls r)"
  by (simp add: check_index_def Let_def split: option.splits)

lemma grows_segment: "grows r (check_segment pack s r)"
proof (cases "records_for pack (vg_shard s) (vg_segment s)")
  case (Some recs)
  let ?r = "if of_nat (length (rs_records recs)) \<noteq> vg_records s then broken ''record-count'' r else r"
  have 0: "grows r ?r" by (rule grows_unless) simp
  show ?thesis
  proof (cases "read_fields (rs_records recs)")
    case (Inl e)
    then show ?thesis using Some 0 grows_trans [OF 0 grows_rules(1)] by (simp add: check_segment_def Let_def)
  next
    case (Inr fs)
    obtain links head r' where f: "follow_chain 0 (vg_chain_before s) (zip fs (rs_records recs)) ?r = (links, head, r')"
      by (metis prod.exhaust)
    have 1: "grows r r'" using grows_follow [OF f] 0 grows_trans by blast
    show ?thesis
      unfolding check_segment_def Some Inr Let_def option.case sum.case f prod.case
      by (rule grows_trans [OF _ grows_foldl], (rule grows_unless)+)
         (use 1 grows_index in \<open>auto simp: split_beta\<close>)
  qed
qed (simp add: check_segment_def)

lemma grows_walk: "walk_segments pack prev segs (r, vis) = (r', vis') \<Longrightarrow> grows r r'"
proof (induction segs arbitrary: prev r vis)
  case (Cons s segs)
  from Cons.prems have "grows (if prev \<noteq> None \<and> prev \<noteq> Some (vg_chain_before s)
      then broken ''chain-across-segments'' ((check_segment pack s r)\<lparr>segments_checked := segments_checked (check_segment pack s r) + 1\<rparr>)
      else (check_segment pack s r)\<lparr>segments_checked := segments_checked (check_segment pack s r) + 1\<rparr>) r'"
    by (auto simp only: walk_segments.simps Let_def dest: Cons.IH)
  moreover have "grows r (if prev \<noteq> None \<and> prev \<noteq> Some (vg_chain_before s)
      then broken ''chain-across-segments'' ((check_segment pack s r)\<lparr>segments_checked := segments_checked (check_segment pack s r) + 1\<rparr>)
      else (check_segment pack s r)\<lparr>segments_checked := segments_checked (check_segment pack s r) + 1\<rparr>)"
    by (rule grows_unless) (simp add: grows_segment)
  ultimately show ?case using grows_trans by blast
qed simp

lemma grows_numbering: "grows r (check_numbering at segs r)"
  by (induction segs arbitrary: at) simp_all

lemma grows_start: "grows r (check_start segs r)"
  by (simp add: check_start_def split: list.splits)

lemma grows_shard: "grows (fst rv) (fst (check_shard pack rv sh))"
proof -
  let ?segs = "shard_segments pack sh"
  let ?r = "if length ?segs \<noteq> unat (vd_segment_count sh) then broken ''segment-count'' (fst rv) else fst rv"
  obtain r' vis' where w: "walk_segments pack None ?segs (check_start ?segs (check_numbering 0 ?segs ?r), snd rv) = (r', vis')"
    by (metis prod.exhaust)
  have "grows (fst rv) ?r" by (rule grows_unless) simp
  from grows_trans [OF this grows_trans [OF grows_numbering grows_trans [OF grows_start grows_walk [OF w]]]]
  have "grows (fst rv) r'" .
  then show ?thesis
    unfolding check_shard_def Let_def split_beta [of _ rv] w prod.case fst_conv by (rule grows_unless)
qed

lemma grows_verify: "grows (check_signature pack (check_algorithms pack Report_default)) (verify_pack pack)"
proof -
  let ?r1 = "check_signature pack (check_algorithms pack Report_default)"
  let ?r2 = "if length (pk_shards pack) \<noteq> unat (vh_shard_count (pk_header pack)) then broken ''shard-count'' ?r1 else ?r1"
  have "grows (fst rv) (fst (foldl (check_shard pack) rv shs))" for rv shs
  proof (induction shs arbitrary: rv)
    case (Cons sh shs)
    show ?case unfolding foldl_Cons by (rule grows_trans [OF grows_shard Cons])
  qed simp
  then have g: "grows ?r2 (fst (foldl (check_shard pack) (?r2, []) (pk_shards pack)))" by (metis fst_conv)
  have "grows ?r1 ?r2" by (rule grows_unless) simp
  then show ?thesis
    unfolding verify_pack_def Let_def split_beta
    by (intro grows_trans [OF _ grows_foldl] grows_unless grows_trans [OF _ g]) simp_all
qed

lemma verify_quiet:
  "says Weak ''witnesses'' (verify_pack pack) \<or>
   (\<exists>a \<in> set (pk_anchors pack). anchor_bound pack a) \<or> (\<exists>w \<in> set (pk_witnesses pack). independent_witness pack w)"
proof -
  let ?key = "map_option (\<lambda>sg. v_key_id (vs_public_key sg)) (pk_signature pack)"
  obtain r where r: "check_signature pack (check_algorithms pack Report_default) = check_witnesses pack ?key r"
    by (cases "pk_signature pack") (auto simp: check_signature_def Let_def)
  obtain bound r1 where a: "check_anchors pack r = (bound, r1)" by fastforce
  obtain n ks r2 where w: "foldl (check_witness pack ?key) (0, [], r1) (pk_witnesses pack) = (n, ks, r2)" by (metis prod.exhaust)
  show ?thesis
  proof (cases "n = 0 \<and> bound = 0")
    case True
    then have "check_witnesses pack ?key r = weak ''witnesses'' r2" by (simp add: check_witnesses_def a w)
    then have "says Weak ''witnesses'' (check_signature pack (check_algorithms pack Report_default))"
      by (simp add: r says_def weak_def add_finding_def)
    then show ?thesis using grows_verify by (auto simp: says_def grows_def)
  next
    case False
    then consider "0 < bound" | "0 < n" by auto
    then show ?thesis
    proof cases
      case 1
      then have "filter (anchor_bound pack) (pk_anchors pack) \<noteq> []" using check_anchors_bound [of pack r] a by auto
      then show ?thesis by (auto simp: filter_empty_conv)
    next
      case 2
      from check_witness_counts [OF w this] show ?thesis by (auto simp: independent_witness_def)
    qed
  qed
qed

end
