(* ===== verification/Evidence.thy ===== *)
theory Evidence
  imports Verifier Tier
begin

text \<open>
  The store and the auditor together: what the store seals and packs
  (\<open>trailryx-store/src/seal.rs\<close>, \<open>evidence.rs\<close>) against what the verifier recomputes
  (\<open>trailryx-verify/src/verify.rs\<close>).

  The results: the verdict is exactly the conjunction of the recomputations; a pack built from
  segments sealed out of logs verifies, so the verifier refuses nothing honest; and two verified
  packs with one store root carry the same records, so it accepts nothing else under that root
  short of a collision.
\<close>

subsection \<open>A sealed segment holds\<close>

lemma chained_links:
  "chained link rs \<Longrightarrow>
   links_of link (zip (map rec_seq (map fst rs)) (map encode_record (map fst rs))) = map snd rs \<and>
   items_head link (zip (map rec_seq (map fst rs)) (map encode_record (map fst rs))) =
     (if rs = [] then link else snd (last rs)) \<and>
   read_fields (map encode_record (map fst rs)) = Inr (map fields_of (map fst rs))"
  by (induction link rs rule: chained.induct) (auto simp: fields_encoded)

lemma fields_of_numbers [simp]:
  "f_seq (fields_of r) = rec_seq r" "f_recorded_at (fields_of r) = recorded_at r"
  by (simp_all add: fields_of_def)

lemma rebuilt_entries:
  "index_entries (Dimension_as_str d) (map fields_of (map fst rs)) (map snd rs) =
   Some (map (\<lambda>(r, l). (key_of d r, rec_seq r, l)) rs)"
  by (induction rs) (auto simp: key_for_fields)

definition entry_triple :: "Entry \<Rightarrow> bytes \<times> u64 \<times> hash" where
  "entry_triple e = (en_key e, en_seq e, record_link e)"

lemma strictly_sorted_entries: "first_duplicate es = None \<Longrightarrow> strictly_sorted (map entry_triple es)"
  by (induction es rule: first_duplicate.induct)
     (auto simp: entry_triple_def position_def split: if_splits)

lemma sorted_triples:
  "sort_key (\<lambda>e. (fst e, fst (snd e))) (map (\<lambda>(r, l). (key_of d r, rec_seq r, l)) rs) =
   map entry_triple (ix_entries (SortedIndex_build d rs))"
proof -
  have "map (\<lambda>(r, l). (key_of d r, rec_seq r, l)) rs = map entry_triple (map (entry_of d) rs)"
    by (simp add: entry_triple_def entry_of_def split_beta)
  moreover have "(\<lambda>e. (fst (entry_triple e), fst (snd (entry_triple e)))) = position"
    by (auto simp: entry_triple_def position_def)
  ultimately show ?thesis
    by (simp only: SortedIndex_build_def Let_def SortedIndex.select_convs sort_key_map)
qed

text \<open>The description of a sealed segment, among a pack's record sets, passes every check of a segment.\<close>

lemma sealed_index_holds:
  assumes "seal g sh b records = Inr s" "(dim, declared) \<in> set (vg_index_roots (v_manifest (sg_manifest s)))"
  shows "index_holds dim declared (map fields_of (map fst records)) (map snd records)"
proof -
  have "index_roots (sg_manifest s) = map (\<lambda>i. (ix_dimension i, ix_root i)) (map (\<lambda>d. SortedIndex_build d records) Dimension_ALL)"
    using assms(1) by (auto simp: seal_def Let_def split: if_splits option.splits)
  with assms(2) obtain d where d: "dim = Dimension_as_str d" "declared = ix_root (SortedIndex_build d records)"
    by (auto simp: v_manifest_def build_fields)
  have "strictly_sorted (map entry_triple (ix_entries (SortedIndex_build d records)))"
    using seal_facts(6) [OF assms(1), of d] by (intro strictly_sorted_entries) (simp add: first_duplicate_position_def)
  moreover have e: "\<lparr>en_key = en_key e, en_seq = en_seq e, record_link = record_link e\<rparr> = e" for e :: Entry by (cases e) simp
  moreover have "map (\<lambda>(key, n, link). Entry_leaf_hash \<lparr>en_key = key, en_seq = n, record_link = link\<rparr>) (map entry_triple es) =
      map Entry_leaf_hash es" for es by (simp add: entry_triple_def e)
  ultimately show ?thesis
    unfolding index_holds_def d rebuilt_entries option.inject Let_def
    by (auto simp: sorted_triples root_of_wf [OF build_wf] simp del: map_map)
qed

lemma seal_summary:
  assumes "seal g sh b records = Inr s"
  shows "history_root (sg_manifest s) = mth (map (\<lambda>l. leaf_hash (as_bytes l)) (map snd records))"
    "first_recorded_at (sg_manifest s) = min_or 0 (map recorded_at (map fst records))"
    "last_recorded_at (sg_manifest s) = max_or 0 (map recorded_at (map fst records))"
proof -
  have e: "(\<lambda>(_ :: Record, link). leaf_hash (as_bytes link)) = (\<lambda>l. leaf_hash (as_bytes l)) \<circ> snd"
    "(\<lambda>(r, _ :: hash). recorded_at r) = recorded_at \<circ> fst" by auto
  show "history_root (sg_manifest s) = mth (map (\<lambda>l. leaf_hash (as_bytes l)) (map snd records))"
    "first_recorded_at (sg_manifest s) = min_or 0 (map recorded_at (map fst records))"
    "last_recorded_at (sg_manifest s) = max_or 0 (map recorded_at (map fst records))"
    using assms by (auto simp: seal_def Let_def root_def from_leaf_hashes_def e split: if_splits option.splits)
qed

lemma sealed_segment_holds:
  assumes "from_log s" "numbered (map rec_seq (sg_records s))"
    "records_for pack (m_shard (sg_manifest s)) (m_segment (sg_manifest s)) = Some (v_set (sg_manifest s, bodies_of s))"
  shows "segment_holds pack (v_manifest (sg_manifest s))"
proof -
  let ?m = "sg_manifest s"
  from assms(1) obtain b records where
    s: "seal (m_segment ?m) (m_shard ?m) b records = Inr s" "chained b records" "length records < 2 ^ 64"
    by (auto simp: from_log_def)
  note c = chained_links [OF s(2)] and r = seal_facts(7) [OF s(1)] and m = seal_manifest_fields [OF s(1)]
  note h = seal_summary [OF s(1)]
  have f: "map f_seq (map fields_of xs) = map rec_seq xs" "map f_recorded_at (map fields_of xs) = map recorded_at xs" for xs
    by simp_all
  have v: "vg_shard (v_manifest ?m) = m_shard ?m" "vg_segment (v_manifest ?m) = m_segment ?m"
    "vg_records (v_manifest ?m) = m_records ?m" "vg_chain_before (v_manifest ?m) = b"
    "vg_chain_after (v_manifest ?m) = chain_after ?m" "vg_history_root (v_manifest ?m) = history_root ?m"
    "vg_first_recorded_at (v_manifest ?m) = first_recorded_at ?m" "vg_last_recorded_at (v_manifest ?m) = last_recorded_at ?m"
    by (simp_all add: v_manifest_def m(1))
  have i: "\<forall>(dim, declared) \<in> set (vg_index_roots (v_manifest ?m)).
      index_holds dim declared (map fields_of (map fst records)) (map snd records)"
    using sealed_index_holds [OF s(1)] by blast
  show ?thesis
    unfolding segment_holds_def v assms(3)
    by (intro exI [of _ "v_set (?m, bodies_of s)"] exI [of _ "map fields_of (map fst records)"])
       (use c i h m assms(2) in \<open>simp add: v_set_def r f Let_def del: map_map\<close>)
qed

subsection \<open>A pack of sealed segments holds\<close>

text \<open>What \<open>PackBuilder::shard\<close> asks of its caller, and what a log gives: a shard's segments in order.\<close>

definition auditable :: "ShardIx \<times> Segment list \<Rightarrow> bool" where
  "auditable sh \<longleftrightarrow>
     (\<forall>s \<in> set (snd sh). from_log s \<and> m_shard (sg_manifest s) = fst sh \<and> numbered (map rec_seq (sg_records s))) \<and>
     numbered (map (\<lambda>s. m_segment (sg_manifest s)) (snd sh)) \<and> length (snd sh) < 2 ^ 32 \<and>
     successively (\<lambda>s t. chain_after (sg_manifest s) = chain_before (sg_manifest t)) (snd sh) \<and>
     (snd sh \<noteq> [] \<longrightarrow> chain_before (sg_manifest (snd sh ! 0)) \<noteq> Hash_ZERO)"

definition add_shards :: "(ShardIx \<times> Segment list) list \<Rightarrow> PackBuilder \<Rightarrow> PackBuilder" where
  "add_shards shards b = foldl (\<lambda>b sh. add_shard (shard_tree sh) (snd sh) b) b shards"

definition part_of :: "ShardIx \<times> Segment list \<Rightarrow> ShardPart" where
  "part_of sh = \<lparr>sp_shard = fst sh, sp_root = ShardTree_root (shard_tree sh),
     sp_segments = map (\<lambda>s. (sg_manifest s, bodies_of s)) (snd sh)\<rparr>"

lemma add_shards_parts:
  "pb_shards (add_shards shards b) = pb_shards b @ map part_of shards"
  "pb_signature (add_shards shards b) = pb_signature b" "pb_witnesses (add_shards shards b) = pb_witnesses b"
  "pb_anchors (add_shards shards b) = pb_anchors b" "pb_tenant (add_shards shards b) = pb_tenant b"
  "pb_generated_at (add_shards shards b) = pb_generated_at b"
  unfolding add_shards_def
  by (induction shards arbitrary: b) (simp_all add: add_shard_def part_of_def shard_tree_fields)

lemma v_manifest_msg_same: "v_manifest_msg (v_manifest m) = manifest_msg m"
proof -
  have "v_root_msg (Dimension_as_str (fst dr), snd dr) = index_root_msg dr" for dr
    by (simp add: v_root_msg_def index_root_msg_def index_root_pieces_def sign_field_def)
  then show ?thesis
    by (simp add: v_manifest_msg_def v_manifest_def manifest_msg_def manifest_head_def manifest_tail_def comp_def)
qed

lemma filter_own:
  "(\<And>sh x. sh \<in> set shs \<Longrightarrow> x \<in> set (f sh) \<Longrightarrow> k x = fst sh) \<Longrightarrow> distinct (map fst shs) \<Longrightarrow> sh \<in> set shs \<Longrightarrow>
   filter (\<lambda>x. k x = fst sh) (concat (map f shs)) = f sh"
proof (induction shs)
  case (Cons a shs)
  show ?case
  proof (cases "sh = a")
    case True
    have "filter (\<lambda>x. k x = fst sh) (concat (map f shs)) = []"
    proof -
      have "k x \<noteq> fst sh" if "s \<in> set shs" "x \<in> set (f s)" for s x
        using Cons.prems(1) [of s x] Cons.prems(2) that True by (auto simp: image_iff)
      then show ?thesis by (auto simp: filter_empty_conv)
    qed
    moreover have "filter (\<lambda>x. k x = fst sh) (f a) = f a"
      using Cons.prems(1) [of a] True by (simp add: filter_id_conv)
    ultimately show ?thesis using True by simp
  next
    case False
    with Cons.prems(3) have m: "sh \<in> set shs" by simp
    then have "fst sh \<in> set (map fst shs)" by simp
    then have n: "fst sh \<noteq> fst a" using Cons.prems(2) by (metis distinct.simps(2) list.map(2))
    then have "filter (\<lambda>x. k x = fst sh) (f a) = []" using Cons.prems(1) [of a] by (auto simp: filter_empty_conv)
    then show ?thesis using Cons m by simp
  qed
qed simp

lemma numbered_sorted:
  assumes "numbered ns" "length ns < 2 ^ 64"
  shows "sorted ns"
proof -
  have "ns ! i \<le> ns ! j" if "i \<le> j" "j < length ns" for i j
  proof -
    have "ns ! i = of_nat (Suc i)" "ns ! j = of_nat (Suc j)"
      using assms(1) that by (simp_all add: numbered_iff)
    then show ?thesis using that assms(2) by (simp only: word_le_nat_alt unat_of_nat) simp
  qed
  then show ?thesis by (simp add: sorted_iff_nth_mono)
qed

lemma packed_shard_segments:
  assumes "\<forall>sh \<in> set shards. auditable sh" "distinct (map fst shards)" "sh \<in> set shards" "pb_shards b = map part_of shards"
  shows "shard_segments (described b store) (v_shard (part_of sh)) = map (\<lambda>s. v_manifest (sg_manifest s)) (snd sh)"
proof -
  let ?f = "\<lambda>sh. map (\<lambda>s. v_manifest (sg_manifest s)) (snd sh :: Segment list)"
  have "pk_segments (described b store) = concat (map ?f shards)"
    by (simp add: described_def all_segments_def assms(4) part_of_def map_concat comp_def)
  moreover have "filter (\<lambda>x. vg_shard x = fst sh) (concat (map ?f shards)) = ?f sh"
    by (rule filter_own [OF _ assms(2,3)]) (use assms(1) in \<open>fastforce simp: auditable_def v_manifest_def\<close>)
  moreover have "sorted (map vg_segment (?f sh))"
    using numbered_sorted [of "map (\<lambda>s. m_segment (sg_manifest s)) (snd sh)"] assms(1) [THEN bspec, OF assms(3)]
    by (simp add: auditable_def v_manifest_def comp_def)
  then have "sort_key vg_segment (?f sh) = ?f sh" by (rule sort_key_id_if_sorted)
  ultimately show ?thesis by (simp add: shard_segments_def v_shard_def part_of_def)
qed

lemma packed_shard_holds:
  assumes "\<forall>sh \<in> set shards. auditable sh" "distinct (map fst shards)" "sh \<in> set shards" "pb_shards b = map part_of shards"
    "builder_ok b store"
  shows "shard_holds (described b store) (v_shard (part_of sh))"
proof -
  note a = assms(1) [THEN bspec, OF assms(3), unfolded auditable_def] and g = packed_shard_segments [OF assms(1-4)]
  have ok: "pack_ok (described b store)" using parsed_pack_ok parse_built [OF assms(5)] by blast
  have "segment_holds (described b store) (v_manifest (sg_manifest s))" if s: "s \<in> set (snd sh)" for s
  proof -
    have "v_set (sg_manifest s, bodies_of s) \<in> set (pk_record_sets (described b store))"
      using s assms(3) by (force simp: described_def all_segments_def assms(4) part_of_def)
    from records_for_unique [OF ok this] show ?thesis
      using a s by (intro sealed_segment_holds) (auto simp: v_set_def)
  qed
  moreover have "mth (map (digest_leaf \<circ> v_manifest_msg) (map (\<lambda>s. v_manifest (sg_manifest s)) (snd sh))) =
      ShardTree_root (shard_tree sh)"
    by (simp add: shard_root_mth v_manifest_msg_same manifest_msgs_def comp_def)
  moreover have "map vg_segment (map (\<lambda>s. v_manifest (sg_manifest s)) (snd sh)) = map (\<lambda>s. m_segment (sg_manifest s)) (snd sh)"
    by (simp add: v_manifest_def)
  ultimately show ?thesis
    unfolding shard_holds_def Let_def g using a
    by (simp add: v_shard_def part_of_def v_manifest_def successively_map unat_of_nat del: map_map)
qed

lemma honest_pack_holds:
  assumes "\<forall>sh \<in> set shards. auditable sh" "distinct (map fst shards)" "length shards < 2 ^ 32"
    "pb_shards b = map part_of shards" "builder_ok b (built_store shards)" "pb_witnesses b = []" "pb_anchors b = []"
    "\<forall>sg. pb_signature b = Some sg \<longrightarrow> rs_algorithm sg = Es384 \<longrightarrow>
       p384_verify (rs_public_key sg) (root_statement (pb_tenant b) (store_root (built_store shards))
         (of_nat (length shards)) (pb_generated_at b) Es384 (rs_public_key sg)) (rs_signature sg) = Inr ()"
  shows "pack_holds (described b (built_store shards))"
proof -
  let ?p = "described b (built_store shards)"
  have sh: "pk_shards ?p = map (\<lambda>sh. v_shard (part_of sh)) shards" by (simp add: described_def assms(4))
  have "signature_holds ?p sg" if "pk_signature ?p = Some sg" for sg
  proof -
    from that obtain s where s: "pb_signature b = Some s" "sg = v_signature s" by (auto simp: described_def)
    have "rs_algorithm s = Es384" if "SigAlg_as_str (rs_algorithm s) = ascii ''es384''"
      using that SigAlg_as_str_inj [of "rs_algorithm s" Es384] by simp
    with s assms(8) show ?thesis
      by (simp add: signature_holds_def v_signature_def described_def v_header_def assms(4))
  qed
  moreover have "mth (map (\<lambda>s. digest_leaf (store_leaf_msg (vd_shard s) (ucast (vd_segment_count s)) (vd_root s))) (pk_shards ?p)) =
      vh_store_root (pk_header ?p)"
  proof -
    have "store_leaf_msg (fst sh) (ucast (of_nat (length (snd sh)) :: u32)) (ShardTree_root (shard_tree sh)) = shard_msg sh"
      if "sh \<in> set shards" for sh
    proof -
      have "length (snd sh) < 2 ^ 32" using assms(1) that by (auto simp: auditable_def)
      then have "(ucast (of_nat (length (snd sh)) :: u32) :: u64) = of_nat (length (snd sh))"
        by (intro word_unat_eq_iff [THEN iffD2]) (simp add: unsigned_ucast_eq unat_of_nat take_bit_nat_eq_self_iff)
      then show ?thesis by (simp add: shard_msg_def)
    qed
    then show ?thesis
      by (simp add: sh described_def v_header_def store_root_mth v_shard_def part_of_def assms(4) cong: map_cong)
  qed
  moreover have "vg_shard s \<in> vd_shard ` set (pk_shards ?p)" if s: "s \<in> set (pk_segments ?p)" for s
  proof -
    from s obtain sh t where t: "sh \<in> set shards" "t \<in> set (snd sh)" "s = v_manifest (sg_manifest t)"
      by (auto simp: described_def all_segments_def assms(4) part_of_def)
    then have "vg_shard s = fst sh" using assms(1) by (auto simp: auditable_def v_manifest_def)
    then show ?thesis using t(1) by (force simp: sh v_shard_def part_of_def)
  qed
  moreover have "\<exists>s \<in> set (pk_segments ?p). (vg_shard s, vg_segment s) = (rs_shard rs, rs_segment rs)"
    if "rs \<in> set (pk_record_sets ?p)" for rs
    using that by (force simp: described_def v_set_def v_manifest_def)
  moreover have "length (pk_shards ?p) = unat (vh_shard_count (pk_header ?p))"
    using assms(3) by (simp add: sh described_def v_header_def assms(4) unat_of_nat)
  moreover have "shard_holds ?p d" if "d \<in> set (pk_shards ?p)" for d
    using that packed_shard_holds [OF assms(1,2) _ assms(4,5)] by (auto simp: sh)
  moreover have "pk_witnesses ?p = []" "pk_anchors ?p = []" by (simp_all add: described_def assms(6,7))
  ultimately show ?thesis unfolding pack_holds_def by simp
qed

subsection \<open>A sample pack\<close>

lemma sample_body_small: "length (encode_record sample_record) \<le> 1000"
  by (simp add: encode_record_def put_body_def sample_record_def put_basis_def
      put_outcome_def put_opt_def put_seq_def put_str_def put_bytes_def put_hash_def put_u128_def
      put_varint_i64_def put_u8_def disc_put_def event_type_table_def severity_table_def
      verdict_table_def hash_alg_table_def sig_alg_table_def kem_alg_table_def
      Algorithms_default_def length_ascii add.assoc)
     ((rule drop_varint drop_varints, simp only: add.assoc)+)

lemma sample_auditable:
  obtains s where "seal 1 3 5 [(sample_record, chain_step 5 1 (encode_record sample_record))] = Inr s" "auditable (3, [s])"
proof -
  let ?rs = "[(sample_record, chain_step 5 1 (encode_record sample_record))]"
  have "first_duplicate_index (map (\<lambda>d. SortedIndex_build d ?rs) Dimension_ALL) = None"
    by (simp add: Dimension_ALL_def first_duplicate_position_def SortedIndex_build_def Let_def)
  then obtain s where s: "seal 1 3 5 ?rs = Inr s" by (auto simp: seal_def Let_def)
  have q: "rec_seq sample_record = 1" by (simp add: sample_record_def)
  have c: "chained 5 ?rs" using sample_fits(1) sample_body_small q by simp
  note m = seal_manifest_fields [OF s] and f = seal_facts(7) [OF s]
  have l: "from_log s"
    unfolding from_log_def m(2,3) using s c by (intro exI [of _ 5] exI [of _ ?rs]) simp
  have "auditable (3, [s])"
    using l m f q by (simp add: auditable_def numbered_def Hash_ZERO_def)
  with s that show thesis by blast
qed

subsection \<open>From the journal to the verdict\<close>

lemma log_numbered:
  "log_ok sh g c rs \<Longrightarrow> ch_length c = of_nat i \<Longrightarrow> numbered_from i (map rec_seq rs)"
proof (induction rs arbitrary: c i)
  case (Cons r rs)
  have "ch_length (fst (ChainState_append c (encode_record r))) = of_nat (i + 1)"
    using Cons.prems(2) by (simp add: ChainState_append_def Let_def add.commute)
  with Cons.IH [OF _ this] Cons.prems show ?case by (simp add: entry_ok_def)
qed simp

text \<open>What the journal kept, sealed as the first segment of its shard, is a shard an auditor can check.\<close>

lemma journal_auditable:
  assumes "history name (Up j io)" "seal_segment SimIo_Io j 1 sh io = (Inr (Sealed s), io')" "jn_genesis j \<noteq> Hash_ZERO"
  shows "auditable (sh, [ss_segment s])"
proof (rule seal_history [OF assms(1,2)])
  fix v
  let ?c = "ChainState_resume (jn_genesis j) 0" and ?n = "unat (jn_acked j)"
  assume v: "journal_read_all SimIo_Io j io = (Inr v, io)"
    "log_ok (jn_shard j) (jn_segment j) ?c (map fst (wk_records v))"
  have sl: "seal 1 sh (jn_genesis j) (take ?n (wk_records v)) = Inr (ss_segment s)"
    using seal_outcome [OF assms(1) v(1) assms(2)] by simp
  have "numbered_from 0 (map rec_seq (take ?n (map fst (wk_records v))))"
    by (rule log_numbered [OF log_ok_take [OF v(2)]]) (simp add: ChainState_resume_def)
  then have "numbered (map rec_seq (sg_records (ss_segment s)))"
    using seal_facts(7) [OF sl] by (simp add: numbered_0 take_map)
  then show ?thesis
    using sealed_from_log [OF assms(1,2)] seal_manifest_fields [OF sl] assms(3)
    by (simp add: auditable_def numbered_def)
qed

definition journal_builder :: "TenantId \<Rightarrow> Timestamp \<Rightarrow> ShardIx \<Rightarrow> Segment \<Rightarrow> PackBuilder" where
  "journal_builder tn at sh s = add_shard (shard_tree (sh, [s])) [s] (PackBuilder_new tn at)"

lemma journal_builder_fields:
  "pb_shards (journal_builder tn at sh s) = map part_of [(sh, [s])]" "pb_witnesses (journal_builder tn at sh s) = []"
  "pb_anchors (journal_builder tn at sh s) = []" "pb_signature (journal_builder tn at sh s) = None"
  by (simp_all add: journal_builder_def add_shard_def PackBuilder_new_def part_of_def shard_tree_fields)

lemma verify_built:
  assumes "builder_ok b store" "pack_holds (described b store)"
  shows "\<exists>report. verify (build_pack b store) = Inr report \<and> verified report"
  using parse_built [OF assms(1), of "[]"] assms(2) verify_pack_holds by (simp add: verify_def)

lemma journal_builder_ok:
  assumes "seal 1 3 b [rl] = Inr s" "length (encode_record (fst rl)) \<le> 90000000"
  shows "builder_ok (journal_builder (ascii ''acme'') 5 3 s) (built_store [(3, [s])])"
proof -
  have v: "utf8_valid (ascii ''acme'')" by (rule utf8_valid_ascii) (simp add: ascii_def)
  note f = seal_facts(5,7) [OF assms(1)] and m = seal_manifest_fields [OF assms(1)]
  have "length (concat (map encode_index_root rs)) \<le> 63 * length rs" for rs
    by (induction rs) (simp_all add: encode_index_root_def add_mono [OF dimension_names(2)])
  from this [of "index_roots (sg_manifest s)"] f(1)
  have "length (encode_manifest (sg_manifest s)) \<le> 100000000"
    by (simp add: encode_manifest_def)
  moreover have "length (put_records (sg_manifest s, bodies_of s)) \<le> 100000000"
    using assms(2) by (simp add: put_records_def f(2))
  ultimately show ?thesis
    using v m by (simp add: builder_ok_def journal_builder_fields pack_sections_split section_ok_def put_header_def
        put_shard_def all_segments_def part_of_def)
       (simp add: journal_builder_def add_shard_def PackBuilder_new_def
        SECTION_HEADER_def SECTION_SHARD_def SECTION_SEGMENT_def SECTION_RECORDS_def SECTION_END_def ascii_def)
qed

text \<open>Every body a journal reads back is within the frame's bound.\<close>

lemma history_bodies:
  assumes "history name (Up j io)" "journal_read_all SimIo_Io j io = (Inr v, io')"
  shows "\<forall>rl \<in> set (wk_records v). length (encode_record (fst rl)) \<le> 90000000"
proof -
  obtain res io1 where sg: "seal_segment SimIo_Io j 1 3 io = (res, io1)" by fastforce
  have "log_ok sh g c rs \<Longrightarrow> \<forall>r \<in> set rs. length (encode_record r) \<le> 90000000" for sh g c rs
    by (induction rs arbitrary: c) (auto simp: entry_ok_def MAX_BODY_BYTES_def)
  then show ?thesis
    by (rule_tac seal_history [OF assms(1) sg]) (use assms(2) in auto)
qed

lemma sample_holds:
  obtains s where "auditable (3, [s])" "builder_ok (journal_builder (ascii ''acme'') 5 3 s) (built_store [(3, [s])])"
    "pack_holds (described (journal_builder (ascii ''acme'') 5 3 s) (built_store [(3, [s])]))"
proof -
  let ?rl = "(sample_record, chain_step 5 1 (encode_record sample_record))"
  obtain s where s: "seal 1 3 5 [?rl] = Inr s" "auditable (3, [s])" by (rule sample_auditable)
  have ok: "builder_ok (journal_builder (ascii ''acme'') 5 3 s) (built_store [(3, [s])])"
    by (rule journal_builder_ok [OF s(1)]) (use sample_body_small in simp)
  have "pack_holds (described (journal_builder (ascii ''acme'') 5 3 s) (built_store [(3, [s])]))"
    by (rule honest_pack_holds) (use s(2) ok journal_builder_fields in simp_all)
  with that s(2) ok show thesis by blast
qed

subsection \<open>Properties\<close>

text \<open>
  C3. The verdict is the recomputation. A pack that can be read is called verified exactly when
  everything recomputed from its records agrees with what it declares: under the store's own
  definitions of the chain, the trees, the index leaves and the signed statements, every record of
  every segment of every shard counted, numbered and chained, every time span and every index root
  it can derive rebuilt, every shard and the store root derived, every signature it knows the
  algorithm of accepted, every timestamp token over this root; and no segment or record set in the
  pack outside what was walked. A pack that cannot be read has no verdict.
\<close>

theorem verdict_is_recomputation:
  "case verify bs of
     Inl e \<Rightarrow> Pack_parse bs = Inl e
   | Inr report \<Rightarrow> \<exists>pack. Pack_parse bs = Inr pack \<and> (verified report \<longleftrightarrow> pack_holds pack)"
  using verify_pack_holds by (cases "Pack_parse bs") (simp_all add: verify_def)



text \<open>
  C2. One root, one pack. Two packs, read from any bytes, that are both verified and name one store
  root hold the same shards, the same segments and, segment by segment, the same records: to change
  a record, drop one or add one under a root that was published, two different messages must be
  found that hash to one digest, among those the two verifications hash.
\<close>

theorem one_root_one_pack:
  assumes "Pack_parse bs = Inr p" "verify bs = Inr r" "verified r"
    and "Pack_parse cs = Inr q" "verify cs = Inr r'" "verified r'"
    and "vh_store_root (pk_header p) = vh_store_root (pk_header q)"
  shows "(pk_shards p = pk_shards q \<and> set (pk_segments p) = set (pk_segments q) \<and>
      set (pk_record_sets p) = set (pk_record_sets q)) \<or> collides (pack_msgs p) (pack_msgs q)"
proof (cases "collides (pack_msgs p) (pack_msgs q)")
  case False
  then have swapped: "\<not> collides (pack_msgs q) (pack_msgs p)" unfolding collides_def by metis
  have ok: "pack_ok p" "pack_ok q" using parsed_pack_ok assms(1,4) by blast+
  have h: "pack_holds p" "pack_holds q" using assms verify_pack_holds by (auto simp: verify_def)
  note s = same_root_segments [OF ok h assms(7) False]
  show ?thesis
    using s same_root_records [OF ok h s(2) False] same_root_records [OF ok(2,1) h(2,1) s(2) [symmetric] swapped] by blast
qed simp

theorem one_root_one_pack_witness:
  "\<exists>bs p r. Pack_parse bs = Inr p \<and> verify bs = Inr r \<and> verified r \<and> length (pk_segments p) = 1 \<and>
     (pk_shards p = pk_shards p \<and> set (pk_segments p) = set (pk_segments p) \<and>
      set (pk_record_sets p) = set (pk_record_sets p) \<or> collides (pack_msgs p) (pack_msgs p))"
proof -
  obtain s where s: "builder_ok (journal_builder (ascii ''acme'') 5 3 s) (built_store [(3, [s])])"
    "pack_holds (described (journal_builder (ascii ''acme'') 5 3 s) (built_store [(3, [s])]))" by (rule sample_holds)
  obtain r where r: "verify (build_pack (journal_builder (ascii ''acme'') 5 3 s) (built_store [(3, [s])])) = Inr r" "verified r"
    using verify_built [OF s] by blast
  have p: "Pack_parse (build_pack (journal_builder (ascii ''acme'') 5 3 s) (built_store [(3, [s])])) =
      Inr (described (journal_builder (ascii ''acme'') 5 3 s) (built_store [(3, [s])]))"
    using parse_built [OF s(1), of "[]"] by simp
  have "length (pk_segments (described (journal_builder (ascii ''acme'') 5 3 s) (built_store [(3, [s])]))) = 1"
    by (simp add: described_def all_segments_def journal_builder_fields part_of_def)
  with one_root_one_pack [OF p r p r refl] p r show ?thesis by blast
qed



text \<open>
  C26. The verifier is quiet about witnesses only when it has one. Unless it reports that nobody
  independent saw this root, the pack carries a timestamp token over the root that reads and covers
  it, or an attestation of this root whose signature is good under a key other than the
  publisher's.
\<close>

theorem quiet_means_independent:
  "says Weak ''witnesses'' (verify_pack pack) \<or>
   (\<exists>a \<in> set (pk_anchors pack). anchor_bound pack a) \<or> (\<exists>w \<in> set (pk_witnesses pack). independent_witness pack w)"
  by (rule verify_quiet)

end
