(* ===== verification/Spec2Isabelle.thy ===== *)
theory Spec2Isabelle
  imports Prelude Sha384 Chain Merkle Ids Records Wire Encoding Completeness Segment
    Storage Journal Recovery Durability History Query Sealing Causal ObjectStores Publish Cold Tier VerifierHash Signing Pack
    RecordFields Tsp P384 Curve Verifier Evidence
begin

text \<open>
  Trailryx is an append-only, tamper-evident store of decision records.
\<close>

end
